(* ===== verification/Prelude.thy ===== *)
theory Prelude
  imports Main "HOL-Library.Word" "HOL-Library.AList"
begin

unbundle bit_operations_syntax

text \<open>
  Shared material of the development: the attribute collections, the generic facts on
  association lists (Go maps together with the order in which a \<open>range\<close> loop visits them),
  on bits of words and on lists.
\<close>

named_theorems ids_simps
named_theorems snow_simps

section \<open>Go maps\<close>

text \<open>
  A Go \<open>map\<close> is an association list with distinct keys. The list order is the order of one
  \<open>range\<close> loop over the map; Go leaves that order open, and every theorem is stated for
  all association lists, so for every order.
\<close>

type_synonym ('k, 'v) gomap = "('k \<times> 'v) list"

text \<open>Reading an absent key of a map with integer values gives the zero value.\<close>

definition mget0 :: "('k, int) gomap \<Rightarrow> 'k \<Rightarrow> int" where
  "mget0 m k = (case map_of m k of None \<Rightarrow> 0 | Some v \<Rightarrow> v)"

lemma mget0_update [simp]:
  "mget0 (AList.update k v m) k' = (if k' = k then v else mget0 m k')"
  by (simp add: mget0_def update_conv')

lemma mget0_delete [simp]:
  "mget0 (AList.delete k m) k' = (if k' = k then 0 else mget0 m k')"
  by (auto simp: mget0_def delete_conv')

lemma update_notin: "k \<notin> fst ` set m \<Longrightarrow> AList.update k c m = m @ [(k, c)]"
  by (induction m) auto

lemma delete_eq_filter: "AList.delete k m = filter (\<lambda>p. fst p \<noteq> k) m"
  by (induction m) auto

lemma mget0_Nil [simp]: "mget0 [] k = 0"
  by (simp add: mget0_def)

section \<open>Machine integers\<close>

text \<open>
  Go's \<open>int\<close> and \<open>int64\<close> have 64 bits and wrap around. Where the model keeps a counter as an unbounded
  integer, \<open>int64\<close> is what the machine stores for it.
\<close>

definition MaxInt64 :: int where
  "MaxInt64 = 2 ^ 63 - 1"

definition int64 :: "int \<Rightarrow> int" where
  "int64 x = signed_take_bit 63 x"

definition in_int64 :: "int \<Rightarrow> bool" where
  "in_int64 x = (- (2 ^ 63) \<le> x \<and> x < 2 ^ 63)"

lemma int64_id: "in_int64 x \<Longrightarrow> int64 x = x"
  by (simp add: int64_def in_int64_def signed_take_bit_int_eq_self_iff)

lemma int64_nonneg: "0 \<le> x \<Longrightarrow> x \<le> MaxInt64 \<Longrightarrow> int64 x = x"
  by (rule int64_id) (simp add: in_int64_def MaxInt64_def)

lemma int64_wraps: "int64 (MaxInt64 + 1) = - MaxInt64 - 1"
  by (simp add: int64_def MaxInt64_def signed_take_bit_eq_take_bit_shift take_bit_eq_mod)

section \<open>Searching a range of indices\<close>

lemma find_upt_Some_iff:
  "find P [s..<t] = Some i \<longleftrightarrow> s \<le> i \<and> i < t \<and> P i \<and> (\<forall>j. s \<le> j \<and> j < i \<longrightarrow> \<not> P j)"
proof -
  have "find P [s..<t] = Some i \<longleftrightarrow>
      (\<exists>k<t - s. P (s + k) \<and> i = s + k \<and> (\<forall>j<k. \<not> P (s + j)))"
    by (auto simp: find_Some_iff)
  also have "\<dots> \<longleftrightarrow> s \<le> i \<and> i < t \<and> P i \<and> (\<forall>j. s \<le> j \<and> j < i \<longrightarrow> \<not> P j)"
    by (auto simp: le_iff_add)
  finally show ?thesis .
qed

lemma find_upt_None_iff: "find P [s..<t] = None \<longleftrightarrow> (\<forall>i. s \<le> i \<and> i < t \<longrightarrow> \<not> P i)"
  by (auto simp: find_None_iff)

lemma find_append: "find P (xs @ ys) = (case find P xs of None \<Rightarrow> find P ys | Some x \<Rightarrow> Some x)"
  by (induction xs) auto

lemma find_upt_split:
  "s \<le> t \<Longrightarrow> t \<le> u \<Longrightarrow>
   find P [s..<u] = (case find P [s..<t] of None \<Rightarrow> find P [t..<u] | Some x \<Rightarrow> Some x)"
  using upt_add_eq_append [of s t "u - t"] by (simp add: find_append)

lemma byte_range_iff:
  "(\<forall>i<8. Q i \<longrightarrow> P (8 * k + i)) \<longleftrightarrow>
   (\<forall>j. 8 * k \<le> j \<and> j < 8 * k + 8 \<longrightarrow> Q (j - 8 * k) \<longrightarrow> P (j::nat))"
  by (auto simp: le_iff_add)

section \<open>Results\<close>

text \<open>
  A Go function that returns an error, or panics, gives a value of a sum type: \<open>Inl\<close> the error.
  \<open>bindR\<close> is the early return on error, \<open>foldR\<close> a loop whose body may return early.
\<close>

definition bindR :: "'e + 'a \<Rightarrow> ('a \<Rightarrow> 'e + 'b) \<Rightarrow> 'e + 'b" where
  "bindR r f = (case r of Inl e \<Rightarrow> Inl e | Inr x \<Rightarrow> f x)"

lemma bindR_simps [simp]: "bindR (Inl e) f = Inl e" "bindR (Inr x) f = f x"
  by (simp_all add: bindR_def)

lemma bindR_Inr: "bindR r f = Inr y \<longleftrightarrow> (\<exists>x. r = Inr x \<and> f x = Inr y)"
  by (cases r) auto

lemma bindR_Inl: "bindR r f = Inl e \<longleftrightarrow> r = Inl e \<or> (\<exists>x. r = Inr x \<and> f x = Inl e)"
  by (cases r) auto

lemma bindR_cong [fundef_cong]: "r = r' \<Longrightarrow> (\<And>x. r' = Inr x \<Longrightarrow> f x = g x) \<Longrightarrow> bindR r f = bindR r' g"
  by (cases r') simp_all

fun foldR :: "('x \<Rightarrow> 's \<Rightarrow> 'e + 's) \<Rightarrow> 'x list \<Rightarrow> 's \<Rightarrow> 'e + 's" where
  "foldR f [] s = Inr s"
| "foldR f (x # xs) s = bindR (f x s) (foldR f xs)"

lemma foldR_append: "foldR f (xs @ ys) s = bindR (foldR f xs s) (foldR f ys)"
  by (induction xs arbitrary: s) (auto simp: bindR_def split: sum.split)

text \<open>An invariant of the loop body is an invariant of the loop.\<close>

lemma foldR_inv:
  assumes "foldR f xs s = Inr t" and "P s"
    and "\<And>x s t. x \<in> set xs \<Longrightarrow> P s \<Longrightarrow> f x s = Inr t \<Longrightarrow> P t"
  shows "P t"
  using assms by (induction xs arbitrary: s) (auto simp: bindR_Inr)

end
