(* ===== verification/Ids.thy ===== *)
theory Ids
  imports Prelude
begin

text \<open>
  Package \<open>ids\<close>: identifiers and the bit operations the snowball tree is built on
  (\<open>src/ids/bits.go\<close>, \<open>src/ids/id.go\<close>), the vote multisets
  (\<open>src/ids/bag.go\<close>, \<open>src/ids/node_id_bag.go\<close>).

  An \<open>ID\<close> is a \<open>[32]byte\<close>. It is represented by the 256-bit word whose \<open>k\<close>-th byte
  (least significant first) is the \<open>k\<close>-th array element; \<open>ID_bytes\<close> and
  \<open>ID_of_bytes\<close> are the two directions of this correspondence. The bit indices of the source
  ("index 7 is the MSB of byte 0") are then the bit positions of the word.
\<close>

section \<open>Identifiers\<close>

type_synonym ID = "256 word"
type_synonym NodeID = "160 word"

definition NumBits :: nat where "NumBits = 256"
definition BitsPerByte :: nat where "BitsPerByte = 8"

text \<open>The array element \<open>id[k]\<close>.\<close>

definition id_byte :: "ID \<Rightarrow> nat \<Rightarrow> 8 word" where
  "id_byte x k = ucast (drop_bit (8 * k) x)"

definition ID_bytes :: "ID \<Rightarrow> 8 word list" where
  "ID_bytes x = map (id_byte x) [0..<32]"

primrec ID_of_bytes :: "8 word list \<Rightarrow> ID" where
  "ID_of_bytes [] = 0"
| "ID_of_bytes (b # bs) = ucast b OR push_bit 8 (ID_of_bytes bs)"

text \<open>
  \<open>ID.Bit\<close>: the index is below 256 (Go would panic on \<open>id[byteIndex]\<close> otherwise; the
  well-formedness invariant of the snowball tree keeps every index below 256).
\<close>

definition Bit :: "ID \<Rightarrow> nat \<Rightarrow> nat" where
  "Bit x i =
     (let byteIndex = i div BitsPerByte;
          bitIndex = i mod BitsPerByte;
          b = id_byte x byteIndex;
          b = drop_bit bitIndex b;
          b = b AND 1
      in unat b)"

text \<open>\<open>bits.TrailingZeros8\<close> of the Go standard library: 8 for zero.\<close>

definition TrailingZeros8 :: "8 word \<Rightarrow> nat" where
  "TrailingZeros8 w = (case find (bit w) [0..<8] of None \<Rightarrow> 8 | Some i \<Rightarrow> i)"

definition startMask :: "nat \<Rightarrow> int" where
  "startMask startBit = push_bit startBit (- 1)"

definition stopMask :: "nat \<Rightarrow> int" where
  "stopMask stopBit = push_bit (stopBit + 1) 1 - 1"

text \<open>The slice \<open>id[a:b]\<close>.\<close>

definition id_slice :: "ID \<Rightarrow> nat \<Rightarrow> nat \<Rightarrow> 8 word list" where
  "id_slice x a b = map (id_byte x) [a..<b]"

definition EqualSubset :: "nat \<Rightarrow> nat \<Rightarrow> ID \<Rightarrow> ID \<Rightarrow> bool" where
  "EqualSubset start stop0 id1 id2 =
     (let stop = int stop0 - 1 in
      if int start > stop \<or> stop < 0 then True
      else if stop \<ge> int NumBits then False
      else
        let stop = nat stop;
            startIndex = start div BitsPerByte;
            stopIndex = stop div BitsPerByte
        in if startIndex + 1 < stopIndex \<and>
              id_slice id1 (startIndex + 1) stopIndex \<noteq> id_slice id2 (startIndex + 1) stopIndex
           then False
           else
             let startBit = start mod BitsPerByte;
                 stopBit = stop mod BitsPerByte
             in if startIndex = stopIndex then
                  let mask = startMask startBit AND stopMask stopBit;
                      b1 = mask AND uint (id_byte id1 startIndex);
                      b2 = mask AND uint (id_byte id2 startIndex)
                  in b1 = b2
                else
                  let start1 = startMask startBit AND uint (id_byte id1 startIndex);
                      start2 = startMask startBit AND uint (id_byte id2 startIndex);
                      stop1 = stopMask stopBit AND uint (id_byte id1 stopIndex);
                      stop2 = stopMask stopBit AND uint (id_byte id2 stopIndex)
                  in start1 = start2 \<and> stop1 = stop2)"

text \<open>
  The result \<open>(index, found)\<close> of \<open>FirstDifferenceSubset\<close> is \<open>Some index\<close> when
  found and \<open>None\<close> for \<open>(0, false)\<close>. The loop over the interior bytes is
  \<open>interior_difference\<close>.
\<close>

fun interior_difference :: "ID \<Rightarrow> ID \<Rightarrow> nat list \<Rightarrow> nat option" where
  "interior_difference id1 id2 [] = None"
| "interior_difference id1 id2 (i # is) =
     (let b1 = uint (id_byte id1 i); b2 = uint (id_byte id2 i) in
      if b1 \<noteq> b2
      then Some (TrailingZeros8 (word_of_int (b1 XOR b2)) + i * BitsPerByte)
      else interior_difference id1 id2 is)"

definition FirstDifferenceSubset :: "nat \<Rightarrow> nat \<Rightarrow> ID \<Rightarrow> ID \<Rightarrow> nat option" where
  "FirstDifferenceSubset start stop0 id1 id2 =
     (let stop = int stop0 - 1 in
      if int start > stop \<or> stop < 0 \<or> stop \<ge> int NumBits then None
      else
        let stop = nat stop;
            startIndex = start div BitsPerByte;
            stopIndex = stop div BitsPerByte;
            startBit = start mod BitsPerByte;
            stopBit = stop mod BitsPerByte
        in if startIndex = stopIndex then
             let mask = startMask startBit AND stopMask stopBit;
                 b1 = mask AND uint (id_byte id1 startIndex);
                 b2 = mask AND uint (id_byte id2 startIndex)
             in if b1 = b2 then None
                else Some (TrailingZeros8 (word_of_int (b1 XOR b2)) + startIndex * BitsPerByte)
           else
             let start1 = startMask startBit AND uint (id_byte id1 startIndex);
                 start2 = startMask startBit AND uint (id_byte id2 startIndex)
             in if start1 \<noteq> start2
                then Some (TrailingZeros8 (word_of_int (start1 XOR start2)) + startIndex * BitsPerByte)
                else case interior_difference id1 id2 [startIndex + 1..<stopIndex] of
                  Some d \<Rightarrow> Some d
                | None \<Rightarrow>
                    let stop1 = stopMask stopBit AND uint (id_byte id1 stopIndex);
                        stop2 = stopMask stopBit AND uint (id_byte id2 stopIndex)
                    in if stop1 \<noteq> stop2
                       then Some (TrailingZeros8 (word_of_int (stop1 XOR stop2)) + stopIndex * BitsPerByte)
                       else None)"

text \<open>Two identifiers agree on the bits of a half-open range.\<close>

definition agree :: "nat \<Rightarrow> nat \<Rightarrow> ID \<Rightarrow> ID \<Rightarrow> bool" where
  "agree s t x y \<longleftrightarrow> (\<forall>i. s \<le> i \<and> i < t \<longrightarrow> bit x i = bit y i)"

section \<open>The masked byte operations compare bits\<close>

lemma bit_id_byte: "bit (id_byte x k) j \<longleftrightarrow> j < 8 \<and> bit x (8 * k + j)"
  by (simp add: id_byte_def bit_simps)

lemma Bit_eq: "Bit x i = of_bool (bit x i)"
proof -
  have "bit (id_byte x (i div 8)) (i mod 8) = bit x i"
    by (simp add: bit_id_byte)
  then show ?thesis
    by (simp add: Bit_def BitsPerByte_def Let_def and_one_eq mod_2_eq_odd flip: bit_iff_odd_drop_bit)
qed

lemma bit_startMask: "bit (startMask s) i \<longleftrightarrow> s \<le> i"
  by (auto simp: startMask_def bit_simps)

lemma bit_stopMask: "bit (stopMask t) i \<longleftrightarrow> i \<le> t"
proof -
  have "stopMask t = mask (t + 1)"
    by (simp add: stopMask_def mask_eq_exp_minus_1 push_bit_eq_mult)
  then show ?thesis by (auto simp: bit_simps)
qed

lemma bit_uint_byte: "bit (uint (b :: 8 word)) i \<longleftrightarrow> i < 8 \<and> bit b i"
  by (auto simp: bit_uint_iff)

lemma masked_eq_iff:
  "m AND uint (a :: 8 word) = m AND uint (b :: 8 word) \<longleftrightarrow> (\<forall>i<8. bit m i \<longrightarrow> bit a i = bit b i)"
proof
  assume L: "m AND uint a = m AND uint b"
  show "\<forall>i<8. bit m i \<longrightarrow> bit a i = bit b i"
  proof (intro allI impI)
    fix i :: nat assume "i < 8" "bit m i"
    moreover from L have "bit (m AND uint a) i = bit (m AND uint b) i" by simp
    ultimately show "bit a i = bit b i" by (simp add: bit_and_iff bit_uint_byte)
  qed
next
  assume R: "\<forall>i<8. bit m i \<longrightarrow> bit a i = bit b i"
  show "m AND uint a = m AND uint b"
    by (rule bit_eqI) (use R in \<open>auto simp: bit_and_iff bit_uint_byte\<close>)
qed

lemma bit_masked_diff:
  "bit (word_of_int ((m AND uint (a :: 8 word)) XOR (m AND uint (b :: 8 word))) :: 8 word) i \<longleftrightarrow>
     i < 8 \<and> bit m i \<and> bit a i \<noteq> bit b i"
  by (auto simp: bit_simps bit_uint_byte)

lemma TrailingZeros8_Some:
  assumes "\<exists>i<8. bit w i"
  shows "TrailingZeros8 w < 8" "bit w (TrailingZeros8 w)" "j < TrailingZeros8 w \<Longrightarrow> \<not> bit w j"
proof -
  have "find (bit w) [0..<8] \<noteq> None"
    using assms by (simp add: find_upt_None_iff del: upt_rec_numeral)
  then obtain i where i: "find (bit w) [0..<8] = Some i" by blast
  then have "TrailingZeros8 w = i"
    by (simp add: TrailingZeros8_def del: upt_rec_numeral)
  moreover from i have "i < 8" "bit w i" "\<forall>j<i. \<not> bit w j"
    by (simp_all add: find_upt_Some_iff del: upt_rec_numeral)
  ultimately
  show "TrailingZeros8 w < 8" "bit w (TrailingZeros8 w)" "j < TrailingZeros8 w \<Longrightarrow> \<not> bit w j"
    by auto
qed

lemma id_slice_eq_iff:
  "id_slice x a b = id_slice y a b \<longleftrightarrow> (\<forall>i. 8 * a \<le> i \<and> i < 8 * b \<longrightarrow> bit x i = bit y i)"
proof -
  have "id_slice x a b = id_slice y a b \<longleftrightarrow> (\<forall>k\<in>{a..<b}. id_byte x k = id_byte y k)"
    by (auto simp: id_slice_def)
  also have "\<dots> \<longleftrightarrow> (\<forall>k\<in>{a..<b}. \<forall>j<8. bit x (8 * k + j) = bit y (8 * k + j))"
    by (auto simp: bit_eq_iff bit_id_byte)
  also have "\<dots> \<longleftrightarrow> (\<forall>i. 8 * a \<le> i \<and> i < 8 * b \<longrightarrow> bit x i = bit y i)"
  proof
    assume H: "\<forall>k\<in>{a..<b}. \<forall>j<8. bit x (8 * k + j) = bit y (8 * k + j)"
    show "\<forall>i. 8 * a \<le> i \<and> i < 8 * b \<longrightarrow> bit x i = bit y i"
    proof (intro allI impI)
      fix i assume "8 * a \<le> i \<and> i < 8 * b"
      then have "i div 8 \<in> {a..<b}" by auto
      moreover have "i mod 8 < 8" by simp
      ultimately have "bit x (8 * (i div 8) + i mod 8) = bit y (8 * (i div 8) + i mod 8)"
        using H by blast
      then show "bit x i = bit y i" by simp
    qed
  qed auto
  finally show ?thesis .
qed

lemma masked_byte_eq_iff:
  "m AND uint (id_byte x k) = m AND uint (id_byte y k) \<longleftrightarrow>
   (\<forall>j. 8 * k \<le> j \<and> j < 8 * k + 8 \<longrightarrow> bit m (j - 8 * k) \<longrightarrow> bit x j = bit y j)"
  using byte_range_iff [of "bit m" "\<lambda>j. bit x j = bit y j" k]
  by (simp add: masked_eq_iff bit_id_byte)

lemma agree_split: "s \<le> t \<Longrightarrow> t \<le> u \<Longrightarrow> agree s u x y \<longleftrightarrow> agree s t x y \<and> agree t u x y"
  by (auto simp: agree_def) (metis not_le)+

theorem EqualSubset_iff:
  "EqualSubset start stop x y \<longleftrightarrow> stop \<le> start \<or> stop \<le> NumBits \<and> agree start stop x y"
proof (cases "stop \<le> start \<or> NumBits < stop")
  case True
  then show ?thesis by (auto simp: EqualSubset_def NumBits_def agree_def)
next
  case False
  define k s l t where "k = start div 8" "s = start mod 8" "l = (stop - Suc 0) div 8" "t = (stop - Suc 0) mod 8"
  then have st: "start = 8 * k + s" "stop = Suc (8 * l + t)" "s < 8" "t < 8"
    using False by auto
  have nat: "nat (int stop - 1) = stop - 1" by simp
  have le: "k \<le> l" using False st by auto
  show ?thesis
  proof (cases "k = l")
    case True
    have "EqualSubset start stop x y \<longleftrightarrow>
        (startMask s AND stopMask t) AND uint (id_byte x k) = (startMask s AND stopMask t) AND uint (id_byte y k)"
      using False True
      by (simp add: EqualSubset_def NumBits_def BitsPerByte_def Let_def nat k_s_l_t_def)
    also have "\<dots> \<longleftrightarrow> agree start stop x y"
      unfolding masked_byte_eq_iff agree_def bit_and_iff bit_startMask bit_stopMask
      using st True by (auto simp: le_diff_conv2 le_diff_conv)
    finally show ?thesis using False by simp
  next
    case neq: False
    with le have "k < l" by simp
    have "EqualSubset start stop x y \<longleftrightarrow>
        (k + 1 < l \<longrightarrow> id_slice x (k + 1) l = id_slice y (k + 1) l) \<and>
        startMask s AND uint (id_byte x k) = startMask s AND uint (id_byte y k) \<and>
        stopMask t AND uint (id_byte x l) = stopMask t AND uint (id_byte y l)"
      using False neq
      by (simp add: EqualSubset_def NumBits_def BitsPerByte_def Let_def nat flip: k_s_l_t_def)
    also have "\<dots> \<longleftrightarrow> agree (8 * (k + 1)) (8 * l) x y \<and> agree start (8 * (k + 1)) x y \<and> agree (8 * l) stop x y"
      unfolding masked_byte_eq_iff id_slice_eq_iff agree_def bit_startMask bit_stopMask
      using st \<open>k < l\<close> by (intro conj_cong) (auto simp: le_diff_conv2 le_diff_conv)
    also have "\<dots> \<longleftrightarrow> agree start stop x y"
      using st \<open>k < l\<close> agree_split [of start "8 * (k + 1)" stop x y] agree_split [of "8 * (k + 1)" "8 * l" stop x y]
      by auto
    finally show ?thesis using False by simp
  qed
qed


lemma masked_find:
  assumes m: "\<And>j. j < 8 \<Longrightarrow> bit m j \<longleftrightarrow> lo \<le> 8 * k + j \<and> 8 * k + j < hi"
    and lo: "8 * k \<le> lo" and hi: "hi \<le> 8 * k + 8"
  shows "(if m AND uint (id_byte x k) = m AND uint (id_byte y k) then None
          else Some (TrailingZeros8 (word_of_int ((m AND uint (id_byte x k)) XOR (m AND uint (id_byte y k)))) + k * 8))
       = find (\<lambda>i. bit x i \<noteq> bit y i) [lo..<hi]" (is "(if ?eq then None else Some (TrailingZeros8 ?w + k * 8)) = ?f")
proof (cases ?eq)
  case True
  then have "?f = None"
    using m lo hi by (auto simp: find_upt_None_iff masked_byte_eq_iff le_diff_conv2 dest!: le_Suc_ex)
  with True show ?thesis by simp
next
  case False
  let ?d = "TrailingZeros8 ?w"
  have w: "bit ?w j \<longleftrightarrow> j < 8 \<and> bit m j \<and> bit x (8 * k + j) \<noteq> bit y (8 * k + j)" for j
    by (auto simp: bit_masked_diff bit_id_byte)
  from False have ex: "\<exists>j<8. bit ?w j"
    unfolding masked_eq_iff w by (auto simp: bit_id_byte)
  note d = TrailingZeros8_Some [OF ex]
  have "?f = Some (8 * k + ?d)"
    unfolding find_upt_Some_iff
  proof (intro conjI allI impI)
    show "lo \<le> 8 * k + ?d" "8 * k + ?d < hi" "bit x (8 * k + ?d) \<noteq> bit y (8 * k + ?d)"
      using d(1,2) m by (auto simp: w)
  next
    fix j assume j: "lo \<le> j \<and> j < 8 * k + ?d"
    then obtain i where i: "j = 8 * k + i" using lo le_Suc_ex order_trans by blast
    with j have "i < ?d" by simp
    with d(3) have "\<not> bit ?w i" by blast
    moreover have "i < 8" using \<open>i < ?d\<close> d(1) by simp
    moreover have "j < hi" using j d(1,2) m by (auto simp: w)
    ultimately show "\<not> bit x j \<noteq> bit y j" using m [of i] j i by (auto simp: w)
  qed
  with False show ?thesis by (simp add: mult.commute add.commute)
qed

lemma interior_difference_eq:
  "interior_difference x y [a..<b] = find (\<lambda>i. bit x i \<noteq> bit y i) [8 * a..<8 * b]"
proof (induction "b - a" arbitrary: a)
  case 0
  then show ?case by simp
next
  case (Suc n)
  then have ab: "a < b" by simp
  have IH: "interior_difference x y [Suc a..<b] = find (\<lambda>i. bit x i \<noteq> bit y i) [8 * Suc a..<8 * b]"
    using Suc.hyps(2) by (intro Suc.hyps(1)) simp
  have byte: "(if uint (id_byte x a) = uint (id_byte y a) then None
          else Some (TrailingZeros8 (word_of_int (uint (id_byte x a) XOR uint (id_byte y a))) + a * 8))
       = find (\<lambda>i. bit x i \<noteq> bit y i) [8 * a..<8 * Suc a]"
    using masked_find [of "- 1" "8 * a" a "8 * Suc a" x y] unfolding and.left_neutral by simp
  have "interior_difference x y [a..<b] = interior_difference x y (a # [Suc a..<b])"
    using ab by (simp add: upt_conv_Cons)
  also have "\<dots> = (case find (\<lambda>i. bit x i \<noteq> bit y i) [8 * a..<8 * Suc a] of
      None \<Rightarrow> find (\<lambda>i. bit x i \<noteq> bit y i) [8 * Suc a..<8 * b] | Some d \<Rightarrow> Some d)"
    by (simp only: byte [symmetric] interior_difference.simps IH Let_def BitsPerByte_def) simp
  also have "\<dots> = find (\<lambda>i. bit x i \<noteq> bit y i) [8 * a..<8 * b]"
    using ab by (intro find_upt_split [symmetric]) auto
  finally show ?case .
qed

theorem FirstDifferenceSubset_eq:
  "FirstDifferenceSubset start stop x y =
     (if stop \<le> NumBits then find (\<lambda>i. bit x i \<noteq> bit y i) [start..<stop] else None)"
proof (cases "stop \<le> start \<or> NumBits < stop")
  case True
  then show ?thesis by (auto simp: FirstDifferenceSubset_def NumBits_def)
next
  case False
  define k s l t where "k = start div 8" "s = start mod 8" "l = (stop - Suc 0) div 8" "t = (stop - Suc 0) mod 8"
  then have st: "start = 8 * k + s" "stop = Suc (8 * l + t)" "s < 8" "t < 8"
    using False by auto
  let ?D = "\<lambda>i. bit x i \<noteq> bit y i"
  have nat: "nat (int stop - 1) = stop - 1" by simp
  have le: "k \<le> l" using False st by auto
  show ?thesis
  proof (cases "k = l")
    case True
    have "FirstDifferenceSubset start stop x y =
        (if (startMask s AND stopMask t) AND uint (id_byte x k) = (startMask s AND stopMask t) AND uint (id_byte y k) then None
          else Some (TrailingZeros8 (word_of_int (((startMask s AND stopMask t) AND uint (id_byte x k)) XOR
             ((startMask s AND stopMask t) AND uint (id_byte y k)))) + k * 8))"
      using False True
      by (simp add: FirstDifferenceSubset_def NumBits_def BitsPerByte_def Let_def nat k_s_l_t_def)
    also have "\<dots> = find ?D [start..<stop]"
      using st True by (intro masked_find) (auto simp: bit_and_iff bit_startMask bit_stopMask)
    finally have "FirstDifferenceSubset start stop x y = find ?D [start..<stop]" .
    with False show ?thesis by simp
  next
    case neq: False
    with le have kl: "k < l" by simp
    have A: "(if startMask s AND uint (id_byte x k) = startMask s AND uint (id_byte y k) then None
          else Some (TrailingZeros8 (word_of_int ((startMask s AND uint (id_byte x k)) XOR (startMask s AND uint (id_byte y k)))) + k * 8))
       = find ?D [start..<8 * (k + 1)]"
      using st kl by (intro masked_find) (auto simp: bit_startMask)
    have C: "(if stopMask t AND uint (id_byte x l) = stopMask t AND uint (id_byte y l) then None
          else Some (TrailingZeros8 (word_of_int ((stopMask t AND uint (id_byte x l)) XOR (stopMask t AND uint (id_byte y l)))) + l * 8))
       = find ?D [8 * l..<stop]"
      using st kl by (intro masked_find) (auto simp: bit_stopMask)
    have "FirstDifferenceSubset start stop x y =
       (case find ?D [start..<8 * (k + 1)] of Some d \<Rightarrow> Some d
        | None \<Rightarrow> (case find ?D [8 * (k + 1)..<8 * l] of Some d \<Rightarrow> Some d
        | None \<Rightarrow> find ?D [8 * l..<stop]))"
      unfolding A [symmetric] C [symmetric] interior_difference_eq [symmetric]
      using False neq
      by (simp add: FirstDifferenceSubset_def NumBits_def BitsPerByte_def Let_def nat
          split: option.split flip: k_s_l_t_def)
    also have "\<dots> = find ?D [start..<stop]"
      using st kl find_upt_split [of start "8 * (k + 1)" stop ?D] find_upt_split [of "8 * (k + 1)" "8 * l" stop ?D]
      by (simp add: option.case_eq_if)
    finally show ?thesis using False by simp
  qed
qed

section \<open>The byte representation\<close>

lemma bit_ID_of_bytes:
  "i < 256 \<Longrightarrow> bit (ID_of_bytes bs) i \<longleftrightarrow> i < 8 * length bs \<and> bit (bs ! (i div 8)) (i mod 8)"
proof (induction bs arbitrary: i)
  case Nil
  then show ?case by simp
next
  case (Cons b bs)
  show ?case
  proof (cases "i < 8")
    case True
    then show ?thesis by (simp add: bit_simps)
  next
    case False
    then have "i = 8 + (i - 8)" by simp
    then obtain j where j: "i = 8 + j" by blast
    have "\<not> bit b (8 + j)" using bit_imp_le_length [of b "8 + j"] by auto
    with j Cons show ?thesis by (auto simp: bit_simps div_add_self1)
  qed
qed

text \<open>The bytes of an identifier determine it.\<close>

lemma ID_of_bytes_ID_bytes: "ID_of_bytes (ID_bytes x) = x"
proof (rule bit_word_eqI)
  fix i :: nat assume "i < LENGTH(256)"
  then have i: "i < 256" "i div 8 < 32" by auto
  then show "bit (ID_of_bytes (ID_bytes x)) i = bit x i"
    by (simp add: bit_ID_of_bytes bit_id_byte ID_bytes_def del: upt_rec_numeral)
qed

section \<open>Properties\<close>

text \<open>
  \<open>EqualSubset\<close> compares whole bytes in the middle of the range and masked bytes at its two
  ends. For every range and every two identifiers it returns whether the range is empty, or
  ends within the 256 bits and the two identifiers have the same bits (as \<open>Bit\<close> reads them)
  at every index of it.
\<close>

theorem EqualSubset_spec:
  "EqualSubset start stop x y \<longleftrightarrow>
     stop \<le> start \<or> stop \<le> NumBits \<and> map (Bit x) [start..<stop] = map (Bit y) [start..<stop]"
  by (auto simp: EqualSubset_iff agree_def Bit_eq)

text \<open>
  \<open>FirstDifferenceSubset\<close> finds an index exactly when the range ends within the 256 bits and
  the identifiers differ somewhere in it, and then it is the first such index: the bits
  before it are equal according to \<open>EqualSubset\<close>.
\<close>

theorem FirstDifferenceSubset_spec:
  "FirstDifferenceSubset start stop x y = Some i \<longleftrightarrow>
     stop \<le> NumBits \<and> start \<le> i \<and> i < stop \<and> Bit x i \<noteq> Bit y i \<and> EqualSubset start i x y"
  by (auto simp: FirstDifferenceSubset_eq find_upt_Some_iff EqualSubset_iff agree_def Bit_eq)

end
