(* ===== verification/Bags.thy ===== *)
theory Bags
  imports Ids "HOL-Library.Multiset"
begin

text \<open>
  The vote multisets of package \<open>ids\<close>: \<open>Bag\<close> (\<open>src/ids/bag.go\<close>) counts votes for
  identifiers and tracks the most frequent one and the ones above a threshold;
  \<open>NodeIDBag\<close> (\<open>src/ids/node_id_bag.go\<close>) counts the validators a poll still waits for.
  Both implement a multiset: \<open>bag_mset\<close> is the abstraction function, and the locale
  \<open>counting_bag\<close> states the contract the polls rely on.

  The counters are Go \<open>int\<close>s. The operations with suffix \<open>64\<close> write their wrap-around out; the ones
  without it, which the rest of the development uses, count without a bound and are shown equal to
  them as long as the bag holds at most \<open>MaxInt64\<close> votes. The bags of a poll hold at most \<open>K\<close>.
\<close>

section \<open>Bag\<close>

record Bag =
  bag_counts :: "(ID, int) gomap"
  bag_size :: int
  bag_mode :: ID
  bag_modeFreq :: int
  bag_threshold :: int
  bag_metThreshold :: "ID set"

definition emptyBag :: Bag where
  "emptyBag = \<lparr>bag_counts = [], bag_size = 0, bag_mode = 0, bag_modeFreq = 0,
     bag_threshold = 0, bag_metThreshold = {}\<rparr>"

definition SetThreshold :: "Bag \<Rightarrow> int \<Rightarrow> Bag" where
  "SetThreshold b threshold =
     (if bag_threshold b = threshold then b
      else fold (\<lambda>(vote, cnt) b'.
             if cnt \<ge> threshold
             then b'\<lparr>bag_metThreshold := insert vote (bag_metThreshold b')\<rparr> else b')
           (bag_counts b)
           (b\<lparr>bag_threshold := threshold, bag_metThreshold := {}\<rparr>))"

definition AddCount :: "Bag \<Rightarrow> ID \<Rightarrow> int \<Rightarrow> Bag" where
  "AddCount b i cnt =
     (if cnt \<le> 0 then b
      else
        let totalCount = mget0 (bag_counts b) i + cnt;
            b = b\<lparr>bag_counts := AList.update i totalCount (bag_counts b),
                  bag_size := bag_size b + cnt\<rparr>;
            b = (if totalCount > bag_modeFreq b
                 then b\<lparr>bag_mode := i, bag_modeFreq := totalCount\<rparr> else b)
        in if totalCount \<ge> bag_threshold b
           then b\<lparr>bag_metThreshold := insert i (bag_metThreshold b)\<rparr> else b)"

definition AddIDs :: "Bag \<Rightarrow> ID list \<Rightarrow> Bag" where
  "AddIDs b xs = fold (\<lambda>i b. AddCount b i 1) xs b"

definition Count :: "Bag \<Rightarrow> ID \<Rightarrow> int" where
  "Count b i = mget0 (bag_counts b) i"

definition Len :: "Bag \<Rightarrow> int" where
  "Len b = bag_size b"

definition BagList :: "Bag \<Rightarrow> ID list" where
  "BagList b = map fst (bag_counts b)"

definition Equals :: "Bag \<Rightarrow> Bag \<Rightarrow> bool" where
  "Equals b oIDs =
     (if Len b \<noteq> Len oIDs then False
      else list_all (\<lambda>(key, v). v = mget0 (bag_counts oIDs) key) (bag_counts b))"

definition Mode :: "Bag \<Rightarrow> ID \<times> int" where
  "Mode b = (bag_mode b, bag_modeFreq b)"

definition Threshold :: "Bag \<Rightarrow> ID set" where
  "Threshold b = bag_metThreshold b"

definition Filter :: "Bag \<Rightarrow> nat \<Rightarrow> nat \<Rightarrow> ID \<Rightarrow> Bag" where
  "Filter b start stop i =
     fold (\<lambda>(vote, cnt) newBag.
        if EqualSubset start stop i vote then AddCount newBag vote cnt else newBag)
      (bag_counts b) emptyBag"

text \<open>The result of \<open>Split\<close> is a two-element array, here a pair indexed by the bit.\<close>

definition Split :: "Bag \<Rightarrow> nat \<Rightarrow> Bag \<times> Bag" where
  "Split b index =
     fold (\<lambda>(vote, cnt) splitVotes.
        let bit = Bit vote index in
        if bit = 0 then (AddCount (fst splitVotes) vote cnt, snd splitVotes)
        else (fst splitVotes, AddCount (snd splitVotes) vote cnt))
      (bag_counts b) (emptyBag, emptyBag)"

text \<open>The same operations with the wrap-around of \<open>int\<close>.\<close>

definition AddCount64 :: "Bag \<Rightarrow> ID \<Rightarrow> int \<Rightarrow> Bag" where
  "AddCount64 b i cnt =
     (if cnt \<le> 0 then b
      else
        let totalCount = int64 (mget0 (bag_counts b) i + cnt);
            b = b\<lparr>bag_counts := AList.update i totalCount (bag_counts b),
                  bag_size := int64 (bag_size b + cnt)\<rparr>;
            b = (if totalCount > bag_modeFreq b
                 then b\<lparr>bag_mode := i, bag_modeFreq := totalCount\<rparr> else b)
        in if totalCount \<ge> bag_threshold b
           then b\<lparr>bag_metThreshold := insert i (bag_metThreshold b)\<rparr> else b)"

definition AddIDs64 :: "Bag \<Rightarrow> ID list \<Rightarrow> Bag" where
  "AddIDs64 b xs = fold (\<lambda>i b. AddCount64 b i 1) xs b"

definition Filter64 :: "Bag \<Rightarrow> nat \<Rightarrow> nat \<Rightarrow> ID \<Rightarrow> Bag" where
  "Filter64 b start stop i =
     fold (\<lambda>(vote, cnt) newBag.
        if EqualSubset start stop i vote then AddCount64 newBag vote cnt else newBag)
      (bag_counts b) emptyBag"

definition Split64 :: "Bag \<Rightarrow> nat \<Rightarrow> Bag \<times> Bag" where
  "Split64 b index =
     fold (\<lambda>(vote, cnt) splitVotes.
        let bit = Bit vote index in
        if bit = 0 then (AddCount64 (fst splitVotes) vote cnt, snd splitVotes)
        else (fst splitVotes, AddCount64 (snd splitVotes) vote cnt))
      (bag_counts b) (emptyBag, emptyBag)"

section \<open>NodeIDBag\<close>

record NodeIDBag =
  nbag_counts :: "(NodeID, int) gomap"
  nbag_size :: int

definition emptyNodeIDBag :: NodeIDBag where
  "emptyNodeIDBag = \<lparr>nbag_counts = [], nbag_size = 0\<rparr>"

definition nAddCount :: "NodeIDBag \<Rightarrow> NodeID \<Rightarrow> int \<Rightarrow> NodeIDBag" where
  "nAddCount b i cnt =
     (if cnt \<le> 0 then b
      else let totalCount = mget0 (nbag_counts b) i + cnt in
        b\<lparr>nbag_counts := AList.update i totalCount (nbag_counts b),
          nbag_size := nbag_size b + cnt\<rparr>)"

definition nAdd :: "NodeIDBag \<Rightarrow> NodeID list \<Rightarrow> NodeIDBag" where
  "nAdd b xs = fold (\<lambda>i b. nAddCount b i 1) xs b"

definition nCount :: "NodeIDBag \<Rightarrow> NodeID \<Rightarrow> int" where
  "nCount b i = mget0 (nbag_counts b) i"

definition nRemove :: "NodeIDBag \<Rightarrow> NodeID \<Rightarrow> NodeIDBag" where
  "nRemove b i =
     (let cnt = mget0 (nbag_counts b) i in
      b\<lparr>nbag_counts := AList.delete i (nbag_counts b), nbag_size := nbag_size b - cnt\<rparr>)"

definition nLen :: "NodeIDBag \<Rightarrow> int" where
  "nLen b = nbag_size b"

definition nList :: "NodeIDBag \<Rightarrow> NodeID list" where
  "nList b = map fst (nbag_counts b)"

definition nEquals :: "NodeIDBag \<Rightarrow> NodeIDBag \<Rightarrow> bool" where
  "nEquals b oIDs =
     (if nLen b \<noteq> nLen oIDs then False
      else list_all (\<lambda>(key, v). v = mget0 (nbag_counts oIDs) key) (nbag_counts b))"

definition nAddCount64 :: "NodeIDBag \<Rightarrow> NodeID \<Rightarrow> int \<Rightarrow> NodeIDBag" where
  "nAddCount64 b i cnt =
     (if cnt \<le> 0 then b
      else let totalCount = int64 (mget0 (nbag_counts b) i + cnt) in
        b\<lparr>nbag_counts := AList.update i totalCount (nbag_counts b),
          nbag_size := int64 (nbag_size b + cnt)\<rparr>)"

definition nAdd64 :: "NodeIDBag \<Rightarrow> NodeID list \<Rightarrow> NodeIDBag" where
  "nAdd64 b xs = fold (\<lambda>i b. nAddCount64 b i 1) xs b"

section \<open>Counts as a multiset\<close>

text \<open>The multiset an association list of counts stands for.\<close>

definition counts_mset :: "('k, int) gomap \<Rightarrow> 'k multiset" where
  "counts_mset m = sum_list (map (\<lambda>(k, c). replicate_mset (nat c) k) m)"

definition counts_ok :: "('k, int) gomap \<Rightarrow> bool" where
  "counts_ok m \<longleftrightarrow> distinct (map fst m) \<and> (\<forall>c\<in>snd ` set m. 0 < c)"

lemma counts_ok_Nil [simp]: "counts_ok []"
  by (simp add: counts_ok_def)

lemma counts_ok_Cons:
  "counts_ok ((k, c) # m) \<longleftrightarrow> k \<notin> fst ` set m \<and> 0 < c \<and> counts_ok m"
  by (auto simp: counts_ok_def)

lemma mget0_Cons: "mget0 ((k, c) # m) k' = (if k' = k then c else mget0 m k')"
  by (simp add: mget0_def)

lemma mget0_notin: "k \<notin> fst ` set m \<Longrightarrow> mget0 m k = 0"
  by (simp add: mget0_def map_of_eq_None_iff [THEN iffD2])

lemma mget0_pos_iff: "counts_ok m \<Longrightarrow> 0 < mget0 m k \<longleftrightarrow> k \<in> fst ` set m"
  by (induction m) (force simp: counts_ok_Cons mget0_Cons)+

lemma mget0_nonneg: "counts_ok m \<Longrightarrow> 0 \<le> mget0 m k"
  by (induction m) (auto simp: counts_ok_Cons mget0_Cons)

lemma mget0_in: "counts_ok m \<Longrightarrow> (k, c) \<in> set m \<Longrightarrow> mget0 m k = c"
  by (auto simp: mget0_def counts_ok_def)

lemma counts_mset_Nil [simp]: "counts_mset [] = {#}"
  by (simp add: counts_mset_def)

lemma counts_mset_Cons [simp]: "counts_mset ((k, c) # m) = replicate_mset (nat c) k + counts_mset m"
  by (simp add: counts_mset_def)

lemma count_counts_mset: "counts_ok m \<Longrightarrow> count (counts_mset m) k = nat (mget0 m k)"
  by (induction m) (auto simp: counts_ok_Cons mget0_Cons mget0_notin)

lemma counts_ok_append:
  "counts_ok (m @ m') \<longleftrightarrow> counts_ok m \<and> counts_ok m' \<and> fst ` set m \<inter> fst ` set m' = {}"
  by (auto simp: counts_ok_def)

lemma counts_ok_update: "counts_ok m \<Longrightarrow> 0 < c \<Longrightarrow> counts_ok (AList.update k c m)"
  by (induction m) (force simp: counts_ok_Cons dom_update)+

lemma counts_ok_delete: "counts_ok m \<Longrightarrow> counts_ok (AList.delete k m)"
  by (auto simp: counts_ok_def delete_eq_filter distinct_map_filter)

lemma counts_mset_update:
  "counts_ok m \<Longrightarrow> 0 < c \<Longrightarrow>
   counts_mset (AList.update k (mget0 m k + c) m) = counts_mset m + replicate_mset (nat c) k"
proof -
  assume m: "counts_ok m" and c: "0 < c"
  have "0 < mget0 m k + c" using mget0_nonneg [OF m] c by (simp add: add_nonneg_pos)
  then show ?thesis
    using m c by (intro multiset_eqI)
      (auto simp: count_counts_mset counts_ok_update mget0_nonneg nat_add_distrib)
qed

lemma counts_mset_delete:
  "counts_ok m \<Longrightarrow> counts_mset (AList.delete k m) = filter_mset (\<lambda>x. x \<noteq> k) (counts_mset m)"
  by (intro multiset_eqI) (auto simp: count_counts_mset counts_ok_delete)

lemma size_counts_mset: "counts_ok m \<Longrightarrow> int (size (counts_mset m)) = sum_list (map snd m)"
  by (induction m) (auto simp: counts_ok_Cons)

section \<open>The bag invariant and its preservation\<close>

definition bag_mset :: "Bag \<Rightarrow> ID multiset" where
  "bag_mset b = counts_mset (bag_counts b)"

text \<open>
  The redundant fields agree with the counts: the size is the sum of the counts, the mode has
  the largest count, and the threshold set holds the counted identifiers at or above the
  threshold.
\<close>

definition bag_inv :: "Bag \<Rightarrow> bool" where
  "bag_inv b \<longleftrightarrow>
     counts_ok (bag_counts b) \<and>
     bag_size b = int (size (bag_mset b)) \<and>
     bag_modeFreq b = Count b (bag_mode b) \<and>
     (\<forall>i. Count b i \<le> bag_modeFreq b) \<and>
     bag_metThreshold b = {i \<in> set (BagList b). bag_threshold b \<le> Count b i}"

lemma bag_inv_empty [simp]: "bag_inv emptyBag"
  by (simp add: bag_inv_def emptyBag_def Count_def BagList_def bag_mset_def)

lemma bag_mset_empty [simp]: "bag_mset emptyBag = {#}"
  by (simp add: bag_mset_def emptyBag_def)

lemma Count_eq: "bag_inv b \<Longrightarrow> Count b i = int (count (bag_mset b) i)"
  by (simp add: bag_inv_def bag_mset_def Count_def count_counts_mset mget0_nonneg)

lemma Len_eq: "bag_inv b \<Longrightarrow> Len b = int (size (bag_mset b))"
  by (simp add: bag_inv_def Len_def)

lemma Count_nonneg: "bag_inv b \<Longrightarrow> 0 \<le> Count b i"
  by (simp add: Count_eq)

lemma Count_AddCount:
  "Count (AddCount b i c) j = (if j = i \<and> 0 < c then Count b i + c else Count b j)"
  by (auto simp: AddCount_def Count_def Let_def)

lemma bag_mset_AddCount:
  "bag_inv b \<Longrightarrow> bag_mset (AddCount b i c) = bag_mset b + replicate_mset (nat c) i"
  by (auto simp: AddCount_def bag_mset_def Let_def counts_mset_update bag_inv_def)

lemma set_BagList_AddCount:
  "set (BagList (AddCount b i c)) = (if 0 < c then insert i (set (BagList b)) else set (BagList b))"
  by (auto simp: AddCount_def BagList_def Let_def dom_update)

lemma AddCount_fields:
  assumes "0 < c"
  shows "bag_counts (AddCount b i c) = AList.update i (Count b i + c) (bag_counts b)"
    and "bag_size (AddCount b i c) = bag_size b + c"
    and "bag_mode (AddCount b i c) = (if bag_modeFreq b < Count b i + c then i else bag_mode b)"
    and "bag_modeFreq (AddCount b i c) = max (bag_modeFreq b) (Count b i + c)"
    and "bag_threshold (AddCount b i c) = bag_threshold b"
    and "bag_metThreshold (AddCount b i c) =
      (if bag_threshold b \<le> Count b i + c then insert i (bag_metThreshold b) else bag_metThreshold b)"
  using assms by (auto simp: AddCount_def Let_def Count_def)

lemma bag_inv_AddCount: "bag_inv b \<Longrightarrow> bag_inv (AddCount b i c)"
proof (cases "0 < c")
  case False
  then show "bag_inv b \<Longrightarrow> ?thesis" by (simp add: AddCount_def)
next
  case True
  assume b: "bag_inv b"
  note f = AddCount_fields [OF True, of b i]
  have ok: "counts_ok (bag_counts b)" using b by (simp add: bag_inv_def)
  have pos: "0 < Count b i + c" using Count_nonneg [OF b] True by (simp add: add_nonneg_pos)
  show ?thesis
    unfolding bag_inv_def
  proof (intro conjI allI)
    show "counts_ok (bag_counts (AddCount b i c))"
      using ok pos by (simp add: f counts_ok_update)
    show "bag_size (AddCount b i c) = int (size (bag_mset (AddCount b i c)))"
      using b True by (simp add: f bag_mset_AddCount) (simp add: bag_inv_def)
    show "bag_modeFreq (AddCount b i c) = Count (AddCount b i c) (bag_mode (AddCount b i c))"
      using b True by (auto simp: f Count_AddCount bag_inv_def)
    show "Count (AddCount b i c) j \<le> bag_modeFreq (AddCount b i c)" for j
      using b True by (auto simp: f Count_AddCount bag_inv_def intro: order_trans)
    show "bag_metThreshold (AddCount b i c) =
       {j \<in> set (BagList (AddCount b i c)). bag_threshold (AddCount b i c) \<le> Count (AddCount b i c) j}"
      using b True by (auto simp: f Count_AddCount set_BagList_AddCount bag_inv_def)
  qed
qed

lemma filter_replicate_mset:
  "filter_mset P (replicate_mset n x) = (if P x then replicate_mset n x else {#})"
  by (induction n) auto

lemma bag_inv_counts_ok: "bag_inv b \<Longrightarrow> counts_ok (bag_counts b)"
  by (simp add: bag_inv_def)

lemma fold_AddCount:
  assumes "bag_inv b" and "counts_ok m"
  shows "bag_inv (fold (\<lambda>(v, c) nb. if P v then AddCount nb v c else nb) m b) \<and>
    bag_mset (fold (\<lambda>(v, c) nb. if P v then AddCount nb v c else nb) m b) =
      bag_mset b + filter_mset P (counts_mset m)"
  using assms
proof (induction m arbitrary: b)
  case Nil
  then show ?case by simp
next
  case (Cons p m)
  obtain v c where p: "p = (v, c)" by fastforce
  let ?b = "if P v then AddCount b v c else b"
  have "bag_inv ?b" and m: "counts_ok m" and "0 < c"
    using Cons.prems by (auto simp: p counts_ok_Cons bag_inv_AddCount)
  with Cons.IH [of ?b] Cons.prems show ?case
    by (auto simp: p bag_mset_AddCount filter_replicate_mset)
qed

lemmas fold_AddCount_bag = fold_AddCount [OF bag_inv_empty bag_inv_counts_ok, folded bag_mset_def]

lemma Filter_mset:
  assumes "bag_inv b"
  shows "bag_inv (Filter b start stop i)"
    and "bag_mset (Filter b start stop i) = filter_mset (EqualSubset start stop i) (bag_mset b)"
  using fold_AddCount_bag [OF assms, of "EqualSubset start stop i"] by (simp_all add: Filter_def)

lemma Split_eq:
  "Split b index =
    (fold (\<lambda>(v, c) nb. if Bit v index = 0 then AddCount nb v c else nb) (bag_counts b) emptyBag,
     fold (\<lambda>(v, c) nb. if Bit v index \<noteq> 0 then AddCount nb v c else nb) (bag_counts b) emptyBag)"
proof -
  have "fold (\<lambda>(v, c) sv. let bit = Bit v index in
          if bit = 0 then (AddCount (fst sv) v c, snd sv) else (fst sv, AddCount (snd sv) v c)) m (x, y) =
     (fold (\<lambda>(v, c) nb. if Bit v index = 0 then AddCount nb v c else nb) m x,
      fold (\<lambda>(v, c) nb. if Bit v index \<noteq> 0 then AddCount nb v c else nb) m y)" for m x y
    by (induction m arbitrary: x y) (auto simp: Let_def)
  then show ?thesis by (simp add: Split_def)
qed

lemma Split_mset:
  assumes "bag_inv b"
  shows "bag_inv (fst (Split b index))" and "bag_inv (snd (Split b index))"
    and "bag_mset (fst (Split b index)) = filter_mset (\<lambda>v. Bit v index = 0) (bag_mset b)"
    and "bag_mset (snd (Split b index)) = filter_mset (\<lambda>v. Bit v index \<noteq> 0) (bag_mset b)"
  using fold_AddCount_bag [OF assms, of "\<lambda>v. Bit v index = 0"]
    fold_AddCount_bag [OF assms, of "\<lambda>v. Bit v index \<noteq> 0"]
  unfolding Split_eq by simp_all

lemma fold_metThreshold:
  "fold (\<lambda>(vote, cnt) b'. if cnt \<ge> th
       then b'\<lparr>bag_metThreshold := insert vote (bag_metThreshold b')\<rparr> else b') m (x :: Bag) =
   x\<lparr>bag_metThreshold := bag_metThreshold x \<union> fst ` set (filter (\<lambda>p. th \<le> snd p) m)\<rparr>"
  by (induction m arbitrary: x) auto

lemma SetThreshold_fields:
  "bag_threshold (SetThreshold b th) = th" "BagList (SetThreshold b th) = BagList b"
  "Count (SetThreshold b th) = Count b" "bag_mset (SetThreshold b th) = bag_mset b"
  by (simp_all add: SetThreshold_def fold_metThreshold BagList_def Count_def bag_mset_def fun_eq_iff)

lemma bag_inv_SetThreshold: "bag_inv b \<Longrightarrow> bag_inv (SetThreshold b th)"
proof -
  assume b: "bag_inv b"
  have "fst ` set (filter (\<lambda>p. th \<le> snd p) (bag_counts b)) = {i \<in> set (BagList b). th \<le> Count b i}"
    using b by (force simp: bag_inv_def BagList_def Count_def mget0_in)
  with b show ?thesis
    by (auto simp: SetThreshold_def fold_metThreshold bag_inv_def BagList_def Count_def bag_mset_def)
qed

lemmas bag_mset_SetThreshold = SetThreshold_fields(4)

section \<open>NodeIDBag and the shared contract\<close>

definition nbag_inv :: "NodeIDBag \<Rightarrow> bool" where
  "nbag_inv b \<longleftrightarrow> counts_ok (nbag_counts b) \<and> nbag_size b = int (size (counts_mset (nbag_counts b)))"

definition nbag_mset :: "NodeIDBag \<Rightarrow> NodeID multiset" where
  "nbag_mset b = counts_mset (nbag_counts b)"

lemma nbag_inv_nRemove: "nbag_inv b \<Longrightarrow> nbag_inv (nRemove b i)"
proof -
  assume b: "nbag_inv b"
  then have "size (nbag_mset b) = size (filter_mset (\<lambda>x. x \<noteq> i) (nbag_mset b)) + count (nbag_mset b) i"
    by (metis multiset_partition size_union filter_eq_replicate_mset size_replicate_mset add.commute)
  with b show ?thesis
    by (simp add: nbag_inv_def nbag_mset_def nRemove_def Let_def counts_ok_delete counts_mset_delete
        count_counts_mset mget0_nonneg)
qed

lemma nbag_mset_nRemove:
  "nbag_inv b \<Longrightarrow> nbag_mset (nRemove b i) = filter_mset (\<lambda>x. x \<noteq> i) (nbag_mset b)"
  by (simp add: nbag_inv_def nbag_mset_def nRemove_def Let_def counts_mset_delete)

text \<open>
  What a client may rely on: a bag is a multiset, counting and adding act on it, and the length
  is its size. The lemmas of the locale are what the polls and the vote traversals use.
\<close>

locale counting_bag =
  fixes empty :: 'b
    and cnt :: "'b \<Rightarrow> 'k \<Rightarrow> int"
    and len :: "'b \<Rightarrow> int"
    and addc :: "'b \<Rightarrow> 'k \<Rightarrow> int \<Rightarrow> 'b"
    and inv :: "'b \<Rightarrow> bool"
    and abs :: "'b \<Rightarrow> 'k multiset"
  assumes abs_empty: "abs empty = {#}"
    and inv_empty: "inv empty"
    and cnt_abs: "inv b \<Longrightarrow> cnt b k = int (count (abs b) k)"
    and len_abs: "inv b \<Longrightarrow> len b = int (size (abs b))"
    and abs_addc: "inv b \<Longrightarrow> abs (addc b k c) = abs b + replicate_mset (nat c) k"
    and inv_addc: "inv b \<Longrightarrow> inv (addc b k c)"
begin

lemma cnt_nonneg: "inv b \<Longrightarrow> 0 \<le> cnt b k"
  by (simp add: cnt_abs)

lemma len_nonneg: "inv b \<Longrightarrow> 0 \<le> len b"
  by (simp add: len_abs)

lemma cnt_le_len: "inv b \<Longrightarrow> cnt b k \<le> len b"
  by (simp add: cnt_abs len_abs count_le_size)

lemma len_sum:
  assumes "inv b" and "finite C" and "\<And>c. c \<notin> C \<Longrightarrow> cnt b c = 0"
  shows "len b = (\<Sum>c\<in>C. cnt b c)"
proof -
  have "c \<in> C" if "c \<in># abs b" for c
    using assms(3) [of c] that by (cases "c \<in> C") (auto simp: cnt_abs [OF assms(1)] not_in_iff [symmetric])
  then have "set_mset (abs b) \<subseteq> C" by blast
  then have "size (abs b) = (\<Sum>c\<in>C. count (abs b) c)"
    unfolding size_multiset_overloaded_eq using assms(2)
    by (intro sum.mono_neutral_left) (auto simp: not_in_iff)
  then show ?thesis by (simp add: len_abs cnt_abs assms(1))
qed

lemma cnt_addc: "inv b \<Longrightarrow> cnt (addc b k c) j = cnt b j + (if j = k then max 0 c else 0)"
  by (simp add: cnt_abs inv_addc abs_addc max_def)

lemma len_addc: "inv b \<Longrightarrow> len (addc b k c) = len b + max 0 c"
  by (simp add: len_abs inv_addc abs_addc max_def)

lemma two_counts_le_len: "inv b \<Longrightarrow> k \<noteq> j \<Longrightarrow> cnt b k + cnt b j \<le> len b"
proof -
  assume b: "inv b" and "k \<noteq> j"
  then have "replicate_mset (count (abs b) k) k + replicate_mset (count (abs b) j) j \<subseteq># abs b"
    by (auto simp: subseteq_mset_def)
  then have "count (abs b) k + count (abs b) j \<le> size (abs b)"
    by (metis size_mset_mono size_replicate_mset size_union)
  with b show ?thesis by (simp add: cnt_abs len_abs)
qed

text \<open>At most one key holds more than half of the votes.\<close>

lemma majority_unique:
  assumes "inv b" "len b \<le> K" "K div 2 < a" "a \<le> cnt b k" "a \<le> cnt b j"
  shows "k = j"
  using two_counts_le_len [OF assms(1), of k j] assms(2-) by linarith

end

interpretation vote_bag: counting_bag emptyBag Count Len AddCount bag_inv bag_mset
  by unfold_locales (simp_all add: Count_eq Len_eq bag_mset_AddCount bag_inv_AddCount)

interpretation vdr_bag: counting_bag emptyNodeIDBag nCount nLen nAddCount nbag_inv nbag_mset
proof unfold_locales
  show "nbag_mset (nAddCount b k c) = nbag_mset b + replicate_mset (nat c) k" if "nbag_inv b" for b k c
    using that by (simp add: nbag_inv_def nAddCount_def nbag_mset_def Let_def counts_mset_update)
  show "nbag_inv (nAddCount b k c)" if "nbag_inv b" for b k c
    using that mget0_nonneg [of "nbag_counts b" k]
    by (auto simp: nbag_inv_def nAddCount_def Let_def counts_ok_update counts_mset_update add_nonneg_pos)
qed (simp_all add: emptyNodeIDBag_def nbag_mset_def nbag_inv_def nCount_def nLen_def
    count_counts_mset mget0_nonneg)

lemma Mode_maximal:
  assumes "bag_inv b"
  shows "Count b j \<le> snd (Mode b)" "Count b (fst (Mode b)) = snd (Mode b)"
  using assms unfolding bag_inv_def Mode_def by auto

lemma Threshold_SetThreshold:
  assumes "bag_inv b"
  shows "Threshold (SetThreshold b th) = {k \<in> set (BagList b). th \<le> Count b k}"
  using bag_inv_SetThreshold [OF assms, of th] by (simp add: bag_inv_def Threshold_def SetThreshold_fields)

section \<open>Properties\<close>

text \<open>The machine operations are the unbounded ones as long as no counter passes \<open>MaxInt64\<close>.\<close>

lemma AddCount64_eq:
  assumes "bag_inv b" and "Len b + c \<le> MaxInt64"
  shows "AddCount64 b i c = AddCount b i c"
proof (cases "0 < c")
  case True
  have "0 \<le> Count b i" "Count b i \<le> Len b" "0 \<le> Len b"
    using vote_bag.cnt_nonneg vote_bag.cnt_le_len vote_bag.len_nonneg assms(1) by blast+
  with True assms(2) have "int64 (Count b i + c) = Count b i + c" "int64 (Len b + c) = Len b + c"
    by (simp_all add: int64_nonneg)
  then show ?thesis by (simp add: AddCount64_def AddCount_def Count_def Len_def)
qed (simp add: AddCount64_def AddCount_def)

lemma fold_AddCount64:
  assumes "bag_inv b" and "counts_ok m" and "Len b + sum_list (map snd m) \<le> MaxInt64"
  shows "fold (\<lambda>(v, c) nb. if P v then AddCount64 nb v c else nb) m b =
    fold (\<lambda>(v, c) nb. if P v then AddCount nb v c else nb) m b"
  using assms
proof (induction m arbitrary: b)
  case (Cons p m)
  obtain v c where p: "p = (v, c)" by fastforce
  let ?b = "if P v then AddCount b v c else b"
  have m: "counts_ok m" and c: "0 < c" using Cons.prems(2) by (simp_all add: p counts_ok_Cons)
  have s: "0 \<le> sum_list (map snd m)" using size_counts_mset [OF m] by simp
  have "bag_inv ?b" "Len ?b + sum_list (map snd m) \<le> MaxInt64"
    using Cons.prems(1,3) c by (auto simp: p bag_inv_AddCount vote_bag.len_addc)
  moreover have "AddCount64 b v c = AddCount b v c"
    using Cons.prems(1,3) s by (intro AddCount64_eq) (simp_all add: p)
  ultimately show ?case using Cons.IH [of ?b] m by (simp add: p split: if_splits)
qed simp

lemma bag64_eq:
  assumes "bag_inv b" and "Len b \<le> MaxInt64"
  shows "Filter64 b start stop i = Filter b start stop i" and "Split64 b n = Split b n"
proof -
  have ok: "counts_ok (bag_counts b)" and "sum_list (map snd (bag_counts b)) \<le> MaxInt64"
    using assms size_counts_mset [of "bag_counts b"] by (simp_all add: bag_inv_def Len_def bag_mset_def)
  then have e: "fold (\<lambda>(v, c) nb. if P v then AddCount64 nb v c else nb) (bag_counts b) emptyBag =
      fold (\<lambda>(v, c) nb. if P v then AddCount nb v c else nb) (bag_counts b) emptyBag" for P
    by (intro fold_AddCount64) (simp_all add: Len_def, simp add: emptyBag_def)
  show "Filter64 b start stop i = Filter b start stop i"
    by (simp only: Filter64_def Filter_def e)
  have "fold (\<lambda>(v, c) sv. let bit = Bit v n in
          if bit = 0 then (AddCount64 (fst sv) v c, snd sv) else (fst sv, AddCount64 (snd sv) v c)) m (x, y) =
     (fold (\<lambda>(v, c) nb. if Bit v n = 0 then AddCount64 nb v c else nb) m x,
      fold (\<lambda>(v, c) nb. if Bit v n \<noteq> 0 then AddCount64 nb v c else nb) m y)" for m x y
    by (induction m arbitrary: x y) (auto simp: Let_def)
  then show "Split64 b n = Split b n"
    by (simp only: Split64_def Split_eq e)
qed

lemma AddIDs64_eq:
  assumes "bag_inv b" and "Len b + int (length xs) \<le> MaxInt64"
  shows "AddIDs64 b xs = AddIDs b xs"
  using assms
proof (induction xs arbitrary: b)
  case (Cons x xs)
  have "AddCount64 b x 1 = AddCount b x 1" using Cons.prems by (intro AddCount64_eq) simp_all
  moreover have "AddIDs64 (AddCount b x 1) xs = AddIDs (AddCount b x 1) xs"
    using Cons.prems by (intro Cons.IH) (simp_all add: bag_inv_AddCount vote_bag.len_addc)
  ultimately show ?case by (simp add: AddIDs64_def AddIDs_def)
qed (simp add: AddIDs64_def AddIDs_def)

lemma nAddCount64_eq:
  assumes "nbag_inv b" and "nLen b + c \<le> MaxInt64"
  shows "nAddCount64 b i c = nAddCount b i c"
proof (cases "0 < c")
  case True
  have "0 \<le> nCount b i" "nCount b i \<le> nLen b" "0 \<le> nLen b"
    using vdr_bag.cnt_nonneg vdr_bag.cnt_le_len vdr_bag.len_nonneg assms(1) by blast+
  with True assms(2) have "int64 (nCount b i + c) = nCount b i + c" "int64 (nLen b + c) = nLen b + c"
    by (simp_all add: int64_nonneg)
  then show ?thesis by (simp add: nAddCount64_def nAddCount_def nCount_def nLen_def)
qed (simp add: nAddCount64_def nAddCount_def)

lemma nAdd64_eq:
  assumes "nbag_inv b" and "nLen b + int (length xs) \<le> MaxInt64"
  shows "nAdd64 b xs = nAdd b xs"
  using assms
proof (induction xs arbitrary: b)
  case (Cons x xs)
  have "nAddCount64 b x 1 = nAddCount b x 1" using Cons.prems by (intro nAddCount64_eq) simp_all
  moreover have "nAdd64 (nAddCount b x 1) xs = nAdd (nAddCount b x 1) xs"
    using Cons.prems by (intro Cons.IH) (simp_all add: vdr_bag.inv_addc vdr_bag.len_addc)
  ultimately show ?case by (simp add: nAdd64_def nAdd_def)
qed (simp add: nAdd64_def nAdd_def)

lemma AddCount64_overflow: "Len (AddCount64 (AddCount64 emptyBag 5 MaxInt64) 5 1) = - MaxInt64 - 1"
  by code_simp



end
