(* ===== verification/Snowball.thy ===== *)
theory Snowball
  imports Bags "HOL-Library.Signed_Division"
begin

text \<open>
  Package \<open>snowball\<close>: the consensus parameters (\<open>parameters.go\<close>) and the unary, binary and
  n-ary slush, snowflake and snowball instances, with the flat multi-choice instance built on
  them. Go embeds the snowflake in the snowball and the slush in the snowflake; the records
  extend each other in the same way, and a promoted method is the same polymorphic function.
  A method that changes its receiver returns the new state. Counters of type \<open>int\<close> are
  unbounded integers here (they grow by one per network poll).

  The locale \<open>snowflake_machine\<close> states the contract shared by the binary and the n-ary
  snowflakes, and proves once that a snowflake finalizes exactly when its poll history holds
  enough consecutive successful polls for one choice, and never changes its mind afterwards.
\<close>

section \<open>Parameters\<close>

record Parameters =
  K :: int
  Alpha :: int
  BetaVirtuous :: int
  BetaRogue :: int
  ConcurrentRepolls :: int
  OptimalProcessing :: int
  MaxOutstandingItems :: int
  MaxItemProcessingTime :: int
  MixedQueryNumPushVdr :: int
  MixedQueryNumPushNonVdr :: int

datatype param_error =
    AlphaTooSmall | AlphaTooBig | BetaVirtuousNotPositive | BetaRogueBadGoat | BetaRogueTooSmall
  | ConcurrentRepollsNotPositive | ConcurrentRepollsTooBig | OptimalProcessingNotPositive
  | MaxOutstandingItemsNotPositive | MaxItemProcessingTimeNotPositive
  | MixedQueryNumPushVdrTooBig | MixedQueryNumPushNonVdrTooBig

text \<open>\<open>None\<close> is Go's \<open>nil\<close> error.\<close>

definition Verify :: "Parameters \<Rightarrow> param_error option" where
  "Verify p =
     (if Alpha p \<le> K p sdiv 2 then Some AlphaTooSmall
      else if K p < Alpha p then Some AlphaTooBig
      else if BetaVirtuous p \<le> 0 then Some BetaVirtuousNotPositive
      else if BetaRogue p = 3 \<and> BetaVirtuous p = 28 then Some BetaRogueBadGoat
      else if BetaRogue p < BetaVirtuous p then Some BetaRogueTooSmall
      else if ConcurrentRepolls p \<le> 0 then Some ConcurrentRepollsNotPositive
      else if ConcurrentRepolls p > BetaRogue p then Some ConcurrentRepollsTooBig
      else if OptimalProcessing p \<le> 0 then Some OptimalProcessingNotPositive
      else if MaxOutstandingItems p \<le> 0 then Some MaxOutstandingItemsNotPositive
      else if MaxItemProcessingTime p \<le> 0 then Some MaxItemProcessingTimeNotPositive
      else if MixedQueryNumPushVdr p > K p then Some MixedQueryNumPushVdrTooBig
      else if MixedQueryNumPushNonVdr p > K p then Some MixedQueryNumPushNonVdrTooBig
      else None)"

section \<open>Binary slush, snowflake and snowball\<close>

text \<open>Go's two-element arrays, indexed by a bit.\<close>

definition sel2 :: "nat \<Rightarrow> 'a \<times> 'a \<Rightarrow> 'a" where
  "sel2 i p = (if i = 0 then fst p else snd p)"

definition upd2 :: "nat \<Rightarrow> 'a \<Rightarrow> 'a \<times> 'a \<Rightarrow> 'a \<times> 'a" where
  "upd2 i v p = (if i = 0 then (v, snd p) else (fst p, v))"

record binarySlush =
  bsl_preference :: nat

definition bsl_Initialize :: "nat \<Rightarrow> 'a binarySlush_scheme \<Rightarrow> 'a binarySlush_scheme" where
  "bsl_Initialize choice sl = sl\<lparr>bsl_preference := choice\<rparr>"

definition bsl_RecordSuccessfulPoll :: "nat \<Rightarrow> 'a binarySlush_scheme \<Rightarrow> 'a binarySlush_scheme" where
  "bsl_RecordSuccessfulPoll choice sl = sl\<lparr>bsl_preference := choice\<rparr>"

record binarySnowflake = binarySlush +
  bsf_confidence :: int
  bsf_beta :: int
  bsf_finalized :: bool

definition bsf_Initialize :: "int \<Rightarrow> nat \<Rightarrow> 'a binarySnowflake_scheme \<Rightarrow> 'a binarySnowflake_scheme" where
  "bsf_Initialize beta choice sf = (bsl_Initialize choice sf)\<lparr>bsf_beta := beta\<rparr>"

definition bsf_RecordSuccessfulPoll :: "nat \<Rightarrow> 'a binarySnowflake_scheme \<Rightarrow> 'a binarySnowflake_scheme" where
  "bsf_RecordSuccessfulPoll choice sf =
     (if bsf_finalized sf then sf
      else
        let sf = (if bsl_preference sf = choice
                  then sf\<lparr>bsf_confidence := bsf_confidence sf + 1\<rparr>
                  else sf\<lparr>bsf_confidence := 1\<rparr>);
            sf = sf\<lparr>bsf_finalized := bsf_confidence sf \<ge> bsf_beta sf\<rparr>
        in bsl_RecordSuccessfulPoll choice sf)"

definition bsf_RecordUnsuccessfulPoll :: "'a binarySnowflake_scheme \<Rightarrow> 'a binarySnowflake_scheme" where
  "bsf_RecordUnsuccessfulPoll sf = sf\<lparr>bsf_confidence := 0\<rparr>"

record binarySnowball = binarySnowflake +
  bsb_preference :: nat
  bsb_numSuccessfulPolls :: "int \<times> int"

text \<open>Go's zero value.\<close>

definition binarySnowball0 :: binarySnowball where
  "binarySnowball0 = \<lparr>bsl_preference = 0, bsf_confidence = 0, bsf_beta = 0, bsf_finalized = False,
     bsb_preference = 0, bsb_numSuccessfulPolls = (0, 0)\<rparr>"

definition bsb_Initialize :: "int \<Rightarrow> nat \<Rightarrow> binarySnowball \<Rightarrow> binarySnowball" where
  "bsb_Initialize beta choice sb = (bsf_Initialize beta choice sb)\<lparr>bsb_preference := choice\<rparr>"

definition bsb_Preference :: "binarySnowball \<Rightarrow> nat" where
  "bsb_Preference sb = (if bsf_finalized sb then bsl_preference sb else bsb_preference sb)"

definition bsb_RecordSuccessfulPoll :: "nat \<Rightarrow> binarySnowball \<Rightarrow> binarySnowball" where
  "bsb_RecordSuccessfulPoll choice sb =
     (let sb = sb\<lparr>bsb_numSuccessfulPolls :=
                   upd2 choice (sel2 choice (bsb_numSuccessfulPolls sb) + 1) (bsb_numSuccessfulPolls sb)\<rparr>;
          sb = (if sel2 choice (bsb_numSuccessfulPolls sb) > sel2 (1 - choice) (bsb_numSuccessfulPolls sb)
                then sb\<lparr>bsb_preference := choice\<rparr> else sb)
      in bsf_RecordSuccessfulPoll choice sb)"

section \<open>Unary snowflake and snowball\<close>

record unarySnowflake =
  usf_beta :: int
  usf_confidence :: int
  usf_finalized :: bool

definition usf_Initialize :: "int \<Rightarrow> 'a unarySnowflake_scheme \<Rightarrow> 'a unarySnowflake_scheme" where
  "usf_Initialize beta sf = sf\<lparr>usf_beta := beta\<rparr>"

definition usf_RecordSuccessfulPoll :: "'a unarySnowflake_scheme \<Rightarrow> 'a unarySnowflake_scheme" where
  "usf_RecordSuccessfulPoll sf =
     (let sf = sf\<lparr>usf_confidence := usf_confidence sf + 1\<rparr>
      in sf\<lparr>usf_finalized := usf_finalized sf \<or> usf_confidence sf \<ge> usf_beta sf\<rparr>)"

definition usf_RecordUnsuccessfulPoll :: "'a unarySnowflake_scheme \<Rightarrow> 'a unarySnowflake_scheme" where
  "usf_RecordUnsuccessfulPoll sf = sf\<lparr>usf_confidence := 0\<rparr>"

definition usf_Extend :: "int \<Rightarrow> nat \<Rightarrow> unarySnowflake \<Rightarrow> binarySnowflake" where
  "usf_Extend beta choice sf =
     \<lparr>bsl_preference = choice, bsf_confidence = usf_confidence sf, bsf_beta = beta,
      bsf_finalized = usf_finalized sf\<rparr>"

record unarySnowball = unarySnowflake +
  usb_numSuccessfulPolls :: int

definition unarySnowball0 :: unarySnowball where
  "unarySnowball0 = \<lparr>usf_beta = 0, usf_confidence = 0, usf_finalized = False, usb_numSuccessfulPolls = 0\<rparr>"

definition usb_RecordSuccessfulPoll :: "unarySnowball \<Rightarrow> unarySnowball" where
  "usb_RecordSuccessfulPoll sb =
     usf_RecordSuccessfulPoll (sb\<lparr>usb_numSuccessfulPolls := usb_numSuccessfulPolls sb + 1\<rparr>)"

definition usb_Extend :: "int \<Rightarrow> nat \<Rightarrow> unarySnowball \<Rightarrow> binarySnowball" where
  "usb_Extend beta choice sb =
     (let bs = \<lparr>bsl_preference = choice, bsf_confidence = usf_confidence sb, bsf_beta = beta,
                bsf_finalized = usf_finalized sb, bsb_preference = choice,
                bsb_numSuccessfulPolls = (0, 0)\<rparr>
      in bs\<lparr>bsb_numSuccessfulPolls := upd2 choice (usb_numSuccessfulPolls sb) (bsb_numSuccessfulPolls bs)\<rparr>)"

section \<open>N-ary slush, snowflake and snowball\<close>

record nnarySlush =
  nsl_preference :: ID

definition nsl_Initialize :: "ID \<Rightarrow> 'a nnarySlush_scheme \<Rightarrow> 'a nnarySlush_scheme" where
  "nsl_Initialize choice sl = sl\<lparr>nsl_preference := choice\<rparr>"

definition nsl_RecordSuccessfulPoll :: "ID \<Rightarrow> 'a nnarySlush_scheme \<Rightarrow> 'a nnarySlush_scheme" where
  "nsl_RecordSuccessfulPoll choice sl = sl\<lparr>nsl_preference := choice\<rparr>"

record nnarySnowflake = nnarySlush +
  nsf_betaVirtuous :: int
  nsf_betaRogue :: int
  nsf_confidence :: int
  nsf_rogue :: bool
  nsf_finalized :: bool

definition nsf_Initialize ::
  "int \<Rightarrow> int \<Rightarrow> ID \<Rightarrow> 'a nnarySnowflake_scheme \<Rightarrow> 'a nnarySnowflake_scheme" where
  "nsf_Initialize betaVirtuous betaRogue choice sf =
     (nsl_Initialize choice sf)\<lparr>nsf_betaVirtuous := betaVirtuous, nsf_betaRogue := betaRogue\<rparr>"

definition nsf_Add :: "ID \<Rightarrow> 'a nnarySnowflake_scheme \<Rightarrow> 'a nnarySnowflake_scheme" where
  "nsf_Add choice sf = sf\<lparr>nsf_rogue := nsf_rogue sf \<or> choice \<noteq> nsl_preference sf\<rparr>"

definition nsf_RecordSuccessfulPoll :: "ID \<Rightarrow> 'a nnarySnowflake_scheme \<Rightarrow> 'a nnarySnowflake_scheme" where
  "nsf_RecordSuccessfulPoll choice sf =
     (if nsf_finalized sf then sf
      else
        let sf = (if nsl_preference sf = choice
                  then sf\<lparr>nsf_confidence := nsf_confidence sf + 1\<rparr>
                  else sf\<lparr>nsf_confidence := 1\<rparr>);
            sf = sf\<lparr>nsf_finalized :=
                     (\<not> nsf_rogue sf \<and> nsf_confidence sf \<ge> nsf_betaVirtuous sf) \<or>
                     nsf_confidence sf \<ge> nsf_betaRogue sf\<rparr>
        in nsl_RecordSuccessfulPoll choice sf)"

definition nsf_RecordUnsuccessfulPoll :: "'a nnarySnowflake_scheme \<Rightarrow> 'a nnarySnowflake_scheme" where
  "nsf_RecordUnsuccessfulPoll sf = sf\<lparr>nsf_confidence := 0\<rparr>"

record nnarySnowball = nnarySnowflake +
  nsb_preference :: ID
  nsb_maxSuccessfulPolls :: int
  nsb_numSuccessfulPolls :: "(ID, int) gomap"

definition nsb_Initialize ::
  "int \<Rightarrow> int \<Rightarrow> ID \<Rightarrow> 'a nnarySnowball_scheme \<Rightarrow> 'a nnarySnowball_scheme" where
  "nsb_Initialize betaVirtuous betaRogue choice sb =
     (nsf_Initialize betaVirtuous betaRogue choice sb)
       \<lparr>nsb_preference := choice, nsb_numSuccessfulPolls := []\<rparr>"

definition nsb_Preference :: "'a nnarySnowball_scheme \<Rightarrow> ID" where
  "nsb_Preference sb = (if nsf_finalized sb then nsl_preference sb else nsb_preference sb)"

definition nsb_RecordSuccessfulPoll :: "ID \<Rightarrow> 'a nnarySnowball_scheme \<Rightarrow> 'a nnarySnowball_scheme" where
  "nsb_RecordSuccessfulPoll choice sb =
     (let numSuccessfulPolls = mget0 (nsb_numSuccessfulPolls sb) choice + 1;
          sb = sb\<lparr>nsb_numSuccessfulPolls :=
                   AList.update choice numSuccessfulPolls (nsb_numSuccessfulPolls sb)\<rparr>;
          sb = (if numSuccessfulPolls > nsb_maxSuccessfulPolls sb
                then sb\<lparr>nsb_preference := choice, nsb_maxSuccessfulPolls := numSuccessfulPolls\<rparr>
                else sb)
      in nsf_RecordSuccessfulPoll choice sb)"

section \<open>Flat\<close>

record Flat = nnarySnowball +
  flat_params :: Parameters

text \<open>Go's zero value, which \<open>FlatFactory\<close> allocates and \<open>Initialize\<close> fills.\<close>

definition Flat0 :: Flat where
  "Flat0 = \<lparr>nsl_preference = 0, nsf_betaVirtuous = 0, nsf_betaRogue = 0, nsf_confidence = 0, nsf_rogue = False,
     nsf_finalized = False, nsb_preference = 0, nsb_maxSuccessfulPolls = 0, nsb_numSuccessfulPolls = [],
     flat_params = \<lparr>K = 0, Alpha = 0, BetaVirtuous = 0, BetaRogue = 0, ConcurrentRepolls = 0,
     OptimalProcessing = 0, MaxOutstandingItems = 0, MaxItemProcessingTime = 0, MixedQueryNumPushVdr = 0,
     MixedQueryNumPushNonVdr = 0\<rparr>\<rparr>"

definition flat_Initialize :: "Parameters \<Rightarrow> ID \<Rightarrow> Flat \<Rightarrow> Flat" where
  "flat_Initialize params choice f =
     (nsb_Initialize (BetaVirtuous params) (BetaRogue params) choice f)\<lparr>flat_params := params\<rparr>"

definition flat_RecordPoll :: "Bag \<Rightarrow> Flat \<Rightarrow> Flat \<times> bool" where
  "flat_RecordPoll votes f =
     (let (pollMode, numVotes) = Mode votes in
      if numVotes \<ge> Alpha (flat_params f)
      then (nsb_RecordSuccessfulPoll pollMode f, True)
      else (nsf_RecordUnsuccessfulPoll f, False))"

section \<open>The snowflake contract\<close>

text \<open>
  A poll outcome: success for a choice, or no choice reached the threshold.
  A history is the list of outcomes, oldest first.
\<close>

datatype 'c outcome = Success 'c | Unsuccessful

text \<open>
  The length of the unbroken series of successes for one choice that ends a history, read from
  its newest outcome (the argument is the history newest first).
\<close>

fun same_run :: "'c \<Rightarrow> 'c outcome list \<Rightarrow> nat" where
  "same_run c (Success d # h) = (if d = c then Suc (same_run c h) else 0)"
| "same_run c h = 0"

fun run_length :: "'c outcome list \<Rightarrow> nat" where
  "run_length (Success c # h) = Suc (same_run c h)"
| "run_length h = 0"

fun last_success :: "'c \<Rightarrow> 'c outcome list \<Rightarrow> 'c" where
  "last_success c0 [] = c0"
| "last_success c0 (Success c # h) = c"
| "last_success c0 (Unsuccessful # h) = last_success c0 h"

definition poll_step :: "('c \<Rightarrow> 's \<Rightarrow> 's) \<Rightarrow> ('s \<Rightarrow> 's) \<Rightarrow> 'c outcome \<Rightarrow> 's \<Rightarrow> 's" where
  "poll_step succ unsucc e s = (case e of Success c \<Rightarrow> succ c s | Unsuccessful \<Rightarrow> unsucc s)"

definition run_polls :: "('c \<Rightarrow> 's \<Rightarrow> 's) \<Rightarrow> ('s \<Rightarrow> 's) \<Rightarrow> 'c outcome list \<Rightarrow> 's \<Rightarrow> 's" where
  "run_polls succ unsucc h s = fold (poll_step succ unsucc) h s"

lemma run_polls_Nil [simp]: "run_polls succ unsucc [] s = s"
  by (simp add: run_polls_def)

lemma run_polls_append: "run_polls succ unsucc (h @ h') s = run_polls succ unsucc h' (run_polls succ unsucc h s)"
  by (simp add: run_polls_def)

lemma run_polls_snoc [simp]:
  "run_polls succ unsucc (h @ [e]) s = poll_step succ unsucc e (run_polls succ unsucc h s)"
  by (simp add: run_polls_def)

lemma same_run_eq: "c = last_success c0 h \<or> h = [] \<Longrightarrow> same_run c h = run_length h"
  by (cases h rule: run_length.cases) auto

lemma same_run_neq: "c \<noteq> last_success c0 h \<Longrightarrow> same_run c h = 0"
  by (cases h rule: run_length.cases) auto

lemma same_run_ge_iff: "n \<le> same_run c h \<longleftrightarrow> (\<exists>h'. h = replicate n (Success c) @ h')"
proof (induction n arbitrary: h)
  case 0
  then show ?case by simp
next
  case (Suc n)
  show ?case
    by (cases h rule: run_length.cases) (auto simp: Suc)
qed

lemma run_length_ge_iff:
  "0 < n \<Longrightarrow> n \<le> run_length h \<longleftrightarrow> (\<exists>c h'. h = replicate n (Success c) @ h')"
proof (cases h rule: run_length.cases)
  case (1 c h0)
  assume "0 < n"
  then obtain m where "n = Suc m" by (cases n) auto
  with 1 same_run_ge_iff [of m c h0] show ?thesis by auto
qed (auto simp: neq_Nil_conv dest: gr0_implies_Suc)

lemma ex_prefix_snoc:
  "(\<exists>p q. h @ [e] = p @ q \<and> P p) \<longleftrightarrow> (\<exists>p q. h = p @ q \<and> P p) \<or> P (h @ [e])"
proof
  assume "\<exists>p q. h @ [e] = p @ q \<and> P p"
  then obtain p q where pq: "h @ [e] = p @ q" "P p" by blast
  then show "(\<exists>p q. h = p @ q \<and> P p) \<or> P (h @ [e])"
    by (cases q rule: rev_cases) auto
next
  assume "(\<exists>p q. h = p @ q \<and> P p) \<or> P (h @ [e])"
  then show "\<exists>p q. h @ [e] = p @ q \<and> P p"
    by (metis append.right_neutral append_assoc)
qed

locale snowflake_machine =
  fixes succ :: "'c \<Rightarrow> 's \<Rightarrow> 's"
    and unsucc :: "'s \<Rightarrow> 's"
    and pref :: "'s \<Rightarrow> 'c"
    and conf :: "'s \<Rightarrow> int"
    and beta :: "'s \<Rightarrow> int"
    and fin :: "'s \<Rightarrow> bool"
  assumes succ_fin: "fin s \<Longrightarrow> fin (succ c s) \<and> pref (succ c s) = pref s"
    and succ_undecided:
      "\<not> fin s \<Longrightarrow> pref (succ c s) = c \<and> conf (succ c s) = (if pref s = c then conf s + 1 else 1) \<and>
         fin (succ c s) = (beta s \<le> conf (succ c s))"
    and succ_beta: "beta (succ c s) = beta s"
    and unsucc_all: "pref (unsucc s) = pref s" "conf (unsucc s) = 0" "fin (unsucc s) = fin s"
      "beta (unsucc s) = beta s"
begin

abbreviation step :: "'c outcome \<Rightarrow> 's \<Rightarrow> 's" where
  "step \<equiv> poll_step succ unsucc"

abbreviation polls :: "'c outcome list \<Rightarrow> 's \<Rightarrow> 's" where
  "polls \<equiv> run_polls succ unsucc"

lemma step_fin: "fin s \<Longrightarrow> fin (step e s) \<and> pref (step e s) = pref s"
  by (cases e) (simp_all add: poll_step_def succ_fin unsucc_all)

lemma polls_fin: "fin s \<Longrightarrow> fin (polls h s) \<and> pref (polls h s) = pref s"
  by (induction h rule: rev_induct) (simp_all add: step_fin)

lemma beta_polls [simp]: "beta (polls h s) = beta s"
  by (induction h rule: rev_induct) (simp_all add: poll_step_def succ_beta unsucc_all split: outcome.split)

text \<open>While undecided, the confidence is the length of the current series of successes.\<close>

lemma undecided_state:
  assumes "\<not> fin (polls h s)" and "conf s = 0"
  shows "pref (polls h s) = last_success (pref s) (rev h) \<and> conf (polls h s) = int (run_length (rev h))"
  using assms(1)
proof (induction h rule: rev_induct)
  case Nil
  with assms(2) show ?case by simp
next
  case (snoc e h)
  let ?t = "polls h s"
  from snoc.prems have nf: "\<not> fin ?t" using step_fin by auto
  with snoc.IH have IH: "pref ?t = last_success (pref s) (rev h)" "conf ?t = int (run_length (rev h))"
    by auto
  show ?case
  proof (cases e)
    case Unsuccessful
    with IH show ?thesis by (simp add: poll_step_def unsucc_all)
  next
    case (Success c)
    show ?thesis
      using succ_undecided [OF nf, of c] IH Success
      by (auto simp: poll_step_def same_run_eq [of _ "pref s"] same_run_neq [of _ "pref s"])
  qed
qed

lemma fin_iff_prefix:
  assumes "\<not> fin s" and "conf s = 0" and "0 < beta s"
  shows "fin (polls h s) \<longleftrightarrow> (\<exists>p q. h = p @ q \<and> beta s \<le> int (run_length (rev p)))"
proof (induction h rule: rev_induct)
  case Nil
  with assms show ?case by simp
next
  case (snoc e h)
  let ?t = "polls h s"
  have split: "(\<exists>p q. h @ [e] = p @ q \<and> beta s \<le> int (run_length (rev p))) \<longleftrightarrow>
     fin ?t \<or> beta s \<le> int (run_length (e # rev h))"
    unfolding snoc.IH ex_prefix_snoc by simp
  show ?case
  proof (cases "fin ?t")
    case True
    then show ?thesis using split step_fin by simp
  next
    case False
    note u = undecided_state [OF False assms(2)]
    have "fin (step e ?t) \<longleftrightarrow> beta s \<le> int (run_length (e # rev h))"
    proof (cases e)
      case Unsuccessful
      with False assms(3) show ?thesis by (simp add: poll_step_def unsucc_all)
    next
      case (Success c)
      show ?thesis
        using succ_undecided [OF False, of c] u Success
        by (auto simp: poll_step_def same_run_eq [of _ "pref s"] same_run_neq [of _ "pref s"])
    qed
    with False split show ?thesis by simp
  qed
qed

text \<open>
  A fresh snowflake is finalized exactly when its history holds \<open>beta\<close> consecutive
  successful polls for one choice.
\<close>

lemma fin_iff_consecutive:
  assumes "\<not> fin s" and "conf s = 0" and "0 < beta s"
  shows "fin (polls h s) \<longleftrightarrow> (\<exists>c p q. h = p @ replicate (nat (beta s)) (Success c) @ q)"
proof -
  have pos: "0 < nat (beta s)" using assms(3) by simp
  have run: "beta s \<le> int (run_length (rev p)) \<longleftrightarrow>
      (\<exists>c r. p = r @ replicate (nat (beta s)) (Success c))" for p
  proof -
    have "beta s \<le> int (run_length (rev p)) \<longleftrightarrow>
        (\<exists>c r. rev p = replicate (nat (beta s)) (Success c) @ r)"
      using run_length_ge_iff [OF pos, of "rev p"] by (simp add: nat_le_iff)
    also have "\<dots> \<longleftrightarrow> (\<exists>c r. p = rev r @ replicate (nat (beta s)) (Success c))"
      by (simp add: rev_swap)
    finally show ?thesis by (metis rev_rev_ident)
  qed
  have "(\<exists>p q. h = p @ q \<and> beta s \<le> int (run_length (rev p))) \<longleftrightarrow>
      (\<exists>c p q. h = (p @ replicate (nat (beta s)) (Success c)) @ q)"
    unfolding run by blast
  then show ?thesis using fin_iff_prefix [OF assms] by (simp only: append_assoc)
qed

text \<open>Successes for \<open>c\<close> leave a snowflake that was undecided before them preferring \<open>c\<close>.\<close>

lemma pref_after_success:
  "\<not> fin s \<Longrightarrow> 0 < n \<Longrightarrow> pref (polls (replicate n (Success c)) s) = c"
proof (induction n)
  case 0
  then show ?case by simp
next
  case (Suc n)
  have r: "polls (replicate (Suc n) (Success c)) s = step (Success c) (polls (replicate n (Success c)) s)"
    by (simp only: run_polls_snoc replicate_append_same replicate_Suc flip: run_polls_snoc)
  show ?case
  proof (cases "n = 0")
    case True
    with Suc.prems show ?thesis using r by (simp add: poll_step_def succ_undecided)
  next
    case False
    then have "pref (polls (replicate n (Success c)) s) = c" using Suc by simp
    then show ?thesis
      unfolding r by (cases "fin (polls (replicate n (Success c)) s)")
        (simp_all add: poll_step_def succ_fin succ_undecided)
  qed
qed

lemma decision_is_final:
  assumes "\<not> fin s" and "conf s = 0" and "0 < beta s"
    and und: "\<not> fin (polls p s)"
  shows "fin (polls (p @ replicate (nat (beta s)) (Success c) @ q) s) \<and>
    pref (polls (p @ replicate (nat (beta s)) (Success c) @ q) s) = c"
proof -
  let ?d = "polls (p @ replicate (nat (beta s)) (Success c)) s"
  have "fin ?d" using fin_iff_consecutive [OF assms(1-3)] by (metis append.right_neutral)
  moreover have "pref ?d = c"
    using pref_after_success [OF und, of "nat (beta s)" c] assms(3) by (simp add: run_polls_append)
  ultimately show ?thesis
    using polls_fin [of ?d q] by (simp add: run_polls_append)
qed

end

section \<open>The instances meet the contract\<close>

lemmas snowflake_defs =
  bsl_RecordSuccessfulPoll_def bsf_RecordSuccessfulPoll_def bsf_RecordUnsuccessfulPoll_def
  bsb_RecordSuccessfulPoll_def usf_RecordSuccessfulPoll_def usf_RecordUnsuccessfulPoll_def
  usb_RecordSuccessfulPoll_def nsl_RecordSuccessfulPoll_def nsf_RecordSuccessfulPoll_def
  nsf_RecordUnsuccessfulPoll_def nsb_RecordSuccessfulPoll_def

interpretation binary_flake:
  snowflake_machine bsb_RecordSuccessfulPoll "bsf_RecordUnsuccessfulPoll :: binarySnowball \<Rightarrow> binarySnowball"
    bsl_preference bsf_confidence bsf_beta bsf_finalized
  by unfold_locales (auto simp: snowflake_defs Let_def)

interpretation unary_flake:
  snowflake_machine "\<lambda>_ :: unit. usb_RecordSuccessfulPoll"
    "usf_RecordUnsuccessfulPoll :: unarySnowball \<Rightarrow> unarySnowball"
    "\<lambda>_. ()" usf_confidence usf_beta usf_finalized
  by unfold_locales (auto simp: snowflake_defs Let_def)

text \<open>The threshold of an n-ary instance depends on whether a conflict was ever added.\<close>

definition nsf_threshold :: "'a nnarySnowflake_scheme \<Rightarrow> int" where
  "nsf_threshold sf =
     (if nsf_rogue sf then nsf_betaRogue sf else min (nsf_betaVirtuous sf) (nsf_betaRogue sf))"

interpretation nnary_flake:
  snowflake_machine "nsb_RecordSuccessfulPoll :: ID \<Rightarrow> 'a nnarySnowball_scheme \<Rightarrow> 'a nnarySnowball_scheme"
    nsf_RecordUnsuccessfulPoll nsl_preference nsf_confidence nsf_threshold nsf_finalized
  by unfold_locales (auto simp: snowflake_defs Let_def nsf_threshold_def)

section \<open>Snowball preferences follow the poll counts\<close>

definition binary_history :: "nat outcome list \<Rightarrow> bool" where
  "binary_history h \<longleftrightarrow> set h \<subseteq> {Success 0, Success 1, Unsuccessful}"

definition fresh_binary :: "int \<Rightarrow> nat \<Rightarrow> binarySnowball" where
  "fresh_binary beta choice = bsb_Initialize beta choice binarySnowball0"

lemma fresh_binary_simps [simp]:
  "bsf_finalized (fresh_binary beta c) = False" "bsf_confidence (fresh_binary beta c) = 0"
  "bsf_beta (fresh_binary beta c) = beta" "bsl_preference (fresh_binary beta c) = c"
  "bsb_preference (fresh_binary beta c) = c" "bsb_numSuccessfulPolls (fresh_binary beta c) = (0, 0)"
  by (simp_all add: fresh_binary_def bsb_Initialize_def bsf_Initialize_def bsl_Initialize_def binarySnowball0_def)

abbreviation binary_polls :: "nat outcome list \<Rightarrow> binarySnowball \<Rightarrow> binarySnowball" where
  "binary_polls \<equiv> run_polls bsb_RecordSuccessfulPoll bsf_RecordUnsuccessfulPoll"

lemma bsb_unsuccessful_fields [simp]:
  "bsb_numSuccessfulPolls (bsf_RecordUnsuccessfulPoll sb) = bsb_numSuccessfulPolls sb"
  "bsb_preference (bsf_RecordUnsuccessfulPoll sb) = bsb_preference sb"
  by (simp_all add: bsf_RecordUnsuccessfulPoll_def)

lemma bsb_success_fields:
  "bsb_numSuccessfulPolls (bsb_RecordSuccessfulPoll c sb) =
     upd2 c (sel2 c (bsb_numSuccessfulPolls sb) + 1) (bsb_numSuccessfulPolls sb)"
  "bsb_preference (bsb_RecordSuccessfulPoll c sb) =
     (if sel2 (1 - c) (bsb_numSuccessfulPolls (bsb_RecordSuccessfulPoll c sb))
         < sel2 c (bsb_numSuccessfulPolls (bsb_RecordSuccessfulPoll c sb)) then c else bsb_preference sb)"
  by (auto simp: snowflake_defs Let_def upd2_def sel2_def)

text \<open>The counters hold \<open>m\<close> and \<open>n\<close> successes and the preference is the larger one.\<close>

definition bsb_leads :: "nat \<Rightarrow> nat \<Rightarrow> binarySnowball \<Rightarrow> bool" where
  "bsb_leads m n sb \<longleftrightarrow> bsb_numSuccessfulPolls sb = (int m, int n) \<and>
     (bsb_preference sb = 0 \<and> n \<le> m \<or> bsb_preference sb = 1 \<and> m \<le> n)"

lemma bsb_leads_step:
  assumes "bsb_leads m n sb"
  shows "bsb_leads (Suc m) n (bsb_RecordSuccessfulPoll 0 sb)"
    and "bsb_leads m (Suc n) (bsb_RecordSuccessfulPoll 1 sb)"
    and "bsb_leads m n (bsf_RecordUnsuccessfulPoll sb)"
  using assms by (auto simp: bsb_leads_def bsb_success_fields upd2_def sel2_def)

lemma bsb_counts:
  assumes "binary_history h" and "c0 \<le> 1"
  shows "bsb_leads (count_list h (Success 0)) (count_list h (Success 1)) (binary_polls h (fresh_binary beta c0))"
  using assms(1)
proof (induction h rule: rev_induct)
  case Nil
  with assms(2) show ?case by (auto simp: bsb_leads_def)
next
  case (snoc e h)
  then have IH: "bsb_leads (count_list h (Success 0)) (count_list h (Success 1)) (binary_polls h (fresh_binary beta c0))"
    and e: "e \<in> {Success 0, Success 1, Unsuccessful}"
    by (auto simp: binary_history_def)
  from e bsb_leads_step [OF IH] show ?case by (auto simp: poll_step_def)
qed

abbreviation nnary_polls ::
  "ID outcome list \<Rightarrow> 'a nnarySnowball_scheme \<Rightarrow> 'a nnarySnowball_scheme" where
  "nnary_polls \<equiv> run_polls nsb_RecordSuccessfulPoll nsf_RecordUnsuccessfulPoll"

lemma nsb_unsuccessful_fields [simp]:
  "nsb_numSuccessfulPolls (nsf_RecordUnsuccessfulPoll sb) = nsb_numSuccessfulPolls sb"
  "nsb_preference (nsf_RecordUnsuccessfulPoll sb) = nsb_preference sb"
  "nsb_maxSuccessfulPolls (nsf_RecordUnsuccessfulPoll sb) = nsb_maxSuccessfulPolls sb"
  by (simp_all add: nsf_RecordUnsuccessfulPoll_def)

lemma nsb_success_fields:
  "nsb_numSuccessfulPolls (nsb_RecordSuccessfulPoll c sb) =
     AList.update c (mget0 (nsb_numSuccessfulPolls sb) c + 1) (nsb_numSuccessfulPolls sb)"
  "nsb_preference (nsb_RecordSuccessfulPoll c sb) =
     (if nsb_maxSuccessfulPolls sb < mget0 (nsb_numSuccessfulPolls sb) c + 1 then c else nsb_preference sb)"
  "nsb_maxSuccessfulPolls (nsb_RecordSuccessfulPoll c sb) =
     max (nsb_maxSuccessfulPolls sb) (mget0 (nsb_numSuccessfulPolls sb) c + 1)"
  by (auto simp: snowflake_defs Let_def)

lemma nsb_counts:
  assumes "nsb_numSuccessfulPolls s = []" and "nsb_maxSuccessfulPolls s = 0"
  shows "(\<forall>c. mget0 (nsb_numSuccessfulPolls (nnary_polls h s)) c = int (count_list h (Success c))) \<and>
    nsb_maxSuccessfulPolls (nnary_polls h s) = int (count_list h (Success (nsb_preference (nnary_polls h s)))) \<and>
    (\<forall>c. count_list h (Success c) \<le> count_list h (Success (nsb_preference (nnary_polls h s))))"
proof (induction h rule: rev_induct)
  case Nil
  with assms show ?case by simp
next
  case (snoc e h)
  let ?t = "nnary_polls h s"
  show ?case
  proof (cases e)
    case Unsuccessful
    with snoc.IH show ?thesis by (simp add: poll_step_def)
  next
    case (Success d)
    have m: "mget0 (nsb_numSuccessfulPolls ?t) c = int (count_list h (Success c))" for c
      using snoc.IH by blast
    have le: "count_list h (Success c) \<le> count_list h (Success (nsb_preference ?t))" for c
      using snoc.IH by blast
    have mx: "nsb_maxSuccessfulPolls ?t = int (count_list h (Success (nsb_preference ?t)))"
      using snoc.IH by blast
    show ?thesis
      using Success le le [of d]
      by (auto simp: poll_step_def nsb_success_fields m mx max_def intro: le_SucI order_trans)
  qed
qed

section \<open>Flat: majorities and finality\<close>

lemma Verify_None:
  assumes "Verify p = None"
  shows "K p div 2 < Alpha p" "Alpha p \<le> K p" "0 < Alpha p" "0 < BetaVirtuous p" "BetaVirtuous p \<le> BetaRogue p"
proof -
  have A: "K p sdiv 2 < Alpha p" "Alpha p \<le> K p" and B: "0 < BetaVirtuous p" "BetaVirtuous p \<le> BetaRogue p"
    using assms by (auto simp: Verify_def split: if_splits)
  then show "0 < BetaVirtuous p" "BetaVirtuous p \<le> BetaRogue p" "Alpha p \<le> K p" by auto
  have "0 \<le> K p"
  proof (rule ccontr)
    assume "\<not> 0 \<le> K p"
    then have "K p sdiv 2 = - (- K p div 2)" by (simp add: signed_divide_int_def)
    with A \<open>\<not> 0 \<le> K p\<close> show False by linarith
  qed
  then have "K p sdiv 2 = K p div 2" by (auto simp: signed_divide_int_def sgn_if)
  with A \<open>0 \<le> K p\<close> show "K p div 2 < Alpha p" "0 < Alpha p" by linarith+
qed

lemma Mode_ge_iff:
  "bag_inv b \<Longrightarrow> a \<le> snd (Mode b) \<longleftrightarrow> (\<exists>c. a \<le> Count b c)"
  by (auto simp: Mode_def bag_inv_def intro: order_trans)

lemma Mode_Count: "bag_inv b \<Longrightarrow> Count b (fst (Mode b)) = snd (Mode b)"
  by (simp add: Mode_def bag_inv_def)

lemma flat_Initialize_fields:
  "nsb_numSuccessfulPolls (flat_Initialize params choice Flat0) = []"
  "nsb_maxSuccessfulPolls (flat_Initialize params choice Flat0) = 0"
  by (simp_all add: flat_Initialize_def nsb_Initialize_def nsf_Initialize_def nsl_Initialize_def Flat0_def)

lemma find_unique:
  assumes "\<And>c d. P c \<Longrightarrow> P d \<Longrightarrow> c = d" and "P x" and "x \<in> set xs"
  shows "find P xs = Some x"
  using assms by (induction xs) auto

lemma flat_poll_majority:
  assumes "Verify (flat_params f) = None" and "bag_inv votes" and "Len votes \<le> K (flat_params f)"
  shows "flat_RecordPoll votes f =
    (case find (\<lambda>c. Alpha (flat_params f) \<le> Count votes c) (BagList votes) of
       Some c \<Rightarrow> (nsb_RecordSuccessfulPoll c f, True) | None \<Rightarrow> (nsf_RecordUnsuccessfulPoll f, False)) \<and>
    (\<forall>c d. Alpha (flat_params f) \<le> Count votes c \<and> Alpha (flat_params f) \<le> Count votes d \<longrightarrow> c = d)"
proof
  let ?a = "Alpha (flat_params f)"
  note V = Verify_None [OF assms(1)]
  have unique: "c = d" if "?a \<le> Count votes c" "?a \<le> Count votes d" for c d
    using vote_bag.two_counts_le_len [OF assms(2), of c d] that V(1) assms(3) by fastforce
  then show "\<forall>c d. ?a \<le> Count votes c \<and> ?a \<le> Count votes d \<longrightarrow> c = d" by blast
  have inB: "c \<in> set (BagList votes)" if "?a \<le> Count votes c" for c
    using that V(3) assms(2) mget0_pos_iff [of "bag_counts votes" c]
    by (simp add: BagList_def Count_def bag_inv_counts_ok)
  show "flat_RecordPoll votes f =
    (case find (\<lambda>c. ?a \<le> Count votes c) (BagList votes) of
       Some c \<Rightarrow> (nsb_RecordSuccessfulPoll c f, True) | None \<Rightarrow> (nsf_RecordUnsuccessfulPoll f, False))"
  proof (cases "?a \<le> snd (Mode votes)")
    case True
    then have P: "?a \<le> Count votes (fst (Mode votes))" using Mode_Count [OF assms(2)] by simp
    have "find (\<lambda>c. ?a \<le> Count votes c) (BagList votes) = Some (fst (Mode votes))"
      by (rule find_unique) (use unique P inB in auto)
    with True show ?thesis by (simp add: flat_RecordPoll_def case_prod_beta)
  next
    case False
    then have "find (\<lambda>c. ?a \<le> Count votes c) (BagList votes) = None"
      using Mode_ge_iff [OF assms(2)] by (auto simp: find_None_iff)
    with False show ?thesis by (simp add: flat_RecordPoll_def case_prod_beta)
  qed
qed

datatype flat_op = OpAdd ID | OpPoll Bag | OpUnsuccessful

definition flat_step :: "flat_op \<Rightarrow> Flat \<Rightarrow> Flat" where
  "flat_step op f = (case op of OpAdd c \<Rightarrow> nsf_Add c f | OpPoll b \<Rightarrow> fst (flat_RecordPoll b f)
     | OpUnsuccessful \<Rightarrow> nsf_RecordUnsuccessfulPoll f)"

lemma flat_step_finalized:
  "nsf_finalized f \<Longrightarrow> nsf_finalized (flat_step op f) \<and> nsl_preference (flat_step op f) = nsl_preference f"
  by (cases op) (auto simp: flat_step_def flat_RecordPoll_def nsf_Add_def snowflake_defs Let_def
      split: prod.split)

text \<open>
  What the callers of a consensus instance rely on: operations keep its invariant, and once it
  is finalized no operation changes the decision. The same then holds of any sequence of
  operations.
\<close>

locale consensus_instance =
  fixes step :: "'o \<Rightarrow> 's \<Rightarrow> 's"
    and pref :: "'s \<Rightarrow> 'p"
    and fin :: "'s \<Rightarrow> bool"
    and inv :: "'s \<Rightarrow> bool"
  assumes inv_step: "inv s \<Longrightarrow> inv (step op s)"
    and fin_step: "inv s \<Longrightarrow> fin s \<Longrightarrow> fin (step op s) \<and> pref (step op s) = pref s"
begin

lemma run_inv: "inv s \<Longrightarrow> inv (fold step ops s)"
  by (induction ops arbitrary: s) (simp_all add: inv_step)

lemma run_final: "inv s \<Longrightarrow> fin s \<Longrightarrow> fin (fold step ops s) \<and> pref (fold step ops s) = pref s"
  by (induction ops arbitrary: s) (simp_all add: inv_step fin_step)

end

interpretation flat_instance: consensus_instance flat_step nsb_Preference nsf_finalized "\<lambda>_. True"
  by unfold_locales (simp_all add: flat_step_finalized nsb_Preference_def)

definition example_params :: Parameters where
  "example_params = \<lparr>K = 3, Alpha = 2, BetaVirtuous = 1, BetaRogue = 2, ConcurrentRepolls = 1,
     OptimalProcessing = 1, MaxOutstandingItems = 1, MaxItemProcessingTime = 1, MixedQueryNumPushVdr = 1,
     MixedQueryNumPushNonVdr = 1\<rparr>"

definition example_params3 :: Parameters where
  "example_params3 = example_params\<lparr>BetaVirtuous := 3, BetaRogue := 3\<rparr>"

section \<open>Properties\<close>

text \<open>
  A freshly initialised binary snowball instance with threshold \<open>beta\<close> is finalized after a history of
  polls exactly when the history has \<open>beta\<close> consecutive successful polls for one and the same
  choice; other successes and unsuccessful polls in between reset the count.
\<close>

theorem binary_snowball_finalized_iff:
  assumes "0 < beta"
  shows "bsf_finalized (binary_polls h (fresh_binary beta choice)) \<longleftrightarrow>
    (\<exists>c p q. h = p @ replicate (nat beta) (Success c) @ q)"
  using binary_flake.fin_iff_consecutive [of "fresh_binary beta choice" h] assms by simp

theorem binary_snowball_finalized_iff_witness:
  "bsf_finalized (binary_polls [Success 1, Unsuccessful, Success 0, Success 0] (fresh_binary 2 1))"
proof -
  have "\<exists>c p q. [Success 1, Unsuccessful, Success 0, Success 0] = p @ replicate (nat 2) (Success (c :: nat)) @ q"
    by (rule exI [of _ 0], rule exI [of _ "[Success 1, Unsuccessful]"], rule exI [of _ "[]"])
      (simp add: numeral_2_eq_2)
  then show ?thesis using binary_snowball_finalized_iff [of 2] by simp
qed

text \<open>
  A decision of a binary snowball instance is final: when an undecided instance sees \<open>beta\<close> consecutive
  successful polls for \<open>c\<close>, it is finalized and its preference is \<open>c\<close> after any further polls,
  whatever they are.
\<close>

theorem binary_snowball_decision_final:
  assumes "0 < beta" and "\<not> bsf_finalized (binary_polls p (fresh_binary beta choice))"
  shows "bsf_finalized (binary_polls (p @ replicate (nat beta) (Success c) @ q) (fresh_binary beta choice)) \<and>
    bsb_Preference (binary_polls (p @ replicate (nat beta) (Success c) @ q) (fresh_binary beta choice)) = c"
  using binary_flake.decision_is_final [of "fresh_binary beta choice" p c q] assms
  by (simp add: bsb_Preference_def)

theorem binary_snowball_decision_final_witness:
  "bsb_Preference (binary_polls ([Success 1, Success 1] @ replicate (nat 3) (Success 0) @ [Success 1, Success 1])
     (fresh_binary 3 1)) = 0"
proof -
  have "\<not> bsf_finalized (binary_polls [Success 1, Success 1] (fresh_binary 3 1))" by code_simp
  from binary_snowball_decision_final [OF _ this] show ?thesis by simp
qed

text \<open>
  While a snowball instance is undecided its preference is a choice with the most
  successful polls so far: for the binary instance over histories of its two choices, with the
  counters holding the numbers of successful polls.
\<close>

theorem binary_snowball_preference_leads:
  assumes "binary_history h" and "choice \<le> 1"
    and "\<not> bsf_finalized (binary_polls h (fresh_binary beta choice))"
  shows "let sb = binary_polls h (fresh_binary beta choice) in
    bsb_numSuccessfulPolls sb = (int (count_list h (Success 0)), int (count_list h (Success 1))) \<and>
    bsb_Preference sb \<le> 1 \<and> sel2 (1 - bsb_Preference sb) (bsb_numSuccessfulPolls sb) \<le>
      sel2 (bsb_Preference sb) (bsb_numSuccessfulPolls sb)"
  using bsb_counts [OF assms(1,2), of beta] assms(3)
  by (auto simp: bsb_leads_def bsb_Preference_def sel2_def Let_def)

theorem binary_snowball_preference_leads_witness:
  "bsb_Preference (binary_polls [Success 0, Success 0, Success 1] (fresh_binary 3 1)) = 0 \<and>
   sel2 1 (bsb_numSuccessfulPolls (binary_polls [Success 0, Success 0, Success 1] (fresh_binary 3 1))) \<le>
   sel2 0 (bsb_numSuccessfulPolls (binary_polls [Success 0, Success 0, Success 1] (fresh_binary 3 1)))"
proof -
  have *: "\<not> bsf_finalized (binary_polls [Success 0, Success 0, Success 1] (fresh_binary 3 1))"
      "bsb_Preference (binary_polls [Success 0, Success 0, Success 1] (fresh_binary 3 1)) = 0" by code_simp+
  have "binary_history [Success 0, Success 0, Success 1]" by (simp add: binary_history_def)
  from binary_snowball_preference_leads [OF this _ *(1)] *(2) show ?thesis by (simp add: Let_def sel2_def)
qed

text \<open>
  The n-ary snowball of the flat instance prefers, while undecided, a choice with at least as many
  successful polls as every other choice, and its counters are the numbers of those polls.
\<close>

theorem nnary_snowball_preference_leads:
  assumes "\<not> nsf_finalized (nnary_polls h (flat_Initialize params choice Flat0))"
  shows "let sb = nnary_polls h (flat_Initialize params choice Flat0) in
    mget0 (nsb_numSuccessfulPolls sb) c = int (count_list h (Success c)) \<and>
    count_list h (Success c) \<le> count_list h (Success (nsb_Preference sb))"
  using nsb_counts [of "flat_Initialize params choice Flat0" h] assms
  by (simp add: Let_def nsb_Preference_def flat_Initialize_fields)

theorem nnary_snowball_preference_leads_witness:
  "let sb = nnary_polls [Success 7, Unsuccessful, Success 8, Success 7] (flat_Initialize example_params3 4 Flat0) in
   nsb_Preference sb = 7 \<and> mget0 (nsb_numSuccessfulPolls sb) 8 = 1"
proof -
  let ?h = "[Success 7, Unsuccessful, Success 8, Success 7] :: ID outcome list"
  have *: "\<not> nsf_finalized (nnary_polls ?h (flat_Initialize example_params3 4 Flat0))"
     "nsb_Preference (nnary_polls ?h (flat_Initialize example_params3 4 Flat0)) = 7" by code_simp+
  from nnary_snowball_preference_leads [OF *(1), of 8] *(2) show ?thesis by (simp add: Let_def)
qed

text \<open>
  With verified parameters and at most \<open>K\<close> votes, a poll of the flat instance is successful
  exactly when some choice has \<open>Alpha\<close> votes; that choice is unique, and the poll counts as one
  success for it. Otherwise the instance records an unsuccessful poll.
\<close>

theorem flat_RecordPoll_majority:
  assumes "Verify (flat_params f) = None" and "bag_inv votes" and "Len votes \<le> K (flat_params f)"
  shows "flat_RecordPoll votes f =
    (case find (\<lambda>c. Alpha (flat_params f) \<le> Count votes c) (BagList votes) of
       Some c \<Rightarrow> (nsb_RecordSuccessfulPoll c f, True) | None \<Rightarrow> (nsf_RecordUnsuccessfulPoll f, False)) \<and>
    (\<forall>c d. Alpha (flat_params f) \<le> Count votes c \<and> Alpha (flat_params f) \<le> Count votes d \<longrightarrow> c = d)"
  by (rule flat_poll_majority [OF assms])

theorem flat_RecordPoll_majority_witness:
  "let f = flat_Initialize example_params 4 Flat0; votes = AddCount (AddCount emptyBag 5 2) 4 1 in
   flat_RecordPoll votes f = (nsb_RecordSuccessfulPoll 5 f, True)"
proof -
  let ?f = "flat_Initialize example_params 4 Flat0" and ?votes = "AddCount (AddCount emptyBag 5 2) 4 1"
  have "Verify (flat_params ?f) = None" "Len ?votes \<le> K (flat_params ?f)"
    "find (\<lambda>c. Alpha (flat_params ?f) \<le> Count ?votes c) (BagList ?votes) = Some 5" by code_simp+
  with flat_RecordPoll_majority [of ?f ?votes] show ?thesis
    by (simp add: bag_inv_AddCount)
qed

text \<open>
  Once the flat instance is finalized, no sequence of further operations (adding choices,
  polls with any votes, unsuccessful polls) unfinalizes it or changes its preference.
\<close>

theorem flat_finalized_forever:
  assumes "nsf_finalized f"
  shows "nsf_finalized (fold flat_step ops f) \<and> nsb_Preference (fold flat_step ops f) = nsb_Preference f"
  using flat_instance.run_final assms by simp

theorem flat_finalized_forever_witness:
  "let f = flat_step (OpPoll (AddCount emptyBag 5 3)) (flat_Initialize example_params 5 Flat0) in
   nsf_finalized f \<and> nsb_Preference (fold flat_step [OpAdd 6, OpPoll (AddCount emptyBag 6 3)] f) = 5"
proof -
  let ?f = "flat_step (OpPoll (AddCount emptyBag 5 3)) (flat_Initialize example_params 5 Flat0)"
  have "nsf_finalized ?f" "nsb_Preference ?f = 5" by code_simp+
  with flat_finalized_forever [of ?f "[OpAdd 6, OpPoll (AddCount emptyBag 6 3)]"] show ?thesis
    by (simp add: Let_def)
qed

end
