(* ===== verification/SnowballTree.thy ===== *)
theory SnowballTree
  imports Snowball
begin

text \<open>
  \<open>src/snow/consensus/snowball/tree.go\<close>: snowball over many choices as a modified patricia
  tree of unary and binary snowball instances, one per bit of the identifiers.

  A node's pointer to its tree is only used to read the (constant) parameters, which are an
  argument here. Go mutates nodes in place and returns the node that takes the place of the
  receiver; no node has two parents, so a mutated node is simply a new value.
\<close>

section \<open>Nodes\<close>

datatype node =
    UnaryNode (un_preference: ID) (un_decidedPrefix: nat) (un_commonPrefix: nat)
      (un_snowball: unarySnowball) (un_shouldReset: bool) (un_child: "node option")
  | BinaryNode (bn_preferences: "ID \<times> ID") (bn_bit: nat) (bn_snowball: binarySnowball)
      (bn_shouldReset: "bool \<times> bool") (bn_children: "node option \<times> node option")

fun node_Preference :: "node \<Rightarrow> ID" where
  "node_Preference (UnaryNode p d c sb r ch) = p"
| "node_Preference (BinaryNode ps b sb r ch) = sel2 (bsb_Preference sb) ps"

fun node_DecidedPrefix :: "node \<Rightarrow> nat" where
  "node_DecidedPrefix (UnaryNode p d c sb r ch) = d"
| "node_DecidedPrefix (BinaryNode ps b sb r ch) = b"

fun node_Finalized :: "node \<Rightarrow> bool" where
  "node_Finalized (UnaryNode p d c sb r ch) = usf_finalized sb"
| "node_Finalized (BinaryNode ps b sb r ch) = bsf_finalized sb"

text \<open>
  The part of \<open>unaryNode.Add\<close> that splits a node at the bit \<open>index\<close> where the new choice
  first differs; the four branches are cases 2 to 5 of the source's comment.
\<close>

definition newUnarySnowball :: "Parameters \<Rightarrow> unarySnowball" where
  "newUnarySnowball prm = usf_Initialize (BetaVirtuous prm) unarySnowball0"

definition unaryNode_split ::
  "Parameters \<Rightarrow> ID \<Rightarrow> nat \<Rightarrow> nat \<Rightarrow> unarySnowball \<Rightarrow> bool \<Rightarrow> node option \<Rightarrow> ID \<Rightarrow> nat \<Rightarrow> node" where
  "unaryNode_split prm p d c sb r child newChoice index =
     (let bit = Bit p index;
          b = BinaryNode (upd2 (1 - bit) newChoice (upd2 bit p (0, 0))) index
                (usb_Extend (BetaRogue prm) bit sb) (r, r);
          newChild = UnaryNode newChoice (index + 1) NumBits (newUnarySnowball prm) False None
      in if d + 1 = c then
           b (if child \<noteq> None then upd2 (1 - bit) (Some newChild) (upd2 bit child (None, None))
              else upd2 bit child (None, None))
         else if index = d then
           b (upd2 (1 - bit) (Some newChild) (upd2 bit (Some (UnaryNode p (d + 1) c sb r child)) (None, None)))
         else if index + 1 = c then
           UnaryNode p d (c - 1) sb r
             (Some (b (if child \<noteq> None then upd2 (1 - bit) (Some newChild) (upd2 bit child (None, None))
                       else upd2 bit child (None, None))))
         else
           UnaryNode p d index sb False
             (Some (b (upd2 (1 - bit) (Some newChild)
                        (upd2 bit (Some (UnaryNode p (index + 1) c sb r child)) (None, None))))))"

lemma size_sel2: "sel2 i children = Some c \<Longrightarrow> size c < size (BinaryNode ps b sb r children)"
  by (cases children) (auto simp: sel2_def split: if_splits)

lemma size_un_child: "size c < size (UnaryNode p d e sb r (Some c))"
  by simp

function node_Add :: "Parameters \<Rightarrow> node \<Rightarrow> ID \<Rightarrow> node" where
  "node_Add prm (UnaryNode p d c sb r child) newChoice =
     (if usf_finalized sb then UnaryNode p d c sb r child
      else case FirstDifferenceSubset d c p newChoice of
        None \<Rightarrow>
          (case child of
             Some ch \<Rightarrow> UnaryNode p d c sb r (Some (node_Add prm ch newChoice))
           | None \<Rightarrow> UnaryNode p d c sb r child)
      | Some index \<Rightarrow> unaryNode_split prm p d c sb r child newChoice index)"
| "node_Add prm (BinaryNode ps b sb r children) i =
     (let bit = Bit i b in
      case sel2 bit children of
        Some child \<Rightarrow>
          if EqualSubset (b + 1) (node_DecidedPrefix child) (sel2 bit ps) i
          then BinaryNode ps b sb r (upd2 bit (Some (node_Add prm child i)) children)
          else BinaryNode ps b sb r children
      | None \<Rightarrow> BinaryNode ps b sb r children)"
  by pat_completeness auto
termination
  by (relation "measure (\<lambda>(prm, n, i). size n)") (simp_all only: in_measure case_prod_conv size_sel2 size_un_child wf_measure)

function node_RecordPoll :: "Parameters \<Rightarrow> node \<Rightarrow> Bag \<Rightarrow> bool \<Rightarrow> node \<times> bool" where
  "node_RecordPoll prm (UnaryNode p d c sb r child) votes reset =
     (let (sb, r) = (if reset then (usf_RecordUnsuccessfulPoll sb, True) else (sb, r)) in
      if Len votes < Alpha prm
      then (UnaryNode p d c (usf_RecordUnsuccessfulPoll sb) True child, False)
      else
        let sb = usb_RecordSuccessfulPoll sb in
        case child of
          Some ch \<Rightarrow>
            let newChild = fst (node_RecordPoll prm ch votes r) in
            if usf_finalized sb then (newChild, True)
            else (UnaryNode (node_Preference newChild) d c sb False (Some newChild), True)
        | None \<Rightarrow> (UnaryNode p d c sb False child, True))"
| "node_RecordPoll prm (BinaryNode ps b sb r children) votes reset =
     (let splitVotes = Split votes b;
          bit = (if Len (snd splitVotes) \<ge> Alpha prm then 1 else 0);
          (sb, r) = (if reset then (bsf_RecordUnsuccessfulPoll sb, upd2 bit True r) else (sb, r));
          r = upd2 (1 - bit) True r;
          prunedVotes = sel2 bit splitVotes
      in if Len prunedVotes < Alpha prm
         then (BinaryNode ps b (bsf_RecordUnsuccessfulPoll sb) (upd2 bit True r) children, False)
         else
           let sb = bsb_RecordSuccessfulPoll bit sb in
           case sel2 bit children of
             Some child \<Rightarrow>
               let filteredVotes = Filter prunedVotes (b + 1) (node_DecidedPrefix child) (sel2 bit ps);
                   newChild = fst (node_RecordPoll prm child filteredVotes (sel2 bit r))
               in if bsf_finalized sb then (newChild, True)
                  else (BinaryNode (upd2 bit (node_Preference newChild) ps) b sb (upd2 bit False r)
                          (upd2 bit (Some newChild) children), True)
           | None \<Rightarrow> (BinaryNode ps b sb (upd2 bit False r) children, True))"
  by pat_completeness auto
termination
  by (relation "measure (\<lambda>(prm, n, v, r). size n)") (simp_all only: in_measure case_prod_conv size_sel2 size_un_child wf_measure)

section \<open>The tree\<close>

record Tree =
  tree_node :: node
  tree_params :: Parameters
  tree_shouldReset :: bool

definition Tree_Initialize :: "Parameters \<Rightarrow> ID \<Rightarrow> Tree" where
  "Tree_Initialize params choice =
     \<lparr>tree_node = UnaryNode choice 0 NumBits (newUnarySnowball params) False None,
      tree_params = params, tree_shouldReset = False\<rparr>"

definition Tree_Preference :: "Tree \<Rightarrow> ID" where
  "Tree_Preference t = node_Preference (tree_node t)"

definition Tree_Finalized :: "Tree \<Rightarrow> bool" where
  "Tree_Finalized t = node_Finalized (tree_node t)"

definition Tree_Add :: "ID \<Rightarrow> Tree \<Rightarrow> Tree" where
  "Tree_Add choice t =
     (let pre = node_DecidedPrefix (tree_node t) in
      if EqualSubset 0 pre (Tree_Preference t) choice
      then t\<lparr>tree_node := node_Add (tree_params t) (tree_node t) choice\<rparr>
      else t)"

definition Tree_RecordPoll :: "Bag \<Rightarrow> Tree \<Rightarrow> Tree \<times> bool" where
  "Tree_RecordPoll votes t =
     (let decidedPrefix = node_DecidedPrefix (tree_node t);
          filteredVotes = Filter votes 0 decidedPrefix (Tree_Preference t);
          (n, successful) = node_RecordPoll (tree_params t) (tree_node t) filteredVotes (tree_shouldReset t)
      in (t\<lparr>tree_node := n, tree_shouldReset := False\<rparr>, successful))"

definition Tree_RecordUnsuccessfulPoll :: "Tree \<Rightarrow> Tree" where
  "Tree_RecordUnsuccessfulPoll t = t\<lparr>tree_shouldReset := True\<rparr>"

section \<open>Well-formed nodes\<close>

text \<open>The choices a sub-tree still represents: the preferences at its leaves.\<close>

fun leaves :: "node \<Rightarrow> ID set" where
  "leaves (UnaryNode p d c sb r ch) = (case ch of None \<Rightarrow> {p} | Some n \<Rightarrow> leaves n)"
| "leaves (BinaryNode ps b sb r (c0, c1)) =
     (case c0 of None \<Rightarrow> {fst ps} | Some n \<Rightarrow> leaves n) \<union>
     (case c1 of None \<Rightarrow> {snd ps} | Some n \<Rightarrow> leaves n)"

lemma node_induct [case_names Unary Binary]:
  assumes "\<And>p d c sb r ch. (\<And>n. ch = Some n \<Longrightarrow> P n) \<Longrightarrow> P (UnaryNode p d c sb r ch)"
    and "\<And>ps b sb r ch. (\<And>n i. sel2 i ch = Some n \<Longrightarrow> P n) \<Longrightarrow> P (BinaryNode ps b sb r ch)"
  shows "P n"
proof (induction n rule: leaves.induct)
  case (1 p d c sb r ch)
  then show ?case by (intro assms(1))
next
  case (2 ps b sb r c0 c1)
  then show ?case by (intro assms(2)) (auto simp: sel2_def split: if_splits)
qed

definition params_ok :: "Parameters \<Rightarrow> bool" where
  "params_ok prm \<longleftrightarrow> 0 < BetaVirtuous prm \<and> BetaVirtuous prm \<le> BetaRogue prm"

definition unary_ok :: "Parameters \<Rightarrow> unarySnowball \<Rightarrow> bool" where
  "unary_ok prm sb \<longleftrightarrow> usf_beta sb = BetaVirtuous prm \<and> 0 \<le> usf_confidence sb \<and>
     (usf_finalized sb \<or> usf_confidence sb < usf_beta sb)"

definition binary_ok :: "Parameters \<Rightarrow> binarySnowball \<Rightarrow> bool" where
  "binary_ok prm sb \<longleftrightarrow> bsf_beta sb = BetaRogue prm \<and> 0 \<le> bsf_confidence sb \<and>
     (bsf_finalized sb \<or> bsf_confidence sb < bsf_beta sb) \<and>
     bsl_preference sb \<le> 1 \<and> bsb_preference sb \<le> 1"

text \<open>
  A unary node covers the bits from its decided prefix up to its common prefix; below it comes
  the binary node that votes on the next bit, whose confidence never runs ahead of the unary
  one. A binary node decides one bit between two choices that agree before it; its children
  are absent exactly at the last bit. A finalized instance has no children left.
\<close>

fun node_ok :: "Parameters \<Rightarrow> node \<Rightarrow> bool" where
  "node_ok prm (UnaryNode p d c sb r ch) \<longleftrightarrow>
     d < c \<and> c \<le> NumBits \<and> unary_ok prm sb \<and>
     (case ch of
        None \<Rightarrow> c = NumBits
      | Some n \<Rightarrow>
          c < NumBits \<and> \<not> usf_finalized sb \<and> node_ok prm n \<and> \<not> is_UnaryNode n \<and>
          node_DecidedPrefix n = c \<and> node_Preference n = p \<and> \<not> node_Finalized n \<and>
          (r \<or> bsf_confidence (bn_snowball n) \<le> usf_confidence sb))"
| "node_ok prm (BinaryNode ps b sb r (c0, c1)) \<longleftrightarrow>
     b < NumBits \<and> binary_ok prm sb \<and> \<not> bit (fst ps) b \<and> bit (snd ps) b \<and>
     agree 0 b (fst ps) (snd ps) \<and>
     (case c0 of None \<Rightarrow> b + 1 = NumBits
      | Some n \<Rightarrow> b + 1 < NumBits \<and> \<not> bsf_finalized sb \<and> node_ok prm n \<and> b < node_DecidedPrefix n \<and> node_Preference n = fst ps) \<and>
     (case c1 of None \<Rightarrow> b + 1 = NumBits
      | Some n \<Rightarrow> b + 1 < NumBits \<and> \<not> bsf_finalized sb \<and> node_ok prm n \<and> b < node_DecidedPrefix n \<and> node_Preference n = snd ps)"

definition child_ok :: "Parameters \<Rightarrow> binarySnowball \<Rightarrow> nat \<Rightarrow> ID \<Rightarrow> node option \<Rightarrow> bool" where
  "child_ok prm sb b p ch = (case ch of None \<Rightarrow> b + 1 = NumBits
     | Some n \<Rightarrow> b + 1 < NumBits \<and> \<not> bsf_finalized sb \<and> node_ok prm n \<and> b < node_DecidedPrefix n \<and> node_Preference n = p)"

lemma node_ok_Binary:
  "node_ok prm (BinaryNode ps b sb r ch) \<longleftrightarrow>
     b < NumBits \<and> binary_ok prm sb \<and> \<not> bit (fst ps) b \<and> bit (snd ps) b \<and>
     agree 0 b (fst ps) (snd ps) \<and> child_ok prm sb b (fst ps) (fst ch) \<and> child_ok prm sb b (snd ps) (snd ch)"
  by (cases ch) (simp add: child_ok_def)

definition leaves_of :: "ID \<Rightarrow> node option \<Rightarrow> ID set" where
  "leaves_of p ch = (case ch of None \<Rightarrow> {p} | Some n \<Rightarrow> leaves n)"

lemma leaves_Binary:
  "leaves (BinaryNode ps b sb r ch) = leaves_of (fst ps) (fst ch) \<union> leaves_of (snd ps) (snd ch)"
  by (cases ch) (simp add: leaves_of_def)

lemma leaves_Unary: "leaves (UnaryNode p d c sb r ch) = leaves_of p ch"
  by (simp add: leaves_of_def)

declare node_ok.simps(2) [simp del] leaves.simps [simp del]

lemma agree_refl [simp]: "agree s t x x"
  by (simp add: agree_def)

lemma agree_sym: "agree s t x y \<Longrightarrow> agree s t y x"
  by (simp add: agree_def)

lemma agree_trans: "agree s t x y \<Longrightarrow> agree s t y z \<Longrightarrow> agree s t x z"
  by (simp add: agree_def)

lemma agree_mono: "agree s t x y \<Longrightarrow> s \<le> s' \<Longrightarrow> t' \<le> t \<Longrightarrow> agree s' t' x y"
  by (simp add: agree_def)

lemma bsb_Preference_le: "binary_ok prm sb \<Longrightarrow> bsb_Preference sb \<le> 1"
  by (simp add: binary_ok_def bsb_Preference_def)

lemma sel2_cases: "sel2 i p = fst p \<or> sel2 i p = snd p"
  by (simp add: sel2_def)

lemma leaves_agree:
  "node_ok prm n \<Longrightarrow> (\<forall>x\<in>leaves n. agree 0 (node_DecidedPrefix n) x (node_Preference n)) \<and> node_Preference n \<in> leaves n"
proof (induction n rule: node_induct)
  case (Unary p d c sb r ch)
  show ?case
  proof (cases ch)
    case None
    then show ?thesis by (simp add: leaves_Unary leaves_of_def)
  next
    case (Some n)
    with Unary.prems have "node_ok prm n" "node_DecidedPrefix n = c" "node_Preference n = p" "d < c"
      by auto
    with Unary.IH [of n] Some show ?thesis
      by (auto simp: leaves_Unary leaves_of_def intro: agree_mono)
  qed
next
  case (Binary ps b sb r ch)
  have ok: "agree 0 b (fst ps) (snd ps)" "child_ok prm sb b (fst ps) (fst ch)" "child_ok prm sb b (snd ps) (snd ch)"
    using Binary.prems by (auto simp: node_ok_Binary)
  have ch: "(\<forall>x\<in>leaves_of p co. agree 0 b x p) \<and> p \<in> leaves_of p co"
    if "child_ok prm sb b p co" and "co = fst ch \<or> co = snd ch" for p co
  proof (cases co)
    case None
    then show ?thesis by (simp add: leaves_of_def)
  next
    case (Some n)
    with that(1) have "node_ok prm n" "b < node_DecidedPrefix n" "node_Preference n = p"
      by (auto simp: child_ok_def)
    moreover have "(\<forall>x\<in>leaves n. agree 0 (node_DecidedPrefix n) x (node_Preference n)) \<and> node_Preference n \<in> leaves n"
      using Binary.IH [of 0 n] Binary.IH [of 1 n] that(2) Some \<open>node_ok prm n\<close>
      by (auto simp: sel2_def)
    ultimately show ?thesis using Some by (auto simp: leaves_of_def intro: agree_mono)
  qed
  from ch [of "fst ps" "fst ch"] ch [of "snd ps" "snd ch"] ok show ?case
    using sel2_cases [of "bsb_Preference sb" ps]
    by (auto simp: leaves_Binary) (metis agree_trans agree_sym)+
qed


section \<open>Adding a choice\<close>

lemma usb_Extend_simps [simp]:
  "bsl_preference (usb_Extend beta c sb) = c" "bsf_confidence (usb_Extend beta c sb) = usf_confidence sb"
  "bsf_beta (usb_Extend beta c sb) = beta" "bsf_finalized (usb_Extend beta c sb) = usf_finalized sb"
  "bsb_preference (usb_Extend beta c sb) = c"
  by (simp_all add: usb_Extend_def Let_def)

lemma newUnarySnowball_simps [simp]:
  "usf_beta (newUnarySnowball prm) = BetaVirtuous prm" "usf_confidence (newUnarySnowball prm) = 0"
  "usf_finalized (newUnarySnowball prm) = False"
  by (simp_all add: newUnarySnowball_def usf_Initialize_def unarySnowball0_def)

lemma newUnarySnowball_ok: "params_ok prm \<Longrightarrow> unary_ok prm (newUnarySnowball prm)"
  by (simp add: unary_ok_def params_ok_def)

lemma Extend_ok:
  "params_ok prm \<Longrightarrow> unary_ok prm sb \<Longrightarrow> \<not> usf_finalized sb \<Longrightarrow> c \<le> 1 \<Longrightarrow>
   binary_ok prm (usb_Extend (BetaRogue prm) c sb)"
  by (auto simp: unary_ok_def binary_ok_def params_ok_def)

lemma mk_binary_ok:
  fixes rr :: "bool \<times> bool"
  assumes "bit p i \<noteq> bit x i" and "agree 0 i p x" and "i < NumBits" and "binary_ok prm sb"
    and "child_ok prm sb i p n0" and "child_ok prm sb i x n1"
  defines "m \<equiv> BinaryNode (upd2 (1 - Bit p i) x (upd2 (Bit p i) p (0, 0))) i sb rr
                  (upd2 (1 - Bit p i) n1 (upd2 (Bit p i) n0 (None, None)))"
  shows "node_ok prm m" and "leaves m = leaves_of p n0 \<union> leaves_of x n1"
    and "bsb_Preference sb = Bit p i \<Longrightarrow> node_Preference m = p"
  using assms by (auto simp: Bit_eq node_ok_Binary leaves_Binary upd2_def sel2_def agree_sym m_def)

lemma upd2_None [simp]: "upd2 i None (None, None) = (None, None)"
  by (simp add: upd2_def)

lemma split_children_eq:
  "(if ch \<noteq> None then upd2 (1 - b) (Some n) (upd2 b ch (None, None)) else upd2 b ch (None, None)) =
   upd2 (1 - b) (if ch = None then None else Some n) (upd2 b ch (None, None))"
  by (auto simp: upd2_def)

lemma unaryNode_split_ok:
  assumes prm: "params_ok prm" and ok: "node_ok prm (UnaryNode p d c sb r ch)"
    and nf: "\<not> usf_finalized sb" and pre: "agree 0 d p x"
    and fd: "FirstDifferenceSubset d c p x = Some i"
  defines "m \<equiv> unaryNode_split prm p d c sb r ch x i"
  shows "node_ok prm m" and "leaves m = insert x (leaves (UnaryNode p d c sb r ch))"
    and "node_Preference m = p" and "node_DecidedPrefix m = d" and "\<not> node_Finalized m"
proof -
  have i: "d \<le> i" "i < c" "bit p i \<noteq> bit x i" "agree d i p x"
    using fd by (auto simp: FirstDifferenceSubset_eq find_upt_Some_iff agree_def split: if_splits)
  have agr: "agree 0 i p x" using pre i agree_split [of 0 d i p x] by simp
  have dc: "d < c" "c \<le> NumBits" "unary_ok prm sb" using ok by auto
  let ?sb = "usb_Extend (BetaRogue prm) (Bit p i) sb"
  let ?new = "UnaryNode x (i + 1) NumBits (newUnarySnowball prm) False None"
  let ?last = "if ch = None then None else Some ?new"
  have sb: "binary_ok prm ?sb" "\<not> bsf_finalized ?sb" "bsb_Preference ?sb = Bit p i"
    using prm dc nf by (auto simp: Extend_ok Bit_eq bsb_Preference_def)
  have new: "child_ok prm ?sb i x (Some ?new)" if "i + 1 < NumBits"
    using that prm nf by (simp add: child_ok_def newUnarySnowball_ok)
  have old: "child_ok prm ?sb i p (Some (UnaryNode p (i + 1) c sb r ch))" if "i + 1 < c"
    using that ok nf dc by (auto simp: child_ok_def)
  have old_last: "child_ok prm ?sb i p ch" if "i + 1 = c"
    using that ok nf by (auto simp: child_ok_def split: option.splits)
  have new_last: "child_ok prm ?sb i x ?last" if "i + 1 = c"
    using that ok nf new by (auto simp: child_ok_def split: option.splits)
  have "\<exists>B r'. m = (if i = d then B else UnaryNode p d i sb r' (Some B)) \<and> node_ok prm B \<and>
      leaves B = insert x (leaves_of p ch) \<and> node_Preference B = p \<and> node_DecidedPrefix B = i \<and>
      \<not> node_Finalized B \<and> \<not> is_UnaryNode B \<and> bsf_confidence (bn_snowball B) = usf_confidence sb"
  proof (cases "i + 1 = c")
    case True
    let ?B = "BinaryNode (upd2 (1 - Bit p i) x (upd2 (Bit p i) p (0, 0))) i ?sb (r, r)
                (upd2 (1 - Bit p i) ?last (upd2 (Bit p i) ch (None, None)))"
    have "i < NumBits" using i dc by simp
    note b = mk_binary_ok [OF i(3) agr this sb(1) old_last [OF True] new_last [OF True], of "(r, r)"]
    have "m = (if i = d then ?B else UnaryNode p d i sb r (Some ?B))"
      using True i by (auto simp: m_def unaryNode_split_def Let_def split_children_eq)
    moreover have "leaves_of x ?last = {x}" by (simp add: leaves_of_def leaves_Unary)
    ultimately show ?thesis using b sb by (intro exI [of _ ?B] exI [of _ r]) simp
  next
    case False
    with i dc have lt: "i + 1 < c" "i + 1 < NumBits" "i < NumBits" by auto
    let ?B = "BinaryNode (upd2 (1 - Bit p i) x (upd2 (Bit p i) p (0, 0))) i ?sb (r, r)
                (upd2 (1 - Bit p i) (Some ?new) (upd2 (Bit p i) (Some (UnaryNode p (i + 1) c sb r ch)) (None, None)))"
    note b = mk_binary_ok [OF i(3) agr lt(3) sb(1) old [OF lt(1)] new [OF lt(2)], of "(r, r)"]
    have "m = (if i = d then ?B else UnaryNode p d i sb False (Some ?B))"
      using False i by (auto simp: m_def unaryNode_split_def Let_def)
    moreover have "leaves_of x (Some ?new) = {x}" "leaves_of p (Some (UnaryNode p (i + 1) c sb r ch)) = leaves_of p ch"
      by (simp_all add: leaves_of_def leaves_Unary)
    ultimately show ?thesis using b sb by (intro exI [of _ ?B] exI [of _ False]) simp
  qed
  then obtain B r' where B: "m = (if i = d then B else UnaryNode p d i sb r' (Some B))" "node_ok prm B"
    "leaves B = insert x (leaves_of p ch)" "node_Preference B = p" "node_DecidedPrefix B = i"
    "\<not> node_Finalized B" "\<not> is_UnaryNode B" "bsf_confidence (bn_snowball B) = usf_confidence sb"
    by blast
  show "node_ok prm m" "leaves m = insert x (leaves (UnaryNode p d c sb r ch))"
    "node_Preference m = p" "node_DecidedPrefix m = d" "\<not> node_Finalized m"
    using B i dc nf by (auto simp: leaves_Unary leaves_of_def)
qed


lemma sel2_upd2: "sel2 i (upd2 j v p) = (if (i = 0) = (j = 0) then v else sel2 i p)"
  by (auto simp: sel2_def upd2_def)

lemma node_ok_upd2:
  assumes "node_ok prm (BinaryNode ps b sb r ch)" and "child_ok prm sb b (sel2 i ps) n"
  shows "node_ok prm (BinaryNode ps b sb r' (upd2 i n ch))"
  using assms by (auto simp: node_ok_Binary upd2_def sel2_def)

lemma leaves_upd2:
  "leaves (BinaryNode ps b sb r (upd2 i n ch)) =
     leaves_of (sel2 i ps) n \<union> leaves_of (sel2 (1 - i) ps) (sel2 (1 - i) ch)"
  if "i \<le> 1"
  using that by (auto simp: leaves_Binary upd2_def sel2_def le_Suc_eq)

lemma node_ok_child:
  assumes "node_ok prm (BinaryNode ps b sb r ch)" and "sel2 i ch = Some n"
  shows "node_ok prm n" "b < node_DecidedPrefix n" "node_Preference n = sel2 i ps" "b + 1 < NumBits"
    "\<not> bsf_finalized sb"
  using assms by (auto simp: node_ok_Binary child_ok_def sel2_def split: if_splits)

lemma node_ok_sel2_bit: "node_ok prm (BinaryNode ps b sb r ch) \<Longrightarrow> bit (sel2 i ps) b \<longleftrightarrow> i \<noteq> 0"
  by (auto simp: node_ok_Binary sel2_def)

lemma node_ok_agree_sel2:
  "node_ok prm (BinaryNode ps b sb r ch) \<Longrightarrow> agree 0 b (sel2 i ps) (sel2 j ps)"
  by (auto simp: node_ok_Binary sel2_def agree_sym)

lemma agree_Suc: "agree s (Suc t) x y \<longleftrightarrow> agree s t x y \<and> (s \<le> t \<longrightarrow> bit x t = bit y t)"
  by (auto simp: agree_def less_Suc_eq)

lemma node_Add_ok:
  assumes prm: "params_ok prm"
  shows "node_ok prm n \<Longrightarrow> agree 0 (node_DecidedPrefix n) (node_Preference n) x \<Longrightarrow>
    node_ok prm (node_Add prm n x) \<and> leaves n \<subseteq> leaves (node_Add prm n x) \<and>
    leaves (node_Add prm n x) \<subseteq> insert x (leaves n) \<and>
    node_Preference (node_Add prm n x) = node_Preference n \<and>
    node_DecidedPrefix (node_Add prm n x) = node_DecidedPrefix n \<and>
    node_Finalized (node_Add prm n x) = node_Finalized n \<and>
    (\<not> is_UnaryNode n \<longrightarrow> \<not> is_UnaryNode (node_Add prm n x) \<and> bn_snowball (node_Add prm n x) = bn_snowball n)"
proof (induction n rule: node_induct)
  case (Unary p d c sb r ch)
  show ?case
  proof (cases "usf_finalized sb")
    case True
    then show ?thesis using Unary.prems by auto
  next
    case nf: False
    show ?thesis
    proof (cases "FirstDifferenceSubset d c p x")
      case (Some i)
      then show ?thesis
        using unaryNode_split_ok [OF prm Unary.prems(1) nf _ Some] Unary.prems(2) nf by auto
    next
      case fd: None
      show ?thesis
      proof (cases ch)
        case None
        with fd nf Unary.prems show ?thesis by auto
      next
        case (Some n)
        have "agree d c p x"
          using fd Unary.prems(1) by (auto simp: FirstDifferenceSubset_eq find_upt_None_iff agree_def)
        then have "agree 0 c p x"
          using Unary.prems agree_split [of 0 d c p x] by simp
        then have "agree 0 (node_DecidedPrefix n) (node_Preference n) x" and n: "node_ok prm n"
          using Unary.prems(1) Some by auto
        from Unary.IH [OF Some n this(1)] Unary.prems(1) nf fd Some show ?thesis
          by (auto simp: leaves_Unary leaves_of_def)
      qed
    qed
  qed
next
  case (Binary ps b sb r ch)
  let ?bit = "Bit x b"
  show ?case
  proof (cases "sel2 ?bit ch")
    case None
    with Binary.prems show ?thesis by (auto simp: Let_def)
  next
    case (Some n)
    note ch = node_ok_child [OF Binary.prems(1) Some]
    show ?thesis
    proof (cases "EqualSubset (b + 1) (node_DecidedPrefix n) (sel2 ?bit ps) x")
      case False
      with Some Binary.prems show ?thesis by (auto simp: Let_def)
    next
      case True
      have b: "agree 0 b (sel2 ?bit ps) x"
        using Binary.prems(2) node_ok_agree_sel2 [OF Binary.prems(1), of "bsb_Preference sb" ?bit]
        by (auto intro: agree_trans agree_sym)
      moreover have "bit (sel2 ?bit ps) b = bit x b"
        using node_ok_sel2_bit [OF Binary.prems(1), of ?bit] by (simp add: Bit_eq)
      moreover have "agree (b + 1) (node_DecidedPrefix n) (sel2 ?bit ps) x"
        using True by (auto simp: EqualSubset_iff agree_def)
      ultimately have pre: "agree 0 (node_DecidedPrefix n) (node_Preference n) x"
        using ch agree_split [of 0 "Suc b" "node_DecidedPrefix n" "sel2 ?bit ps" x]
        by (simp add: agree_Suc)
      note IH = Binary.IH [OF Some ch(1) pre]
      have ok: "child_ok prm sb b (sel2 ?bit ps) (Some (node_Add prm n x))"
        using IH ch by (simp add: child_ok_def)
      have "?bit \<le> 1" by (simp add: Bit_eq)
      have old: "leaves (BinaryNode ps b sb r ch) =
          leaves n \<union> leaves_of (sel2 (1 - ?bit) ps) (sel2 (1 - ?bit) ch)"
        using Some \<open>?bit \<le> 1\<close> by (auto simp: leaves_Binary leaves_of_def sel2_def le_Suc_eq)
      have "node_Add prm (BinaryNode ps b sb r ch) x =
          BinaryNode ps b sb r (upd2 ?bit (Some (node_Add prm n x)) ch)"
        using Some True by (simp add: Let_def)
      then show ?thesis
        using node_ok_upd2 [OF Binary.prems(1) ok, of r] IH old leaves_upd2 [OF \<open>?bit \<le> 1\<close>]
        by (auto simp: leaves_of_def)
    qed
  qed
qed


section \<open>Recording a poll\<close>

lemma binary_ok_succ:
  "params_ok prm \<Longrightarrow> binary_ok prm sb \<Longrightarrow> c \<le> 1 \<Longrightarrow> binary_ok prm (bsb_RecordSuccessfulPoll c sb)"
  by (auto simp: binary_ok_def snowflake_defs Let_def)

lemma binary_ok_unsucc: "params_ok prm \<Longrightarrow> binary_ok prm sb \<Longrightarrow> binary_ok prm (bsf_RecordUnsuccessfulPoll sb)"
  by (auto simp: binary_ok_def params_ok_def bsf_RecordUnsuccessfulPoll_def)

lemma unary_ok_succ: "params_ok prm \<Longrightarrow> unary_ok prm sb \<Longrightarrow> unary_ok prm (usb_RecordSuccessfulPoll sb)"
  by (auto simp: unary_ok_def params_ok_def snowflake_defs Let_def)

lemma unary_ok_unsucc: "params_ok prm \<Longrightarrow> unary_ok prm sb \<Longrightarrow> unary_ok prm (usf_RecordUnsuccessfulPoll sb)"
  by (auto simp: unary_ok_def params_ok_def usf_RecordUnsuccessfulPoll_def)

lemma unsucc_simps [simp]:
  "usf_finalized (usf_RecordUnsuccessfulPoll usb) = usf_finalized usb"
  "usf_confidence (usf_RecordUnsuccessfulPoll usb) = 0"
  "bsf_finalized (bsf_RecordUnsuccessfulPoll bsb) = bsf_finalized bsb"
  "bsl_preference (bsf_RecordUnsuccessfulPoll bsb) = bsl_preference bsb"
  "bsf_confidence (bsf_RecordUnsuccessfulPoll bsb) = 0"
  "bsf_beta (bsf_RecordUnsuccessfulPoll bsb) = bsf_beta bsb"
  "bsb_Preference (bsf_RecordUnsuccessfulPoll bsb') = bsb_Preference bsb'"
  by (simp_all add: usf_RecordUnsuccessfulPoll_def bsf_RecordUnsuccessfulPoll_def bsb_Preference_def)

lemma usb_succ_simps [simp]:
  "usf_confidence (usb_RecordSuccessfulPoll sb) = usf_confidence sb + 1"
  "usf_finalized (usb_RecordSuccessfulPoll sb) \<longleftrightarrow> usf_finalized sb \<or> usf_beta sb \<le> usf_confidence sb + 1"
  by (simp_all add: snowflake_defs Let_def)

lemma bsb_succ_undecided:
  "binary_ok prm sb \<Longrightarrow> \<not> bsf_finalized sb \<Longrightarrow>
   bsf_confidence (bsb_RecordSuccessfulPoll c sb) \<le> bsf_confidence sb + 1 \<and>
   (bsf_finalized (bsb_RecordSuccessfulPoll c sb) \<longleftrightarrow> BetaRogue prm \<le> bsf_confidence (bsb_RecordSuccessfulPoll c sb))"
  by (auto simp: binary_ok_def snowflake_defs Let_def)

lemma bsb_succ_finalized:
  "bsf_finalized sb \<Longrightarrow> bsf_finalized (bsb_RecordSuccessfulPoll c sb) \<and>
     bsb_Preference (bsb_RecordSuccessfulPoll c sb) = bsb_Preference sb"
  by (auto simp: bsb_Preference_def snowflake_defs Let_def)

text \<open>The two polls of a node after the reset flag has been applied.\<close>

lemma node_RecordPoll_Unary:
  "node_RecordPoll prm (UnaryNode p d c sb r ch) v reset =
     (let sb' = if reset then usf_RecordUnsuccessfulPoll sb else sb; r' = (reset \<or> r) in
      if Len v < Alpha prm then (UnaryNode p d c (usf_RecordUnsuccessfulPoll sb') True ch, False)
      else case ch of
        None \<Rightarrow> (UnaryNode p d c (usb_RecordSuccessfulPoll sb') False None, True)
      | Some n \<Rightarrow>
          (let n' = fst (node_RecordPoll prm n v r') in
           if usf_finalized (usb_RecordSuccessfulPoll sb') then (n', True)
           else (UnaryNode (node_Preference n') d c (usb_RecordSuccessfulPoll sb') False (Some n'), True)))"
  by (auto simp: Let_def split: option.split)

lemma node_RecordPoll_Binary:
  "node_RecordPoll prm (BinaryNode ps b sb r ch) v reset =
     (let bit = if Len (snd (Split v b)) \<ge> Alpha prm then 1 else 0;
          sb' = if reset then bsf_RecordUnsuccessfulPoll sb else sb;
          r' = upd2 (1 - bit) True (if reset then upd2 bit True r else r);
          v' = sel2 bit (Split v b)
      in if Len v' < Alpha prm
         then (BinaryNode ps b (bsf_RecordUnsuccessfulPoll sb') (upd2 bit True r') ch, False)
         else case sel2 bit ch of
           None \<Rightarrow> (BinaryNode ps b (bsb_RecordSuccessfulPoll bit sb') (upd2 bit False r') ch, True)
         | Some n \<Rightarrow>
             (let n' = fst (node_RecordPoll prm n (Filter v' (b + 1) (node_DecidedPrefix n) (sel2 bit ps)) (sel2 bit r'))
              in if bsf_finalized (bsb_RecordSuccessfulPoll bit sb') then (n', True)
                 else (BinaryNode (upd2 bit (node_Preference n') ps) b (bsb_RecordSuccessfulPoll bit sb')
                         (upd2 bit False r') (upd2 bit (Some n') ch), True)))"
  by (cases reset) (simp_all add: Let_def split: option.split)

declare node_RecordPoll.simps [simp del]

text \<open>What a poll does to a well-formed node; \<open>base\<close> is its confidence once a pending reset is applied.\<close>

definition poll_ok :: "Parameters \<Rightarrow> node \<Rightarrow> bool \<Rightarrow> node \<Rightarrow> bool" where
  "poll_ok prm n reset m \<longleftrightarrow>
     node_ok prm m \<and> leaves m \<subseteq> leaves n \<and> node_DecidedPrefix n \<le> node_DecidedPrefix m \<and>
     (node_Finalized n \<longrightarrow> node_Finalized m \<and> node_Preference m = node_Preference n) \<and>
     (\<not> is_UnaryNode n \<and> \<not> node_Finalized n \<longrightarrow>
        (let base = if reset then 0 else bsf_confidence (bn_snowball n) in
         BetaRogue prm \<le> base + 1 \<or>
         \<not> is_UnaryNode m \<and> node_DecidedPrefix m = node_DecidedPrefix n \<and> \<not> node_Finalized m \<and>
         bsf_confidence (bn_snowball m) \<le> base + 1))"

lemma poll_ok_Unary:
  assumes prm: "params_ok prm" and ok: "node_ok prm (UnaryNode p d c sb r ch)"
    and IH: "\<And>n. ch = Some n \<Longrightarrow> poll_ok prm n (reset \<or> r) (fst (node_RecordPoll prm n v (reset \<or> r)))"
  shows "poll_ok prm (UnaryNode p d c sb r ch) reset (fst (node_RecordPoll prm (UnaryNode p d c sb r ch) v reset))"
proof -
  let ?sb = "if reset then usf_RecordUnsuccessfulPoll sb else sb"
  have sb: "unary_ok prm ?sb" using prm ok by (auto simp: unary_ok_unsucc)
  have beta: "usf_beta ?sb = BetaVirtuous prm" using sb by (simp add: unary_ok_def)
  show ?thesis
  proof (cases "Len v < Alpha prm")
    case True
    then have "fst (node_RecordPoll prm (UnaryNode p d c sb r ch) v reset) =
        UnaryNode p d c (usf_RecordUnsuccessfulPoll ?sb) True ch"
      by (simp add: node_RecordPoll_Unary Let_def)
    moreover have "node_ok prm (UnaryNode p d c (usf_RecordUnsuccessfulPoll ?sb) True ch)"
      using ok unary_ok_unsucc [OF prm sb] by (auto split: option.splits)
    ultimately show ?thesis by (auto simp: poll_ok_def leaves_Unary)
  next
    case enough: False
    show ?thesis
    proof (cases ch)
      case None
      with enough have "fst (node_RecordPoll prm (UnaryNode p d c sb r ch) v reset) =
          UnaryNode p d c (usb_RecordSuccessfulPoll ?sb) False None"
        by (simp add: node_RecordPoll_Unary Let_def)
      moreover have "node_ok prm (UnaryNode p d c (usb_RecordSuccessfulPoll ?sb) False None)"
        using ok None unary_ok_succ [OF prm sb] by auto
      ultimately show ?thesis using None by (auto simp: poll_ok_def leaves_Unary)
    next
      case (Some n)
      let ?n' = "fst (node_RecordPoll prm n v (reset \<or> r))"
      have n: "node_ok prm n" "\<not> is_UnaryNode n" "\<not> node_Finalized n" "node_DecidedPrefix n = c"
        "d < c" "c < NumBits" "\<not> usf_finalized ?sb" "\<not> usf_finalized sb"
        "reset \<or> r \<or> bsf_confidence (bn_snowball n) \<le> usf_confidence ?sb"
        using ok Some by auto
      note p = IH [OF Some, unfolded poll_ok_def Let_def]
      have pos: "0 \<le> usf_confidence ?sb" using sb by (simp add: unary_ok_def)
      show ?thesis
      proof (cases "usf_finalized (usb_RecordSuccessfulPoll ?sb)")
        case True
        then have "fst (node_RecordPoll prm (UnaryNode p d c sb r ch) v reset) = ?n'"
          using enough Some by (simp add: node_RecordPoll_Unary Let_def)
        with p n Some show ?thesis by (auto simp: poll_ok_def leaves_Unary leaves_of_def)
      next
        case False
        let ?m = "UnaryNode (node_Preference ?n') d c (usb_RecordSuccessfulPoll ?sb) False (Some ?n')"
        have eq: "fst (node_RecordPoll prm (UnaryNode p d c sb r ch) v reset) = ?m"
          using enough Some False by (simp add: node_RecordPoll_Unary Let_def)
        have lt: "usf_confidence ?sb + 1 < BetaRogue prm"
          using False beta prm by (simp add: params_ok_def)
        have "\<not> is_UnaryNode ?n' \<and> node_DecidedPrefix ?n' = c \<and> \<not> node_Finalized ?n' \<and>
            bsf_confidence (bn_snowball ?n') \<le> usf_confidence ?sb + 1"
          using p n lt pos by (auto split: if_splits)
        then have "node_ok prm ?m"
          using p n False unary_ok_succ [OF prm sb] by auto
        then show ?thesis
          unfolding eq using p n Some by (auto simp: poll_ok_def leaves_Unary leaves_of_def)
      qed
    qed
  qed
qed


lemma node_ok_new_child:
  assumes ok: "node_ok prm (BinaryNode ps b sb r ch)" and n: "sel2 i ch = Some n"
    and m: "node_ok prm m" "leaves m \<subseteq> leaves n" "node_DecidedPrefix n \<le> node_DecidedPrefix m"
    and sb': "binary_ok prm sb'" "\<not> bsf_finalized sb'" and i: "i \<le> 1"
  shows "node_ok prm (BinaryNode (upd2 i (node_Preference m) ps) b sb' r' (upd2 i (Some m) ch))"
proof -
  note c = node_ok_child [OF ok n]
  have "node_Preference m \<in> leaves n" using leaves_agree [OF m(1)] m(2) by blast
  then have "agree 0 (node_DecidedPrefix n) (node_Preference m) (sel2 i ps)"
    using leaves_agree [OF c(1)] c(3) by metis
  then have "agree 0 b (node_Preference m) (sel2 i ps)" "bit (node_Preference m) b = bit (sel2 i ps) b"
    using c(2) by (auto simp: agree_def)
  with ok c m sb' i show ?thesis
    by (auto simp: node_ok_Binary child_ok_def upd2_def sel2_def le_Suc_eq split: if_splits option.splits
        intro: agree_trans agree_sym)
qed

lemma leaves_new_child:
  "sel2 i ch = Some n \<Longrightarrow> leaves m \<subseteq> leaves n \<Longrightarrow>
   leaves (BinaryNode (upd2 i q ps) b' sb' r' (upd2 i (Some m) ch)) \<subseteq> leaves (BinaryNode ps b sb r ch)"
  by (auto simp: leaves_Binary leaves_of_def upd2_def sel2_def split: if_splits option.splits)

lemma poll_ok_BinaryI:
  assumes "base = (if reset then 0 else bsf_confidence sb)"
    and "node_ok prm m" "leaves m \<subseteq> leaves (BinaryNode ps b sb r ch)" "b \<le> node_DecidedPrefix m"
    and "bsf_finalized sb \<Longrightarrow> node_Finalized m \<and> node_Preference m = sel2 (bsb_Preference sb) ps"
    and "\<not> bsf_finalized sb \<Longrightarrow> BetaRogue prm \<le> base + 1 \<or>
           \<not> is_UnaryNode m \<and> node_DecidedPrefix m = b \<and> \<not> node_Finalized m \<and> bsf_confidence (bn_snowball m) \<le> base + 1"
  shows "poll_ok prm (BinaryNode ps b sb r ch) reset m"
  unfolding poll_ok_def Let_def using assms by (auto split: if_splits)

lemma poll_ok_Binary:
  assumes prm: "params_ok prm" and ok: "node_ok prm (BinaryNode ps b sb r ch)"
    and IH: "\<And>n i v reset. sel2 i ch = Some n \<Longrightarrow> poll_ok prm n reset (fst (node_RecordPoll prm n v reset))"
  shows "poll_ok prm (BinaryNode ps b sb r ch) reset (fst (node_RecordPoll prm (BinaryNode ps b sb r ch) v reset))"
proof -
  let ?bit = "if Len (snd (Split v b)) \<ge> Alpha prm then 1 else 0 :: nat"
  let ?sb = "if reset then bsf_RecordUnsuccessfulPoll sb else sb"
  let ?r = "upd2 (1 - ?bit) True (if reset then upd2 ?bit True r else r)"
  let ?v = "sel2 ?bit (Split v b)"
  let ?succ = "bsb_RecordSuccessfulPoll ?bit ?sb"
  have bit: "?bit \<le> 1" by simp
  have sb: "binary_ok prm ?sb" using prm ok by (auto simp: node_ok_Binary binary_ok_unsucc)
  have succ: "binary_ok prm ?succ" by (rule binary_ok_succ [OF prm sb bit])
  have base: "bsf_confidence ?sb = (if reset then 0 else bsf_confidence sb)"
    "bsf_finalized ?sb = bsf_finalized sb" "bsb_Preference ?sb = bsb_Preference sb"
    by auto
  note fin = bsb_succ_finalized [of ?sb ?bit, unfolded base]
  note und = bsb_succ_undecided [OF sb, of ?bit, unfolded base(2)]
  have pos: "0 \<le> bsf_confidence ?sb" using sb unfolding binary_ok_def by blast
  show ?thesis
  proof (cases "Len ?v < Alpha prm")
    case True
    let ?m = "BinaryNode ps b (bsf_RecordUnsuccessfulPoll ?sb) (upd2 ?bit True ?r) ch"
    have eq: "fst (node_RecordPoll prm (BinaryNode ps b sb r ch) v reset) = ?m"
      using True unfolding node_RecordPoll_Binary Let_def by (simp only: if_True fst_conv)
    have "node_ok prm ?m"
      using ok binary_ok_unsucc [OF prm sb] by (auto simp: node_ok_Binary child_ok_def split: option.splits)
    then show ?thesis
      unfolding eq by (rule poll_ok_BinaryI [OF base(1)]) (use base pos in \<open>simp_all add: leaves_Binary split del: if_split\<close>)
  next
    case enough: False
    show ?thesis
    proof (cases "sel2 ?bit ch")
      case None
      let ?m = "BinaryNode ps b ?succ (upd2 ?bit False ?r) ch"
      have eq: "fst (node_RecordPoll prm (BinaryNode ps b sb r ch) v reset) = ?m"
        using enough None unfolding node_RecordPoll_Binary Let_def by (simp only: if_False option.case fst_conv)
      have "b + 1 = NumBits" using ok None by (auto simp: node_ok_Binary child_ok_def sel2_def split: if_splits option.splits)
      then have "node_ok prm ?m"
        using ok succ by (auto simp: node_ok_Binary child_ok_def split: option.splits)
      then show ?thesis
        unfolding eq by (rule poll_ok_BinaryI [OF base(1)])
          (use fin und in \<open>auto simp: leaves_Binary split del: if_split\<close>)
    next
      case (Some n)
      let ?w = "Filter ?v (b + 1) (node_DecidedPrefix n) (sel2 ?bit ps)"
      let ?n' = "fst (node_RecordPoll prm n ?w (sel2 ?bit ?r))"
      note c = node_ok_child [OF ok Some]
      note p = IH [OF Some, of "sel2 ?bit ?r" ?w, unfolded poll_ok_def Let_def]
      have sub: "leaves n \<subseteq> leaves (BinaryNode ps b sb r ch)"
        using Some by (auto simp: leaves_Binary leaves_of_def sel2_def split: if_splits)
      show ?thesis
      proof (cases "bsf_finalized ?succ")
        case True
        have eq: "fst (node_RecordPoll prm (BinaryNode ps b sb r ch) v reset) = ?n'"
          using True enough Some unfolding node_RecordPoll_Binary Let_def
          by (simp only: if_False if_True option.case fst_conv)
        have "BetaRogue prm \<le> bsf_confidence ?sb + 1" using und c(5) True by linarith
        then show ?thesis
          unfolding eq using p c sub by (intro poll_ok_BinaryI [OF base(1)]) auto
      next
        case False
        let ?m = "BinaryNode (upd2 ?bit (node_Preference ?n') ps) b ?succ (upd2 ?bit False ?r) (upd2 ?bit (Some ?n') ch)"
        have eq: "fst (node_RecordPoll prm (BinaryNode ps b sb r ch) v reset) = ?m"
          using enough Some False unfolding node_RecordPoll_Binary Let_def
          by (simp only: if_False option.case fst_conv)
        have m: "node_ok prm ?m"
          using p by (intro node_ok_new_child [OF ok Some _ _ _ succ False bit]) auto
        have "leaves ?m \<subseteq> leaves (BinaryNode ps b sb r ch)"
          using p by (intro leaves_new_child [OF Some]) blast
        with m show ?thesis
          unfolding eq by (rule poll_ok_BinaryI [OF base(1)])
            (use und c(5) False in \<open>auto split del: if_split\<close>)
      qed
    qed
  qed
qed

lemma node_RecordPoll_ok:
  "params_ok prm \<Longrightarrow> node_ok prm n \<Longrightarrow> poll_ok prm n reset (fst (node_RecordPoll prm n v reset))"
proof (induction n arbitrary: v reset rule: node_induct)
  case (Unary p d c sb r ch)
  show ?case
  proof (rule poll_ok_Unary [OF Unary.prems])
    fix n assume "ch = Some n"
    moreover from this Unary.prems(2) have "node_ok prm n" by simp
    ultimately show "poll_ok prm n (reset \<or> r) (fst (node_RecordPoll prm n v (reset \<or> r)))"
      using Unary.IH Unary.prems(1) by blast
  qed
next
  case (Binary ps b sb r ch)
  show ?case
    by (rule poll_ok_Binary [OF Binary.prems]) (use Binary node_ok_child(1) in blast)
qed

section \<open>Runs of the tree\<close>

text \<open>The states a tree can reach, with the set of choices added so far.\<close>

inductive tree_reachable :: "Parameters \<Rightarrow> ID set \<Rightarrow> Tree \<Rightarrow> bool" for prm where
  tr_init: "tree_reachable prm {c} (Tree_Initialize prm c)"
| tr_add: "tree_reachable prm A t \<Longrightarrow> tree_reachable prm (insert x A) (Tree_Add x t)"
| tr_poll: "tree_reachable prm A t \<Longrightarrow> tree_reachable prm A (fst (Tree_RecordPoll v t))"
| tr_unsuccessful: "tree_reachable prm A t \<Longrightarrow> tree_reachable prm A (Tree_RecordUnsuccessfulPoll t)"

definition tree_inv :: "Parameters \<Rightarrow> ID set \<Rightarrow> Tree \<Rightarrow> bool" where
  "tree_inv prm A t \<longleftrightarrow> tree_params t = prm \<and> node_ok prm (tree_node t) \<and> leaves (tree_node t) \<subseteq> A"

lemma params_ok_Verify: "Verify prm = None \<Longrightarrow> params_ok prm"
  using Verify_None by (simp add: params_ok_def)

lemma Tree_RecordPoll_simps:
  "tree_node (fst (Tree_RecordPoll v t)) = fst (node_RecordPoll (tree_params t) (tree_node t)
     (Filter v 0 (node_DecidedPrefix (tree_node t)) (Tree_Preference t)) (tree_shouldReset t))"
  "tree_params (fst (Tree_RecordPoll v t)) = tree_params t"
  "tree_shouldReset (fst (Tree_RecordPoll v t)) = False"
  by (simp_all add: Tree_RecordPoll_def Let_def split: prod.split)

lemma Tree_Add_cases:
  "tree_node (Tree_Add x t) = tree_node t \<and> tree_params (Tree_Add x t) = tree_params t \<or>
   agree 0 (node_DecidedPrefix (tree_node t)) (node_Preference (tree_node t)) x \<and>
   tree_node (Tree_Add x t) = node_Add (tree_params t) (tree_node t) x \<and> tree_params (Tree_Add x t) = tree_params t"
  by (auto simp: Tree_Add_def Let_def EqualSubset_iff Tree_Preference_def agree_def)

lemma tree_inv_reachable:
  assumes "params_ok prm"
  shows "tree_reachable prm A t \<Longrightarrow> tree_inv prm A t"
proof (induction rule: tree_reachable.induct)
  case (tr_init c)
  show ?case
    using newUnarySnowball_ok [OF assms]
    by (simp add: tree_inv_def Tree_Initialize_def leaves_Unary leaves_of_def NumBits_def)
next
  case (tr_add A t x)
  then have t: "tree_params t = prm" "node_ok prm (tree_node t)" "leaves (tree_node t) \<subseteq> A"
    by (auto simp: tree_inv_def)
  from Tree_Add_cases [of x t] show ?case
  proof (elim disjE conjE)
    assume pre: "agree 0 (node_DecidedPrefix (tree_node t)) (node_Preference (tree_node t)) x"
      and eq: "tree_node (Tree_Add x t) = node_Add (tree_params t) (tree_node t) x"
        "tree_params (Tree_Add x t) = tree_params t"
    show ?thesis
      using node_Add_ok [OF assms t(2) pre] t by (simp add: tree_inv_def eq) blast
  qed (use t in \<open>auto simp: tree_inv_def\<close>)
next
  case (tr_poll A t v)
  then show ?case
    using node_RecordPoll_ok [OF assms, of "tree_node t"]
    by (auto simp: tree_inv_def Tree_RecordPoll_simps poll_ok_def)
next
  case (tr_unsuccessful A t)
  then show ?case by (simp add: tree_inv_def Tree_RecordUnsuccessfulPoll_def)
qed

text \<open>One operation of the \<open>Consensus\<close> interface on a tree.\<close>

datatype tree_op = TAdd ID | TPoll Bag | TUnsuccessful

definition tree_step :: "tree_op \<Rightarrow> Tree \<Rightarrow> Tree" where
  "tree_step op t = (case op of TAdd x \<Rightarrow> Tree_Add x t | TPoll v \<Rightarrow> fst (Tree_RecordPoll v t)
     | TUnsuccessful \<Rightarrow> Tree_RecordUnsuccessfulPoll t)"

lemma tree_step_reachable: "tree_reachable prm A t \<Longrightarrow> \<exists>B. tree_reachable prm B (tree_step op t)"
  by (cases op) (auto simp: tree_step_def intro: tree_reachable.intros)

lemma tree_step_decided:
  assumes prm: "params_ok prm" and inv: "tree_inv prm A t"
  shows "node_DecidedPrefix (tree_node t) \<le> node_DecidedPrefix (tree_node (tree_step op t)) \<and>
    agree 0 (node_DecidedPrefix (tree_node t)) (Tree_Preference t) (Tree_Preference (tree_step op t)) \<and>
    (Tree_Finalized t \<longrightarrow> Tree_Finalized (tree_step op t) \<and> Tree_Preference (tree_step op t) = Tree_Preference t)"
proof (cases op)
  case (TAdd x)
  then show ?thesis
    using Tree_Add_cases [of x t] node_Add_ok [OF prm, of "tree_node t" x] inv
    by (auto simp: tree_step_def tree_inv_def Tree_Preference_def Tree_Finalized_def)
next
  case (TPoll v)
  let ?n = "tree_node t" and ?m = "tree_node (fst (Tree_RecordPoll v t))"
  have ok: "node_ok prm ?n" "tree_params t = prm" using inv by (auto simp: tree_inv_def)
  then have p: "node_ok prm ?m" "leaves ?m \<subseteq> leaves ?n" "node_DecidedPrefix ?n \<le> node_DecidedPrefix ?m"
    "node_Finalized ?n \<longrightarrow> node_Finalized ?m \<and> node_Preference ?m = node_Preference ?n"
    using node_RecordPoll_ok [OF prm ok(1)] by (auto simp: Tree_RecordPoll_simps poll_ok_def)
  then have "node_Preference ?m \<in> leaves ?n" using leaves_agree [OF p(1)] by blast
  then have "agree 0 (node_DecidedPrefix ?n) (node_Preference ?n) (node_Preference ?m)"
    using leaves_agree [OF ok(1)] agree_sym by blast
  with p TPoll show ?thesis by (auto simp: tree_step_def Tree_Preference_def Tree_Finalized_def)
next
  case TUnsuccessful
  then show ?thesis
    by (simp add: tree_step_def Tree_RecordUnsuccessfulPoll_def Tree_Preference_def Tree_Finalized_def)
qed

section \<open>Progress under unanimous polls\<close>

text \<open>A poll result with enough votes, all for \<open>x\<close>.\<close>

definition unanimous :: "Parameters \<Rightarrow> ID \<Rightarrow> Bag \<Rightarrow> bool" where
  "unanimous prm x v \<longleftrightarrow> bag_inv v \<and> set_mset (bag_mset v) \<subseteq> {x} \<and> Alpha prm \<le> Len v"

lemma unanimous_filter:
  assumes "unanimous prm x v" and "bag_inv w" and "bag_mset w = filter_mset P (bag_mset v)" and "P x"
  shows "unanimous prm x w"
proof -
  have "filter_mset P (bag_mset v) = bag_mset v"
    using assms(1,4) by (intro filter_mset_eq_conv [THEN iffD2]) (auto simp: unanimous_def)
  with assms show ?thesis by (auto simp: unanimous_def Len_eq)
qed

lemma unanimous_Filter:
  "unanimous prm x v \<Longrightarrow> EqualSubset s e q x \<Longrightarrow> unanimous prm x (Filter v s e q)"
  by (rule unanimous_filter [of prm x v _ "EqualSubset s e q"]) (auto simp: unanimous_def Filter_mset)

lemma unanimous_Split:
  assumes v: "unanimous prm x v" and pos: "0 < Alpha prm"
  shows "(if Len (snd (Split v b)) \<ge> Alpha prm then 1 else 0) = Bit x b"
    and "unanimous prm x (sel2 (Bit x b) (Split v b))"
proof -
  have inv: "bag_inv v" using v by (simp add: unanimous_def)
  note S = Split_mset [OF inv, of b]
  show u: "unanimous prm x (sel2 (Bit x b) (Split v b))"
    using unanimous_filter [OF v S(1,3)] unanimous_filter [OF v S(2,4)] by (auto simp: sel2_def)
  show "(if Len (snd (Split v b)) \<ge> Alpha prm then 1 else 0) = Bit x b"
  proof (cases "Bit x b = 0")
    case True
    then have "bag_mset (snd (Split v b)) = {#}"
      using v by (auto simp: S unanimous_def filter_mset_eq_mempty_iff)
    then have "Len (snd (Split v b)) = 0" using S(2) by (simp add: Len_eq del: filter_mset_eq_mempty_iff)
    then show ?thesis using True pos by simp
  next
    case False
    then have "Bit x b = 1" by (simp add: Bit_eq split: if_splits)
    with u show ?thesis by (simp add: unanimous_def sel2_def)
  qed
qed

text \<open>
  \<open>led k x n\<close>: the instances on the path to \<open>x\<close> have seen at least \<open>k\<close> successful polls for
  it in a row.
\<close>

function led :: "int \<Rightarrow> ID \<Rightarrow> node \<Rightarrow> bool" where
  "led k x (UnaryNode p d c sb r ch) \<longleftrightarrow>
     k \<le> usf_confidence sb \<and> (case ch of None \<Rightarrow> p = x | Some n \<Rightarrow> \<not> r \<and> led k x n)"
| "led k x (BinaryNode ps b sb r ch) \<longleftrightarrow>
     bsl_preference sb = Bit x b \<and> (bsf_finalized sb \<or> k \<le> bsf_confidence sb) \<and>
     (case sel2 (Bit x b) ch of None \<Rightarrow> sel2 (Bit x b) ps = x | Some n \<Rightarrow> \<not> sel2 (Bit x b) r \<and> led k x n)"
  by pat_completeness auto
termination
  by (relation "measure (\<lambda>(k, x, n). size n)") (simp_all only: in_measure case_prod_conv size_sel2 size_un_child wf_measure)

fun undecided :: "node \<Rightarrow> bool" where
  "undecided (UnaryNode p d c sb r ch) \<longleftrightarrow> \<not> usf_finalized sb \<and> (case ch of None \<Rightarrow> True | Some n \<Rightarrow> undecided n)"
| "undecided (BinaryNode ps b sb r (c0, c1)) \<longleftrightarrow> \<not> bsf_finalized sb \<and>
     (case c0 of None \<Rightarrow> True | Some n \<Rightarrow> undecided n) \<and> (case c1 of None \<Rightarrow> True | Some n \<Rightarrow> undecided n)"

lemma undecided_child: "undecided (BinaryNode ps b sb r ch) \<Longrightarrow> sel2 i ch = Some n \<Longrightarrow> undecided n"
  by (cases ch) (auto simp: sel2_def split: if_splits)

lemma undecided_Binary: "undecided (BinaryNode ps b sb r ch) \<Longrightarrow> \<not> bsf_finalized sb"
  by (cases ch) auto

lemma leaves_path:
  assumes ok: "node_ok prm (BinaryNode ps b sb r ch)" and x: "x \<in> leaves (BinaryNode ps b sb r ch)"
  shows "sel2 (Bit x b) ch = None \<Longrightarrow> sel2 (Bit x b) ps = x"
    and "sel2 (Bit x b) ch = Some n \<Longrightarrow> x \<in> leaves n"
proof -
  have side: "x \<in> leaves_of (sel2 i ps) (sel2 i ch) \<Longrightarrow> bit x b \<longleftrightarrow> i \<noteq> 0" for i
  proof -
    assume x: "x \<in> leaves_of (sel2 i ps) (sel2 i ch)"
    show "bit x b \<longleftrightarrow> i \<noteq> 0"
    proof (cases "sel2 i ch")
      case None
      with x node_ok_sel2_bit [OF ok, of i] show ?thesis by (simp add: leaves_of_def)
    next
      case (Some m)
      note c = node_ok_child [OF ok Some]
      from x Some have "agree 0 (node_DecidedPrefix m) x (sel2 i ps)"
        using leaves_agree [OF c(1)] c(3) by (auto simp: leaves_of_def)
      then have "bit x b = bit (sel2 i ps) b" using c(2) by (simp add: agree_def)
      with node_ok_sel2_bit [OF ok, of i] show ?thesis by simp
    qed
  qed
  have "x \<in> leaves_of (sel2 0 ps) (sel2 0 ch) \<or> x \<in> leaves_of (sel2 1 ps) (sel2 1 ch)"
    using x by (auto simp: leaves_Binary sel2_def)
  then have "x \<in> leaves_of (sel2 (Bit x b) ps) (sel2 (Bit x b) ch)"
    using side [of 0] side [of 1] by (auto simp: Bit_eq)
  then show "sel2 (Bit x b) ch = None \<Longrightarrow> sel2 (Bit x b) ps = x"
    and "sel2 (Bit x b) ch = Some n \<Longrightarrow> x \<in> leaves n"
    by (auto simp: leaves_of_def)
qed


lemma leaves_EqualSubset:
  "node_ok prm n \<Longrightarrow> x \<in> leaves n \<Longrightarrow> node_Preference n = q \<Longrightarrow>
   node_DecidedPrefix n \<le> NumBits \<Longrightarrow> EqualSubset s (node_DecidedPrefix n) q x"
proof -
  assume "node_ok prm n" and "x \<in> leaves n" and q: "node_Preference n = q" and "node_DecidedPrefix n \<le> NumBits"
  then have "agree 0 (node_DecidedPrefix n) x q" using leaves_agree by blast
  then have "agree s (node_DecidedPrefix n) q x" by (rule agree_sym [OF agree_mono]) auto
  then show ?thesis using \<open>node_DecidedPrefix n \<le> NumBits\<close> by (simp add: EqualSubset_iff)
qed

lemma node_ok_DecidedPrefix: "node_ok prm n \<Longrightarrow> node_DecidedPrefix n \<le> NumBits"
  by (cases n) (auto simp: node_ok_Binary)

lemma usb_succ_led: "k \<le> usf_confidence sb \<Longrightarrow> k + 1 \<le> usf_confidence (usb_RecordSuccessfulPoll sb)"
  by simp

lemma bsb_succ_led:
  assumes "\<not> bsf_finalized sb" and "0 \<le> bsf_confidence sb"
  shows "bsl_preference (bsb_RecordSuccessfulPoll i sb) = i" and "1 \<le> bsf_confidence (bsb_RecordSuccessfulPoll i sb)"
    and "bsl_preference sb = i \<Longrightarrow> bsf_confidence (bsb_RecordSuccessfulPoll i sb) = bsf_confidence sb + 1"
  using binary_flake.succ_undecided [OF assms(1), of i] assms(2) by auto

lemma led_new_child:
  "bsl_preference sb = Bit x b \<Longrightarrow> bsf_finalized sb \<or> k \<le> bsf_confidence sb \<Longrightarrow> led k x m \<Longrightarrow>
   led k x (BinaryNode ps b sb (upd2 (Bit x b) False r) (upd2 (Bit x b) (Some m) ch))"
  by (simp add: sel2_upd2)

text \<open>One unanimous poll puts every instance on the path in the lead.\<close>

lemma unanimous_first:
  assumes "params_ok prm" and "0 < Alpha prm"
  shows "node_ok prm n \<Longrightarrow> undecided n \<Longrightarrow> x \<in> leaves n \<Longrightarrow> unanimous prm x v \<Longrightarrow>
    led 1 x (fst (node_RecordPoll prm n v reset))"
proof (induction n arbitrary: v reset rule: node_induct)
  case (Unary p d c sb r ch)
  have enough: "\<not> Len v < Alpha prm" using Unary.prems(4) by (simp add: unanimous_def)
  have conf: "0 \<le> usf_confidence sb" using Unary.prems(1) by (simp add: unary_ok_def)
  show ?case
  proof (cases ch)
    case None
    with enough conf Unary.prems(3) show ?thesis
      by (auto simp: node_RecordPoll_Unary Let_def leaves_Unary leaves_of_def)
  next
    case (Some n)
    have "led 1 x (fst (node_RecordPoll prm n v (reset \<or> r)))"
      using Unary Some by (intro Unary.IH) (auto simp: leaves_Unary leaves_of_def)
    with enough conf Some show ?thesis by (auto simp: node_RecordPoll_Unary Let_def)
  qed
next
  case (Binary ps b sb r ch)
  let ?i = "Bit x b"
  let ?sb = "if reset then bsf_RecordUnsuccessfulPoll sb else sb"
  note S = unanimous_Split [OF Binary.prems(4) assms(2), of b]
  have enough: "\<not> Len (sel2 ?i (Split v b)) < Alpha prm" using S(2) by (simp add: unanimous_def)
  have sb: "\<not> bsf_finalized ?sb" "0 \<le> bsf_confidence ?sb"
    using undecided_Binary [OF Binary.prems(2)] Binary.prems(1) by (auto simp: node_ok_Binary binary_ok_def)
  note L = bsb_succ_led [OF sb, of ?i]
  note path = leaves_path [OF Binary.prems(1,3)]
  show ?case
  proof (cases "sel2 ?i ch")
    case None
    with enough L path(1) show ?thesis
      by (simp add: node_RecordPoll_Binary S(1) Let_def split del: if_split)
  next
    case (Some n)
    note c = node_ok_child [OF Binary.prems(1) Some]
    let ?r = "upd2 (1 - ?i) True (if reset then upd2 ?i True r else r)"
    have "unanimous prm x (Filter (sel2 ?i (Split v b)) (b + 1) (node_DecidedPrefix n) (sel2 ?i ps))"
      using S(2) leaves_EqualSubset [OF c(1) path(2) [OF Some] c(3) node_ok_DecidedPrefix [OF c(1)]]
      by (rule unanimous_Filter)
    then have n': "led 1 x (fst (node_RecordPoll prm n
        (Filter (sel2 ?i (Split v b)) (b + 1) (node_DecidedPrefix n) (sel2 ?i ps)) (sel2 ?i ?r)))"
      using Binary.IH [OF Some c(1) undecided_child [OF Binary.prems(2) Some] path(2) [OF Some]] by blast
    show ?thesis
      unfolding node_RecordPoll_Binary Let_def S(1) Some
      using enough n' led_new_child [OF L(1) disjI2 [OF L(2)] n']
      by (cases "bsf_finalized (bsb_RecordSuccessfulPoll ?i ?sb)") (simp_all only: if_True if_False option.case fst_conv)
  qed
qed

text \<open>Each further unanimous poll extends the lead by one.\<close>

lemma led_leaves: "node_ok prm n \<Longrightarrow> led k x n \<Longrightarrow> x \<in> leaves n"
proof (induction n rule: node_induct)
  case (Unary p d c sb r ch)
  then show ?case by (auto simp: leaves_Unary leaves_of_def split: option.splits)
next
  case (Binary ps b sb r ch)
  have "x \<in> leaves_of (sel2 (Bit x b) ps) (sel2 (Bit x b) ch)"
  proof (cases "sel2 (Bit x b) ch")
    case None
    with Binary.prems(2) show ?thesis by (simp add: leaves_of_def)
  next
    case (Some n)
    with Binary.IH [OF Some node_ok_child(1) [OF Binary.prems(1) Some]] Binary.prems(2)
    show ?thesis by (simp add: leaves_of_def)
  qed
  then show ?case by (auto simp: leaves_Binary sel2_def split: if_splits)
qed

lemma unanimous_next:
  assumes "params_ok prm" and "0 < Alpha prm"
  shows "node_ok prm n \<Longrightarrow> led k x n \<Longrightarrow> unanimous prm x v \<Longrightarrow>
    led (k + 1) x (fst (node_RecordPoll prm n v False))"
proof (induction n arbitrary: v rule: node_induct)
  case (Unary p d c sb r ch)
  have enough: "\<not> Len v < Alpha prm" using Unary.prems(3) by (simp add: unanimous_def)
  show ?case
  proof (cases ch)
    case None
    with enough Unary.prems(2) show ?thesis by (simp add: node_RecordPoll_Unary Let_def)
  next
    case (Some n)
    with Unary.prems have r: "\<not> r" "led k x n" "node_ok prm n" "k \<le> usf_confidence sb" by auto
    with Unary.IH [OF Some r(3,2) Unary.prems(3)] enough Some show ?thesis
      by (auto simp: node_RecordPoll_Unary Let_def)
  qed
next
  case (Binary ps b sb r ch)
  let ?i = "Bit x b"
  note S = unanimous_Split [OF Binary.prems(3) assms(2), of b]
  have enough: "\<not> Len (sel2 ?i (Split v b)) < Alpha prm" using S(2) by (simp add: unanimous_def)
  have pref: "bsl_preference sb = ?i" using Binary.prems(2) by simp
  have lead: "bsl_preference (bsb_RecordSuccessfulPoll ?i sb) = ?i \<and>
      (bsf_finalized (bsb_RecordSuccessfulPoll ?i sb) \<or> k + 1 \<le> bsf_confidence (bsb_RecordSuccessfulPoll ?i sb))"
  proof (cases "bsf_finalized sb")
    case True
    with pref show ?thesis using binary_flake.succ_fin [OF True] by simp
  next
    case False
    have "0 \<le> bsf_confidence sb" using Binary.prems(1) by (simp add: node_ok_Binary binary_ok_def)
    with bsb_succ_led [OF False this, of ?i] False Binary.prems(2) show ?thesis by auto
  qed
  note path = leaves_path [OF Binary.prems(1) led_leaves [OF Binary.prems(1,2)]]
  show ?case
  proof (cases "sel2 ?i ch")
    case None
    with enough lead path(1) show ?thesis
      by (simp add: node_RecordPoll_Binary S(1) Let_def split del: if_split)
  next
    case (Some n)
    note c = node_ok_child [OF Binary.prems(1) Some]
    have n: "led k x n" "\<not> sel2 ?i r" using Binary.prems(2) Some by auto
    have i: "sel2 ?i (upd2 (1 - ?i) True r) = False" using n(2) by (simp add: sel2_upd2 Bit_eq)
    have "unanimous prm x (Filter (sel2 ?i (Split v b)) (b + 1) (node_DecidedPrefix n) (sel2 ?i ps))"
      using S(2) leaves_EqualSubset [OF c(1) path(2) [OF Some] c(3) node_ok_DecidedPrefix [OF c(1)]]
      by (rule unanimous_Filter)
    then have n': "led (k + 1) x (fst (node_RecordPoll prm n
        (Filter (sel2 ?i (Split v b)) (b + 1) (node_DecidedPrefix n) (sel2 ?i ps)) False))"
      using Binary.IH [OF Some c(1) n(1)] by blast
    show ?thesis
      unfolding node_RecordPoll_Binary Let_def S(1) Some if_False i
      using enough n' led_new_child [OF conjunct1 [OF lead] conjunct2 [OF lead] n']
      by (cases "bsf_finalized (bsb_RecordSuccessfulPoll ?i sb)") (simp_all only: if_True if_False option.case fst_conv)
  qed
qed

lemma led_finalized:
  assumes "params_ok prm" and "node_ok prm n" and "led (BetaRogue prm) x n"
  shows "node_Finalized n \<and> node_Preference n = x"
proof (cases n)
  case (UnaryNode p d c sb r ch)
  with assms have "usf_finalized sb" by (auto simp: unary_ok_def params_ok_def)
  with assms UnaryNode show ?thesis by (auto split: option.splits)
next
  case (BinaryNode ps b sb r ch)
  with assms have fin: "bsf_finalized sb" by (auto simp: node_ok_Binary binary_ok_def)
  with assms(2) BinaryNode have "sel2 (Bit x b) ch = None"
    using node_ok_child(5) by (cases "sel2 (Bit x b) ch") auto
  with assms(3) fin BinaryNode show ?thesis by (simp add: bsb_Preference_def)
qed

fun tree_polls :: "Bag list \<Rightarrow> Tree \<Rightarrow> Tree" where
  "tree_polls [] t = t"
| "tree_polls (v # vs) t = tree_polls vs (fst (Tree_RecordPoll v t))"

lemma tree_poll_led:
  assumes prm: "params_ok prm" "0 < Alpha prm" and inv: "tree_inv prm A t" and v: "unanimous prm x v"
  shows "undecided (tree_node t) \<Longrightarrow> x \<in> leaves (tree_node t) \<Longrightarrow> led 1 x (tree_node (fst (Tree_RecordPoll v t)))"
    and "led k x (tree_node t) \<Longrightarrow> \<not> tree_shouldReset t \<Longrightarrow> led (k + 1) x (tree_node (fst (Tree_RecordPoll v t)))"
proof -
  let ?n = "tree_node t"
  have ok: "node_ok prm ?n" and p: "tree_params t = prm" using inv by (auto simp: tree_inv_def)
  have w: "unanimous prm x (Filter v 0 (node_DecidedPrefix ?n) (Tree_Preference t))" if "x \<in> leaves ?n"
    using leaves_EqualSubset [OF ok that _ node_ok_DecidedPrefix [OF ok]] v
    by (intro unanimous_Filter) (auto simp: Tree_Preference_def)
  show "undecided ?n \<Longrightarrow> x \<in> leaves ?n \<Longrightarrow> led 1 x (tree_node (fst (Tree_RecordPoll v t)))"
    using unanimous_first [OF prm ok _ _ w] by (simp add: Tree_RecordPoll_simps p)
  show "led k x ?n \<Longrightarrow> \<not> tree_shouldReset t \<Longrightarrow> led (k + 1) x (tree_node (fst (Tree_RecordPoll v t)))"
    using unanimous_next [OF prm ok _ w [OF led_leaves [OF ok]]] by (simp add: Tree_RecordPoll_simps p)
qed

lemma tree_inv_poll:
  "params_ok prm \<Longrightarrow> tree_inv prm A t \<Longrightarrow> tree_inv prm A (fst (Tree_RecordPoll v t))"
  using node_RecordPoll_ok [of prm "tree_node t"] by (auto simp: tree_inv_def Tree_RecordPoll_simps poll_ok_def)

lemma tree_polls_led:
  assumes prm: "params_ok prm" "0 < Alpha prm"
  shows "tree_inv prm A t \<Longrightarrow> \<not> tree_shouldReset t \<Longrightarrow> led k x (tree_node t) \<Longrightarrow> \<forall>v\<in>set vs. unanimous prm x v \<Longrightarrow>
    led (k + int (length vs)) x (tree_node (tree_polls vs t)) \<and> tree_inv prm A (tree_polls vs t)"
proof (induction vs arbitrary: t k)
  case Nil
  then show ?case by simp
next
  case (Cons v vs)
  have "led (k + 1) x (tree_node (fst (Tree_RecordPoll v t)))"
    using tree_poll_led(2) [OF prm Cons.prems(1)] Cons.prems by auto
  with Cons.IH [of "fst (Tree_RecordPoll v t)" "k + 1"] Cons.prems tree_inv_poll [OF prm(1) Cons.prems(1)]
  show ?case by (simp add: Tree_RecordPoll_simps add_ac)
qed

section \<open>A tree that was never polled\<close>

text \<open>No instance below the node is finalized and no bit of a sub-tree is skipped.\<close>

definition contiguous_child :: "(node \<Rightarrow> bool) \<Rightarrow> nat \<Rightarrow> node option \<Rightarrow> bool" where
  "contiguous_child P b ch = (case ch of None \<Rightarrow> True | Some n \<Rightarrow> node_DecidedPrefix n = b + 1 \<and> P n)"

lemma contiguous_child_cong [fundef_cong]:
  "ch = ch' \<Longrightarrow> b = b' \<Longrightarrow> (\<And>n. ch' = Some n \<Longrightarrow> P n = Q n) \<Longrightarrow> contiguous_child P b ch = contiguous_child Q b' ch'"
  by (auto simp: contiguous_child_def split: option.split)

fun untouched :: "node \<Rightarrow> bool" where
  "untouched (UnaryNode p d c sb r ch) \<longleftrightarrow> \<not> usf_finalized sb \<and> (case ch of None \<Rightarrow> True | Some n \<Rightarrow> untouched n)"
| "untouched (BinaryNode ps b sb r (c0, c1)) \<longleftrightarrow> \<not> bsf_finalized sb \<and>
     contiguous_child untouched b c0 \<and> contiguous_child untouched b c1"

lemma untouched_Binary:
  "untouched (BinaryNode ps b sb r ch) \<longleftrightarrow> \<not> bsf_finalized sb \<and>
     contiguous_child untouched b (fst ch) \<and> contiguous_child untouched b (snd ch)"
  by (cases ch) simp

declare untouched.simps(2) [simp del]

lemma untouched_split:
  assumes ok: "node_ok prm (UnaryNode p d c sb r ch)" and v: "untouched (UnaryNode p d c sb r ch)"
    and i: "d \<le> i" "i < c"
  shows "untouched (unaryNode_split prm p d c sb r ch x i)"
proof -
  have ch: "i + 1 = c \<Longrightarrow> contiguous_child untouched i ch"
    using ok v by (auto simp: contiguous_child_def split: option.splits)
  have new: "contiguous_child untouched i (Some (UnaryNode x (i + 1) NumBits (newUnarySnowball prm) False None))"
    by (simp add: contiguous_child_def)
  have old: "contiguous_child untouched i (Some (UnaryNode p (i + 1) c sb r ch))"
    using v by (simp add: contiguous_child_def)
  have B: "contiguous_child untouched i n0 \<Longrightarrow> contiguous_child untouched i n1 \<Longrightarrow>
      untouched (BinaryNode (upd2 (1 - Bit p i) x (upd2 (Bit p i) p (0, 0))) i
        (usb_Extend (BetaRogue prm) (Bit p i) sb) (r, r)
        (upd2 (1 - Bit p i) n1 (upd2 (Bit p i) n0 (None, None))))" for n0 n1
    using v by (auto simp: untouched_Binary upd2_def contiguous_child_def)
  have last: "contiguous_child untouched i (if ch = None then None else
      Some (UnaryNode x (i + 1) NumBits (newUnarySnowball prm) False None))"
    using new by (simp add: contiguous_child_def)
  show ?thesis
  proof (cases "i + 1 = c")
    case True
    with B [OF ch [OF True] last] v i show ?thesis
      by (auto simp: unaryNode_split_def Let_def split_children_eq)
  next
    case False
    with B [OF old new] v i show ?thesis by (auto simp: unaryNode_split_def Let_def)
  qed
qed

lemma untouched_Add:
  assumes prm: "params_ok prm"
  shows "node_ok prm n \<Longrightarrow> untouched n \<Longrightarrow> agree 0 (node_DecidedPrefix n) (node_Preference n) x \<Longrightarrow>
    untouched (node_Add prm n x) \<and> x \<in> leaves (node_Add prm n x)"
proof (induction n rule: node_induct)
  case (Unary p d c sb r ch)
  have nf: "\<not> usf_finalized sb" using Unary.prems(2) by simp
  show ?case
  proof (cases "FirstDifferenceSubset d c p x")
    case (Some i)
    then have "d \<le> i" "i < c" by (auto simp: FirstDifferenceSubset_eq find_upt_Some_iff split: if_splits)
    with untouched_split [OF Unary.prems(1,2)] unaryNode_split_ok(2) [OF prm Unary.prems(1) nf _ Some] Unary.prems(3) Some nf
    show ?thesis by simp
  next
    case fd: None
    have c: "c \<le> NumBits" "d < c" using Unary.prems(1) by auto
    have "agree d c p x" using fd c by (auto simp: FirstDifferenceSubset_eq find_upt_None_iff agree_def)
    then have agr: "agree 0 c p x" using c Unary.prems(3) agree_split [of 0 d c p x] by simp
    show ?thesis
    proof (cases ch)
      case None
      with Unary.prems(1) have "c = 256" by (simp add: NumBits_def)
      with agr have "p = x" by (intro bit_word_eqI) (auto simp: agree_def)
      with None fd nf Unary.prems show ?thesis by (simp add: leaves_Unary leaves_of_def)
    next
      case (Some n)
      then have "untouched (node_Add prm n x) \<and> x \<in> leaves (node_Add prm n x)"
        using agr Unary.prems by (intro Unary.IH) auto
      with Some fd nf show ?thesis by (simp add: leaves_Unary leaves_of_def)
    qed
  qed
next
  case (Binary ps b sb r ch)
  let ?bit = "Bit x b"
  have bit: "?bit \<le> 1" by (simp add: Bit_eq)
  have agr: "agree 0 b (sel2 ?bit ps) x"
    using Binary.prems(3) node_ok_agree_sel2 [OF Binary.prems(1), of "bsb_Preference sb" ?bit]
    by (auto intro: agree_trans agree_sym)
  have same: "bit (sel2 ?bit ps) b = bit x b"
    using node_ok_sel2_bit [OF Binary.prems(1), of ?bit] by (simp add: Bit_eq)
  show ?case
  proof (cases "sel2 ?bit ch")
    case None
    then have "b + 1 = NumBits"
      using Binary.prems(1) by (auto simp: node_ok_Binary child_ok_def sel2_def split: if_splits option.splits)
    then have "b = 255" by (simp add: NumBits_def)
    have "sel2 ?bit ps = x"
    proof (rule bit_word_eqI)
      fix n :: nat assume "n < LENGTH(256)"
      then have "n < b \<or> n = b" using \<open>b = 255\<close> by auto
      then show "bit (sel2 ?bit ps) n = bit x n" using agr same by (auto simp: agree_def)
    qed
    then have "x \<in> leaves (BinaryNode ps b sb r ch)"
      using None bit by (auto simp: leaves_Binary leaves_of_def sel2_def split: if_splits)
    with None Binary.prems(2) show ?thesis by (simp add: Let_def)
  next
    case (Some n)
    note c = node_ok_child [OF Binary.prems(1) Some]
    have n: "node_DecidedPrefix n = b + 1" "untouched n"
      using Some Binary.prems(2) by (auto simp: untouched_Binary contiguous_child_def sel2_def split: if_splits)
    have pre: "agree 0 (node_DecidedPrefix n) (node_Preference n) x"
      using agr same by (simp add: n c(3) agree_Suc)
    note IH = Binary.IH [OF Some c(1) n(2) pre]
    have "EqualSubset (b + 1) (node_DecidedPrefix n) (sel2 ?bit ps) x" by (simp add: EqualSubset_iff n)
    then have eq: "node_Add prm (BinaryNode ps b sb r ch) x =
        BinaryNode ps b sb r (upd2 ?bit (Some (node_Add prm n x)) ch)"
      using Some by (simp add: Let_def)
    have "node_DecidedPrefix (node_Add prm n x) = b + 1" using node_Add_ok [OF prm c(1) pre] n by simp
    with IH Binary.prems(2) bit show ?thesis
      unfolding eq leaves_upd2 [OF bit] untouched_Binary
      by (auto simp: leaves_of_def upd2_def contiguous_child_def)
  qed
qed

lemma Tree_adds:
  assumes prm: "params_ok prm"
  shows "tree_inv prm (insert c (set xs)) (fold Tree_Add xs (Tree_Initialize prm c)) \<and>
    untouched (tree_node (fold Tree_Add xs (Tree_Initialize prm c))) \<and>
    node_DecidedPrefix (tree_node (fold Tree_Add xs (Tree_Initialize prm c))) = 0 \<and>
    leaves (tree_node (fold Tree_Add xs (Tree_Initialize prm c))) = insert c (set xs)"
proof (induction xs rule: rev_induct)
  case Nil
  show ?case
    using tree_inv_reachable [OF prm tr_init, of c]
    by (simp add: Tree_Initialize_def leaves_Unary leaves_of_def)
next
  case (snoc x xs)
  let ?t = "fold Tree_Add xs (Tree_Initialize prm c)"
  have t: "node_ok prm (tree_node ?t)" "tree_params ?t = prm" "untouched (tree_node ?t)"
    "node_DecidedPrefix (tree_node ?t) = 0" "leaves (tree_node ?t) = insert c (set xs)"
    using snoc.IH by (auto simp: tree_inv_def)
  have pre: "agree 0 (node_DecidedPrefix (tree_node ?t)) (node_Preference (tree_node ?t)) x"
    by (simp add: t agree_def)
  have eq: "tree_node (Tree_Add x ?t) = node_Add prm (tree_node ?t) x" "tree_params (Tree_Add x ?t) = prm"
    using t by (auto simp: Tree_Add_def EqualSubset_iff)
  show ?case
    using node_Add_ok [OF prm t(1) pre] untouched_Add [OF prm t(1,3) pre] t by (auto simp: eq tree_inv_def)
qed

lemma untouched_undecided: "untouched n \<Longrightarrow> undecided n"
  by (induction n rule: undecided.induct)
    (auto simp: untouched_Binary contiguous_child_def split: option.splits)

section \<open>The tree as a consensus instance\<close>

definition tree_wf :: "Tree \<Rightarrow> bool" where
  "tree_wf t \<longleftrightarrow> params_ok (tree_params t) \<and> node_ok (tree_params t) (tree_node t)"

lemma tree_wf_inv: "tree_wf t \<longleftrightarrow> params_ok (tree_params t) \<and> tree_inv (tree_params t) (leaves (tree_node t)) t"
  by (simp add: tree_wf_def tree_inv_def)

lemma tree_wf_reachable: "params_ok prm \<Longrightarrow> tree_reachable prm A t \<Longrightarrow> tree_wf t"
  using tree_inv_reachable [of prm A t] by (auto simp: tree_wf_def tree_inv_def)

lemma tree_wf_step:
  assumes "tree_wf t"
  shows "tree_wf (tree_step op t)" "tree_params (tree_step op t) = tree_params t"
proof -
  have prm: "params_ok (tree_params t)" and n: "node_ok (tree_params t) (tree_node t)"
    using assms by (auto simp: tree_wf_def)
  show "tree_params (tree_step op t) = tree_params t"
    by (cases op) (simp_all add: tree_step_def Tree_Add_def Tree_RecordPoll_simps Tree_RecordUnsuccessfulPoll_def)
  show "tree_wf (tree_step op t)"
  proof (cases op)
    case (TAdd x)
    with Tree_Add_cases [of x t] node_Add_ok [OF prm n] show ?thesis
      by (auto simp: tree_wf_def tree_step_def prm n)
  next
    case (TPoll v)
    with node_RecordPoll_ok [OF prm n] show ?thesis
      by (simp add: tree_wf_def tree_step_def Tree_RecordPoll_simps prm poll_ok_def)
  next
    case TUnsuccessful
    with prm n show ?thesis by (simp add: tree_wf_def tree_step_def Tree_RecordUnsuccessfulPoll_def)
  qed
qed

interpretation tree_instance: consensus_instance tree_step Tree_Preference Tree_Finalized tree_wf
proof unfold_locales
  fix t op assume t: "tree_wf t"
  show "tree_wf (tree_step op t)" by (rule tree_wf_step [OF t])
  assume "Tree_Finalized t"
  with tree_step_decided [of "tree_params t" _ t op] t
  show "Tree_Finalized (tree_step op t) \<and> Tree_Preference (tree_step op t) = Tree_Preference t"
    by (auto simp: tree_wf_inv)
qed

lemma tree_run_decided:
  "tree_wf t \<Longrightarrow> node_DecidedPrefix (tree_node t) \<le> node_DecidedPrefix (tree_node (fold tree_step ops t)) \<and>
     agree 0 (node_DecidedPrefix (tree_node t)) (Tree_Preference t) (Tree_Preference (fold tree_step ops t))"
proof (induction ops arbitrary: t)
  case Nil
  then show ?case by (simp add: agree_def)
next
  case (Cons op ops)
  have s: "node_DecidedPrefix (tree_node t) \<le> node_DecidedPrefix (tree_node (tree_step op t))"
    "agree 0 (node_DecidedPrefix (tree_node t)) (Tree_Preference t) (Tree_Preference (tree_step op t))"
    using tree_step_decided [of "tree_params t" _ t op] Cons.prems by (auto simp: tree_wf_inv)
  note IH = Cons.IH [OF tree_wf_step(1) [OF Cons.prems, of op]]
  with s show ?case
    by (auto intro: agree_trans [OF s(2)] agree_mono)
qed

lemma unanimous_polls_finalize:
  assumes V: "Verify prm = None" and inv: "tree_inv prm A t" and und: "undecided (tree_node t)"
    and x: "x \<in> leaves (tree_node t)" and vs: "\<forall>v\<in>set vs. unanimous prm x v" "int (length vs) = BetaRogue prm"
  shows "Tree_Finalized (tree_polls vs t) \<and> Tree_Preference (tree_polls vs t) = x"
proof -
  have prm: "params_ok prm" "0 < Alpha prm" using V by (simp_all add: params_ok_Verify Verify_None)
  then obtain v ws where w: "vs = v # ws" using vs(2) by (cases vs) (auto simp: params_ok_def)
  let ?t = "fst (Tree_RecordPoll v t)"
  have "led 1 x (tree_node ?t)" using tree_poll_led(1) [OF prm inv _ und x] vs w by simp
  with tree_polls_led [OF prm tree_inv_poll [OF prm(1) inv], of v 1 x ws] vs w
  have "led (BetaRogue prm) x (tree_node (tree_polls vs t))" "tree_inv prm A (tree_polls vs t)"
    by (auto simp: Tree_RecordPoll_simps add.commute)
  with led_finalized [OF prm(1), of "tree_node (tree_polls vs t)" x] show ?thesis
    by (simp add: tree_inv_def Tree_Finalized_def Tree_Preference_def)
qed

lemma tree_reachable_valid:
  assumes "Verify prm = None" and "tree_reachable prm A t"
  shows "Tree_Preference t \<in> A" "node_ok prm (tree_node t)" "leaves (tree_node t) \<subseteq> A"
  using tree_inv_reachable [OF params_ok_Verify [OF assms(1)] assms(2)] leaves_agree [of prm "tree_node t"]
  by (auto simp: tree_inv_def Tree_Preference_def)

section \<open>Properties\<close>

text \<open>
  C28. Validity: in every tree reached with verified parameters by any sequence of added choices and
  polls, the preference is one of the choices that were added, the nodes satisfy the structural
  invariant, and every choice the tree still represents was added.
\<close>

theorem tree_validity:
  assumes "Verify prm = None" and "tree_reachable prm A t"
  shows "Tree_Preference t \<in> A \<and> node_ok prm (tree_node t) \<and> leaves (tree_node t) \<subseteq> A"
  using tree_reachable_valid [OF assms] by blast

theorem tree_validity_witness:
  "Tree_Preference (fst (Tree_RecordPoll (AddIDs emptyBag [5, 5, 6]) (Tree_Add 5 (Tree_Initialize example_params 4)))) \<in> {4, 5}"
proof -
  have "Verify example_params = None" by code_simp
  moreover have "tree_reachable example_params {5, 4}
      (fst (Tree_RecordPoll (AddIDs emptyBag [5, 5, 6]) (Tree_Add 5 (Tree_Initialize example_params 4))))"
    by (intro tree_reachable.intros)
  ultimately show ?thesis using tree_validity by blast
qed

text \<open>
  C29. Decided bits are final: whatever operations follow, the decided prefix of a reachable tree never shrinks
  and the preference keeps the bits of the prefix decided so far.
\<close>

theorem tree_decided_prefix_final:
  assumes "Verify prm = None" and "tree_reachable prm A t"
  shows "let d = node_DecidedPrefix (tree_node t); t' = fold tree_step ops t in
    d \<le> node_DecidedPrefix (tree_node t') \<and> map (Bit (Tree_Preference t')) [0..<d] = map (Bit (Tree_Preference t)) [0..<d]"
  using tree_run_decided [OF tree_wf_reachable [OF params_ok_Verify [OF assms(1)] assms(2)], of ops]
  by (auto simp: Let_def agree_def Bit_eq)

theorem tree_decided_prefix_final_witness:
  "let t = tree_polls [AddIDs emptyBag [5, 5, 7], AddIDs emptyBag [5, 7, 7]] (Tree_Add 7 (Tree_Add 5 (Tree_Initialize example_params 4)));
     t' = fold tree_step [TPoll (AddIDs emptyBag [4, 4, 4]), TAdd 6] t in
   node_DecidedPrefix (tree_node t) = 1 \<and> 1 \<le> node_DecidedPrefix (tree_node t') \<and> Bit (Tree_Preference t') 0 = 1"
proof -
  let ?t = "tree_polls [AddIDs emptyBag [5, 5, 7], AddIDs emptyBag [5, 7, 7]] (Tree_Add 7 (Tree_Add 5 (Tree_Initialize example_params 4)))"
  have *: "Verify example_params = None" "node_DecidedPrefix (tree_node ?t) = 1" "Bit (Tree_Preference ?t) 0 = 1" by code_simp+
  have "tree_reachable example_params {7, 5, 4} ?t"
    unfolding tree_polls.simps by (intro tree_reachable.intros)
  from tree_decided_prefix_final [OF *(1) this, of "[TPoll (AddIDs emptyBag [4, 4, 4]), TAdd 6]"] *(2,3)
  show ?thesis unfolding Let_def by simp
qed

text \<open>
  C26. Safety: once a reachable tree is finalized, every later operation leaves it finalized on
  the same choice.
\<close>

theorem tree_finalized_forever:
  assumes "Verify prm = None" and "tree_reachable prm A t" and "Tree_Finalized t"
  shows "Tree_Finalized (fold tree_step ops t) \<and> Tree_Preference (fold tree_step ops t) = Tree_Preference t"
  using tree_instance.run_final [OF tree_wf_reachable [OF params_ok_Verify [OF assms(1)] assms(2)] assms(3)] by simp

theorem tree_finalized_forever_witness:
  "let t = tree_polls [AddIDs emptyBag [5, 5, 5], AddIDs emptyBag [5, 5, 5]] (Tree_Add 5 (Tree_Initialize example_params 4)) in
   Tree_Finalized t \<and> Tree_Preference (fold tree_step [TPoll (AddIDs emptyBag [4, 4, 4]), TAdd 6] t) = 5"
proof -
  let ?t = "tree_polls [AddIDs emptyBag [5, 5, 5], AddIDs emptyBag [5, 5, 5]] (Tree_Add 5 (Tree_Initialize example_params 4))"
  have *: "Verify example_params = None" "Tree_Finalized ?t" "Tree_Preference ?t = 5" by code_simp+
  have "tree_reachable example_params {5, 4} ?t"
    unfolding tree_polls.simps by (intro tree_reachable.intros)
  from tree_finalized_forever [OF *(1) this *(2), of "[TPoll (AddIDs emptyBag [4, 4, 4]), TAdd 6]"] *(2,3)
  show ?thesis unfolding Let_def by simp
qed

text \<open>
  C27. Progress: start a tree with verified parameters, add any choices, then let \<open>BetaRogue\<close>
  polls in a row reach \<open>Alpha\<close> votes all for one added choice. The tree is then finalized on that choice.
\<close>

theorem tree_unanimous_polls_decide:
  assumes "Verify prm = None" and "x \<in> insert c (set cs)"
    and "\<forall>v\<in>set vs. unanimous prm x v" and "int (length vs) = BetaRogue prm"
  shows "let t = tree_polls vs (fold Tree_Add cs (Tree_Initialize prm c)) in
    Tree_Finalized t \<and> Tree_Preference t = x"
  using unanimous_polls_finalize [OF assms(1), of "insert c (set cs)" "fold Tree_Add cs (Tree_Initialize prm c)" x vs]
    Tree_adds [OF params_ok_Verify [OF assms(1)], of c cs] assms(2-4)
  by (simp add: Let_def untouched_undecided)

theorem tree_unanimous_polls_decide_witness:
  "let t = tree_polls [AddCount emptyBag 5 3, AddCount emptyBag 5 2] (fold Tree_Add [5, 7, 6] (Tree_Initialize example_params 4)) in
    Tree_Finalized t \<and> Tree_Preference t = 5"
proof -
  have "unanimous example_params 5 (AddCount emptyBag 5 n)" if "n = 2 \<or> n = 3" for n
    using that by (auto simp: unanimous_def bag_inv_AddCount bag_mset_AddCount Len_eq example_params_def)
  moreover have "Verify example_params = None" by code_simp
  ultimately show ?thesis
    using tree_unanimous_polls_decide [of example_params 5 4 "[5, 7, 6]" "[AddCount emptyBag 5 3, AddCount emptyBag 5 2]"]
    by (simp add: example_params_def)
qed

end
