(* ===== verification/LinkedHashmap.thy ===== *)
theory LinkedHashmap
  imports Prelude
begin

text \<open>
  The insertion-ordered hash map of \<open>src/utils/linkedhashmap/linkedhashmap.go\<close>: a Go map from
  keys to elements of a doubly linked list (\<open>container/list\<close>). A list element is a pointer; here
  it is a handle, a number that is never reused, and the linked list is the sequence of its
  elements. An element that was removed from the list is kept in \<open>lh_removed\<close> with its last value,
  as an iterator may still point to it. The invariant says that the map indexes the list. The locale \<open>ordered_map\<close> is the
  contract that clients use; it is interpreted on this model. The mutex is not modelled: each
  exported method holds it for its whole body.
\<close>

section \<open>The map and the list\<close>

record ('k, 'v) linkedHashmap =
  lh_entryMap :: "('k, nat) gomap"
  lh_entryList :: "(nat \<times> 'k \<times> 'v) list"
  lh_fresh :: nat
  lh_removed :: "(nat \<times> 'k \<times> 'v) list"

definition lh_New :: "('k, 'v) linkedHashmap" where
  "lh_New = \<lparr>lh_entryMap = [], lh_entryList = [], lh_fresh = 0, lh_removed = []\<rparr>"

text \<open>\<open>MoveToBack\<close> followed by the assignment to \<open>e.Value\<close>, \<open>PushBack\<close> and \<open>Remove\<close>.\<close>

definition list_Remove :: "nat \<Rightarrow> (nat \<times> 'a) list \<Rightarrow> (nat \<times> 'a) list" where
  "list_Remove e l = filter (\<lambda>x. fst x \<noteq> e) l"

definition list_MoveToBack :: "nat \<Rightarrow> (nat \<times> 'a) list \<Rightarrow> (nat \<times> 'a) list" where
  "list_MoveToBack e l = list_Remove e l @ filter (\<lambda>x. fst x = e) l"

definition list_SetValue :: "nat \<Rightarrow> 'a \<Rightarrow> (nat \<times> 'a) list \<Rightarrow> (nat \<times> 'a) list" where
  "list_SetValue e v l = map (\<lambda>x. if fst x = e then (e, v) else x) l"

definition lh_put :: "'k \<Rightarrow> 'v \<Rightarrow> ('k, 'v) linkedHashmap \<Rightarrow> ('k, 'v) linkedHashmap" where
  "lh_put key val lh =
     (case map_of (lh_entryMap lh) key of
        Some e \<Rightarrow> lh\<lparr>lh_entryList := list_SetValue e (key, val) (list_MoveToBack e (lh_entryList lh))\<rparr>
      | None \<Rightarrow>
          let e = lh_fresh lh in
          lh\<lparr>lh_entryList := lh_entryList lh @ [(e, key, val)], lh_fresh := Suc e,
             lh_entryMap := AList.update key e (lh_entryMap lh)\<rparr>)"

definition lh_get :: "'k \<Rightarrow> ('k, 'v) linkedHashmap \<Rightarrow> 'v option" where
  "lh_get key lh =
     (case map_of (lh_entryMap lh) key of
        Some e \<Rightarrow> map_option snd (map_of (lh_entryList lh) e)
      | None \<Rightarrow> None)"

definition lh_delete :: "'k \<Rightarrow> ('k, 'v) linkedHashmap \<Rightarrow> ('k, 'v) linkedHashmap" where
  "lh_delete key lh =
     (case map_of (lh_entryMap lh) key of
        Some e \<Rightarrow> lh\<lparr>lh_entryList := list_Remove e (lh_entryList lh),
                       lh_entryMap := AList.delete key (lh_entryMap lh),
                       lh_removed := filter (\<lambda>x. fst x = e) (lh_entryList lh) @ lh_removed lh\<rparr>
      | None \<Rightarrow> lh)"

definition lh_len :: "('k, 'v) linkedHashmap \<Rightarrow> nat" where
  "lh_len lh = length (lh_entryMap lh)"

definition lh_oldest :: "('k, 'v) linkedHashmap \<Rightarrow> ('k \<times> 'v) option" where
  "lh_oldest lh = (case lh_entryList lh of [] \<Rightarrow> None | x # _ \<Rightarrow> Some (snd x))"

definition lh_newest :: "('k, 'v) linkedHashmap \<Rightarrow> ('k \<times> 'v) option" where
  "lh_newest lh = (case rev (lh_entryList lh) of [] \<Rightarrow> None | x # _ \<Rightarrow> Some (snd x))"

section \<open>The iterator\<close>

text \<open>
  The iterator keeps a pointer to the next element. \<open>Next()\<close> of an element is the one after it
  in the list, \<open>nil\<close> for an element that was removed: the source asks callers not to delete
  elements that were not yet visited, an iterator that stands at one reads its value and stops.
\<close>

record ('k, 'v) iterator =
  it_current :: "('k \<times> 'v) option"
  it_next :: "nat option"
  it_initialized :: bool
  it_exhausted :: bool

definition NewIterator :: "('k, 'v) iterator" where
  "NewIterator = \<lparr>it_current = None, it_next = None, it_initialized = False, it_exhausted = False\<rparr>"

fun element_after :: "nat \<Rightarrow> (nat \<times> 'a) list \<Rightarrow> nat option" where
  "element_after e (x # y # l) = (if fst x = e then Some (fst y) else element_after e (y # l))"
| "element_after e l = None"

definition list_Front :: "(nat \<times> 'a) list \<Rightarrow> nat option" where
  "list_Front l = (case l of [] \<Rightarrow> None | x # _ \<Rightarrow> Some (fst x))"

text \<open>\<open>None\<close> is the dereference of a nil \<open>it.next\<close>.\<close>

definition iterator_Next ::
  "('k, 'v) linkedHashmap \<Rightarrow> ('k, 'v) iterator \<Rightarrow> (('k, 'v) iterator \<times> bool) option" where
  "iterator_Next lh it =
     (if it_exhausted it then Some (it\<lparr>it_current := None, it_next := None\<rparr>, False)
      else
        let oldest = list_Front (lh_entryList lh) in
        if \<not> it_initialized it \<and> oldest = None
        then Some (it\<lparr>it_initialized := True, it_exhausted := True, it_current := None, it_next := None\<rparr>, False)
        else
          let it = (if it_initialized it then it else it\<lparr>it_initialized := True, it_next := oldest\<rparr>) in
          (case it_next it of
             None \<Rightarrow> None
           | Some e \<Rightarrow>
               (case map_of (lh_entryList lh @ lh_removed lh) e of
                  None \<Rightarrow> None
                | Some kv \<Rightarrow>
                    let nxt = element_after e (lh_entryList lh) in
                    Some (it\<lparr>it_current := Some kv, it_next := nxt, it_exhausted := (nxt = None)\<rparr>, True))))"

text \<open>The usual loop: \<open>for it.Next() { use it.Key(), it.Value() }\<close>.\<close>

fun iterate :: "nat \<Rightarrow> ('k, 'v) linkedHashmap \<Rightarrow> ('k, 'v) iterator \<Rightarrow> ('k \<times> 'v) list option" where
  "iterate 0 lh it = None"
| "iterate (Suc n) lh it =
     (case iterator_Next lh it of
        None \<Rightarrow> None
      | Some (it', hasNext) \<Rightarrow>
          if hasNext then
            (case it_current it' of
               None \<Rightarrow> None
             | Some kv \<Rightarrow> map_option (\<lambda>l. kv # l) (iterate n lh it'))
          else Some [])"

section \<open>The invariant and the abstraction\<close>

definition lh_inv :: "('k, 'v) linkedHashmap \<Rightarrow> bool" where
  "lh_inv lh \<longleftrightarrow>
     distinct (map fst (lh_entryMap lh)) \<and>
     distinct (map fst (lh_entryList lh)) \<and>
     distinct (map (fst \<circ> snd) (lh_entryList lh)) \<and>
     (\<forall>x\<in>set (lh_entryList lh). fst x < lh_fresh lh) \<and>
     set (lh_entryMap lh) = (\<lambda>x. (fst (snd x), fst x)) ` set (lh_entryList lh)"

definition lh_abs :: "('k, 'v) linkedHashmap \<Rightarrow> ('k \<times> 'v) list" where
  "lh_abs lh = map snd (lh_entryList lh)"

lemma lh_inv_New [simp]: "lh_inv lh_New" "lh_abs lh_New = []"
  by (simp_all add: lh_inv_def lh_New_def lh_abs_def)

lemma entryMap_Some:
  assumes "lh_inv lh"
  shows "map_of (lh_entryMap lh) k = Some e \<longleftrightarrow> (\<exists>v. (e, k, v) \<in> set (lh_entryList lh))"
proof -
  have "map_of (lh_entryMap lh) k = Some e \<longleftrightarrow> (k, e) \<in> (\<lambda>x. (fst (snd x), fst x)) ` set (lh_entryList lh)"
    using assms by (auto simp: lh_inv_def map_of_eq_Some_iff)
  then show ?thesis by force
qed

lemma entryMap_None:
  assumes "lh_inv lh"
  shows "map_of (lh_entryMap lh) k = None \<longleftrightarrow> k \<notin> fst ` set (lh_abs lh)"
proof -
  have "map_of (lh_entryMap lh) k = None \<longleftrightarrow> (\<forall>e v. (e, k, v) \<notin> set (lh_entryList lh))"
    by (simp only: entryMap_Some [OF assms] not_ex flip: not_Some_eq)
  then show ?thesis by (force simp: lh_abs_def)
qed

lemma distinct_abs: "lh_inv lh \<Longrightarrow> distinct (map fst (lh_abs lh))"
  by (simp add: lh_inv_def lh_abs_def)

lemma map_of_abs:
  assumes "lh_inv lh"
  shows "map_of (lh_abs lh) k = Some v \<longleftrightarrow> (\<exists>e. (e, k, v) \<in> set (lh_entryList lh))"
  using map_of_eq_Some_iff [OF distinct_abs [OF assms]] by (force simp: lh_abs_def)

text \<open>Within the list a handle and a key determine each other.\<close>

lemma handle_key:
  assumes "lh_inv lh" and "(e, k, v) \<in> set (lh_entryList lh)" and "x \<in> set (lh_entryList lh)"
  shows "fst x = e \<longleftrightarrow> fst (snd x) = k"
proof -
  have "inj_on fst (set (lh_entryList lh))" "inj_on (fst \<circ> snd) (set (lh_entryList lh))"
    using assms(1) by (auto simp: lh_inv_def distinct_map)
  from inj_onD [OF this(1), of x "(e, k, v)"] inj_onD [OF this(2), of x "(e, k, v)"] assms(2,3)
  show ?thesis by (cases x) auto
qed

lemma filter_fst_distinct:
  "distinct (map fst l) \<Longrightarrow> (e, y) \<in> set l \<Longrightarrow> filter (\<lambda>x. fst x = e) l = [(e, y)]"
  by (induction l) (force simp: filter_empty_conv)+

lemma filter_handle:
  assumes "lh_inv lh" and "(e, k, v) \<in> set (lh_entryList lh)"
  shows "filter (\<lambda>x. fst x \<noteq> e) (lh_entryList lh) = filter (\<lambda>x. fst (snd x) \<noteq> k) (lh_entryList lh)"
    and "filter (\<lambda>x. fst x = e) (lh_entryList lh) = [(e, k, v)]"
proof -
  show "filter (\<lambda>x. fst x \<noteq> e) (lh_entryList lh) = filter (\<lambda>x. fst (snd x) \<noteq> k) (lh_entryList lh)"
    using handle_key [OF assms] by (intro filter_cong) auto
  show "filter (\<lambda>x. fst x = e) (lh_entryList lh) = [(e, k, v)]"
    using assms by (intro filter_fst_distinct) (simp_all add: lh_inv_def)
qed

section \<open>The operations on the ordered association list\<close>

definition without :: "'k \<Rightarrow> ('k \<times> 'v) list \<Rightarrow> ('k \<times> 'v) list" where
  "without k l = filter (\<lambda>p. fst p \<noteq> k) l"

lemma map_snd_without: "map snd (filter (\<lambda>x. fst (snd x) \<noteq> k) l) = without k (map snd l)"
  by (simp add: without_def filter_map o_def)

lemma without_absent: "k \<notin> fst ` set l \<Longrightarrow> without k l = l"
  by (force simp: without_def filter_id_conv)

lemma map_of_without: "map_of (without k' l) k = (if k = k' then None else map_of l k)"
  by (induction l) (auto simp: without_def)

lemma lh_put_list:
  assumes "lh_inv lh" and "(e, k, w) \<in> set (lh_entryList lh)"
  shows "lh_put k v lh = lh\<lparr>lh_entryList := filter (\<lambda>x. fst (snd x) \<noteq> k) (lh_entryList lh) @ [(e, k, v)]\<rparr>"
proof -
  have "map_of (lh_entryMap lh) k = Some e" using entryMap_Some [OF assms(1)] assms(2) by blast
  moreover have "list_SetValue e (k, v) (filter (\<lambda>x. fst x \<noteq> e) (lh_entryList lh)) =
      filter (\<lambda>x. fst x \<noteq> e) (lh_entryList lh)"
    by (auto simp: list_SetValue_def intro: map_idI)
  ultimately show ?thesis
    using filter_handle [OF assms]
    by (simp add: lh_put_def list_MoveToBack_def list_Remove_def) (simp add: list_SetValue_def)
qed

lemma lh_put_ok:
  assumes "lh_inv lh"
  shows "lh_inv (lh_put k v lh)" and "lh_abs (lh_put k v lh) = without k (lh_abs lh) @ [(k, v)]"
proof (atomize (full), cases "map_of (lh_entryMap lh) k")
  case None
  then have k: "k \<notin> fst ` set (lh_abs lh)" using entryMap_None [OF assms] by simp
  have keys: "fst ` set (lh_entryMap lh) = fst ` set (lh_abs lh)"
    using assms by (simp add: lh_inv_def lh_abs_def image_image)
  have "AList.update k (lh_fresh lh) (lh_entryMap lh) = lh_entryMap lh @ [(k, lh_fresh lh)]"
    using k keys by (intro update_notin) simp
  with None k keys assms show "lh_inv (lh_put k v lh) \<and> lh_abs (lh_put k v lh) = without k (lh_abs lh) @ [(k, v)]"
    by (auto simp: lh_put_def lh_inv_def lh_abs_def without_absent less_Suc_eq Let_def)
next
  case (Some e)
  then obtain w where w: "(e, k, w) \<in> set (lh_entryList lh)" using entryMap_Some [OF assms] by blast
  note put = lh_put_list [OF assms w, of v]
  have e: "e \<notin> fst ` set (filter (\<lambda>x. fst (snd x) \<noteq> k) (lh_entryList lh))"
    using handle_key [OF assms w] by auto
  have "insert (k, e) ((\<lambda>x. (fst (snd x), fst x)) ` set (filter (\<lambda>x. fst (snd x) \<noteq> k) (lh_entryList lh))) =
      (\<lambda>x. (fst (snd x), fst x)) ` set (lh_entryList lh)"
    using handle_key [OF assms w] w by (auto simp: image_iff) (metis fst_conv snd_conv)+
  with e assms w show "lh_inv (lh_put k v lh) \<and> lh_abs (lh_put k v lh) = without k (lh_abs lh) @ [(k, v)]"
    unfolding put by (auto simp: lh_inv_def lh_abs_def map_snd_without distinct_map_filter)
qed

lemma lh_delete_ok:
  assumes "lh_inv lh"
  shows "lh_inv (lh_delete k lh)" and "lh_abs (lh_delete k lh) = without k (lh_abs lh)"
proof (atomize (full), cases "map_of (lh_entryMap lh) k")
  case None
  then have "k \<notin> fst ` set (lh_abs lh)" using entryMap_None [OF assms] by simp
  with None assms show "lh_inv (lh_delete k lh) \<and> lh_abs (lh_delete k lh) = without k (lh_abs lh)"
    by (simp add: lh_delete_def without_absent)
next
  case (Some e)
  then obtain w where w: "(e, k, w) \<in> set (lh_entryList lh)" using entryMap_Some [OF assms] by blast
  have del: "lh_delete k lh = lh\<lparr>lh_entryList := filter (\<lambda>x. fst (snd x) \<noteq> k) (lh_entryList lh),
      lh_entryMap := filter (\<lambda>p. fst p \<noteq> k) (lh_entryMap lh), lh_removed := (e, k, w) # lh_removed lh\<rparr>"
    using Some filter_handle [OF assms w] by (simp add: lh_delete_def list_Remove_def delete_eq_filter)
  show "lh_inv (lh_delete k lh) \<and> lh_abs (lh_delete k lh) = without k (lh_abs lh)"
    using assms unfolding del by (auto simp: lh_inv_def lh_abs_def map_snd_without distinct_map_filter)
qed

lemma lh_get_eq:
  assumes inv: "lh_inv lh"
  shows "lh_get k lh = map_of (lh_abs lh) k"
proof (cases "map_of (lh_entryMap lh) k")
  case None
  then have "map_of (lh_abs lh) k = None"
    using entryMap_None [OF inv, of k] map_of_eq_None_iff [of "lh_abs lh" k] by blast
  with None show ?thesis by (simp only: lh_get_def option.case)
next
  case (Some e)
  then obtain w where w: "(e, k, w) \<in> set (lh_entryList lh)" using entryMap_Some [OF inv] by blast
  then have "map_of (lh_entryList lh) e = Some (k, w)" using inv by (simp add: lh_inv_def)
  moreover have "map_of (lh_abs lh) k = Some w" using w map_of_abs [OF inv] by blast
  ultimately show ?thesis using Some by (simp add: lh_get_def)
qed

lemma lh_len_eq: "lh_inv lh \<Longrightarrow> lh_len lh = length (lh_abs lh)"
proof -
  assume inv: "lh_inv lh"
  then have "lh_len lh = card (set (map fst (lh_entryMap lh)))"
    by (simp only: lh_inv_def lh_len_def distinct_card length_map)
  also have "set (map fst (lh_entryMap lh)) = set (map fst (lh_abs lh))"
    using inv by (simp add: lh_inv_def lh_abs_def image_image)
  also have "card \<dots> = length (lh_abs lh)"
    using distinct_abs [OF inv] by (simp only: distinct_card length_map)
  finally show ?thesis .
qed

lemma lh_oldest_eq: "lh_oldest lh = (case lh_abs lh of [] \<Rightarrow> None | x # _ \<Rightarrow> Some x)"
  by (cases "lh_entryList lh") (simp_all add: lh_oldest_def lh_abs_def)

lemma lh_newest_eq: "lh_newest lh = (if lh_abs lh = [] then None else Some (last (lh_abs lh)))"
  by (cases "lh_entryList lh" rule: rev_cases) (simp_all add: lh_newest_def lh_abs_def)

section \<open>The contract\<close>

text \<open>
  A map that remembers the order of insertion: its contents are a list of pairs with distinct
  keys, an insertion moves the key to the end.
\<close>

locale ordered_map =
  fixes inv :: "'m \<Rightarrow> bool"
    and abs :: "'m \<Rightarrow> ('k \<times> 'v) list"
    and put :: "'k \<Rightarrow> 'v \<Rightarrow> 'm \<Rightarrow> 'm"
    and get :: "'k \<Rightarrow> 'm \<Rightarrow> 'v option"
    and del :: "'k \<Rightarrow> 'm \<Rightarrow> 'm"
    and len :: "'m \<Rightarrow> nat"
  assumes keys_distinct: "inv m \<Longrightarrow> distinct (map fst (abs m))"
    and inv_put: "inv m \<Longrightarrow> inv (put k v m)"
    and inv_del: "inv m \<Longrightarrow> inv (del k m)"
    and abs_put: "inv m \<Longrightarrow> abs (put k v m) = without k (abs m) @ [(k, v)]"
    and abs_del: "inv m \<Longrightarrow> abs (del k m) = without k (abs m)"
    and get_abs: "inv m \<Longrightarrow> get k m = map_of (abs m) k"
    and len_abs: "inv m \<Longrightarrow> len m = length (abs m)"
begin

lemma get_put: "inv m \<Longrightarrow> get k (put k' v m) = (if k = k' then Some v else get k m)"
  by (auto simp: get_abs inv_put abs_put map_of_append map_of_without map_add_def split: option.split)

lemma get_del: "inv m \<Longrightarrow> get k (del k' m) = (if k = k' then None else get k m)"
  by (auto simp: get_abs inv_del abs_del map_of_without)

lemma keys_put: "inv m \<Longrightarrow> fst ` set (abs (put k v m)) = insert k (fst ` set (abs m))"
  by (auto simp: abs_put without_def)

lemma keys_del: "inv m \<Longrightarrow> fst ` set (abs (del k m)) = fst ` set (abs m) - {k}"
  by (auto simp: abs_del without_def)

lemma len_keys: "inv m \<Longrightarrow> len m = card (fst ` set (abs m))"
  using keys_distinct [of m] distinct_card by (fastforce simp: len_abs)

end

interpretation lhm: ordered_map lh_inv lh_abs lh_put lh_get lh_delete lh_len
  by unfold_locales (simp_all add: distinct_abs lh_put_ok lh_delete_ok lh_get_eq lh_len_eq)

section \<open>Iteration\<close>

lemma element_after_append:
  "distinct (map fst (xs @ (e, kv) # ys)) \<Longrightarrow> element_after e (xs @ (e, kv) # ys) = list_Front ys"
proof (induction xs)
  case Nil
  then show ?case by (cases ys) (simp_all add: list_Front_def)
next
  case (Cons x xs)
  then have "element_after e (xs @ (e, kv) # ys) = list_Front ys" and "fst x \<noteq> e" by auto
  then show ?case by (cases xs) simp_all
qed

text \<open>An iterator that stands before the suffix \<open>ys\<close> of the list.\<close>

definition it_before :: "('k, 'v) iterator \<Rightarrow> (nat \<times> 'k \<times> 'v) list \<Rightarrow> bool" where
  "it_before it ys \<longleftrightarrow> it_initialized it \<and> it_next it = list_Front ys \<and> (it_exhausted it \<longleftrightarrow> ys = [])"

lemma iterate_suffix:
  assumes "lh_inv lh" and "lh_entryList lh = xs @ ys" and "it_before it ys" and "length ys < n"
  shows "iterate n lh it = Some (map snd ys)"
  using assms(2-)
proof (induction ys arbitrary: xs it n)
  case Nil
  then obtain m where "n = Suc m" by (cases n) auto
  with Nil show ?case by (simp add: it_before_def iterator_Next_def)
next
  case (Cons y ys)
  obtain e kv where y: "y = (e, kv)" by (rule prod.exhaust)
  obtain m where n: "n = Suc m" "length ys < m" using Cons.prems(3) by (cases n) auto
  have d: "distinct (map fst (xs @ (e, kv) # ys))" using assms(1) Cons.prems(1) y by (simp add: lh_inv_def)
  then have "map_of (xs @ (e, kv) # ys) e = Some kv" by (subst map_of_eq_Some_iff) auto
  then have "map_of ((xs @ (e, kv) # ys) @ lh_removed lh) e = Some kv"
    by (simp only: map_of_append map_add_find_right)
  with Cons.prems y element_after_append [OF d]
  have nxt: "iterator_Next lh it = Some (it\<lparr>it_current := Some kv, it_next := list_Front ys,
      it_exhausted := (list_Front ys = None)\<rparr>, True)"
    by (simp add: iterator_Next_def it_before_def list_Front_def Let_def)
  let ?it = "it\<lparr>it_current := Some kv, it_next := list_Front ys, it_exhausted := (list_Front ys = None)\<rparr>"
  have "it_before ?it ys"
    using Cons.prems(2) by (simp add: it_before_def list_Front_def split: list.split)
  from Cons.IH [OF _ this n(2), of "xs @ [y]"] Cons.prems(1) have "iterate m lh ?it = Some (map snd ys)" by simp
  with nxt show ?case by (simp add: n y)
qed

lemma iterate_all:
  assumes "lh_inv lh" and "lh_len lh < n"
  shows "iterate n lh NewIterator = Some (lh_abs lh)"
proof (cases "lh_entryList lh")
  case Nil
  obtain m where "n = Suc m" using assms(2) by (cases n) auto
  with Nil show ?thesis by (simp add: NewIterator_def iterator_Next_def list_Front_def lh_abs_def)
next
  case (Cons y ys)
  let ?it = "NewIterator\<lparr>it_initialized := True, it_next := list_Front (lh_entryList lh)\<rparr>"
  have "iterator_Next lh NewIterator = iterator_Next lh ?it"
    using Cons by (simp add: iterator_Next_def NewIterator_def list_Front_def)
  then have "iterate n lh NewIterator = iterate n lh ?it"
    by (cases n) simp_all
  also have "\<dots> = Some (map snd (lh_entryList lh))"
    using assms lh_len_eq [OF assms(1)] Cons
    by (intro iterate_suffix [where xs = "[]"]) (simp_all add: it_before_def NewIterator_def lh_abs_def)
  finally show ?thesis by (simp add: lh_abs_def)
qed

text \<open>An iterator that stands at a pair that is then deleted returns this pair and is exhausted.\<close>

lemma element_after_absent: "e \<notin> fst ` set l \<Longrightarrow> element_after e l = None"
  by (induction e l rule: element_after.induct) auto

lemma iterator_Next_deleted:
  assumes "lh_inv lh" and "(e, k, v) \<in> set (lh_entryList lh)"
    and "it_initialized it" and "\<not> it_exhausted it" and "it_next it = Some e"
  shows "iterator_Next (lh_delete k lh) it =
    Some (it\<lparr>it_current := Some (k, v), it_next := None, it_exhausted := True\<rparr>, True)"
proof -
  have "map_of (lh_entryMap lh) k = Some e" using entryMap_Some [OF assms(1)] assms(2) by blast
  with filter_handle(2) [OF assms(1,2)]
  have "lh_entryList (lh_delete k lh) = list_Remove e (lh_entryList lh)"
    and "lh_removed (lh_delete k lh) = (e, k, v) # lh_removed lh"
    by (simp_all add: lh_delete_def)
  moreover have "e \<notin> fst ` set (list_Remove e (lh_entryList lh))" by (auto simp: list_Remove_def)
  moreover from this have "map_of (list_Remove e (lh_entryList lh)) e = None" by (simp add: map_of_eq_None_iff)
  ultimately show ?thesis
    using assms(3-) by (simp add: iterator_Next_def element_after_absent map_of_append map_add_def)
qed

section \<open>Properties\<close>

text \<open>
  C33. The linked hash map implements an association list in order of insertion: \<open>Put\<close> moves or
  appends the key at the end, \<open>Delete\<close> removes it, \<open>Get\<close>, \<open>Len\<close>, \<open>Oldest\<close> and \<open>Newest\<close> read the list,
  every operation keeps the map and the linked list consistent, and iterating visits all pairs
  from the oldest to the newest and then stops.
\<close>

theorem linkedhashmap_refines_list:
  assumes "lh_inv lh"
  shows "lh_inv (lh_put k v lh) \<and> lh_abs (lh_put k v lh) = filter (\<lambda>p. fst p \<noteq> k) (lh_abs lh) @ [(k, v)] \<and>
    lh_inv (lh_delete k lh) \<and> lh_abs (lh_delete k lh) = filter (\<lambda>p. fst p \<noteq> k) (lh_abs lh) \<and>
    lh_get k lh = map_of (lh_abs lh) k \<and> lh_len lh = length (lh_abs lh) \<and> distinct (map fst (lh_abs lh)) \<and>
    lh_oldest lh = (if lh_abs lh = [] then None else Some (hd (lh_abs lh))) \<and>
    lh_newest lh = (if lh_abs lh = [] then None else Some (last (lh_abs lh))) \<and>
    iterate (Suc (lh_len lh)) lh NewIterator = Some (lh_abs lh)"
proof (intro conjI)
  show "lh_oldest lh = (if lh_abs lh = [] then None else Some (hd (lh_abs lh)))"
    by (simp add: lh_oldest_eq split: list.split)
  show "iterate (Suc (lh_len lh)) lh NewIterator = Some (lh_abs lh)"
    using assms by (intro iterate_all) simp_all
qed (use assms in \<open>simp_all add: lh_put_ok lh_delete_ok lh_get_eq lh_len_eq lh_newest_eq distinct_abs
      flip: without_def\<close>)

theorem linkedhashmap_refines_list_witness:
  "let lh = lh_put 1 ''c'' (lh_put 2 ''b'' (lh_put (1 :: nat) ''a'' lh_New)) in
   lh_inv lh \<and> iterate 3 lh NewIterator = Some [(2, ''b''), (1, ''c'')]"
proof -
  let ?lh = "lh_put 1 ''c'' (lh_put 2 ''b'' (lh_put (1 :: nat) ''a'' lh_New))"
  have lh: "lh_inv ?lh"
    by (intro linkedhashmap_refines_list [THEN conjunct1] lh_inv_New)
  moreover have "lh_abs ?lh = [(2, ''b''), (1, ''c'')]" "lh_len ?lh = 2" by code_simp+
  ultimately show ?thesis using linkedhashmap_refines_list [OF lh] by (simp add: numeral_3_eq_3)
qed

end
