(* ===== verification/Metrics.thy ===== *)
theory Metrics
  imports LinkedHashmap Ids
begin

text \<open>
  The consensus metrics of \<open>src/snow/consensus/metrics/{latency,polls,height}.go\<close>. The latency
  metric keeps the processing items in a linked hash map in order of issuance; the gauges and
  counters are the values they hold, an averager is the list of the values it observed. Clock
  readings are arguments. Registration with prometheus is not modelled.
\<close>

section \<open>Latency\<close>

record opStart =
  os_time :: int
  os_pollNumber :: "64 word"

record latency =
  l_processingEntries :: "(ID, opStart) linkedHashmap"
  l_numProcessing :: int
  l_pollsAccepted :: "64 word list"
  l_pollsRejected :: "64 word list"
  l_latAccepted :: "int list"
  l_latRejected :: "int list"

definition NewLatency :: latency where
  "NewLatency = \<lparr>l_processingEntries = lh_New, l_numProcessing = 0, l_pollsAccepted = [],
     l_pollsRejected = [], l_latAccepted = [], l_latRejected = []\<rparr>"

definition l_Issued :: "int \<Rightarrow> ID \<Rightarrow> 64 word \<Rightarrow> latency \<Rightarrow> latency" where
  "l_Issued now i pollNumber l =
     l\<lparr>l_processingEntries := lh_put i \<lparr>os_time = now, os_pollNumber = pollNumber\<rparr> (l_processingEntries l),
       l_numProcessing := l_numProcessing l + 1\<rparr>"

definition l_Accepted :: "int \<Rightarrow> ID \<Rightarrow> 64 word \<Rightarrow> latency \<Rightarrow> latency" where
  "l_Accepted now i pollNumber l =
     (case lh_get i (l_processingEntries l) of
        None \<Rightarrow> l
      | Some start \<Rightarrow>
          l\<lparr>l_processingEntries := lh_delete i (l_processingEntries l),
            l_pollsAccepted := l_pollsAccepted l @ [pollNumber - os_pollNumber start],
            l_latAccepted := l_latAccepted l @ [now - os_time start],
            l_numProcessing := l_numProcessing l - 1\<rparr>)"

definition l_Rejected :: "int \<Rightarrow> ID \<Rightarrow> 64 word \<Rightarrow> latency \<Rightarrow> latency" where
  "l_Rejected now i pollNumber l =
     (case lh_get i (l_processingEntries l) of
        None \<Rightarrow> l
      | Some start \<Rightarrow>
          l\<lparr>l_processingEntries := lh_delete i (l_processingEntries l),
            l_pollsRejected := l_pollsRejected l @ [pollNumber - os_pollNumber start],
            l_latRejected := l_latRejected l @ [now - os_time start],
            l_numProcessing := l_numProcessing l - 1\<rparr>)"

definition MeasureAndGetOldestDuration :: "int \<Rightarrow> latency \<Rightarrow> int" where
  "MeasureAndGetOldestDuration now l =
     (case lh_oldest (l_processingEntries l) of None \<Rightarrow> 0 | Some (_, start) \<Rightarrow> now - os_time start)"

definition l_NumProcessing :: "latency \<Rightarrow> nat" where
  "l_NumProcessing l = lh_len (l_processingEntries l)"

section \<open>Polls and height\<close>

record polls =
  numFailedPolls :: nat
  numSuccessfulPolls :: nat

definition NewPolls :: polls where
  "NewPolls = \<lparr>numFailedPolls = 0, numSuccessfulPolls = 0\<rparr>"

definition polls_Failed :: "polls \<Rightarrow> polls" where
  "polls_Failed p = p\<lparr>numFailedPolls := numFailedPolls p + 1\<rparr>"

definition polls_Successful :: "polls \<Rightarrow> polls" where
  "polls_Successful p = p\<lparr>numSuccessfulPolls := numSuccessfulPolls p + 1\<rparr>"

section \<open>The items being processed\<close>

definition latency_inv :: "latency \<Rightarrow> bool" where
  "latency_inv l \<longleftrightarrow> lh_inv (l_processingEntries l) \<and> l_numProcessing l = int (l_NumProcessing l)"

definition processing_ids :: "latency \<Rightarrow> ID set" where
  "processing_ids l = fst ` set (lh_abs (l_processingEntries l))"

lemma latency_inv_New [simp]: "latency_inv NewLatency" "processing_ids NewLatency = {}"
  by (simp_all add: latency_inv_def NewLatency_def l_NumProcessing_def processing_ids_def lhm.len_abs)

lemma l_Issued_ok:
  assumes "latency_inv l" and "i \<notin> processing_ids l"
  shows "latency_inv (l_Issued now i n l)" "processing_ids (l_Issued now i n l) = insert i (processing_ids l)"
proof -
  let ?e = "l_processingEntries l"
  have e: "lh_inv ?e" using assms(1) by (simp add: latency_inv_def)
  show ids: "processing_ids (l_Issued now i n l) = insert i (processing_ids l)"
    by (simp add: processing_ids_def l_Issued_def lhm.keys_put [OF e])
  have "lh_len (lh_put i v ?e) = Suc (lh_len ?e)" for v
    using assms(2) by (simp add: lhm.len_keys e lhm.inv_put lhm.keys_put processing_ids_def)
  with assms show "latency_inv (l_Issued now i n l)"
    by (simp add: latency_inv_def l_Issued_def l_NumProcessing_def lhm.inv_put)
qed

lemma lh_len_delete:
  assumes "lh_inv e" and "lh_get i e = Some v"
  shows "lh_len e = Suc (lh_len (lh_delete i e))"
proof -
  let ?K = "fst ` set (lh_abs e)"
  have "map_of (lh_abs e) i = Some v" using assms by (simp only: lhm.get_abs)
  then have "i \<in> ?K" by (rule map_of_SomeD [THEN rev_image_eqI]) simp
  then have "card ?K = Suc (card (?K - {i}))" by (intro card.remove) simp_all
  then show ?thesis
    by (simp only: lhm.len_keys [OF assms(1)] lhm.len_keys [OF lhm.inv_del [OF assms(1)]] lhm.keys_del [OF assms(1)])
qed

lemma l_decided_ok:
  assumes "latency_inv l"
  shows "latency_inv (l_Accepted now i n l)" "processing_ids (l_Accepted now i n l) = processing_ids l - {i}"
    "latency_inv (l_Rejected now i n l)" "processing_ids (l_Rejected now i n l) = processing_ids l - {i}"
proof -
  let ?e = "l_processingEntries l"
  have e: "lh_inv ?e" using assms by (simp add: latency_inv_def)
  have absent: "lh_get i ?e = None \<Longrightarrow> processing_ids l - {i} = processing_ids l"
    using e by (auto simp: lhm.get_abs map_of_eq_None_iff processing_ids_def)
  show "processing_ids (l_Accepted now i n l) = processing_ids l - {i}"
    "processing_ids (l_Rejected now i n l) = processing_ids l - {i}"
    using absent lhm.keys_del [OF e] by (simp_all add: l_Accepted_def l_Rejected_def processing_ids_def split: option.split)
  show "latency_inv (l_Accepted now i n l)" "latency_inv (l_Rejected now i n l)"
  proof (atomize (full), cases "lh_get i ?e")
    case None
    with assms show "latency_inv (l_Accepted now i n l) \<and> latency_inv (l_Rejected now i n l)"
      by (simp add: l_Accepted_def l_Rejected_def)
  next
    case (Some v)
    with assms lh_len_delete [OF e Some] lhm.inv_del [OF e, of i]
    show "latency_inv (l_Accepted now i n l) \<and> latency_inv (l_Rejected now i n l)"
      by (simp add: l_Accepted_def l_Rejected_def latency_inv_def l_NumProcessing_def)
  qed
qed

end
