(* ===== verification/Snowman.thy ===== *)
theory Snowman
  imports SnowballTree Metrics
begin

text \<open>
  The linear-chain consensus engine: \<open>Topological\<close> of
  \<open>src/snow/consensus/snowman/topological.go\<close>, the tree nodes of \<open>snowman_block.go\<close> and the status
  values of \<open>src/snow/choices/status.go\<close>.

  A Go pointer into \<open>blocks\<close> is the value stored under the block's id; a method that changes it
  stores it back. The status of a block is kept by the virtual machine and shared by all objects
  with the same id: it is the field \<open>ts_status\<close>, set to \<open>Accepted\<close> or \<open>Rejected\<close> by a successful
  \<open>Accept\<close> or \<open>Reject\<close>, as the interface \<open>choices.Decidable\<close> documents. \<open>ts_trace\<close> records the calls
  that leave the component, in order. The outcomes of those calls, the order in which
  \<open>ids.Set.Pop\<close> and \<open>range\<close> over a map pick elements, and the clock are the fields of \<open>Env\<close>. An
  operation that returns an error or panics gives \<open>Inl\<close>. An error that an acceptor or a block returned
  is passed on at once by every caller up to \<open>RecordPoll\<close> or \<open>Add\<close>; it comes with the state at that
  point, which the engine may go on with. A failed \<open>Accept\<close> or \<open>Reject\<close> leaves the status as it was.
  Loops take fuel; running out of it is the error \<open>OutOfFuel\<close>.
\<close>

section \<open>Blocks and their environment\<close>

datatype Status = Unknown | Processing | Rejected | Accepted

fun Status_Decided :: "Status \<Rightarrow> bool" where
  "Status_Decided Rejected = True"
| "Status_Decided Accepted = True"
| "Status_Decided _ = False"

fun Status_Fetched :: "Status \<Rightarrow> bool" where
  "Status_Fetched Processing = True"
| "Status_Fetched s = Status_Decided s"

record Block =
  blk_ID :: ID
  blk_Parent :: ID
  blk_Height :: "64 word"
  blk_Bytes :: "8 word list"

datatype event = EvDecisionAccept ID "8 word list" | EvConsensusAccept ID "8 word list" | EvAccept Block | EvReject Block

record Env =
  env_now :: "ID \<Rightarrow> int"
  env_DecisionAccept :: "ID \<Rightarrow> 8 word list \<Rightarrow> bool"
  env_ConsensusAccept :: "ID \<Rightarrow> 8 word list \<Rightarrow> bool"
  env_Accept :: "ID \<Rightarrow> bool"
  env_Reject :: "ID \<Rightarrow> bool"
  env_pop :: "ID list \<Rightarrow> nat"
  env_range :: "(ID \<times> Block) list \<Rightarrow> (ID \<times> Block) list"

section \<open>snowmanBlock\<close>

record snowmanBlock =
  sn_blk :: "Block option"
  sn_shouldFalter :: bool
  sn_sb :: "Tree option"
  sn_children :: "(ID, Block) gomap"

definition AddChild :: "Parameters \<Rightarrow> Block \<Rightarrow> snowmanBlock \<Rightarrow> snowmanBlock" where
  "AddChild params child n =
     (let childID = blk_ID child;
          n = (case sn_sb n of
                 None \<Rightarrow> n\<lparr>sn_sb := Some (Tree_Initialize params childID), sn_children := []\<rparr>
               | Some sb \<Rightarrow> n\<lparr>sn_sb := Some (Tree_Add childID sb)\<rparr>)
      in n\<lparr>sn_children := AList.update childID child (sn_children n)\<rparr>)"

definition sn_Accepted :: "(ID \<Rightarrow> Status) \<Rightarrow> snowmanBlock \<Rightarrow> bool" where
  "sn_Accepted status n = (case sn_blk n of None \<Rightarrow> True | Some b \<Rightarrow> status (blk_ID b) = Accepted)"

section \<open>Topological\<close>

record kahnNode =
  kn_inDegree :: int
  kn_votes :: Bag

definition kahnNode0 :: kahnNode where
  "kahnNode0 = \<lparr>kn_inDegree = 0, kn_votes = emptyBag\<rparr>"

record votes =
  v_parentID :: ID
  v_votes :: Bag

record Topological =
  ts_Latency :: latency
  ts_Polls :: polls
  ts_HeightGauge :: "64 word"
  ts_pollNumber :: "64 word"
  ts_params :: Parameters
  ts_head :: ID
  ts_height :: "64 word"
  ts_blocks :: "(ID, snowmanBlock) gomap"
  ts_preferredIDs :: "ID set"
  ts_tail :: ID
  ts_leaves :: "ID list"
  ts_kahnNodes :: "(ID, kahnNode) gomap"
  ts_status :: "ID \<Rightarrow> Status"
  ts_trace :: "event list"

datatype ts_error =
  ErrParams param_error | ErrDuplicateAdd
| ErrDecisionAcceptor ID Topological | ErrConsensusAcceptor ID Topological
| ErrBlockAccept Block Topological | ErrBlockReject Block Topological
| NilDeref | OutOfFuel

text \<open>The status argument is what the virtual machine holds when the instance is created.\<close>

definition ts_Initialize :: "(ID \<Rightarrow> Status) \<Rightarrow> Parameters \<Rightarrow> ID \<Rightarrow> 64 word \<Rightarrow> ts_error + Topological" where
  "ts_Initialize status params rootID rootHeight =
     (case Verify params of
        Some e \<Rightarrow> Inl (ErrParams e)
      | None \<Rightarrow> Inr
          \<lparr>ts_Latency = NewLatency, ts_Polls = NewPolls, ts_HeightGauge = rootHeight,
           ts_pollNumber = 0, ts_params = params, ts_head = rootID, ts_height = rootHeight,
           ts_blocks = [(rootID, \<lparr>sn_blk = None, sn_shouldFalter = False, sn_sb = None, sn_children = []\<rparr>)],
           ts_preferredIDs = {}, ts_tail = rootID, ts_leaves = [], ts_kahnNodes = [],
           ts_status = status, ts_trace = []\<rparr>)"

definition NumProcessing :: "Topological \<Rightarrow> int" where
  "NumProcessing ts = int (length (ts_blocks ts)) - 1"

text \<open>\<open>Block.Accept\<close> and \<open>Block.Reject\<close> followed by the metrics that record them.\<close>

definition blk_Accept :: "Env \<Rightarrow> Block \<Rightarrow> Topological \<Rightarrow> ts_error + Topological" where
  "blk_Accept env b ts =
     (if env_Accept env (blk_ID b) then Inl (ErrBlockAccept b ts)
      else Inr (ts\<lparr>ts_status := (ts_status ts)(blk_ID b := Accepted), ts_trace := ts_trace ts @ [EvAccept b]\<rparr>))"

definition blk_Reject :: "Env \<Rightarrow> Block \<Rightarrow> Topological \<Rightarrow> ts_error + Topological" where
  "blk_Reject env b ts =
     (if env_Reject env (blk_ID b) then Inl (ErrBlockReject b ts)
      else Inr (ts\<lparr>ts_status := (ts_status ts)(blk_ID b := Rejected), ts_trace := ts_trace ts @ [EvReject b]\<rparr>))"

definition Latency_Rejected :: "Env \<Rightarrow> ID \<Rightarrow> Topological \<Rightarrow> Topological" where
  "Latency_Rejected env i ts = ts\<lparr>ts_Latency := l_Rejected (env_now env i) i (ts_pollNumber ts) (ts_Latency ts)\<rparr>"

definition ts_Decided :: "Topological \<Rightarrow> Block \<Rightarrow> bool" where
  "ts_Decided ts blk =
     (if Status_Decided (ts_status ts (blk_ID blk)) then True
      else ts_status ts (blk_ID blk) = Processing \<and> blk_Height blk \<le> ts_height ts)"

definition ts_Processing :: "Topological \<Rightarrow> ID \<Rightarrow> bool" where
  "ts_Processing ts blkID = (if blkID = ts_head ts then False else map_of (ts_blocks ts) blkID \<noteq> None)"

definition IsPreferred :: "Topological \<Rightarrow> Block \<Rightarrow> bool" where
  "IsPreferred ts blk =
     (if ts_status ts (blk_ID blk) = Accepted then True else blk_ID blk \<in> ts_preferredIDs ts)"

definition ts_Preference :: "Topological \<Rightarrow> ID" where
  "ts_Preference ts = ts_tail ts"

definition ts_Finalized :: "Topological \<Rightarrow> bool" where
  "ts_Finalized ts = (length (ts_blocks ts) = 1)"

definition ts_Add :: "Env \<Rightarrow> Block \<Rightarrow> Topological \<Rightarrow> ts_error + Topological" where
  "ts_Add env blk ts =
     (let blkID = blk_ID blk in
      if ts_Decided ts blk \<or> ts_Processing ts blkID then Inl ErrDuplicateAdd
      else
        let ts = ts\<lparr>ts_Latency := l_Issued (env_now env blkID) blkID (ts_pollNumber ts) (ts_Latency ts)\<rparr>;
            parentID = blk_Parent blk
        in
        (case map_of (ts_blocks ts) parentID of
           None \<Rightarrow> bindR (blk_Reject env blk ts) (\<lambda>ts. Inr (Latency_Rejected env blkID ts))
         | Some parentNode \<Rightarrow>
             let ts = ts\<lparr>ts_blocks := AList.update parentID (AddChild (ts_params ts) blk parentNode) (ts_blocks ts)\<rparr>;
                 ts = ts\<lparr>ts_blocks := AList.update blkID
                          \<lparr>sn_blk = Some blk, sn_shouldFalter = False, sn_sb = None, sn_children = []\<rparr> (ts_blocks ts)\<rparr>
             in Inr (if ts_tail ts = parentID
                     then ts\<lparr>ts_tail := blkID, ts_preferredIDs := insert blkID (ts_preferredIDs ts)\<rparr>
                     else ts)))"

subsection \<open>Collecting the votes\<close>

definition kahn_get :: "Topological \<Rightarrow> ID \<Rightarrow> kahnNode" where
  "kahn_get ts i = (case map_of (ts_kahnNodes ts) i of None \<Rightarrow> kahnNode0 | Some k \<Rightarrow> k)"

text \<open>The loop over the ancestors of a voted block.\<close>

fun markAncestors :: "nat \<Rightarrow> ID \<Rightarrow> Topological \<Rightarrow> ts_error + Topological" where
  "markAncestors 0 parentID ts = Inl OutOfFuel"
| "markAncestors (Suc fuel) parentID ts =
     (case map_of (ts_blocks ts) parentID of
        None \<Rightarrow> Inl NilDeref
      | Some n \<Rightarrow>
          if sn_Accepted (ts_status ts) n then Inr ts
          else
            (case sn_blk n of
               None \<Rightarrow> Inl NilDeref
             | Some b \<Rightarrow>
                 let parentID = blk_Parent b;
                     kahn = kahn_get ts parentID;
                     kahn = kahn\<lparr>kn_inDegree := kn_inDegree kahn + 1\<rparr>;
                     ts = ts\<lparr>ts_kahnNodes := AList.update parentID kahn (ts_kahnNodes ts)\<rparr>
                 in if kn_inDegree kahn \<noteq> 1 then Inr ts
                    else markAncestors fuel parentID (ts\<lparr>ts_leaves := removeAll parentID (ts_leaves ts)\<rparr>)))"

definition calculateInDegree_vote :: "Bag \<Rightarrow> ID \<Rightarrow> Topological \<Rightarrow> ts_error + Topological" where
  "calculateInDegree_vote votes vote ts =
     (case map_of (ts_blocks ts) vote of
        None \<Rightarrow> Inr ts
      | Some votedBlock \<Rightarrow>
          if sn_Accepted (ts_status ts) votedBlock then Inr ts
          else
            (case sn_blk votedBlock of
               None \<Rightarrow> Inl NilDeref
             | Some b \<Rightarrow>
                 let parentID = blk_Parent b;
                     numVotes = Count votes vote;
                     previouslySeen = (map_of (ts_kahnNodes ts) parentID \<noteq> None);
                     kahn = kahn_get ts parentID;
                     kahn = kahn\<lparr>kn_votes := AddCount (kn_votes kahn) vote numVotes\<rparr>;
                     ts = ts\<lparr>ts_kahnNodes := AList.update parentID kahn (ts_kahnNodes ts)\<rparr>
                 in if previouslySeen then Inr ts
                    else markAncestors (Suc (length (ts_blocks ts))) parentID
                           (ts\<lparr>ts_leaves := List.insert parentID (ts_leaves ts)\<rparr>)))"

definition calculateInDegree :: "Bag \<Rightarrow> Topological \<Rightarrow> ts_error + Topological" where
  "calculateInDegree votes ts =
     foldR (calculateInDegree_vote votes) (BagList votes) (ts\<lparr>ts_kahnNodes := [], ts_leaves := []\<rparr>)"

text \<open>\<open>ids.Set.Pop\<close> picks an arbitrary element: \<open>env_pop\<close> chooses its position.\<close>

fun pushVotes :: "nat \<Rightarrow> Env \<Rightarrow> Topological \<Rightarrow> votes list \<Rightarrow> ts_error + Topological \<times> votes list" where
  "pushVotes 0 env ts voteStack = Inl OutOfFuel"
| "pushVotes (Suc fuel) env ts voteStack =
     (if ts_leaves ts = [] then Inr (ts, voteStack)
      else
        let leafID = ts_leaves ts ! (env_pop env (ts_leaves ts) mod length (ts_leaves ts));
            ts = ts\<lparr>ts_leaves := removeAll leafID (ts_leaves ts)\<rparr>;
            kahn = kahn_get ts leafID
        in
        (case map_of (ts_blocks ts) leafID of
           None \<Rightarrow> Inl NilDeref
         | Some block \<Rightarrow>
             let voteStack = (if Len (kn_votes kahn) \<ge> Alpha (ts_params ts)
                              then voteStack @ [\<lparr>v_parentID = leafID, v_votes = kn_votes kahn\<rparr>] else voteStack)
             in
             if sn_Accepted (ts_status ts) block then pushVotes fuel env ts voteStack
             else
               (case sn_blk block of
                  None \<Rightarrow> Inl NilDeref
                | Some b \<Rightarrow>
                    let parentID = blk_Parent b;
                        pk = kahn_get ts parentID;
                        pk = pk\<lparr>kn_inDegree := kn_inDegree pk - 1,
                                kn_votes := AddCount (kn_votes pk) leafID (Len (kn_votes kahn))\<rparr>;
                        ts = ts\<lparr>ts_kahnNodes := AList.update parentID pk (ts_kahnNodes ts)\<rparr>;
                        ts = (if kn_inDegree pk = 0
                              then ts\<lparr>ts_leaves := List.insert parentID (ts_leaves ts)\<rparr> else ts)
                    in pushVotes fuel env ts voteStack)))"

subsection \<open>Accepting and rejecting\<close>

text \<open>The loop body shared by the two rejection loops: reject a child and push it on the stack.\<close>

definition reject_child ::
  "Env \<Rightarrow> ID \<times> Block \<Rightarrow> Topological \<times> ID list \<Rightarrow> ts_error + Topological \<times> ID list" where
  "reject_child env c s =
     bindR (blk_Reject env (snd c) (fst s))
       (\<lambda>ts. Inr (Latency_Rejected env (fst c) ts, snd s @ [fst c]))"

fun rejectTransitively :: "nat \<Rightarrow> Env \<Rightarrow> ID list \<Rightarrow> Topological \<Rightarrow> ts_error + Topological" where
  "rejectTransitively 0 env rejected ts = Inl OutOfFuel"
| "rejectTransitively (Suc fuel) env rejected ts =
     (if rejected = [] then Inr ts
      else
        let rejectedID = last rejected; rejected = butlast rejected in
        (case map_of (ts_blocks ts) rejectedID of
           None \<Rightarrow> Inl NilDeref
         | Some rejectedNode \<Rightarrow>
             bindR
               (foldR (reject_child env) (env_range env (sn_children rejectedNode))
                  (ts\<lparr>ts_blocks := AList.delete rejectedID (ts_blocks ts)\<rparr>, rejected))
               (\<lambda>(ts, rejected). rejectTransitively fuel env rejected ts)))"

definition acceptPreferredChild :: "Env \<Rightarrow> snowmanBlock \<Rightarrow> Topological \<Rightarrow> ts_error + Topological" where
  "acceptPreferredChild env n ts =
     (case sn_sb n of
        None \<Rightarrow> Inl NilDeref
      | Some sb \<Rightarrow>
          let pref = Tree_Preference sb in
          (case map_of (sn_children n) pref of
             None \<Rightarrow> Inl NilDeref
           | Some child \<Rightarrow>
               if env_DecisionAccept env pref (blk_Bytes child) then Inl (ErrDecisionAcceptor pref ts)
               else if env_ConsensusAccept env pref (blk_Bytes child) 
               then Inl (ErrConsensusAcceptor pref (ts\<lparr>ts_trace := ts_trace ts @ [EvDecisionAccept pref (blk_Bytes child)]\<rparr>))
               else
                 bindR (blk_Accept env child
                   (ts\<lparr>ts_trace := ts_trace ts @
                      [EvDecisionAccept pref (blk_Bytes child), EvConsensusAccept pref (blk_Bytes child)]\<rparr>))
                 (\<lambda>ts.
                    let ts = ts\<lparr>ts_head := pref, ts_height := blk_Height child,
                               ts_preferredIDs := ts_preferredIDs ts - {pref},
                               ts_Latency := l_Accepted (env_now env pref) pref (ts_pollNumber ts) (ts_Latency ts),
                               ts_HeightGauge := blk_Height child\<rparr>
                    in
                    bindR
                      (foldR (\<lambda>c s. if fst c = pref then Inr s else reject_child env c s)
                         (env_range env (sn_children n)) (ts, []))
                      (\<lambda>(ts, rejects). rejectTransitively (Suc (length (ts_blocks ts))) env rejects ts))))"

subsection \<open>Applying the votes\<close>

text \<open>The children of a voted block whose confidence must be reset before they are voted on again.\<close>

definition falter_child :: "bool \<Rightarrow> ID \<Rightarrow> ID \<times> Block \<Rightarrow> Topological \<Rightarrow> Topological" where
  "falter_child shouldTransitivelyFalter nextID c ts =
     (if \<not> shouldTransitivelyFalter \<and> fst c = nextID then ts
      else
        (case map_of (ts_blocks ts) (fst c) of
           None \<Rightarrow> ts
         | Some childBlock \<Rightarrow>
             ts\<lparr>ts_blocks := AList.update (fst c) (childBlock\<lparr>sn_shouldFalter := True\<rparr>) (ts_blocks ts)\<rparr>))"

text \<open>
  One round of the loop of \<open>vote\<close> for the entry \<open>v\<close>, where \<open>nextID\<close> is the block of the entry
  below it. The result is \<open>None\<close> when the loop breaks.
\<close>

definition vote_step ::
  "Env \<Rightarrow> votes \<Rightarrow> ID \<Rightarrow> Topological \<times> ID \<times> bool \<times> bool \<Rightarrow> ts_error + (Topological \<times> ID \<times> bool \<times> bool) option" where
  "vote_step env v nextID s =
     (let (ts, newPreferred, onPreferredBranch, pollSuccessful) = s in
      case map_of (ts_blocks ts) (v_parentID v) of
        None \<Rightarrow> Inr None
      | Some parentBlock \<Rightarrow>
          (case sn_sb parentBlock of
             None \<Rightarrow> Inl NilDeref
           | Some sb \<Rightarrow>
               let shouldTransitivelyFalter = sn_shouldFalter parentBlock;
                   sb = (if shouldTransitivelyFalter then Tree_RecordUnsuccessfulPoll sb else sb);
                   (sb, successful) = Tree_RecordPoll (v_votes v) sb;
                   parentBlock = parentBlock\<lparr>sn_shouldFalter := False, sn_sb := Some sb\<rparr>;
                   ts = ts\<lparr>ts_blocks := AList.update (v_parentID v) parentBlock (ts_blocks ts)\<rparr>
               in
               bindR
                 (if Tree_Finalized sb \<and> ts_head ts = v_parentID v
                  then bindR (acceptPreferredChild env parentBlock ts)
                         (\<lambda>ts. Inr (ts\<lparr>ts_blocks := AList.delete (v_parentID v) (ts_blocks ts)\<rparr>))
                  else Inr ts)
                 (\<lambda>ts.
                    let parentPreference = Tree_Preference sb;
                        ts = fold (falter_child shouldTransitivelyFalter nextID)
                               (env_range env (sn_children parentBlock)) ts
                    in Inr (Some (ts, (if onPreferredBranch then parentPreference else newPreferred),
                         onPreferredBranch \<and> nextID = parentPreference, successful \<or> pollSuccessful)))))"

text \<open>The stack is popped from its end: the argument is the stack reversed.\<close>

fun vote_loop ::
  "Env \<Rightarrow> votes list \<Rightarrow> Topological \<times> ID \<times> bool \<times> bool \<Rightarrow> ts_error + Topological \<times> ID \<times> bool \<times> bool" where
  "vote_loop env [] s = Inr s"
| "vote_loop env (v # stack) s =
     bindR (vote_step env v (case stack of [] \<Rightarrow> 0 | w # _ \<Rightarrow> v_parentID w) s)
       (\<lambda>r. case r of None \<Rightarrow> Inr s | Some s \<Rightarrow> vote_loop env stack s)"

definition ts_vote :: "Env \<Rightarrow> votes list \<Rightarrow> Topological \<Rightarrow> ts_error + Topological \<times> ID" where
  "ts_vote env voteStack ts =
     (if voteStack = [] then
        (case map_of (ts_blocks ts) (ts_head ts) of
           None \<Rightarrow> Inl NilDeref
         | Some headBlock \<Rightarrow>
             let ts = ts\<lparr>ts_blocks := AList.update (ts_head ts) (headBlock\<lparr>sn_shouldFalter := True\<rparr>) (ts_blocks ts)\<rparr>;
                 ts = (if int (length (ts_blocks ts)) - 1 > 0 then ts\<lparr>ts_Polls := polls_Failed (ts_Polls ts)\<rparr> else ts)
             in Inr (ts, ts_tail ts))
      else
        bindR (vote_loop env (rev voteStack) (ts, ts_head ts, True, False))
          (\<lambda>(ts, newPreferred, _, pollSuccessful).
             Inr (if pollSuccessful then ts\<lparr>ts_Polls := polls_Successful (ts_Polls ts)\<rparr>
                  else ts\<lparr>ts_Polls := polls_Failed (ts_Polls ts)\<rparr>, newPreferred)))"

subsection \<open>The poll\<close>

fun prefer_ancestors :: "nat \<Rightarrow> snowmanBlock \<Rightarrow> Topological \<Rightarrow> ts_error + Topological" where
  "prefer_ancestors 0 block ts = Inl OutOfFuel"
| "prefer_ancestors (Suc fuel) block ts =
     (if sn_Accepted (ts_status ts) block then Inr ts
      else
        (case sn_blk block of
           None \<Rightarrow> Inl NilDeref
         | Some b \<Rightarrow>
             let ts = ts\<lparr>ts_preferredIDs := insert (blk_ID b) (ts_preferredIDs ts)\<rparr> in
             (case map_of (ts_blocks ts) (blk_Parent b) of
                None \<Rightarrow> Inl NilDeref
              | Some p \<Rightarrow> prefer_ancestors fuel p ts)))"

fun prefer_descendants :: "nat \<Rightarrow> snowmanBlock \<Rightarrow> Topological \<Rightarrow> ts_error + Topological" where
  "prefer_descendants 0 block ts = Inl OutOfFuel"
| "prefer_descendants (Suc fuel) block ts =
     (case sn_sb block of
        None \<Rightarrow> Inr ts
      | Some sb \<Rightarrow>
          let ts = ts\<lparr>ts_tail := Tree_Preference sb\<rparr>;
              ts = ts\<lparr>ts_preferredIDs := insert (ts_tail ts) (ts_preferredIDs ts)\<rparr>
          in
          (case map_of (ts_blocks ts) (ts_tail ts) of
             None \<Rightarrow> Inl NilDeref
           | Some n \<Rightarrow> prefer_descendants fuel n ts))"

definition ts_RecordPoll :: "Env \<Rightarrow> Bag \<Rightarrow> Topological \<Rightarrow> ts_error + Topological" where
  "ts_RecordPoll env voteBag ts =
     (let ts = ts\<lparr>ts_pollNumber := ts_pollNumber ts + 1\<rparr> in
      bindR
        (if Len voteBag \<ge> Alpha (ts_params ts)
         then bindR (calculateInDegree voteBag ts) (\<lambda>ts. pushVotes (Suc (length (ts_kahnNodes ts))) env ts [])
         else Inr (ts, []))
        (\<lambda>(ts, voteStack).
           bindR (ts_vote env voteStack ts)
             (\<lambda>(ts, preferred).
                if preferred \<in> ts_preferredIDs ts then Inr ts
                else
                  let ts = ts\<lparr>ts_preferredIDs := {}, ts_tail := preferred\<rparr> in
                  (case map_of (ts_blocks ts) (ts_tail ts) of
                     None \<Rightarrow> Inl NilDeref
                   | Some startBlock \<Rightarrow>
                       bindR (prefer_ancestors (Suc (length (ts_blocks ts))) startBlock ts)
                         (\<lambda>ts. prefer_descendants (Suc (length (ts_blocks ts))) startBlock ts)))))"

text \<open>The fuelled loops are unfolded by hand in proofs.\<close>

declare markAncestors.simps(2) [simp del] pushVotes.simps(2) [simp del] rejectTransitively.simps(2) [simp del]
  prefer_ancestors.simps(2) [simp del] prefer_descendants.simps(2) [simp del]

text \<open>The health check reports an error when too many blocks, or a block for too long, are processing.\<close>

definition ts_HealthCheck :: "int \<Rightarrow> Topological \<Rightarrow> nat \<times> int \<times> bool" where
  "ts_HealthCheck now ts =
     (let numOutstandingBlks = l_NumProcessing (ts_Latency ts);
          isOutstandingBlks = (int numOutstandingBlks \<le> MaxOutstandingItems (ts_params ts));
          timeReqRunning = MeasureAndGetOldestDuration now (ts_Latency ts);
          isProcessingTime = (timeReqRunning \<le> MaxItemProcessingTime (ts_params ts))
      in (numOutstandingBlks, timeReqRunning, isOutstandingBlks \<and> isProcessingTime))"

end
