(* ===== verification/Forest.thy ===== *)
theory Forest
  imports Prelude
begin

text \<open>
  Forests given by a parent function: a node has at most one parent, and some rank decreases
  towards the roots. The block tree of the consensus engine is such a forest; the lemmas here are
  the ones its vote propagation and its pruning rest on.
\<close>

definition up :: "('a \<Rightarrow> 'a option) \<Rightarrow> ('a \<times> 'a) set" where
  "up par = {(i, p). par i = Some p}"

text \<open>The nodes at or below \<open>p\<close>, and those strictly below.\<close>

definition below :: "('a \<Rightarrow> 'a option) \<Rightarrow> 'a \<Rightarrow> 'a set" where
  "below par p = {i. (i, p) \<in> (up par)\<^sup>*}"

definition sbelow :: "('a \<Rightarrow> 'a option) \<Rightarrow> 'a \<Rightarrow> 'a set" where
  "sbelow par p = {i. (i, p) \<in> (up par)\<^sup>+}"

definition forest :: "('a \<Rightarrow> 'a option) \<Rightarrow> ('a \<Rightarrow> nat) \<Rightarrow> bool" where
  "forest par rank \<longleftrightarrow> (\<forall>i p. par i = Some p \<longrightarrow> rank p < rank i)"

lemma forestD: "forest par rank \<Longrightarrow> par i = Some p \<Longrightarrow> rank p < rank i"
  by (simp add: forest_def)

lemma below_refl [simp, intro]: "p \<in> below par p"
  by (simp add: below_def)

lemma below_trans: "i \<in> below par j \<Longrightarrow> j \<in> below par p \<Longrightarrow> i \<in> below par p"
  by (auto simp: below_def)

lemma below_sbelow: "i \<in> below par p \<longleftrightarrow> i = p \<or> i \<in> sbelow par p"
  by (auto simp: below_def sbelow_def rtrancl_eq_or_trancl)

lemma sbelow_parent: "par i = Some p \<Longrightarrow> i \<in> sbelow par p"
  by (auto simp: sbelow_def up_def)

lemma below_parent: "par i = Some p \<Longrightarrow> i \<in> below par p"
  by (simp add: below_sbelow sbelow_parent)

lemma sbelow_trans: "i \<in> below par j \<Longrightarrow> j \<in> sbelow par p \<Longrightarrow> i \<in> sbelow par p"
  "i \<in> sbelow par j \<Longrightarrow> j \<in> below par p \<Longrightarrow> i \<in> sbelow par p"
  by (auto simp: below_def sbelow_def)

text \<open>The first step up, and the last step down.\<close>

lemma sbelow_up: "i \<in> sbelow par p \<longleftrightarrow> (\<exists>q. par i = Some q \<and> q \<in> below par p)"
  by (auto simp: sbelow_def below_def up_def dest: tranclD intro: rtrancl_into_trancl2)

lemma sbelow_down: "i \<in> sbelow par p \<longleftrightarrow> (\<exists>c. par c = Some p \<and> i \<in> below par c)"
  by (auto simp: sbelow_def below_def up_def dest: tranclD2 intro: rtrancl_into_trancl1)

lemma below_root: "par i = None \<Longrightarrow> i \<in> below par p \<longleftrightarrow> i = p"
  by (simp add: below_sbelow [of i] sbelow_up [of i])

lemma below_rank:
  assumes "forest par rank" and "i \<in> below par p"
  shows "rank p \<le> rank i"
proof -
  have "(i, p) \<in> (up par)\<^sup>*" using assms(2) by (simp add: below_def)
  then show ?thesis
  proof (induction rule: rtrancl_induct)
    case (step q r)
    then have "par q = Some r" by (simp add: up_def)
    with forestD [OF assms(1) this] step.IH show ?case by simp
  qed simp
qed

lemma sbelow_rank:
  assumes "forest par rank" and "i \<in> sbelow par p"
  shows "rank p < rank i"
proof -
  obtain q where "par i = Some q" "q \<in> below par p" using assms(2) by (auto simp: sbelow_up)
  with forestD [OF assms(1), of i q] below_rank [OF assms(1), of q p] show ?thesis by simp
qed

lemma sbelow_irrefl: "forest par rank \<Longrightarrow> p \<notin> sbelow par p"
  using sbelow_rank [of par rank p p] by auto

lemma below_antisym: "forest par rank \<Longrightarrow> i \<in> below par p \<Longrightarrow> p \<in> below par i \<Longrightarrow> i = p"
  using below_rank [of par rank i p] sbelow_rank [of par rank p i] by (auto simp: below_sbelow [of p])

text \<open>Two ancestors of a node are comparable.\<close>

lemma below_linear:
  assumes "i \<in> below par p" and "i \<in> below par q"
  shows "p \<in> below par q \<or> q \<in> below par p"
proof -
  have "(i, p) \<in> (up par)\<^sup>*" using assms(1) by (simp add: below_def)
  then show ?thesis
    using assms(2)
  proof (induction rule: converse_rtrancl_induct)
    case base
    then show ?case by (simp add: below_def)
  next
    case (step i j)
    show ?case
    proof (cases "i = q")
      case True
      with step.hyps show ?thesis by (auto simp: below_def intro: converse_rtrancl_into_rtrancl)
    next
      case False
      with step.prems have "j \<in> below par q" using step.hyps(1) by (simp add: below_sbelow [of i] sbelow_up [of i] up_def)
      then show ?thesis by (rule step.IH)
    qed
  qed
qed

text \<open>Sub-trees of different children are disjoint.\<close>

lemma below_siblings:
  assumes "forest par rank" and "par c = Some p" and "par d = Some p" and "c \<noteq> d"
  shows "below par c \<inter> below par d = {}"
proof (rule ccontr)
  assume "below par c \<inter> below par d \<noteq> {}"
  then have "c \<in> below par d \<or> d \<in> below par c" using below_linear by fastforce
  then have "p \<in> below par d \<or> p \<in> below par c"
    using assms by (simp add: below_sbelow [of c] below_sbelow [of d] sbelow_up [of c] sbelow_up [of d])
  moreover have "c \<in> sbelow par p" "d \<in> sbelow par p" using assms by (simp_all add: sbelow_parent)
  ultimately have "p \<in> sbelow par p" by (auto intro: sbelow_trans(1))
  with sbelow_irrefl [OF assms(1)] show False by blast
qed

lemma sbelow_children: "sbelow par p = (\<Union>c\<in>{c. par c = Some p}. below par c)"
  by (auto simp: sbelow_down)

text \<open>A weight on the nodes, summed over a sub-tree, splits over the children.\<close>

definition tree_sum :: "('a \<Rightarrow> 'a option) \<Rightarrow> 'a set \<Rightarrow> ('a \<Rightarrow> int) \<Rightarrow> 'a \<Rightarrow> int" where
  "tree_sum par P w p = sum w (P \<inter> sbelow par p)"

lemma tree_sum_below:
  assumes "forest par rank" and "finite P"
  shows "sum w (P \<inter> below par c) = (if c \<in> P then w c else 0) + tree_sum par P w c"
proof -
  have "P \<inter> below par c = (P \<inter> {c}) \<union> (P \<inter> sbelow par c)" by (auto simp: below_sbelow)
  moreover have "(P \<inter> {c}) \<inter> (P \<inter> sbelow par c) = {}" using sbelow_irrefl [OF assms(1)] by auto
  ultimately show ?thesis
    using assms(2) by (auto simp: tree_sum_def sum.union_disjoint)
qed

lemma tree_sum_children:
  assumes "forest par rank" and "finite P" and "finite C" and "C \<subseteq> {c. par c = Some p}"
    and "\<And>c. par c = Some p \<Longrightarrow> c \<notin> C \<Longrightarrow> P \<inter> below par c = {}"
  shows "tree_sum par P w p = (\<Sum>c\<in>C. (if c \<in> P then w c else 0) + tree_sum par P w c)"
proof -
  have "P \<inter> sbelow par p = (\<Union>c\<in>C. P \<inter> below par c)"
    using assms(4,5) by (fastforce simp: sbelow_children)
  then have "tree_sum par P w p = sum w (\<Union>c\<in>C. P \<inter> below par c)" by (simp add: tree_sum_def)
  also have "\<dots> = (\<Sum>c\<in>C. sum w (P \<inter> below par c))"
  proof (rule sum.UNION_disjoint)
    show "\<forall>i\<in>C. \<forall>j\<in>C. i \<noteq> j \<longrightarrow> (P \<inter> below par i) \<inter> (P \<inter> below par j) = {}"
    proof (intro ballI impI)
      fix i j assume "i \<in> C" "j \<in> C" "i \<noteq> j"
      with assms(4) below_siblings [OF assms(1), of i p j] show "(P \<inter> below par i) \<inter> (P \<inter> below par j) = {}"
        by blast
    qed
  qed (use assms(2,3) in auto)
  finally show ?thesis by (simp add: tree_sum_below [OF assms(1,2)])
qed

lemma tree_sum_mono:
  assumes "finite P" and "\<And>i. i \<in> P \<Longrightarrow> 0 \<le> w i" and "q \<in> below par p"
  shows "tree_sum par P w q \<le> tree_sum par P w p"
  unfolding tree_sum_def using assms
  by (intro sum_mono2) (auto intro: sbelow_trans)

text \<open>The nodes on the way from \<open>p\<close> to its root; their number bounds a walk upwards.\<close>

definition above :: "('a \<Rightarrow> 'a option) \<Rightarrow> 'a \<Rightarrow> 'a set" where
  "above par p = {a. p \<in> below par a}"

lemma above_None: "par p = None \<Longrightarrow> above par p = {p}"
  by (auto simp: above_def below_root)

lemma above_Some: "par p = Some q \<Longrightarrow> above par p = insert p (above par q)"
  by (auto simp: above_def below_sbelow [of p] sbelow_up [of p])

lemma above_notin: "forest par rank \<Longrightarrow> par p = Some q \<Longrightarrow> p \<notin> above par q"
  using below_rank [of par rank q p] forestD [of par rank p q] by (auto simp: above_def)

lemma above_closed:
  assumes "\<And>i q. i \<in> S \<Longrightarrow> par i = Some q \<Longrightarrow> q \<in> S" and "p \<in> S"
  shows "above par p \<subseteq> S"
proof
  fix a assume "a \<in> above par p"
  then have "(p, a) \<in> (up par)\<^sup>*" by (simp add: above_def below_def)
  then show "a \<in> S" by (induction rule: rtrancl_induct) (use assms in \<open>auto simp: up_def\<close>)
qed

lemma card_above_Some:
  assumes "forest par rank" and "par p = Some q" and "finite (above par q)"
  shows "card (above par p) = Suc (card (above par q))"
  using assms by (simp add: above_Some above_notin)

text \<open>The same for walks downwards.\<close>

lemma below_closed:
  assumes "\<And>i q. par i = Some q \<Longrightarrow> q \<in> S \<Longrightarrow> i \<in> S" and "p \<in> S"
  shows "below par p \<subseteq> S"
proof
  fix a assume "a \<in> below par p"
  then have "(a, p) \<in> (up par)\<^sup>*" by (simp add: below_def)
  then show "a \<in> S" by (induction rule: converse_rtrancl_induct) (use assms in \<open>auto simp: up_def\<close>)
qed

lemma below_dom: "i \<in> below par p \<Longrightarrow> i \<noteq> p \<Longrightarrow> i \<in> dom par"
  by (auto simp: below_sbelow [of i] sbelow_up [of i])

lemma sbelow_dom: "sbelow par p \<subseteq> dom par"
  by (auto simp: sbelow_up)

lemma below_mono:
  assumes "\<And>i q. par i = Some q \<Longrightarrow> par' i = Some q"
  shows "below par p \<subseteq> below par' p"
proof -
  have "up par \<subseteq> up par'" using assms by (auto simp: up_def)
  then have "(up par)\<^sup>* \<subseteq> (up par')\<^sup>*" by (rule rtrancl_mono)
  then show ?thesis by (auto simp: below_def)
qed

text \<open>
  A stack of nodes with disjoint sub-trees, as a traversal of a forest keeps it: replacing the top
  by its children takes one node away from the nodes still to be visited.
\<close>

definition disjoint_trees :: "('a \<Rightarrow> 'a option) \<Rightarrow> 'a list \<Rightarrow> bool" where
  "disjoint_trees par st \<longleftrightarrow> distinct st \<and>
     (\<forall>s\<in>set st. \<forall>t\<in>set st. s \<noteq> t \<longrightarrow> below par s \<inter> below par t = {})"

lemma disjoint_treesD:
  "disjoint_trees par st \<Longrightarrow> s \<in> set st \<Longrightarrow> t \<in> set st \<Longrightarrow> s \<noteq> t \<Longrightarrow> below par s \<inter> below par t = {}"
  by (simp add: disjoint_trees_def)

lemma disjoint_trees_sbelow:
  assumes "forest par rank" and "disjoint_trees par st"
  shows "set st \<inter> \<Union>(sbelow par ` set st) = {}" and "\<Union>(below par ` set st) = set st \<union> \<Union>(sbelow par ` set st)"
proof -
  have "c \<notin> sbelow par t" if c: "c \<in> set st" "t \<in> set st" for c t
  proof
    assume "c \<in> sbelow par t"
    then have "c \<in> below par t" "c \<noteq> t" using sbelow_irrefl [OF assms(1), of c] by (auto simp: below_sbelow)
    then show False using disjoint_treesD [OF assms(2), of c t] c below_refl [of c par] by auto
  qed
  then show "set st \<inter> \<Union>(sbelow par ` set st) = {}" by blast
  show "\<Union>(below par ` set st) = set st \<union> \<Union>(sbelow par ` set st)" by (auto simp: below_sbelow)
qed

lemma disjoint_trees_children:
  assumes "forest par rank" and "distinct cs" and "set cs \<subseteq> {c. par c = Some r}"
  shows "disjoint_trees par cs"
proof -
  have "below par s \<inter> below par t = {}" if "s \<in> set cs" "t \<in> set cs" "s \<noteq> t" for s t
    using below_siblings [OF assms(1), of s r t] that assms(3) by auto
  then show ?thesis using assms(2) by (simp add: disjoint_trees_def)
qed

lemma disjoint_trees_push:
  assumes f: "forest par rank" and st: "disjoint_trees par (rest @ [r])"
    and cs: "distinct cs" "set cs = {c. par c = Some r}"
  shows "disjoint_trees par (rest @ cs)"
    and "\<Union>(below par ` set (rest @ cs)) = \<Union>(below par ` set (rest @ [r])) - {r}"
    and "\<Union>(sbelow par ` set (rest @ [r])) = set cs \<union> \<Union>(sbelow par ` set (rest @ cs))"
    and "set cs \<inter> \<Union>(sbelow par ` set (rest @ cs)) = {}"
proof -
  have disj: "below par s \<inter> below par r = {}" if "s \<in> set rest" for s
    using disjoint_treesD [OF st, of s r] st that by (auto simp: disjoint_trees_def)
  have sub: "below par c \<subseteq> below par r" if "c \<in> set cs" for c
    using that cs(2) below_trans below_parent [of par c r] by fast
  have mix: "below par c \<inter> below par s = {}" if "c \<in> set cs" "s \<in> set rest" for c s
    using sub [OF that(1)] disj [OF that(2)] by blast
  have rest: "below par s \<inter> below par t = {}" if "s \<in> set rest" "t \<in> set rest" "s \<noteq> t" for s t
    using disjoint_treesD [OF st] that by simp
  note children = disjoint_treesD [OF disjoint_trees_children [OF f cs(1), of r]]
  have "c \<notin> set rest" if "c \<in> set cs" for c using mix [OF that, of c] by auto
  then have "distinct (rest @ cs)" using st cs(1) by (auto simp: disjoint_trees_def)
  moreover have "below par s \<inter> below par t = {}" if "s \<in> set (rest @ cs)" "t \<in> set (rest @ cs)" "s \<noteq> t" for s t
    using that rest [of s t] children [of s t] mix [of s t] mix [of t s] cs(2) by (auto simp: Int_commute)
  ultimately show push: "disjoint_trees par (rest @ cs)" unfolding disjoint_trees_def by blast
  have ch: "\<Union>(below par ` set cs) = sbelow par r" by (simp add: cs(2) sbelow_children)
  show "\<Union>(below par ` set (rest @ cs)) = \<Union>(below par ` set (rest @ [r])) - {r}"
    using disj sbelow_irrefl [OF f, of r] ch by (auto simp: below_sbelow [of _ _ r])
  have "set cs \<union> \<Union>(sbelow par ` set cs) = sbelow par r"
    unfolding ch [symmetric] by (auto simp: below_sbelow)
  then show "\<Union>(sbelow par ` set (rest @ [r])) = set cs \<union> \<Union>(sbelow par ` set (rest @ cs))" by auto
  show "set cs \<inter> \<Union>(sbelow par ` set (rest @ cs)) = {}"
    using disjoint_trees_sbelow(1) [OF f push] by auto
qed

text \<open>Cutting off everything outside the sub-tree of \<open>r\<close> keeps the sub-trees inside it.\<close>

definition subtree :: "('a \<Rightarrow> 'a option) \<Rightarrow> 'a \<Rightarrow> 'a \<Rightarrow> 'a option" where
  "subtree par r i = (if i \<in> sbelow par r then par i else None)"

lemma below_subtree:
  assumes "q \<in> below par r"
  shows "below (subtree par r) q = below par q"
proof
  show "below (subtree par r) q \<subseteq> below par q"
    by (rule below_mono) (simp add: subtree_def split: if_splits)
  show "below par q \<subseteq> below (subtree par r) q"
  proof
    fix i assume "i \<in> below par q"
    then have "(i, q) \<in> (up par)\<^sup>*" by (simp add: below_def)
    then show "i \<in> below (subtree par r) q"
    proof (induction rule: converse_rtrancl_induct)
      case (step i j)
      then have p: "par i = Some j" and j: "j \<in> below par q" by (auto simp: up_def below_def)
      have "i \<in> sbelow par r" using sbelow_up [of i par r] p j assms below_trans by metis
      then have "subtree par r i = Some j" using p by (simp add: subtree_def)
      from below_parent [of "subtree par r", OF this] step.IH show ?case by (rule below_trans)
    qed simp
  qed
qed

lemma forest_subtree: "forest par rank \<Longrightarrow> forest (subtree par r) rank"
  by (simp add: forest_def subtree_def)

end
