(* ===== verification/SnowmanTree.thy ===== *)
theory SnowmanTree
  imports Snowman Forest
begin

text \<open>
  The shape of the tree of processing blocks: an invariant of \<open>ts_blocks\<close>, its preservation by
  \<open>Add\<close>, by recording a poll on a node and by accepting a child of the head, and what accepting
  removes from the tree.
\<close>

section \<open>The invariant\<close>

definition par_of :: "Topological \<Rightarrow> ID \<Rightarrow> ID option" where
  "par_of ts i =
     (if i = ts_head ts then None
      else case map_of (ts_blocks ts) i of None \<Rightarrow> None | Some n \<Rightarrow> map_option blk_Parent (sn_blk n))"

definition block_ids :: "Topological \<Rightarrow> ID set" where
  "block_ids ts = fst ` set (ts_blocks ts)"

lemma finite_block_ids [simp]: "finite (block_ids ts)"
  by (simp add: block_ids_def)

lemma card_block_ids: "card (block_ids ts) \<le> length (ts_blocks ts)"
  unfolding block_ids_def by (metis card_length length_map set_map)

lemma block_ids_iff: "i \<in> block_ids ts \<longleftrightarrow> (\<exists>n. map_of (ts_blocks ts) i = Some n)"
  using map_of_eq_None_iff [of "ts_blocks ts" i] by (cases "map_of (ts_blocks ts) i") (auto simp: block_ids_def)

lemma block_ids_None: "map_of (ts_blocks ts) i = None \<longleftrightarrow> i \<notin> block_ids ts"
  by (simp add: block_ids_iff)

definition sb_ok :: "Parameters \<Rightarrow> snowmanBlock \<Rightarrow> bool" where
  "sb_ok params n \<longleftrightarrow> distinct (map fst (sn_children n)) \<and>
     (case sn_sb n of None \<Rightarrow> sn_children n = []
      | Some sb \<Rightarrow> tree_reachable params (fst ` set (sn_children n)) sb)"

text \<open>
  The head is accepted. Every other block is undecided and listed, with the same block object,
  among the children of its parent, which is in the tree. All children of a block are in the tree,
  and a block has a snowball instance over exactly its children when it has any.
\<close>

definition blocks_ok :: "Topological \<Rightarrow> bool" where
  "blocks_ok ts \<longleftrightarrow>
     Verify (ts_params ts) = None \<and>
     distinct (map fst (ts_blocks ts)) \<and>
     ts_status ts (ts_head ts) = Accepted \<and>
     (\<exists>n. map_of (ts_blocks ts) (ts_head ts) = Some n \<and> (\<forall>b. sn_blk n = Some b \<longrightarrow> blk_ID b = ts_head ts)) \<and>
     (\<forall>i n. map_of (ts_blocks ts) i = Some n \<longrightarrow> i \<noteq> ts_head ts \<longrightarrow>
        (\<exists>b pn. sn_blk n = Some b \<and> blk_ID b = i \<and> \<not> Status_Decided (ts_status ts i) \<and>
           map_of (ts_blocks ts) (blk_Parent b) = Some pn \<and> map_of (sn_children pn) i = Some b)) \<and>
     (\<forall>i n c b. map_of (ts_blocks ts) i = Some n \<longrightarrow> map_of (sn_children n) c = Some b \<longrightarrow>
        c \<noteq> ts_head ts \<and> blk_Parent b = i \<and> (\<exists>cn. map_of (ts_blocks ts) c = Some cn \<and> sn_blk cn = Some b)) \<and>
     (\<forall>i n. map_of (ts_blocks ts) i = Some n \<longrightarrow> sb_ok (ts_params ts) n) \<and>
     (\<exists>rank. forest (par_of ts) rank)"

lemma blocks_okI:
  assumes "Verify (ts_params ts) = None" and "distinct (map fst (ts_blocks ts))"
    and "ts_status ts (ts_head ts) = Accepted" and "map_of (ts_blocks ts) (ts_head ts) = Some hn"
    and "\<And>b. sn_blk hn = Some b \<Longrightarrow> blk_ID b = ts_head ts"
    and "\<And>i n. map_of (ts_blocks ts) i = Some n \<Longrightarrow> i \<noteq> ts_head ts \<Longrightarrow>
      \<exists>b pn. sn_blk n = Some b \<and> blk_ID b = i \<and> \<not> Status_Decided (ts_status ts i) \<and>
        map_of (ts_blocks ts) (blk_Parent b) = Some pn \<and> map_of (sn_children pn) i = Some b"
    and "\<And>i n c b. map_of (ts_blocks ts) i = Some n \<Longrightarrow> map_of (sn_children n) c = Some b \<Longrightarrow>
      c \<noteq> ts_head ts \<and> blk_Parent b = i \<and> (\<exists>cn. map_of (ts_blocks ts) c = Some cn \<and> sn_blk cn = Some b)"
    and "\<And>i n. map_of (ts_blocks ts) i = Some n \<Longrightarrow> sb_ok (ts_params ts) n"
    and "forest (par_of ts) rank"
  shows "blocks_ok ts"
  unfolding blocks_ok_def using assms by blast

lemma blocks_okD:
  assumes "blocks_ok ts"
  shows "Verify (ts_params ts) = None" and "distinct (map fst (ts_blocks ts))"
    and "\<exists>rank. forest (par_of ts) rank" and "ts_status ts (ts_head ts) = Accepted"
  using assms unfolding blocks_ok_def by blast+

lemma blocks_ok_head:
  assumes "blocks_ok ts"
  obtains n where "map_of (ts_blocks ts) (ts_head ts) = Some n" "sn_Accepted (ts_status ts) n"
    "\<And>b. sn_blk n = Some b \<Longrightarrow> blk_ID b = ts_head ts"
proof -
  have "\<exists>n. map_of (ts_blocks ts) (ts_head ts) = Some n \<and> (\<forall>b. sn_blk n = Some b \<longrightarrow> blk_ID b = ts_head ts)"
    using assms unfolding blocks_ok_def by blast
  then obtain n where n: "map_of (ts_blocks ts) (ts_head ts) = Some n"
      "\<And>b. sn_blk n = Some b \<Longrightarrow> blk_ID b = ts_head ts" by blast
  have "sn_Accepted (ts_status ts) n" using n(2) blocks_okD(4) [OF assms] by (auto simp: sn_Accepted_def split: option.split)
  from that [OF n(1) this n(2)] show thesis .
qed

lemma head_in: "blocks_ok ts \<Longrightarrow> ts_head ts \<in> block_ids ts"
  by (erule blocks_ok_head) (simp add: block_ids_iff)

lemma accepted_iff_head:
  assumes "blocks_ok ts" and "map_of (ts_blocks ts) i = Some n"
  shows "sn_Accepted (ts_status ts) n \<longleftrightarrow> i = ts_head ts"
proof (cases "i = ts_head ts")
  case True
  with assms show ?thesis by (auto elim: blocks_ok_head)
next
  case False
  then have "\<exists>b. sn_blk n = Some b \<and> blk_ID b = i \<and> \<not> Status_Decided (ts_status ts i)"
    using assms unfolding blocks_ok_def by blast
  with False show ?thesis by (auto simp: sn_Accepted_def)
qed

lemma blocks_ok_block:
  assumes "blocks_ok ts" and "map_of (ts_blocks ts) i = Some n" and "i \<noteq> ts_head ts"
  obtains b pn where "sn_blk n = Some b" "blk_ID b = i" "\<not> Status_Decided (ts_status ts i)"
    "map_of (ts_blocks ts) (blk_Parent b) = Some pn" "map_of (sn_children pn) i = Some b"
    "par_of ts i = Some (blk_Parent b)"
proof -
  have "\<exists>b pn. sn_blk n = Some b \<and> blk_ID b = i \<and> \<not> Status_Decided (ts_status ts i) \<and>
      map_of (ts_blocks ts) (blk_Parent b) = Some pn \<and> map_of (sn_children pn) i = Some b"
    using assms unfolding blocks_ok_def by blast
  then obtain b pn where b: "sn_blk n = Some b" "blk_ID b = i" "\<not> Status_Decided (ts_status ts i)"
      "map_of (ts_blocks ts) (blk_Parent b) = Some pn" "map_of (sn_children pn) i = Some b" by blast
  moreover have "par_of ts i = Some (blk_Parent b)" using assms b by (simp add: par_of_def)
  ultimately show thesis by (rule that)
qed

lemma blocks_ok_child:
  assumes "blocks_ok ts" and "map_of (ts_blocks ts) i = Some n" and "map_of (sn_children n) c = Some b"
  obtains cn where "c \<noteq> ts_head ts" "blk_Parent b = i" "map_of (ts_blocks ts) c = Some cn" "sn_blk cn = Some b"
    "blk_ID b = c" "par_of ts c = Some i"
proof -
  have "c \<noteq> ts_head ts \<and> blk_Parent b = i \<and> (\<exists>cn. map_of (ts_blocks ts) c = Some cn \<and> sn_blk cn = Some b)"
    using assms unfolding blocks_ok_def by blast
  then obtain cn where c: "c \<noteq> ts_head ts" "blk_Parent b = i" "map_of (ts_blocks ts) c = Some cn" "sn_blk cn = Some b"
    by blast
  obtain b' where "sn_blk cn = Some b'" "blk_ID b' = c" "par_of ts c = Some (blk_Parent b')"
    by (rule blocks_ok_block [OF assms(1) c(3,1)])
  with c that show thesis by simp
qed

lemma blocks_ok_sb: "blocks_ok ts \<Longrightarrow> map_of (ts_blocks ts) i = Some n \<Longrightarrow> sb_ok (ts_params ts) n"
  unfolding blocks_ok_def by blast

lemma par_of_Some:
  assumes "blocks_ok ts"
  shows "par_of ts c = Some i \<longleftrightarrow> (\<exists>n. map_of (ts_blocks ts) i = Some n \<and> c \<in> fst ` set (sn_children n))"
proof
  assume p: "par_of ts c = Some i"
  then obtain cn where c: "map_of (ts_blocks ts) c = Some cn" "c \<noteq> ts_head ts"
    by (auto simp: par_of_def split: if_splits option.splits)
  obtain b pn where b: "map_of (ts_blocks ts) (blk_Parent b) = Some pn" "map_of (sn_children pn) c = Some b"
      "par_of ts c = Some (blk_Parent b)"
    by (rule blocks_ok_block [OF assms c])
  then have "c \<in> fst ` set (sn_children pn)" by (auto dest: map_of_SomeD intro: rev_image_eqI)
  with b p show "\<exists>n. map_of (ts_blocks ts) i = Some n \<and> c \<in> fst ` set (sn_children n)" by auto
next
  assume "\<exists>n. map_of (ts_blocks ts) i = Some n \<and> c \<in> fst ` set (sn_children n)"
  then obtain n where n: "map_of (ts_blocks ts) i = Some n" "c \<in> fst ` set (sn_children n)" by blast
  then obtain b where "map_of (sn_children n) c = Some b"
    using map_of_eq_None_iff [of "sn_children n" c] by (cases "map_of (sn_children n) c") auto
  then show "par_of ts c = Some i" by (rule blocks_ok_child [OF assms n(1)])
qed

lemma dom_par_of: "blocks_ok ts \<Longrightarrow> dom (par_of ts) = block_ids ts - {ts_head ts}"
proof (intro equalityI subsetI)
  fix i assume "i \<in> dom (par_of ts)"
  then show "i \<in> block_ids ts - {ts_head ts}"
    by (auto simp: par_of_def block_ids_iff split: if_splits option.splits)
next
  fix i assume ok: "blocks_ok ts" and "i \<in> block_ids ts - {ts_head ts}"
  then obtain n where n: "map_of (ts_blocks ts) i = Some n" "i \<noteq> ts_head ts" by (auto simp: block_ids_iff)
  obtain b :: Block where "par_of ts i = Some (blk_Parent b)" by (rule blocks_ok_block [OF ok n])
  then show "i \<in> dom (par_of ts)" by blast
qed

lemma par_of_in: "blocks_ok ts \<Longrightarrow> par_of ts i = Some p \<Longrightarrow> p \<in> block_ids ts"
  by (auto simp: par_of_Some block_ids_iff)

lemma finite_above:
  assumes "blocks_ok ts" and "p \<in> block_ids ts"
  shows "above (par_of ts) p \<subseteq> block_ids ts" "finite (above (par_of ts) p)"
    "card (above (par_of ts) p) \<le> length (ts_blocks ts)"
proof -
  show sub: "above (par_of ts) p \<subseteq> block_ids ts"
    using assms by (intro above_closed) (auto intro: par_of_in)
  then show "finite (above (par_of ts) p)" by (rule finite_subset) simp
  have "card (above (par_of ts) p) \<le> card (block_ids ts)" using sub by (intro card_mono) simp_all
  also note card_block_ids
  finally show "card (above (par_of ts) p) \<le> length (ts_blocks ts)" .
qed

text \<open>Every block of the tree is at or below the head.\<close>

lemma below_head:
  assumes ok: "blocks_ok ts"
  shows "below (par_of ts) (ts_head ts) = block_ids ts"
proof (intro equalityI subsetI)
  fix i assume "i \<in> below (par_of ts) (ts_head ts)"
  then show "i \<in> block_ids ts"
    using below_dom [of i "par_of ts"] dom_par_of [OF ok] head_in [OF ok] by auto
next
  fix i assume i: "i \<in> block_ids ts"
  obtain rank where f: "forest (par_of ts) rank" using blocks_okD(3) [OF ok] by blast
  show "i \<in> below (par_of ts) (ts_head ts)"
    using i
  proof (induction "rank i" arbitrary: i rule: less_induct)
    case less
    show ?case
    proof (cases "i = ts_head ts")
      case False
      with less.prems dom_par_of [OF ok] obtain p where p: "par_of ts i = Some p" by blast
      then have "p \<in> below (par_of ts) (ts_head ts)"
        using less.hyps forestD [OF f p] par_of_in [OF ok p] by blast
      with below_parent [of "par_of ts" i p, OF p] show ?thesis by (rule below_trans)
    qed simp
  qed
qed

section \<open>Initialize and Add\<close>

lemma blocks_ok_Initialize:
  assumes "ts_Initialize status params root height = Inr ts" and "status root = Accepted"
  shows "blocks_ok ts" and "ts_blocks ts = [(root, \<lparr>sn_blk = None, sn_shouldFalter = False, sn_sb = None, sn_children = []\<rparr>)]"
    and "ts_head ts = root" "ts_tail ts = root" "ts_preferredIDs ts = {}" "ts_trace ts = []"
    and "ts_Latency ts = NewLatency" "ts_params ts = params" "ts_status ts = status"
  using assms
  by (auto simp: ts_Initialize_def blocks_ok_def sb_ok_def par_of_def forest_def split: option.splits if_splits)

lemma keys_update: "k \<in> fst ` set m \<Longrightarrow> map fst (AList.update k v m) = map fst m"
  by (simp add: update_keys)

lemma map_of_update: "map_of (AList.update k v m) i = (if i = k then Some v else map_of m i)"
  by (simp add: update_conv')

lemma Tree_Add_reachable:
  "tree_reachable prm A t \<Longrightarrow> tree_reachable prm (insert x A) (Tree_Add x t)"
  by (rule tree_reachable.intros)

lemma AddChild_fields [simp]: "sn_blk (AddChild params child n) = sn_blk n"
  "sn_shouldFalter (AddChild params child n) = sn_shouldFalter n"
  by (simp_all add: AddChild_def Let_def split: option.split)

lemma AddChild_children:
  "sb_ok params n \<Longrightarrow> sn_children (AddChild params child n) = AList.update (blk_ID child) child (sn_children n)"
  by (auto simp: AddChild_def Let_def sb_ok_def split: option.split)

lemma AddChild_sb_ok:
  assumes "sb_ok params n"
  shows "sb_ok params (AddChild params child n)"
  using assms
  by (auto simp: sb_ok_def AddChild_def Let_def distinct_update dom_update intro: tree_reachable.intros split: option.split)

text \<open>The cases of \<open>Add\<close>: refused, rejected because the parent is gone, or inserted below its parent.\<close>

lemma ts_Add_cases:
  assumes "ts_Add env blk ts = Inr ts'"
  obtains
    (rejected) L where "\<not> ts_Decided ts blk" "\<not> ts_Processing ts (blk_ID blk)" "blk_Parent blk \<notin> block_ids ts"
      "L = l_Rejected (env_now env (blk_ID blk)) (blk_ID blk) (ts_pollNumber ts)
         (l_Issued (env_now env (blk_ID blk)) (blk_ID blk) (ts_pollNumber ts) (ts_Latency ts))"
      "ts' = ts\<lparr>ts_Latency := L, ts_status := (ts_status ts)(blk_ID blk := Rejected),
                ts_trace := ts_trace ts @ [EvReject blk]\<rparr>"
  | (inserted) pn n L where "\<not> ts_Decided ts blk" "\<not> ts_Processing ts (blk_ID blk)"
      "map_of (ts_blocks ts) (blk_Parent blk) = Some pn"
      "L = l_Issued (env_now env (blk_ID blk)) (blk_ID blk) (ts_pollNumber ts) (ts_Latency ts)"
      "n = \<lparr>sn_blk = Some blk, sn_shouldFalter = False, sn_sb = None, sn_children = []\<rparr>"
      "ts' = ts\<lparr>ts_Latency := L,
                ts_blocks := AList.update (blk_ID blk) n
                  (AList.update (blk_Parent blk) (AddChild (ts_params ts) blk pn) (ts_blocks ts)),
                ts_tail := (if ts_tail ts = blk_Parent blk then blk_ID blk else ts_tail ts),
                ts_preferredIDs := (if ts_tail ts = blk_Parent blk then insert (blk_ID blk) (ts_preferredIDs ts)
                                    else ts_preferredIDs ts)\<rparr>"
proof (cases "map_of (ts_blocks ts) (blk_Parent blk)")
  case None
  then have "blk_Parent blk \<notin> block_ids ts" by (simp add: block_ids_None)
  with assms None show thesis
    by (intro rejected) (auto simp: ts_Add_def Let_def blk_Reject_def Latency_Rejected_def split: if_splits)
next
  case (Some pn)
  with assms show thesis
    by (intro inserted [of pn]) (auto simp: ts_Add_def Let_def split: if_splits)
qed

lemma ts_Add_errors:
  "ts_Add env blk ts = Inl e \<Longrightarrow> e = ErrDuplicateAdd \<or> (\<exists>s. e = ErrBlockReject blk s)"
  by (auto simp: ts_Add_def Let_def blk_Reject_def split: if_splits option.splits)

lemma blocks_ok_cong:
  assumes "blocks_ok ts" and "ts_blocks ts' = ts_blocks ts" "ts_head ts' = ts_head ts" "ts_params ts' = ts_params ts"
    and "\<And>i. i \<in> block_ids ts \<Longrightarrow> ts_status ts' i = ts_status ts i"
  shows "blocks_ok ts'"
proof -
  have par: "par_of ts' = par_of ts" using assms by (auto simp: par_of_def fun_eq_iff)
  have st: "map_of (ts_blocks ts) i = Some n \<Longrightarrow> ts_status ts' i = ts_status ts i" for i n
    using assms(5) block_ids_iff by blast
  obtain hn rank where hn: "map_of (ts_blocks ts) (ts_head ts) = Some hn"
      "\<And>b. sn_blk hn = Some b \<Longrightarrow> blk_ID b = ts_head ts"
    and f: "forest (par_of ts) rank"
    using blocks_ok_head [OF assms(1)] blocks_okD(3) [OF assms(1)] by metis
  show ?thesis
  proof (rule blocks_okI [where hn = hn and rank = rank], unfold assms(2-4) par)
    show "\<exists>b pn. sn_blk n = Some b \<and> blk_ID b = i \<and> \<not> Status_Decided (ts_status ts' i) \<and>
        map_of (ts_blocks ts) (blk_Parent b) = Some pn \<and> map_of (sn_children pn) i = Some b"
      if "map_of (ts_blocks ts) i = Some n" "i \<noteq> ts_head ts" for i n
      using blocks_ok_block [OF assms(1) that] st [OF that(1)] by metis
    show "c \<noteq> ts_head ts \<and> blk_Parent b = i \<and> (\<exists>cn. map_of (ts_blocks ts) c = Some cn \<and> sn_blk cn = Some b)"
      if "map_of (ts_blocks ts) i = Some n" "map_of (sn_children n) c = Some b" for i n c b
      using blocks_ok_child [OF assms(1) that] by metis
  qed (use hn f st blocks_okD(1,2,4) [OF assms(1)] blocks_ok_sb [OF assms(1)] in auto)
qed

lemma blocks_ok_Add:
  assumes ok: "blocks_ok ts" and add: "ts_Add env blk ts = Inr ts'"
  shows "blocks_ok ts'"
  using add
proof (cases rule: ts_Add_cases)
  case (rejected L)
  have "blk_ID blk \<notin> block_ids ts"
    using rejected(1,2) blocks_okD(4) [OF ok] by (auto simp: ts_Decided_def ts_Processing_def block_ids_iff split: if_splits)
  then show ?thesis
    by (intro blocks_ok_cong [OF ok]) (auto simp: rejected(5))
next
  case (inserted pn n L)
  let ?i = "blk_ID blk" and ?p = "blk_Parent blk" and ?pn = "AddChild (ts_params ts) blk pn"
  have undec: "\<not> Status_Decided (ts_status ts ?i)" using inserted(1) by (simp add: ts_Decided_def split: if_splits)
  have new: "?i \<notin> block_ids ts" and inh: "?i \<noteq> ts_head ts"
    using inserted(1,2) blocks_okD(4) [OF ok]
    by (auto simp: ts_Decided_def ts_Processing_def block_ids_iff split: if_splits)
  have newN: "map_of (ts_blocks ts) ?i = None" using new by (simp add: block_ids_None)
  have p: "?p \<in> block_ids ts" and pi: "?p \<noteq> ?i" using inserted(3) newN by (auto simp: block_ids_iff)
  have pn: "sb_ok (ts_params ts) pn" using blocks_ok_sb [OF ok inserted(3)] .
  note ch = AddChild_children [OF pn, of blk]
  have look: "map_of (ts_blocks ts') i = (if i = ?i then Some n else if i = ?p then Some ?pn else map_of (ts_blocks ts) i)" for i
    by (simp add: inserted(6) map_of_update)
  have f: "ts_head ts' = ts_head ts" "ts_status ts' = ts_status ts" "ts_params ts' = ts_params ts"
    by (simp_all add: inserted(6))
  have par: "par_of ts' = (par_of ts)(?i := Some ?p)"
    using inserted(3,5) inh by (auto simp: par_of_def look f fun_eq_iff)
  obtain hn rank where hn: "map_of (ts_blocks ts) (ts_head ts) = Some hn" "\<And>b. sn_blk hn = Some b \<Longrightarrow> blk_ID b = ts_head ts"
    and r: "forest (par_of ts) rank"
    using blocks_ok_head [OF ok] blocks_okD(3) [OF ok] by metis
  show ?thesis
  proof (rule blocks_okI, unfold f)
    show "distinct (map fst (ts_blocks ts'))"
      using blocks_okD(2) [OF ok] new p by (simp add: inserted(6) update_keys block_ids_def)
    show "map_of (ts_blocks ts') (ts_head ts) = Some (if ts_head ts = ?p then ?pn else hn)"
      using hn inh by (simp add: look)
    show "blk_ID b = ts_head ts" if "sn_blk (if ts_head ts = ?p then ?pn else hn) = Some b" for b
      using that hn inserted(3) by (auto split: if_splits)
    show "\<exists>b pn'. sn_blk m = Some b \<and> blk_ID b = i \<and> \<not> Status_Decided (ts_status ts i) \<and>
        map_of (ts_blocks ts') (blk_Parent b) = Some pn' \<and> map_of (sn_children pn') i = Some b"
      if m: "map_of (ts_blocks ts') i = Some m" "i \<noteq> ts_head ts" for i m
    proof (cases "i = ?i")
      case True
      with m inserted(5) pi undec show ?thesis by (auto simp: look ch map_of_update)
    next
      case False
      obtain m0 where m0: "map_of (ts_blocks ts) i = Some m0" "sn_blk m = sn_blk m0"
        using m(1) False inserted(3) by (auto simp: look split: if_splits)
      obtain b q where b: "sn_blk m0 = Some b" "blk_ID b = i" "\<not> Status_Decided (ts_status ts i)"
          "map_of (ts_blocks ts) (blk_Parent b) = Some q" "map_of (sn_children q) i = Some b"
        by (rule blocks_ok_block [OF ok m0(1) m(2)])
      show ?thesis
        using b False m0(2) newN inserted(3) by (auto simp: look ch map_of_update)
    qed
    show "c \<noteq> ts_head ts \<and> blk_Parent b = i \<and> (\<exists>cn. map_of (ts_blocks ts') c = Some cn \<and> sn_blk cn = Some b)"
      if m: "map_of (ts_blocks ts') i = Some m" "map_of (sn_children m) c = Some b" for i m c b
    proof (cases "c = ?i \<and> i = ?p")
      case True
      with m inserted(5) pi inh show ?thesis by (auto simp: look ch map_of_update)
    next
      case False
      have "i \<noteq> ?i" using m inserted(5) by (auto simp: look)
      with False m inserted(3) obtain m0 where "map_of (ts_blocks ts) i = Some m0" "map_of (sn_children m0) c = Some b"
        by (auto simp: look ch map_of_update split: if_splits)
      then obtain cn where "c \<noteq> ts_head ts" "blk_Parent b = i" "map_of (ts_blocks ts) c = Some cn" "sn_blk cn = Some b"
        by (rule blocks_ok_child [OF ok])
      with newN inserted(3) show ?thesis by (auto simp: look)
    qed
    show "sb_ok (ts_params ts) m" if "map_of (ts_blocks ts') i = Some m" for i m
      using that blocks_ok_sb [OF ok] AddChild_sb_ok [OF pn] inserted(5)
      by (auto simp: look sb_ok_def split: if_splits)
    show "forest (par_of ts') (rank(?i := Suc (rank ?p)))"
      using r pi new par_of_in [OF ok] unfolding par by (auto simp: forest_def split: if_splits)
  qed (use blocks_okD(1,4) [OF ok] in simp_all)
qed

section \<open>Rejecting sub-trees\<close>

definition env_ok :: "Env \<Rightarrow> bool" where
  "env_ok env \<longleftrightarrow> (\<forall>xs. mset (env_range env xs) = mset xs)"

lemma env_range_simps:
  assumes "env_ok env"
  shows "set (env_range env xs) = set xs" and "distinct (map f (env_range env xs)) \<longleftrightarrow> distinct (map f xs)"
proof -
  have *: "mset (env_range env xs) = mset xs" using assms by (simp add: env_ok_def)
  then show "set (env_range env xs) = set xs" by (rule mset_eq_setD)
  from * have "mset (map f (env_range env xs)) = mset (map f xs)" by simp
  then show "distinct (map f (env_range env xs)) \<longleftrightarrow> distinct (map f xs)" by (rule mset_eq_imp_distinct_iff)
qed

definition reject_one :: "Env \<Rightarrow> ID \<times> Block \<Rightarrow> Topological \<Rightarrow> Topological" where
  "reject_one env c ts =
     Latency_Rejected env (fst c)
       (ts\<lparr>ts_status := (ts_status ts)(blk_ID (snd c) := Rejected), ts_trace := ts_trace ts @ [EvReject (snd c)]\<rparr>)"

definition reject_all :: "Env \<Rightarrow> (ID \<times> Block) list \<Rightarrow> Topological \<Rightarrow> Topological" where
  "reject_all env rs ts = fold (reject_one env) rs ts"

lemma reject_all_simps [simp]:
  "reject_all env [] ts = ts" "reject_all env (c # rs) ts = reject_all env rs (reject_one env c ts)"
  by (simp_all add: reject_all_def)

lemma reject_all_append: "reject_all env (rs @ rs') ts = reject_all env rs' (reject_all env rs ts)"
  by (simp add: reject_all_def)

lemma reject_one_fields [simp]:
  "ts_blocks (reject_one env c ts) = ts_blocks ts" "ts_head (reject_one env c ts) = ts_head ts"
  "ts_height (reject_one env c ts) = ts_height ts" "ts_params (reject_one env c ts) = ts_params ts"
  "ts_tail (reject_one env c ts) = ts_tail ts" "ts_preferredIDs (reject_one env c ts) = ts_preferredIDs ts"
  "ts_pollNumber (reject_one env c ts) = ts_pollNumber ts" "ts_Polls (reject_one env c ts) = ts_Polls ts"
  "ts_trace (reject_one env c ts) = ts_trace ts @ [EvReject (snd c)]"
  "ts_status (reject_one env c ts) = (ts_status ts)(blk_ID (snd c) := Rejected)"
  "ts_Latency (reject_one env c ts) = l_Rejected (env_now env (fst c)) (fst c) (ts_pollNumber ts) (ts_Latency ts)"
  "reject_one env c (ts\<lparr>ts_blocks := B\<rparr>) = (reject_one env c ts)\<lparr>ts_blocks := B\<rparr>"
  by (simp_all add: reject_one_def Latency_Rejected_def)

lemma reject_all_fields [simp]:
  "ts_blocks (reject_all env rs ts) = ts_blocks ts" "ts_head (reject_all env rs ts) = ts_head ts"
  "ts_height (reject_all env rs ts) = ts_height ts" "ts_params (reject_all env rs ts) = ts_params ts"
  "ts_tail (reject_all env rs ts) = ts_tail ts" "ts_preferredIDs (reject_all env rs ts) = ts_preferredIDs ts"
  "ts_pollNumber (reject_all env rs ts) = ts_pollNumber ts" "ts_Polls (reject_all env rs ts) = ts_Polls ts"
  "ts_trace (reject_all env rs ts) = ts_trace ts @ map (EvReject \<circ> snd) rs"
  "ts_status (reject_all env rs ts) i = (if i \<in> (blk_ID \<circ> snd) ` set rs then Rejected else ts_status ts i)"
  "reject_all env rs (ts\<lparr>ts_blocks := B\<rparr>) = (reject_all env rs ts)\<lparr>ts_blocks := B\<rparr>"
  by (induction rs arbitrary: ts) simp_all

lemma reject_all_latency:
  assumes "latency_inv (ts_Latency ts)"
  shows "latency_inv (ts_Latency (reject_all env rs ts)) \<and>
    processing_ids (ts_Latency (reject_all env rs ts)) = processing_ids (ts_Latency ts) - fst ` set rs"
  using assms by (induction rs arbitrary: ts) (auto simp: l_decided_ok)

lemma reject_child_eq:
  "reject_child env c (ts, rej) =
     (if env_Reject env (blk_ID (snd c)) then Inl (ErrBlockReject (snd c) ts)
      else Inr (reject_one env c ts, rej @ [fst c]))"
  by (simp add: reject_child_def blk_Reject_def reject_one_def)

lemma reject_children:
  "(\<exists>b s. foldR (reject_child env) cs (ts, rej) = Inl (ErrBlockReject b s)) \<or>
   foldR (reject_child env) cs (ts, rej) = Inr (reject_all env cs ts, rej @ map fst cs)"
proof (induction cs arbitrary: ts rej)
  case (Cons c cs)
  from Cons.IH [of "reject_one env c ts" "rej @ [fst c]"] show ?case
    by (auto simp: reject_child_eq)
qed simp

lemma foldR_skip:
  "foldR (\<lambda>c s. if P c then Inr s else f c s) cs s = foldR f (filter (\<lambda>c. \<not> P c) cs) s"
  by (induction cs arbitrary: s) (auto simp: bindR_def split: sum.split)

text \<open>
  \<open>subtrees ts par S\<close>: the sub-trees of the nodes in \<open>S\<close> are stored in the tree, and the children
  of their nodes are those that the parent function gives.
\<close>

definition subtrees :: "Topological \<Rightarrow> (ID \<Rightarrow> ID option) \<Rightarrow> ID set \<Rightarrow> bool" where
  "subtrees ts par S \<longleftrightarrow>
     (\<forall>i\<in>\<Union>(below par ` S). \<exists>n. map_of (ts_blocks ts) i = Some n \<and> distinct (map fst (sn_children n)) \<and>
        fst ` set (sn_children n) = {c. par c = Some i} \<and> (\<forall>c\<in>set (sn_children n). blk_ID (snd c) = fst c))"

lemma rejectTransitively_spec:
  assumes env: "env_ok env" and f: "forest par rank"
  shows "subtrees ts par (set stack) \<Longrightarrow> disjoint_trees par stack \<Longrightarrow>
     finite (\<Union>(below par ` set stack)) \<Longrightarrow> card (\<Union>(below par ` set stack)) < fuel \<Longrightarrow>
     (\<exists>b s. rejectTransitively fuel env stack ts = Inl (ErrBlockReject b s)) \<or>
     (\<exists>rs. rejectTransitively fuel env stack ts =
        Inr ((reject_all env rs ts)\<lparr>ts_blocks := filter (\<lambda>p. fst p \<notin> \<Union>(below par ` set stack)) (ts_blocks ts)\<rparr>) \<and>
        distinct (map fst rs) \<and> fst ` set rs = \<Union>(sbelow par ` set stack) \<and>
        (\<forall>c\<in>set rs. blk_ID (snd c) = fst c))"
proof (induction fuel arbitrary: stack ts)
  case 0
  then show ?case by simp
next
  case (Suc fuel)
  show ?case
  proof (cases "stack = []")
    case True
    then show ?thesis by (intro disjI2 exI [of _ "[]"]) (simp add: filter_True rejectTransitively.simps(2))
  next
    case False
    define r rest where "r = last stack" and "rest = butlast stack"
    have st: "stack = rest @ [r]" using False by (simp add: r_def rest_def)
    let ?U = "\<Union>(below par ` set stack)"
    obtain n where n: "map_of (ts_blocks ts) r = Some n" "distinct (map fst (sn_children n))"
        "fst ` set (sn_children n) = {c. par c = Some r}" "\<forall>c\<in>set (sn_children n). blk_ID (snd c) = fst c"
      using Suc.prems(1) unfolding subtrees_def st by fastforce
    define cs where "cs = env_range env (sn_children n)"
    have cs: "distinct (map fst cs)" "set (map fst cs) = {c. par c = Some r}" "\<forall>c\<in>set cs. blk_ID (snd c) = fst c"
      using n env_range_simps(1) [OF env] env_range_simps(2) [OF env, of fst] by (simp_all add: cs_def)
    let ?ts1 = "ts\<lparr>ts_blocks := AList.delete r (ts_blocks ts)\<rparr>" and ?new = "rest @ map fst cs"
    note push = disjoint_trees_push [OF f Suc.prems(2) [unfolded st] cs(1,2), folded st]
    have rU: "r \<in> ?U" by (auto simp: st)
    have sub: "subtrees (reject_all env cs ?ts1) par (set ?new)"
      using Suc.prems(1) unfolding subtrees_def push(2) by (auto simp: delete_conv')
    have fin: "finite (\<Union>(below par ` set ?new))" "card (\<Union>(below par ` set ?new)) < fuel"
      using Suc.prems(3,4) card.remove [OF Suc.prems(3) rU] unfolding push(2) by simp_all
    have del: "filter (\<lambda>p. fst p \<notin> \<Union>(below par ` set ?new)) (ts_blocks (reject_all env cs ?ts1)) =
        filter (\<lambda>p. fst p \<notin> ?U) (ts_blocks ts)"
      using rU unfolding push(2) by (auto simp: delete_eq_filter intro: filter_cong)
    have step: "rejectTransitively (Suc fuel) env stack ts =
        bindR (foldR (reject_child env) cs (?ts1, rest)) (\<lambda>(ts, rejected). rejectTransitively fuel env rejected ts)"
      using False n(1) by (simp add: r_def [symmetric] rest_def [symmetric] cs_def rejectTransitively.simps(2))
    from reject_children [of env cs ?ts1 rest] Suc.IH [OF sub push(1) fin] show ?thesis
    proof (elim disjE exE conjE)
      fix rs
      assume "foldR (reject_child env) cs (?ts1, rest) = Inr (reject_all env cs ?ts1, ?new)"
        "rejectTransitively fuel env ?new (reject_all env cs ?ts1) =
          Inr ((reject_all env rs (reject_all env cs ?ts1))\<lparr>ts_blocks :=
            filter (\<lambda>p. fst p \<notin> \<Union>(below par ` set ?new)) (ts_blocks (reject_all env cs ?ts1))\<rparr>)"
        and rs: "distinct (map fst rs)" "fst ` set rs = \<Union>(sbelow par ` set ?new)" "\<forall>c\<in>set rs. blk_ID (snd c) = fst c"
      then have "rejectTransitively (Suc fuel) env stack ts =
          Inr ((reject_all env (cs @ rs) ts)\<lparr>ts_blocks := filter (\<lambda>p. fst p \<notin> ?U) (ts_blocks ts)\<rparr>)"
        unfolding step del by (simp add: reject_all_append)
      moreover have "distinct (map fst (cs @ rs))" "fst ` set (cs @ rs) = \<Union>(sbelow par ` set stack)"
        using cs(1) rs(1,2) push(3,4) by auto
      ultimately show ?thesis using cs(3) rs(3) by (intro disjI2 exI [of _ "cs @ rs"]) auto
    qed (rule disjI1, simp only: step bindR_simps prod.case, blast)+
  qed
qed

section \<open>Accepting a child of the head\<close>

definition env_error :: "ts_error \<Rightarrow> bool" where
  "env_error e \<longleftrightarrow> (case e of ErrDecisionAcceptor _ _ \<Rightarrow> True | ErrConsensusAcceptor _ _ \<Rightarrow> True
     | ErrBlockAccept _ _ \<Rightarrow> True | ErrBlockReject _ _ \<Rightarrow> True | _ \<Rightarrow> False)"

lemma env_error_simps [simp]:
  "env_error (ErrDecisionAcceptor i s)" "env_error (ErrConsensusAcceptor i s)" "env_error (ErrBlockAccept b s)"
  "env_error (ErrBlockReject b s)" "\<not> env_error NilDeref" "\<not> env_error OutOfFuel"
  by (simp_all add: env_error_def)

definition accept_state :: "Env \<Rightarrow> Block \<Rightarrow> Topological \<Rightarrow> Topological" where
  "accept_state env child ts =
     (let pref = blk_ID child in
      ts\<lparr>ts_status := (ts_status ts)(pref := Accepted),
         ts_trace := ts_trace ts @ [EvDecisionAccept pref (blk_Bytes child), EvConsensusAccept pref (blk_Bytes child),
           EvAccept child],
         ts_head := pref, ts_height := blk_Height child,
         ts_preferredIDs := ts_preferredIDs ts - {pref},
         ts_Latency := l_Accepted (env_now env pref) pref (ts_pollNumber ts) (ts_Latency ts),
         ts_HeightGauge := blk_Height child\<rparr>)"

lemma below_in_blocks:
  assumes "blocks_ok ts" and "i \<in> below (par_of ts) j" and "j \<in> block_ids ts"
  shows "i \<in> block_ids ts"
  using below_head [OF assms(1)] below_trans [OF assms(2)] assms(3) by auto

lemma children_par_of:
  assumes "blocks_ok ts" and "map_of (ts_blocks ts) i = Some n"
  shows "fst ` set (sn_children n) = {c. par_of ts c = Some i}"
  using assms(2) by (auto simp: par_of_Some [OF assms(1)])

lemma blocks_ok_subtrees:
  assumes "blocks_ok ts" and "S \<subseteq> block_ids ts" and "ts_blocks ts' = ts_blocks ts"
  shows "subtrees ts' (par_of ts) S"
  unfolding subtrees_def assms(3)
proof
  fix i assume "i \<in> \<Union>(below (par_of ts) ` S)"
  then have "i \<in> block_ids ts" using below_in_blocks [OF assms(1), of i] assms(2) by blast
  then obtain n where n: "map_of (ts_blocks ts) i = Some n" by (auto simp: block_ids_iff)
  have "distinct (map fst (sn_children n))" using blocks_ok_sb [OF assms(1) n] by (simp add: sb_ok_def)
  moreover have "\<forall>c\<in>set (sn_children n). blk_ID (snd c) = fst c"
  proof
    fix c assume "c \<in> set (sn_children n)"
    with \<open>distinct (map fst (sn_children n))\<close> have "map_of (sn_children n) (fst c) = Some (snd c)" by simp
    then show "blk_ID (snd c) = fst c" by (rule blocks_ok_child [OF assms(1) n])
  qed
  ultimately show "\<exists>n. map_of (ts_blocks ts) i = Some n \<and> distinct (map fst (sn_children n)) \<and>
      fst ` set (sn_children n) = {c. par_of ts c = Some i} \<and> (\<forall>c\<in>set (sn_children n). blk_ID (snd c) = fst c)"
    using n children_par_of [OF assms(1) n] by blast
qed

lemma head_children:
  assumes ok: "blocks_ok ts" and n: "map_of (ts_blocks ts) (ts_head ts) = Some n" and c: "c \<in> fst ` set (sn_children n)"
  shows "\<Union>(below (par_of ts) ` (fst ` set (sn_children n) - {c})) =
    block_ids ts - {ts_head ts} - below (par_of ts) c"
proof -
  let ?par = "par_of ts"
  obtain rank where f: "forest ?par rank" using blocks_okD(3) [OF ok] by blast
  note ch = children_par_of [OF ok n]
  have "block_ids ts - {ts_head ts} = sbelow ?par (ts_head ts)"
    using below_head [OF ok] sbelow_irrefl [OF f, of "ts_head ts"] below_sbelow [of _ ?par "ts_head ts"] by blast
  also have "\<dots> = \<Union>(below ?par ` fst ` set (sn_children n))" by (simp add: sbelow_children ch)
  finally have all: "block_ids ts - {ts_head ts} = \<Union>(below ?par ` fst ` set (sn_children n))" .
  have "below ?par d \<inter> below ?par c = {}" if "d \<in> fst ` set (sn_children n) - {c}" for d
    using below_siblings [OF f, of d "ts_head ts" c] that c ch by auto
  then show ?thesis unfolding all by auto
qed

text \<open>The rejection loops of \<open>acceptPreferredChild\<close>, run in a state with the blocks of \<open>ts\<close>.\<close>

lemma reject_siblings:
  assumes ok: "blocks_ok ts" and env: "env_ok env" and n: "map_of (ts_blocks ts) (ts_head ts) = Some n"
    and c: "c \<in> fst ` set (sn_children n)" and t: "ts_blocks t = ts_blocks ts"
  defines "R \<equiv> bindR (foldR (reject_child env) (filter (\<lambda>d. fst d \<noteq> c) (env_range env (sn_children n))) (t, []))
      (\<lambda>(ts, rejects). rejectTransitively (Suc (length (ts_blocks ts))) env rejects ts)"
  shows "(\<exists>b s. R = Inl (ErrBlockReject b s)) \<or>
    (\<exists>rs. R = Inr ((reject_all env rs t)
         \<lparr>ts_blocks := filter (\<lambda>p. fst p = ts_head ts \<or> fst p \<in> below (par_of ts) c) (ts_blocks ts)\<rparr>) \<and>
       distinct (map fst rs) \<and> fst ` set rs = block_ids ts - {ts_head ts} - below (par_of ts) c \<and>
       (\<forall>d\<in>set rs. blk_ID (snd d) = fst d))"
proof -
  let ?par = "par_of ts"
  obtain rank where f: "forest ?par rank" using blocks_okD(3) [OF ok] by blast
  let ?cs = "filter (\<lambda>d. fst d \<noteq> c) (env_range env (sn_children n))"
  let ?st = "map fst ?cs" and ?t = "reject_all env (filter (\<lambda>d. fst d \<noteq> c) (env_range env (sn_children n))) t"
  have dist: "distinct (map fst (sn_children n))" using blocks_ok_sb [OF ok n] by (simp add: sb_ok_def)
  have cs: "set ?st = fst ` set (sn_children n) - {c}" "distinct ?st"
    using dist env_range_simps(1) [OF env] env_range_simps(2) [OF env, of fst "sn_children n"]
    by (auto simp: distinct_map_filter)
  have sub: "set ?st \<subseteq> {c. ?par c = Some (ts_head ts)}" using cs(1) children_par_of [OF ok n] by blast
  then have inb: "set ?st \<subseteq> block_ids ts" using dom_par_of [OF ok] by blast
  have U: "\<Union>(below ?par ` set ?st) = block_ids ts - {ts_head ts} - below ?par c"
    unfolding cs(1) by (rule head_children [OF ok n c])
  have fin: "finite (\<Union>(below ?par ` set ?st))" unfolding U by simp
  have card: "card (\<Union>(below ?par ` set ?st)) < Suc (length (ts_blocks ts))"
  proof -
    have "card (\<Union>(below ?par ` set ?st)) \<le> card (block_ids ts)" unfolding U by (intro card_mono) auto
    with card_block_ids [of ts] show ?thesis by simp
  qed
  have B: "filter (\<lambda>p. fst p \<notin> \<Union>(below ?par ` set ?st)) (ts_blocks ts) =
      filter (\<lambda>p. fst p = ts_head ts \<or> fst p \<in> below ?par c) (ts_blocks ts)"
    unfolding U by (intro filter_cong) (auto simp: block_ids_def)
  have subs: "subtrees ?t ?par (set ?st)" by (rule blocks_ok_subtrees [OF ok inb]) (simp add: t)
  have dis: "disjoint_trees ?par ?st" by (rule disjoint_trees_children [OF f cs(2) sub])
  have blk: "\<forall>d\<in>set (sn_children n). blk_ID (snd d) = fst d"
  proof -
    have "subtrees ts ?par {ts_head ts}" using head_in [OF ok] by (intro blocks_ok_subtrees [OF ok]) simp_all
    with n show ?thesis by (force simp: subtrees_def)
  qed
  note spec = rejectTransitively_spec [OF env f subs dis fin card]
  from reject_children [of env ?cs t "[]"] spec show ?thesis
  proof (elim disjE exE conjE)
    fix rs
    assume fold: "foldR (reject_child env) ?cs (t, []) = Inr (?t, [] @ ?st)"
      and rs: "rejectTransitively (Suc (length (ts_blocks ts))) env ?st ?t =
          Inr ((reject_all env rs ?t)\<lparr>ts_blocks := filter (\<lambda>p. fst p \<notin> \<Union>(below ?par ` set ?st)) (ts_blocks ?t)\<rparr>)"
        "distinct (map fst rs)" "fst ` set rs = \<Union>(sbelow ?par ` set ?st)" "\<forall>c\<in>set rs. blk_ID (snd c) = fst c"
    have "R = Inr ((reject_all env (?cs @ rs) t)
         \<lparr>ts_blocks := filter (\<lambda>p. fst p = ts_head ts \<or> fst p \<in> below ?par c) (ts_blocks ts)\<rparr>)"
      unfolding R_def fold using rs(1) B by (simp add: t reject_all_append)
    moreover have "distinct (map fst (?cs @ rs))" "fst ` set (?cs @ rs) = \<Union>(below ?par ` set ?st)"
      using rs(2,3) cs(2) disjoint_trees_sbelow [OF f dis] by auto
    moreover have "\<forall>d\<in>set (?cs @ rs). blk_ID (snd d) = fst d"
      using rs(4) blk env_range_simps(1) [OF env] by auto
    ultimately show ?thesis unfolding U by blast
  qed (auto simp: R_def t)
qed

lemma acceptPreferredChild_spec:
  assumes ok: "blocks_ok ts" and env: "env_ok env"
    and n: "map_of (ts_blocks ts) (ts_head ts) = Some n" "sn_sb n = Some sb"
  defines "pref \<equiv> Tree_Preference sb"
  shows "(\<exists>e. acceptPreferredChild env n ts = Inl e \<and> env_error e) \<or>
    (\<exists>child rs. map_of (sn_children n) pref = Some child \<and> acceptPreferredChild env n ts =
       Inr ((reject_all env rs (accept_state env child ts))
         \<lparr>ts_blocks := filter (\<lambda>p. fst p = ts_head ts \<or> fst p \<in> below (par_of ts) pref) (ts_blocks ts)\<rparr>) \<and>
       distinct (map fst rs) \<and> fst ` set rs = block_ids ts - {ts_head ts} - below (par_of ts) pref \<and>
       (\<forall>c\<in>set rs. blk_ID (snd c) = fst c))"
proof -
  have "tree_reachable (ts_params ts) (fst ` set (sn_children n)) sb"
    using blocks_ok_sb [OF ok n(1)] n(2) by (simp add: sb_ok_def)
  then have pref: "pref \<in> fst ` set (sn_children n)"
    unfolding pref_def using tree_reachable_valid(1) [OF blocks_okD(1) [OF ok]] by blast
  then obtain child where child: "map_of (sn_children n) pref = Some child"
    using map_of_eq_None_iff [of "sn_children n" pref] by (cases "map_of (sn_children n) pref") auto
  have cid: "blk_ID child = pref" by (rule blocks_ok_child [OF ok n(1) child])
  have step: "acceptPreferredChild env n ts =
      (if env_DecisionAccept env pref (blk_Bytes child) then Inl (ErrDecisionAcceptor pref ts)
       else if env_ConsensusAccept env pref (blk_Bytes child)
       then Inl (ErrConsensusAcceptor pref (ts\<lparr>ts_trace := ts_trace ts @ [EvDecisionAccept pref (blk_Bytes child)]\<rparr>))
       else if env_Accept env pref
       then Inl (ErrBlockAccept child (ts\<lparr>ts_trace := ts_trace ts @
          [EvDecisionAccept pref (blk_Bytes child), EvConsensusAccept pref (blk_Bytes child)]\<rparr>))
       else bindR (foldR (reject_child env) (filter (\<lambda>d. fst d \<noteq> pref) (env_range env (sn_children n)))
              (accept_state env child ts, []))
         (\<lambda>(ts, rejects). rejectTransitively (Suc (length (ts_blocks ts))) env rejects ts))"
    using n(2) child cid
    by (simp add: acceptPreferredChild_def blk_Accept_def accept_state_def pref_def [symmetric] Let_def foldR_skip)
  have "ts_blocks (accept_state env child ts) = ts_blocks ts" by (simp add: accept_state_def Let_def)
  from reject_siblings [OF ok env n(1) pref this] child show ?thesis
    unfolding step by auto
qed

text \<open>Changing snowball instances and flags keeps the shape of the tree.\<close>

definition same_shape :: "Topological \<Rightarrow> Topological \<Rightarrow> bool" where
  "same_shape ts ts' \<longleftrightarrow> map fst (ts_blocks ts') = map fst (ts_blocks ts) \<and> ts_head ts' = ts_head ts \<and>
     ts_status ts' = ts_status ts \<and> ts_params ts' = ts_params ts \<and>
     (\<forall>i n. map_of (ts_blocks ts) i = Some n \<longrightarrow>
        (\<exists>n'. map_of (ts_blocks ts') i = Some n' \<and> sn_blk n' = sn_blk n \<and> sn_children n' = sn_children n))"

lemma same_shape_refl [simp]: "same_shape ts ts"
  by (simp add: same_shape_def)

lemma same_shape_trans: "same_shape a b \<Longrightarrow> same_shape b c \<Longrightarrow> same_shape a c"
  unfolding same_shape_def by fastforce

lemma same_shape_block_ids: "same_shape ts ts' \<Longrightarrow> block_ids ts' = block_ids ts"
  unfolding same_shape_def block_ids_def by (metis set_map)

lemma same_shapeD:
  assumes "same_shape ts ts'"
  shows "map_of (ts_blocks ts) i = Some n \<Longrightarrow>
      \<exists>n'. map_of (ts_blocks ts') i = Some n' \<and> sn_blk n' = sn_blk n \<and> sn_children n' = sn_children n"
    and "map_of (ts_blocks ts') i = Some n' \<Longrightarrow>
      \<exists>n. map_of (ts_blocks ts) i = Some n \<and> sn_blk n' = sn_blk n \<and> sn_children n' = sn_children n"
proof -
  show *: "map_of (ts_blocks ts) i = Some n \<Longrightarrow>
      \<exists>n'. map_of (ts_blocks ts') i = Some n' \<and> sn_blk n' = sn_blk n \<and> sn_children n' = sn_children n" for n
    using assms unfolding same_shape_def by blast
  assume n': "map_of (ts_blocks ts') i = Some n'"
  then have "i \<in> block_ids ts'" by (simp add: block_ids_iff)
  then have "i \<in> block_ids ts" by (simp only: same_shape_block_ids [OF assms])
  then obtain n where "map_of (ts_blocks ts) i = Some n" by (auto simp: block_ids_iff)
  with * [OF this] n' show "\<exists>n. map_of (ts_blocks ts) i = Some n \<and> sn_blk n' = sn_blk n \<and> sn_children n' = sn_children n"
    by auto
qed

lemma same_shape_par_of: "same_shape ts ts' \<Longrightarrow> par_of ts' = par_of ts"
proof
  fix i assume s: "same_shape ts ts'"
  then have h: "ts_head ts' = ts_head ts" by (simp add: same_shape_def)
  show "par_of ts' i = par_of ts i"
  proof (cases "map_of (ts_blocks ts) i")
    case None
    then have "map_of (ts_blocks ts') i = None"
      using same_shape_block_ids [OF s] by (simp only: block_ids_None simp_thms)
    with None h show ?thesis by (simp add: par_of_def)
  next
    case (Some n)
    with same_shapeD(1) [OF s Some] h show ?thesis by (auto simp: par_of_def)
  qed
qed

lemma blocks_ok_same_shape:
  assumes ok: "blocks_ok ts" and s: "same_shape ts ts'"
    and sb: "\<And>i n. map_of (ts_blocks ts') i = Some n \<Longrightarrow> sb_ok (ts_params ts) n"
  shows "blocks_ok ts'"
proof -
  have f: "ts_head ts' = ts_head ts" "ts_status ts' = ts_status ts" "ts_params ts' = ts_params ts"
    "map fst (ts_blocks ts') = map fst (ts_blocks ts)"
    using s by (simp_all add: same_shape_def)
  obtain hn rank where hn: "map_of (ts_blocks ts) (ts_head ts) = Some hn" "\<And>b. sn_blk hn = Some b \<Longrightarrow> blk_ID b = ts_head ts"
    and r: "forest (par_of ts) rank"
    using blocks_ok_head [OF ok] blocks_okD(3) [OF ok] by metis
  obtain hn' where hn': "map_of (ts_blocks ts') (ts_head ts) = Some hn'" "sn_blk hn' = sn_blk hn"
    using same_shapeD(1) [OF s hn(1)] by blast
  show ?thesis
  proof (rule blocks_okI [where hn = hn' and rank = rank], unfold f same_shape_par_of [OF s])
    fix i n assume n: "map_of (ts_blocks ts') i = Some n"
    then obtain m where m: "map_of (ts_blocks ts) i = Some m" "sn_blk n = sn_blk m" "sn_children n = sn_children m"
      using same_shapeD(2) [OF s] by blast
    show "\<exists>b pn. sn_blk n = Some b \<and> blk_ID b = i \<and> \<not> Status_Decided (ts_status ts i) \<and>
        map_of (ts_blocks ts') (blk_Parent b) = Some pn \<and> map_of (sn_children pn) i = Some b" if ih: "i \<noteq> ts_head ts"
    proof -
      obtain b q where b: "sn_blk m = Some b" "blk_ID b = i" "\<not> Status_Decided (ts_status ts i)"
          "map_of (ts_blocks ts) (blk_Parent b) = Some q" "map_of (sn_children q) i = Some b"
        by (rule blocks_ok_block [OF ok m(1) ih])
      with same_shapeD(1) [OF s b(4)] m(2) show ?thesis by auto
    qed
    show "c \<noteq> ts_head ts \<and> blk_Parent b = i \<and> (\<exists>cn. map_of (ts_blocks ts') c = Some cn \<and> sn_blk cn = Some b)"
      if cb: "map_of (sn_children n) c = Some b" for c b
    proof -
      obtain cn where c: "c \<noteq> ts_head ts" "blk_Parent b = i" "map_of (ts_blocks ts) c = Some cn" "sn_blk cn = Some b"
        by (rule blocks_ok_child [OF ok m(1) cb [unfolded m(3)]])
      with same_shapeD(1) [OF s c(3)] show ?thesis by auto
    qed
  qed (use hn hn' r sb blocks_okD [OF ok] in auto)
qed

section \<open>The tree below an accepted child\<close>

lemma map_of_filter_keys: "map_of (filter (\<lambda>p. fst p \<in> S) m) i = (if i \<in> S then map_of m i else None)"
  by (induction m) auto

definition accepted_state :: "Env \<Rightarrow> Block \<Rightarrow> (ID \<times> Block) list \<Rightarrow> Topological \<Rightarrow> Topological" where
  "accepted_state env child rs ts =
     (reject_all env rs (accept_state env child ts))
       \<lparr>ts_blocks := filter (\<lambda>p. fst p \<in> below (par_of ts) (blk_ID child)) (ts_blocks ts)\<rparr>"

lemma accept_state_fields [simp]:
  "ts_blocks (accept_state env child ts) = ts_blocks ts" "ts_head (accept_state env child ts) = blk_ID child"
  "ts_params (accept_state env child ts) = ts_params ts" "ts_tail (accept_state env child ts) = ts_tail ts"
  "ts_preferredIDs (accept_state env child ts) = ts_preferredIDs ts - {blk_ID child}"
  "ts_status (accept_state env child ts) = (ts_status ts)(blk_ID child := Accepted)"
  "ts_trace (accept_state env child ts) = ts_trace ts @
     [EvDecisionAccept (blk_ID child) (blk_Bytes child), EvConsensusAccept (blk_ID child) (blk_Bytes child), EvAccept child]"
  "ts_Latency (accept_state env child ts) =
     l_Accepted (env_now env (blk_ID child)) (blk_ID child) (ts_pollNumber ts) (ts_Latency ts)"
  by (simp_all add: accept_state_def Let_def)

lemma blocks_ok_accepted:
  fixes env :: Env
  assumes ok: "blocks_ok ts" and n: "map_of (ts_blocks ts) (ts_head ts) = Some n"
    and child: "map_of (sn_children n) c = Some child"
    and rs: "fst ` set rs = block_ids ts - {ts_head ts} - below (par_of ts) c" "\<forall>d\<in>set rs. blk_ID (snd d) = fst d"
  defines "ts' \<equiv> accepted_state env child rs ts"
  shows "blocks_ok ts'" and "par_of ts' = subtree (par_of ts) c" and "block_ids ts' = below (par_of ts) c"
    and "ts_head ts' = c" and "ts_params ts' = ts_params ts"
proof -
  let ?par = "par_of ts"
  obtain rank where f: "forest ?par rank" using blocks_okD(3) [OF ok] by blast
  obtain cn where c: "c \<noteq> ts_head ts" "map_of (ts_blocks ts) c = Some cn" "sn_blk cn = Some child"
      "blk_ID child = c" "?par c = Some (ts_head ts)"
    by (rule blocks_ok_child [OF ok n child])
  have look: "map_of (ts_blocks ts') i = (if i \<in> below ?par c then map_of (ts_blocks ts) i else None)" for i
    by (simp add: ts'_def accepted_state_def c(4) map_of_filter_keys)
  have inb: "i \<in> block_ids ts" if "i \<in> below ?par c" for i
    using below_in_blocks [OF ok that] c(2) by (simp add: block_ids_iff)
  show ids: "block_ids ts' = below ?par c"
    using inb by (auto simp: block_ids_iff look split: if_splits)
  show head: "ts_head ts' = c" and params: "ts_params ts' = ts_params ts"
    by (simp_all add: ts'_def accepted_state_def c(4))
  have hc: "ts_head ts \<notin> below ?par c"
    using below_root [of ?par "ts_head ts" c] c(1) by (simp add: par_of_def)
  have sc: "i \<in> sbelow ?par c \<longleftrightarrow> i \<in> below ?par c \<and> i \<noteq> c" for i
    using sbelow_irrefl [OF f, of c] by (auto simp: below_sbelow)
  show par: "par_of ts' = subtree ?par c"
  proof
    fix i
    show "par_of ts' i = subtree ?par c i"
    proof (cases "i \<in> sbelow ?par c")
      case True
      with sc [of i] hc have "i \<in> below ?par c" "i \<noteq> c" "i \<noteq> ts_head ts" by auto
      with True show ?thesis by (simp add: par_of_def look head subtree_def)
    next
      case False
      with sc [of i] show ?thesis by (auto simp: par_of_def [of ts'] look head subtree_def)
    qed
  qed
  have st: "ts_status ts' i = (if i = c then Accepted else ts_status ts i)" if "i \<in> below ?par c" for i
  proof -
    have "i \<notin> fst ` set rs" using that rs(1) by simp
    then have "i \<notin> (blk_ID \<circ> snd) ` set rs" using rs(2) by force
    then show ?thesis by (simp add: ts'_def accepted_state_def c(4))
  qed
  show "blocks_ok ts'"
  proof (rule blocks_okI [where hn = cn and rank = rank], unfold head params par)
    show "distinct (map fst (ts_blocks ts'))"
      using blocks_okD(2) [OF ok] by (simp add: ts'_def accepted_state_def distinct_map_filter)
    fix i m assume m: "map_of (ts_blocks ts') i = Some m"
    then have i: "i \<in> below ?par c" "map_of (ts_blocks ts) i = Some m" by (auto simp: look split: if_splits)
    then show "sb_ok (ts_params ts) m" using blocks_ok_sb [OF ok] by blast
    have ih: "i \<noteq> ts_head ts" using i(1) hc by blast
    show "\<exists>b pn. sn_blk m = Some b \<and> blk_ID b = i \<and> \<not> Status_Decided (ts_status ts' i) \<and>
        map_of (ts_blocks ts') (blk_Parent b) = Some pn \<and> map_of (sn_children pn) i = Some b" if ic: "i \<noteq> c"
    proof -
      obtain b q where b: "sn_blk m = Some b" "blk_ID b = i" "\<not> Status_Decided (ts_status ts i)"
          "map_of (ts_blocks ts) (blk_Parent b) = Some q" "map_of (sn_children q) i = Some b" "?par i = Some (blk_Parent b)"
        by (rule blocks_ok_block [OF ok i(2) ih])
      have "blk_Parent b \<in> below ?par c" using i(1) ic b(6) by (simp add: below_sbelow [of i] sbelow_up [of i])
      with b ic st [OF i(1)] show ?thesis by (simp add: look)
    qed
    fix d b assume d: "map_of (sn_children m) d = Some b"
    obtain dn where dn: "blk_Parent b = i" "map_of (ts_blocks ts) d = Some dn" "sn_blk dn = Some b" "?par d = Some i"
      by (rule blocks_ok_child [OF ok i(2) d])
    have "d \<in> sbelow ?par c" using dn(4) i(1) by (auto simp: sbelow_up [of d])
    then show "d \<noteq> c \<and> blk_Parent b = i \<and> (\<exists>cn. map_of (ts_blocks ts') d = Some cn \<and> sn_blk cn = Some b)"
      using dn sc [of d] by (simp add: look)
  qed (use c st [of c] forest_subtree [OF f] blocks_okD(1) [OF ok] in \<open>auto simp: look\<close>)
qed

end
