(* ===== verification/SnowmanVotes.thy ===== *)
theory SnowmanVotes
  imports SnowmanTree
begin

text \<open>
  How a poll's votes reach the snowball instances: \<open>calculateInDegree\<close> counts, for every proper
  ancestor of a voted block, the children that are such ancestors themselves, and \<open>pushVotes\<close> then
  moves the votes towards the head in the order of a topological sort. The reference is
  \<open>subtree_votes\<close>, the number of votes for a block or a descendant of it.

  The in-degrees may come out too large: when a block that was the parent of an earlier vote is
  reached again from a deeper vote, the loop goes on upwards and counts that block twice. The
  invariants below therefore only bound the in-degrees from below; they are equalities (the
  parameter \<open>ex\<close>) when the votes are listed so that this does not happen.
\<close>

section \<open>Kahn nodes\<close>

definition kn :: "(ID, kahnNode) gomap \<Rightarrow> ID \<Rightarrow> kahnNode" where
  "kn N a = (case map_of N a of None \<Rightarrow> kahnNode0 | Some k \<Rightarrow> k)"

definition ks :: "Topological \<Rightarrow> (ID, kahnNode) gomap \<Rightarrow> ID list \<Rightarrow> Topological" where
  "ks ts N L = ts\<lparr>ts_kahnNodes := N, ts_leaves := L\<rparr>"

lemma ks_simps [simp]:
  "ts_blocks (ks ts N L) = ts_blocks ts" "ts_status (ks ts N L) = ts_status ts" "ts_params (ks ts N L) = ts_params ts"
  "ts_kahnNodes (ks ts N L) = N" "ts_leaves (ks ts N L) = L" "kahn_get (ks ts N L) a = kn N a"
  "(ks ts N L)\<lparr>ts_kahnNodes := N'\<rparr> = ks ts N' L" "(ks ts N L)\<lparr>ts_leaves := L'\<rparr> = ks ts N L'"
  by (simp_all add: ks_def kn_def kahn_get_def)

lemma kn_update [simp]: "kn (AList.update k v N) a = (if a = k then v else kn N a)"
  by (simp add: kn_def map_of_update)

lemma dom_update_N [simp]: "dom (map_of (AList.update k v N)) = insert k (dom (map_of N))"
  by (auto simp: map_of_update split: if_splits)

lemma kn_absent: "a \<notin> dom (map_of N) \<Longrightarrow> kn N a = kahnNode0"
  by (auto simp: kn_def split: option.split)

lemma kahnNode0_simps [simp]: "kn_inDegree kahnNode0 = 0" "kn_votes kahnNode0 = emptyBag"
  by (simp_all add: kahnNode0_def)

lemma Count_emptyBag [simp]: "Count emptyBag c = 0"
  by (simp add: Count_def emptyBag_def)

text \<open>The proper ancestors of the voted blocks.\<close>

definition ancestors :: "(ID \<Rightarrow> ID option) \<Rightarrow> ID set \<Rightarrow> ID set" where
  "ancestors par P = {a. \<exists>v\<in>P. v \<in> sbelow par a}"

definition deg_ok :: "bool \<Rightarrow> nat \<Rightarrow> int \<Rightarrow> bool" where
  "deg_ok ex n d \<longleftrightarrow> (if ex then d = int n else int n \<le> d)"

section \<open>Counting the in-degrees\<close>

text \<open>
  The state of the counting loop after the votes in \<open>P\<close>. During the walk to the ancestors of a new
  vote, \<open>pend\<close> is the block that has been entered but not yet counted at its parent.
\<close>

definition counted ::
  "bool \<Rightarrow> (ID \<Rightarrow> ID option) \<Rightarrow> (ID \<Rightarrow> int) \<Rightarrow> ID set \<Rightarrow> ID option \<Rightarrow> (ID, kahnNode) gomap \<Rightarrow> ID list \<Rightarrow> bool" where
  "counted ex par w P pend N L \<longleftrightarrow>
     dom (map_of N) \<subseteq> ancestors par P \<and>
     (\<forall>v\<in>P. \<forall>p. par v = Some p \<longrightarrow> p \<in> dom (map_of N)) \<and>
     (\<forall>a\<in>dom (map_of N). pend \<noteq> Some a \<longrightarrow> (\<forall>p. par a = Some p \<longrightarrow> p \<in> dom (map_of N))) \<and>
     (\<forall>a. bag_inv (kn_votes (kn N a)) \<and>
        (\<forall>c. Count (kn_votes (kn N a)) c = (if c \<in> P \<and> par c = Some a then w c else 0))) \<and>
     (\<forall>a\<in>dom (map_of N). deg_ok ex (card {c \<in> dom (map_of N). par c = Some a \<and> pend \<noteq> Some c}) (kn_inDegree (kn N a))) \<and>
     distinct L \<and> set L = {a \<in> dom (map_of N). kn_inDegree (kn N a) = 0}"

lemma countedI:
  assumes "dom (map_of N) \<subseteq> ancestors par P"
    and "\<And>v p. v \<in> P \<Longrightarrow> par v = Some p \<Longrightarrow> p \<in> dom (map_of N)"
    and "\<And>a p. a \<in> dom (map_of N) \<Longrightarrow> pend \<noteq> Some a \<Longrightarrow> par a = Some p \<Longrightarrow> p \<in> dom (map_of N)"
    and "\<And>a. bag_inv (kn_votes (kn N a))"
    and "\<And>a c. Count (kn_votes (kn N a)) c = (if c \<in> P \<and> par c = Some a then w c else 0)"
    and "\<And>a. a \<in> dom (map_of N) \<Longrightarrow>
      deg_ok ex (card {c \<in> dom (map_of N). par c = Some a \<and> pend \<noteq> Some c}) (kn_inDegree (kn N a))"
    and "distinct L" "set L = {a \<in> dom (map_of N). kn_inDegree (kn N a) = 0}"
  shows "counted ex par w P pend N L"
  unfolding counted_def using assms by blast

lemma countedD:
  assumes "counted ex par w P pend N L"
  shows "dom (map_of N) \<subseteq> ancestors par P"
    and "\<And>v p. v \<in> P \<Longrightarrow> par v = Some p \<Longrightarrow> p \<in> dom (map_of N)"
    and "\<And>a p. a \<in> dom (map_of N) \<Longrightarrow> pend \<noteq> Some a \<Longrightarrow> par a = Some p \<Longrightarrow> p \<in> dom (map_of N)"
    and "\<And>a. bag_inv (kn_votes (kn N a))"
    and "\<And>a c. Count (kn_votes (kn N a)) c = (if c \<in> P \<and> par c = Some a then w c else 0)"
    and "\<And>a. a \<in> dom (map_of N) \<Longrightarrow>
      deg_ok ex (card {c \<in> dom (map_of N). par c = Some a \<and> pend \<noteq> Some c}) (kn_inDegree (kn N a))"
    and "distinct L" "set L = {a \<in> dom (map_of N). kn_inDegree (kn N a) = 0}"
  using assms unfolding counted_def by blast+

lemma counted_root: "counted ex par w P (Some q) N L \<Longrightarrow> par q = None \<Longrightarrow> counted ex par w P None N L"
proof -
  assume c: "counted ex par w P (Some q) N L" and q: "par q = None"
  have S: "{c \<in> dom (map_of N). par c = Some a \<and> None \<noteq> Some c} =
      {c \<in> dom (map_of N). par c = Some a \<and> Some q \<noteq> Some c}" for a
    using q by auto
  note D = countedD [OF c]
  show ?thesis
  proof (rule countedI, unfold S)
    show "p \<in> dom (map_of N)" if "a \<in> dom (map_of N)" "par a = Some p" for a p
      using D(3) [of a p] that q by (cases "a = q") auto
  qed (use D in auto)
qed

lemma deg_ok_nonneg: "deg_ok ex n d \<Longrightarrow> int n \<le> d"
  by (simp add: deg_ok_def split: if_splits)

lemma deg_ok_Suc: "deg_ok ex n d \<Longrightarrow> deg_ok ex (Suc n) (d + 1)"
  by (simp add: deg_ok_def split: if_splits)

lemma finite_children [simp]: "finite {c \<in> dom (map_of (N :: (ID \<times> 'b) list)). Q c}"
  by (rule finite_subset [OF _ finite_dom_map_of]) auto

text \<open>One step of the walk upwards from the pending block \<open>q\<close> to its parent \<open>p\<close>.\<close>

lemma counted_walk_seen:
  assumes c: "counted ex par w P (Some q) N L" and q: "par q = Some p" "q \<in> dom (map_of N)"
    and d: "kn_inDegree (kn N p) \<noteq> 0"
  shows "counted ex par w P None (AList.update p ((kn N p)\<lparr>kn_inDegree := kn_inDegree (kn N p) + 1\<rparr>) N) L"
proof -
  note D = countedD [OF c]
  have p: "p \<in> dom (map_of N)" using d kn_absent [of p N] by fastforce
  then have A: "insert p (dom (map_of N)) = dom (map_of N)" by auto
  have pos: "0 < kn_inDegree (kn N p)" using deg_ok_nonneg [OF D(6) [OF p]] d by linarith
  let ?T = "\<lambda>a. {c \<in> dom (map_of N). par c = Some a \<and> Some q \<noteq> Some c}"
  let ?S = "\<lambda>a. {c \<in> dom (map_of N). par c = Some a \<and> None \<noteq> Some c}"
  have S: "?S a = (if a = p then insert q (?T p) else ?T a)" for a using q by auto
  have "card (insert q (?T p)) = Suc (card (?T p))" by (rule card_insert_disjoint) auto
  then have "card (?S p) = Suc (card (?T p))" by (simp only: S [of p] if_True refl)
  then have deg: "deg_ok ex (card (?S a)) (kn_inDegree (if a = p then (kn N p)\<lparr>kn_inDegree := kn_inDegree (kn N p) + 1\<rparr> else kn N a))"
    if "a \<in> dom (map_of N)" for a
    using D(6) [OF that] deg_ok_Suc [OF D(6) [OF p]] S [of a] by (cases "a = p") simp_all
  show ?thesis
  proof (rule countedI, unfold dom_update_N A kn_update)
    show "p' \<in> dom (map_of N)" if "a \<in> dom (map_of N)" "par a = Some p'" for a p'
      using D(3) [of a p'] that q p by (cases "a = q") auto
    show "set L = {a \<in> dom (map_of N). kn_inDegree (if a = p then (kn N p)\<lparr>kn_inDegree := kn_inDegree (kn N p) + 1\<rparr> else kn N a) = 0}"
      using pos by (auto simp: D(8))
  qed (use D deg in \<open>auto split: if_splits\<close>)
qed

lemma counted_walk_new:
  assumes f: "forest par rank" and c: "counted ex par w P (Some q) N L" and q: "par q = Some p" "q \<in> dom (map_of N)"
    and d: "kn_inDegree (kn N p) = 0" and ex: "ex \<Longrightarrow> p \<in> dom (map_of N) \<Longrightarrow> par p = None"
  shows "counted ex par w P (Some p) (AList.update p ((kn N p)\<lparr>kn_inDegree := kn_inDegree (kn N p) + 1\<rparr>) N) (removeAll p L)"
proof -
  note D = countedD [OF c]
  let ?A = "dom (map_of N)"
  have pq: "p \<noteq> q" "par p \<noteq> Some p" using forestD [OF f q(1)] forestD [OF f, of p p] by auto
  let ?T = "\<lambda>a. {c \<in> ?A. par c = Some a \<and> Some q \<noteq> Some c}"
  let ?S = "\<lambda>a. {c \<in> insert p ?A. par c = Some a \<and> Some p \<noteq> Some c}"
  have T: "?T p = {}"
  proof (cases "p \<in> ?A")
    case True
    from deg_ok_nonneg [OF D(6) [OF True]] d have "card (?T p) = 0" by simp
    then show ?thesis by simp
  next
    case False
    then show ?thesis using D(3) by blast
  qed
  have "?S p = insert q (?T p)" using q pq by auto
  then have "card (?S p) = 1" by (simp only: T) simp
  then have Sp: "deg_ok ex (card (?S p)) 1" by (simp only: deg_ok_def) simp
  have S: "deg_ok ex (card (?S a)) (kn_inDegree (kn N a))" if "a \<in> ?A" "a \<noteq> p" for a
  proof (cases "p \<in> ?A \<and> par p = Some a")
    case True
    then have "\<not> ex" using ex by auto
    moreover have "card (?S a) \<le> card (?T a)" using q that by (intro card_mono) auto
    ultimately show ?thesis using deg_ok_nonneg [OF D(6) [OF that(1)]] by (simp add: deg_ok_def)
  next
    case False
    then have "?S a = ?T a" using q that by auto
    with D(6) [OF that(1)] show ?thesis by simp
  qed
  obtain v where "v \<in> P" "v \<in> sbelow par q" using D(1) q(2) by (auto simp: ancestors_def)
  then have pa: "p \<in> ancestors par P"
    using sbelow_trans(2) [of v par q p] below_parent [of par q p, OF q(1)] by (auto simp: ancestors_def)
  show ?thesis
  proof (rule countedI, unfold dom_update_N kn_update)
    show "p' \<in> insert p ?A" if "a \<in> insert p ?A" "Some p \<noteq> Some a" "par a = Some p'" for a p'
      using D(3) [of a p'] that q by (cases "a = q") auto
    show "deg_ok ex (card (?S a)) (kn_inDegree (if a = p then (kn N p)\<lparr>kn_inDegree := kn_inDegree (kn N p) + 1\<rparr> else kn N a))"
      if "a \<in> insert p ?A" for a
      using that S [of a] Sp d by (cases "a = p") auto
    show "set (removeAll p L) = {a \<in> insert p ?A. kn_inDegree (if a = p then (kn N p)\<lparr>kn_inDegree := kn_inDegree (kn N p) + 1\<rparr> else kn N a) = 0}"
      using d by (auto simp: D(8))
  qed (use D pa in \<open>auto simp: distinct_removeAll split: if_splits\<close>)
qed

text \<open>
  For exact in-degrees: no proper ancestor of \<open>q\<close>, the roots aside, is registered without a registered child.
\<close>

definition no_takeover :: "(ID \<Rightarrow> ID option) \<Rightarrow> ID \<Rightarrow> (ID, kahnNode) gomap \<Rightarrow> bool" where
  "no_takeover par q N \<longleftrightarrow>
     (\<forall>a. q \<in> sbelow par a \<longrightarrow> a \<in> dom (map_of N) \<longrightarrow> kn_inDegree (kn N a) = 0 \<longrightarrow> par a = None)"

lemma markAncestors_spec:
  assumes ok: "blocks_ok ts" and f: "forest (par_of ts) rank"
  shows "counted ex (par_of ts) w P (Some q) N L \<Longrightarrow> q \<in> dom (map_of N) \<Longrightarrow> q \<in> block_ids ts \<Longrightarrow>
    (ex \<Longrightarrow> no_takeover (par_of ts) q N) \<Longrightarrow> card (above (par_of ts) q) \<le> fuel \<Longrightarrow>
    \<exists>N' L'. markAncestors fuel q (ks ts N L) = Inr (ks ts N' L') \<and> counted ex (par_of ts) w P None N' L'"
proof (induction fuel arbitrary: q N L)
  case 0
  then have "finite (above (par_of ts) q)" "q \<in> above (par_of ts) q"
    using finite_above(2) [OF ok] by (auto simp: above_def)
  with 0 show ?case by auto
next
  case (Suc fuel)
  obtain n where n: "map_of (ts_blocks ts) q = Some n" using Suc.prems(3) by (auto simp: block_ids_iff)
  show ?case
  proof (cases "q = ts_head ts")
    case True
    then have "par_of ts q = None" by (simp add: par_of_def)
    with counted_root [OF Suc.prems(1)] True n accepted_iff_head [OF ok n] show ?thesis
      by (auto simp: markAncestors.simps(2))
  next
    case False
    obtain b where b: "sn_blk n = Some b" "par_of ts q = Some (blk_Parent b)"
      by (rule blocks_ok_block [OF ok n False])
    let ?p = "blk_Parent b"
    let ?N = "AList.update ?p ((kn N ?p)\<lparr>kn_inDegree := kn_inDegree (kn N ?p) + 1\<rparr>) N"
    have step: "markAncestors (Suc fuel) q (ks ts N L) =
        (if kn_inDegree (kn N ?p) + 1 \<noteq> 1 then Inr (ks ts ?N L) else markAncestors fuel ?p (ks ts ?N (removeAll ?p L)))"
      using False n b(1) accepted_iff_head [OF ok n] by (simp add: markAncestors.simps(2) Let_def)
    show ?thesis
    proof (cases "kn_inDegree (kn N ?p) = 0")
      case True
      have take: "no_takeover (par_of ts) q N" if ex using Suc.prems(4) that .
      have "counted ex (par_of ts) w P (Some ?p) ?N (removeAll ?p L)"
        using take True b(2) sbelow_parent [of "par_of ts" q ?p]
        by (intro counted_walk_new [OF f Suc.prems(1) b(2) Suc.prems(2) True]) (auto simp: no_takeover_def)
      moreover have "no_takeover (par_of ts) ?p ?N" if ex
        using take [OF that] sbelow_irrefl [OF f, of ?p] sbelow_trans(1) [of q "par_of ts" ?p]
          below_parent [of "par_of ts", OF b(2)]
        by (auto simp: no_takeover_def)
      moreover have pin: "?p \<in> block_ids ts" by (rule par_of_in [OF ok b(2)])
      moreover have "card (above (par_of ts) ?p) \<le> fuel"
        using Suc.prems(5) card_above_Some [OF f b(2) finite_above(2) [OF ok pin]] by simp
      ultimately show ?thesis using Suc.IH [of ?p ?N "removeAll ?p L"] True unfolding step by simp
    next
      case False
      with counted_walk_seen [OF Suc.prems(1) b(2) Suc.prems(2) False] show ?thesis unfolding step by auto
    qed
  qed
qed

text \<open>The bag of a node after another vote for one of its children.\<close>

lemma Count_vote:
  assumes "0 \<le> w v" and "v \<notin> P" and "Count B c = (if c \<in> P \<and> par c = Some a then w c else 0)" and "par v = Some p"
  shows "Count (if a = p then AddCount B v (w v) else B) c = (if c \<in> insert v P \<and> par c = Some a then w c else 0)"
  using assms by (auto simp: Count_AddCount)

lemma counted_vote_seen:
  assumes c: "counted ex par w P None N L" and v: "par v = Some p" "v \<notin> P" "0 \<le> w v" and p: "p \<in> dom (map_of N)"
  shows "counted ex par w (insert v P) None (AList.update p ((kn N p)\<lparr>kn_votes := AddCount (kn_votes (kn N p)) v (w v)\<rparr>) N) L"
proof -
  note D = countedD [OF c]
  have A: "insert p (dom (map_of N)) = dom (map_of N)" using p by auto
  have F: "kn_inDegree (if a = p then (kn N p)\<lparr>kn_votes := B\<rparr> else kn N a) = kn_inDegree (kn N a)"
    "kn_votes (if a = p then (kn N p)\<lparr>kn_votes := B\<rparr> else kn N a) = (if a = p then B else kn_votes (kn N a))" for a B
    by simp_all
  show ?thesis
  proof (rule countedI, unfold dom_update_N A kn_update F)
    show "Count (if a = p then AddCount (kn_votes (kn N p)) v (w v) else kn_votes (kn N a)) c =
        (if c \<in> insert v P \<and> par c = Some a then w c else 0)" for a c
      using Count_vote [OF v(3,2) D(5) [of a c] v(1)] by (cases "a = p") auto
    show "bag_inv (if a = p then AddCount (kn_votes (kn N p)) v (w v) else kn_votes (kn N a))" for a
      using D(4) bag_inv_AddCount by auto
    show "dom (map_of N) \<subseteq> ancestors par (insert v P)" using D(1) by (auto simp: ancestors_def)
  qed (use D v(1) p in auto)
qed

lemma counted_vote_new:
  assumes f: "forest par rank" and c: "counted ex par w P None N L" and v: "par v = Some p" "v \<notin> P" "0 \<le> w v"
    and p: "p \<notin> dom (map_of N)"
  shows "counted ex par w (insert v P) (Some p)
    (AList.update p ((kn N p)\<lparr>kn_votes := AddCount (kn_votes (kn N p)) v (w v)\<rparr>) N) (List.insert p L)"
proof -
  note D = countedD [OF c]
  let ?A = "dom (map_of N)"
  have F: "kn_inDegree (if a = p then (kn N p)\<lparr>kn_votes := B\<rparr> else kn N a) = kn_inDegree (kn N a)"
    "kn_votes (if a = p then (kn N p)\<lparr>kn_votes := B\<rparr> else kn N a) = (if a = p then B else kn_votes (kn N a))" for a B
    by simp_all
  have pp: "par p \<noteq> Some p" using forestD [OF f, of p p] by auto
  have noc: "par c \<noteq> Some p" if "c \<in> ?A" for c using D(3) [OF that] p by auto
  have deg0: "kn_inDegree (kn N p) = 0" using kn_absent [OF p] by simp
  have Sp: "{c \<in> insert p ?A. par c = Some p \<and> Some p \<noteq> Some c} = {}" using noc by auto
  have S: "{c \<in> insert p ?A. par c = Some a \<and> Some p \<noteq> Some c} = {c \<in> ?A. par c = Some a \<and> None \<noteq> Some c}" for a
    using p by auto
  show ?thesis
  proof (rule countedI, unfold dom_update_N kn_update F)
    show "Count (if a = p then AddCount (kn_votes (kn N p)) v (w v) else kn_votes (kn N a)) c =
        (if c \<in> insert v P \<and> par c = Some a then w c else 0)" for a c
      using Count_vote [OF v(3,2) D(5) [of a c] v(1)] by (cases "a = p") auto
    show "bag_inv (if a = p then AddCount (kn_votes (kn N p)) v (w v) else kn_votes (kn N a))" for a
      using D(4) bag_inv_AddCount by auto
    show "insert p ?A \<subseteq> ancestors par (insert v P)"
      using D(1) sbelow_parent [of par v p, OF v(1)] by (auto simp: ancestors_def)
    show "deg_ok ex (card {c \<in> insert p ?A. par c = Some a \<and> Some p \<noteq> Some c}) (kn_inDegree (kn N a))"
      if "a \<in> insert p ?A" for a
      using that D(6) [of a] deg0 S [of a] Sp by (cases "a = p") (simp_all add: deg_ok_def)
    show "set (List.insert p L) = {a \<in> insert p ?A. kn_inDegree (kn N a) = 0}" using D(8) deg0 by auto
    show "q \<in> insert p ?A" if "u \<in> insert v P" "par u = Some q" for u q
      using that D(2) [of u q] v(1) by (cases "u = v") auto
  qed (use D v(1) p in auto)
qed

lemma counted_drop:
  assumes "counted ex par w P None N L" and "par v = None"
  shows "counted ex par w (insert v P) None N L"
proof -
  have "ancestors par (insert v P) = ancestors par P" using assms(2) by (auto simp: ancestors_def sbelow_up)
  moreover have "c \<in> insert v P \<and> par c = Some a \<longleftrightarrow> c \<in> P \<and> par c = Some a" for c a using assms(2) by auto
  ultimately show ?thesis using assms unfolding counted_def by auto
qed

lemma calculateInDegree_vote_spec:
  assumes ok: "blocks_ok ts" and f: "forest (par_of ts) rank"
    and c: "counted ex (par_of ts) (Count votes) P None N L" and v: "v \<notin> P" "0 \<le> Count votes v"
    and ex: "\<And>p. ex \<Longrightarrow> par_of ts v = Some p \<Longrightarrow> no_takeover (par_of ts) p N"
  shows "\<exists>N' L'. calculateInDegree_vote votes v (ks ts N L) = Inr (ks ts N' L') \<and>
    counted ex (par_of ts) (Count votes) (insert v P) None N' L'"
proof (cases "par_of ts v")
  case None
  have "calculateInDegree_vote votes v (ks ts N L) = Inr (ks ts N L)"
  proof (cases "map_of (ts_blocks ts) v")
    case (Some n)
    then have "v \<in> block_ids ts" "v \<notin> dom (par_of ts)" using None by (auto simp: block_ids_iff)
    then have "v = ts_head ts" by (simp add: dom_par_of [OF ok])
    with Some accepted_iff_head [OF ok Some] show ?thesis by (simp add: calculateInDegree_vote_def)
  qed (simp add: calculateInDegree_vote_def)
  with counted_drop [OF c None] show ?thesis by auto
next
  case (Some p)
  then have "v \<in> block_ids ts" "v \<noteq> ts_head ts" using dom_par_of [OF ok] by auto
  then obtain n where n: "map_of (ts_blocks ts) v = Some n" by (auto simp: block_ids_iff)
  obtain b where b: "sn_blk n = Some b" "par_of ts v = Some (blk_Parent b)"
    by (rule blocks_ok_block [OF ok n \<open>v \<noteq> ts_head ts\<close>])
  have pin: "p \<in> block_ids ts" by (rule par_of_in [OF ok Some])
  let ?N = "AList.update p ((kn N p)\<lparr>kn_votes := AddCount (kn_votes (kn N p)) v (Count votes v)\<rparr>) N"
  have step: "calculateInDegree_vote votes v (ks ts N L) =
      (if p \<in> dom (map_of N) then Inr (ks ts ?N L)
       else markAncestors (Suc (length (ts_blocks ts))) p (ks ts ?N (List.insert p L)))"
    using n b Some accepted_iff_head [OF ok n] \<open>v \<noteq> ts_head ts\<close>
    by (auto simp: calculateInDegree_vote_def Let_def)
  show ?thesis
  proof (cases "p \<in> dom (map_of N)")
    case True
    with counted_vote_seen [OF c Some v True] show ?thesis unfolding step by auto
  next
    case False
    have fuel: "card (above (par_of ts) p) \<le> Suc (length (ts_blocks ts))"
      using finite_above(3) [OF ok pin] by simp
    have "no_takeover (par_of ts) p ?N" if ex
      using ex [OF that Some] sbelow_irrefl [OF f, of p] by (auto simp: no_takeover_def)
    then show ?thesis
      unfolding step using markAncestors_spec [OF ok f counted_vote_new [OF f c Some v False] _ pin _ fuel] False by simp
  qed
qed

text \<open>
  The order of the votes that keeps the in-degrees exact: the parent of a vote is never, the head
  aside, a proper ancestor of the parent of a later vote.
\<close>

definition deep_first :: "(ID \<Rightarrow> ID option) \<Rightarrow> ID list \<Rightarrow> bool" where
  "deep_first par = sorted_wrt (\<lambda>u v. \<forall>a p. par u = Some a \<longrightarrow> par v = Some p \<longrightarrow> p \<in> sbelow par a \<longrightarrow> par a = None)"

lemma counted_closed:
  assumes "counted ex par w P None N L"
  shows "dom (map_of N) = ancestors par P"
proof
  note D = countedD [OF assms]
  show "ancestors par P \<subseteq> dom (map_of N)"
  proof
    fix a assume "a \<in> ancestors par P"
    then obtain v q where v: "v \<in> P" "par v = Some q" "q \<in> below par a"
      by (auto simp: ancestors_def sbelow_up)
    have "above par q \<subseteq> dom (map_of N)" using D(3) D(2) [OF v(1,2)] by (intro above_closed) auto
    with v(3) show "a \<in> dom (map_of N)" by (auto simp: above_def)
  qed
qed (rule countedD(1) [OF assms])

lemma no_takeover_deep:
  assumes c: "counted True par w (set us) None N L" and d: "deep_first par (us @ [v])" and p: "par v = Some p"
  shows "no_takeover par p N"
  unfolding no_takeover_def
proof (intro allI impI)
  fix a assume a: "p \<in> sbelow par a" "a \<in> dom (map_of N)" "kn_inDegree (kn N a) = 0"
  note D = countedD [OF c]
  have "{c \<in> dom (map_of N). par c = Some a} = {}"
    using D(6) [OF a(2)] a(3) by (simp add: deg_ok_def)
  then have leaf: "c \<notin> ancestors par (set us)" if "par c = Some a" for c
    using that counted_closed [OF c] by auto
  obtain u where u: "u \<in> set us" "u \<in> sbelow par a" using a(2) D(1) by (auto simp: ancestors_def)
  then obtain c where "par c = Some a" "u \<in> below par c" by (auto simp: sbelow_down)
  with leaf [of c] u(1) have "par u = Some a" by (auto simp: ancestors_def below_sbelow [of u])
  with d u(1) p a(1) show "par a = None" by (auto simp: deep_first_def sorted_wrt_append)
qed

lemma calculateInDegree_fold:
  assumes ok: "blocks_ok ts" and f: "forest (par_of ts) rank" and b: "bag_inv votes"
  shows "counted ex (par_of ts) (Count votes) (set us) None N L \<Longrightarrow> distinct (us @ vs) \<Longrightarrow>
    (ex \<Longrightarrow> deep_first (par_of ts) (us @ vs)) \<Longrightarrow>
    \<exists>N' L'. foldR (calculateInDegree_vote votes) vs (ks ts N L) = Inr (ks ts N' L') \<and>
      counted ex (par_of ts) (Count votes) (set (us @ vs)) None N' L'"
proof (induction vs arbitrary: us N L)
  case (Cons v vs)
  have "no_takeover (par_of ts) p N" if ex: "ex" and p: "par_of ts v = Some p" for p
  proof (rule no_takeover_deep [where v = v and par = "par_of ts"])
    show "deep_first (par_of ts) (us @ [v])" using Cons.prems(3) [OF ex] by (simp add: deep_first_def sorted_wrt_append)
    show "counted True (par_of ts) (Count votes) (set us) None N L" using Cons.prems(1) ex by simp
  qed (rule p)
  then obtain N' L' where 1: "calculateInDegree_vote votes v (ks ts N L) = Inr (ks ts N' L')"
      "counted ex (par_of ts) (Count votes) (insert v (set us)) None N' L'"
    using calculateInDegree_vote_spec [OF ok f Cons.prems(1), of v] Cons.prems(2) Count_nonneg [OF b] by auto
  from Cons.IH [of "us @ [v]" N' L'] 1 Cons.prems show ?case by simp
qed auto

lemma calculateInDegree_spec:
  assumes ok: "blocks_ok ts" and f: "forest (par_of ts) rank" and b: "bag_inv votes"
    and d: "ex \<Longrightarrow> deep_first (par_of ts) (BagList votes)"
  shows "\<exists>N L. calculateInDegree votes ts = Inr (ks ts N L) \<and>
    counted ex (par_of ts) (Count votes) (set (BagList votes)) None N L"
proof -
  have "counted ex (par_of ts) (Count votes) (set []) None [] []"
    by (auto intro!: countedI simp: kn_absent ancestors_def)
  moreover have "distinct (BagList votes)" using b by (simp add: bag_inv_def BagList_def counts_ok_def)
  ultimately show ?thesis
    using calculateInDegree_fold [OF ok f b, of ex "[]" "[]" "[]" "BagList votes"] d
    by (simp add: calculateInDegree_def ks_def)
qed

end
