(* ===== verification/SnowmanPush.thy ===== *)
theory SnowmanPush
  imports SnowmanVotes
begin

text \<open>
  \<open>pushVotes\<close> takes the registered blocks in a topological order and moves their votes to their
  parents. Whatever leaf is popped, the vote counts of a popped block are the votes at or below its
  children, and the blocks put on the stack are those of them with at least alpha votes.
\<close>

section \<open>The invariant of the loop\<close>

text \<open>The state after the blocks in \<open>D\<close> have been popped.\<close>

definition pushed ::
  "bool \<Rightarrow> (ID \<Rightarrow> ID option) \<Rightarrow> (ID \<Rightarrow> int) \<Rightarrow> ID set \<Rightarrow> ID set \<Rightarrow> (ID, kahnNode) gomap \<Rightarrow> ID list \<Rightarrow> bool" where
  "pushed ex par w P D N L \<longleftrightarrow>
     dom (map_of N) = ancestors par P \<and> D \<subseteq> ancestors par P \<and>
     (\<forall>c\<in>ancestors par P. \<forall>a\<in>D. par c = Some a \<longrightarrow> c \<in> D) \<and>
     (\<forall>a. bag_inv (kn_votes (kn N a)) \<and>
        (\<forall>c. Count (kn_votes (kn N a)) c =
           (if par c = Some a then (if c \<in> P then w c else 0) + (if c \<in> D then tree_sum par P w c else 0) else 0))) \<and>
     (\<forall>a\<in>ancestors par P. deg_ok ex (card {c \<in> ancestors par P - D. par c = Some a}) (kn_inDegree (kn N a))) \<and>
     distinct L \<and> set L = {a \<in> ancestors par P - D. kn_inDegree (kn N a) = 0}"

lemma pushedI:
  assumes "dom (map_of N) = ancestors par P" "D \<subseteq> ancestors par P"
    and "\<And>c a. c \<in> ancestors par P \<Longrightarrow> a \<in> D \<Longrightarrow> par c = Some a \<Longrightarrow> c \<in> D"
    and "\<And>a. bag_inv (kn_votes (kn N a))"
    and "\<And>a c. Count (kn_votes (kn N a)) c =
      (if par c = Some a then (if c \<in> P then w c else 0) + (if c \<in> D then tree_sum par P w c else 0) else 0)"
    and "\<And>a. a \<in> ancestors par P \<Longrightarrow> deg_ok ex (card {c \<in> ancestors par P - D. par c = Some a}) (kn_inDegree (kn N a))"
    and "distinct L" "set L = {a \<in> ancestors par P - D. kn_inDegree (kn N a) = 0}"
  shows "pushed ex par w P D N L"
  unfolding pushed_def using assms by blast

lemma pushedD:
  assumes "pushed ex par w P D N L"
  shows "dom (map_of N) = ancestors par P" "D \<subseteq> ancestors par P"
    and "\<And>c a. c \<in> ancestors par P \<Longrightarrow> a \<in> D \<Longrightarrow> par c = Some a \<Longrightarrow> c \<in> D"
    and "\<And>a. bag_inv (kn_votes (kn N a))"
    and "\<And>a c. Count (kn_votes (kn N a)) c =
      (if par c = Some a then (if c \<in> P then w c else 0) + (if c \<in> D then tree_sum par P w c else 0) else 0)"
    and "\<And>a. a \<in> ancestors par P \<Longrightarrow> deg_ok ex (card {c \<in> ancestors par P - D. par c = Some a}) (kn_inDegree (kn N a))"
    and "distinct L" "set L = {a \<in> ancestors par P - D. kn_inDegree (kn N a) = 0}"
  using assms unfolding pushed_def by blast+

lemma pushed_counted: "counted ex par w P None N L \<Longrightarrow> pushed ex par w P {} N L"
  using counted_closed [of ex par w P N L] countedD [of ex par w P None N L]
  by (intro pushedI) auto

lemma ancestors_parent: "a \<in> ancestors par P \<Longrightarrow> par a = Some p \<Longrightarrow> p \<in> ancestors par P"
  unfolding ancestors_def using below_parent [of par a p] sbelow_trans(2) by fastforce

text \<open>The votes for a block or a descendant of it, as the entry of its parent counts them.\<close>

definition entry_ok :: "(ID \<Rightarrow> ID option) \<Rightarrow> (ID \<Rightarrow> int) \<Rightarrow> ID set \<Rightarrow> ID \<Rightarrow> Bag \<Rightarrow> bool" where
  "entry_ok par w P a B \<longleftrightarrow> bag_inv B \<and> Len B = tree_sum par P w a \<and>
     (\<forall>c. Count B c = (if par c = Some a then sum w (P \<inter> below par c) else 0))"

lemma tree_sum_0: "c \<notin> ancestors par P \<Longrightarrow> tree_sum par P w c = 0"
  unfolding tree_sum_def by (rule sum.neutral) (auto simp: ancestors_def)

lemma pushed_leaf:
  assumes f: "forest par rank" and P: "finite P" and p: "pushed ex par w P D N L" and a: "a \<in> set L"
  shows "entry_ok par w P a (kn_votes (kn N a))"
proof -
  note D = pushedD [OF p]
  have fA: "finite (ancestors par P)" using finite_dom_map_of [of N] by (simp only: D(1))
  have aA: "a \<in> ancestors par P" "kn_inDegree (kn N a) = 0" using a by (auto simp: D(8))
  have "card {c \<in> ancestors par P - D. par c = Some a} = 0"
    using deg_ok_nonneg [OF D(6) [OF aA(1)]] aA(2) by simp
  then have ch: "c \<in> D" if "c \<in> ancestors par P" "par c = Some a" for c
    using that fA by auto
  have cnt: "Count (kn_votes (kn N a)) c =
      (if par c = Some a then (if c \<in> P then w c else 0) + tree_sum par P w c else 0)" for c
    using D(5) [of a c] ch [of c] tree_sum_0 [of c par P w] by auto
  define C where "C = {c. par c = Some a \<and> c \<in> P \<union> ancestors par P}"
  have C: "finite C" "C \<subseteq> {c. par c = Some a}" using P fA by (auto simp: C_def)
  have "P \<inter> below par c = {}" if "par c = Some a" "c \<notin> C" for c
    using that by (auto simp: C_def ancestors_def below_sbelow)
  from tree_sum_children [OF f P C this, where w = w]
  have "tree_sum par P w a = (\<Sum>c\<in>C. (if c \<in> P then w c else 0) + tree_sum par P w c)" by simp
  also have "\<dots> = (\<Sum>c\<in>C. Count (kn_votes (kn N a)) c)"
    by (rule sum.cong) (auto simp: cnt C_def)
  also have "\<dots> = Len (kn_votes (kn N a))"
    using tree_sum_0 [of _ par P w] by (intro vote_bag.len_sum [symmetric] D(4) C) (auto simp: cnt C_def)
  finally show ?thesis
    using D(4) by (simp add: entry_ok_def cnt tree_sum_below [OF f P])
qed

lemma pushed_root:
  assumes "pushed ex par w P D N L" and "a \<in> set L" and "par a = None"
  shows "pushed ex par w P (insert a D) N (removeAll a L)"
proof -
  note D = pushedD [OF assms(1)]
  have aA: "a \<in> ancestors par P" "a \<notin> D" using assms(2) by (auto simp: D(8))
  have S: "{c \<in> ancestors par P - insert a D. par c = Some q} = {c \<in> ancestors par P - D. par c = Some q}" for q
    using assms(3) by auto
  have leaf: "{c \<in> ancestors par P - D. par c = Some a} = {}"
  proof -
    have "finite (ancestors par P)" using finite_dom_map_of [of N] by (simp only: D(1))
    moreover have "card {c \<in> ancestors par P - D. par c = Some a} = 0"
      using deg_ok_nonneg [OF D(6) [OF aA(1)]] assms(2) by (simp add: D(8))
    ultimately show ?thesis by simp
  qed
  show ?thesis
  proof (rule pushedI, unfold S)
    show "c \<in> insert a D" if "c \<in> ancestors par P" "q \<in> insert a D" "par c = Some q" for c q
      using that leaf D(3) [of c q] by (cases "q = a") auto
    show "Count (kn_votes (kn N q)) c =
        (if par c = Some q then (if c \<in> P then w c else 0) + (if c \<in> insert a D then tree_sum par P w c else 0) else 0)" for q c
      using D(5) [of q c] assms(3) by (cases "c = a") simp_all
    show "set (removeAll a L) = {b \<in> ancestors par P - insert a D. kn_inDegree (kn N b) = 0}"
      unfolding set_removeAll D(8) by blast
    show "insert a D \<subseteq> ancestors par P" using aA(1) D(2) by simp
    show "distinct (removeAll a L)" using D(7) by (rule distinct_removeAll)
  qed (fact D(1), fact D(4), rule D(6))
qed

lemma deg_ok_minus: "deg_ok ex n d \<Longrightarrow> 0 < n \<Longrightarrow> deg_ok ex (n - 1) (d - 1)"
  by (simp add: deg_ok_def of_nat_diff split: if_splits)

lemma pushed_child:
  assumes f: "forest par rank" and P: "finite P" "\<And>v. v \<in> P \<Longrightarrow> 0 \<le> w v"
    and pu: "pushed ex par w P D N L" and a: "a \<in> set L" and p: "par a = Some p"
  defines "k \<equiv> (kn N p)\<lparr>kn_inDegree := kn_inDegree (kn N p) - 1,
      kn_votes := AddCount (kn_votes (kn N p)) a (Len (kn_votes (kn N a)))\<rparr>"
  shows "pushed ex par w P (insert a D) (AList.update p k N)
    (if kn_inDegree k = 0 then List.insert p (removeAll a L) else removeAll a L)"
proof -
  note D = pushedD [OF pu]
  let ?A = "ancestors par P"
  have fA: "finite ?A" using finite_dom_map_of [of N] by (simp only: D(1))
  have aA: "a \<in> ?A" "a \<notin> D" "kn_inDegree (kn N a) = 0" using a by (auto simp: D(8))
  have pA: "p \<in> ?A" by (rule ancestors_parent [of a par P p, OF aA(1) p])
  have pD: "p \<notin> D" using D(3) [OF aA(1) _ p] aA(2) by blast
  have ap: "a \<noteq> p" using forestD [OF f, of a p] p by auto
  have "card {c \<in> ?A - D. par c = Some a} = 0"
    using deg_ok_nonneg [OF D(6) [OF aA(1)]] aA(3) by simp
  then have leaf: "{c \<in> ?A - D. par c = Some a} = {}" using fA by simp
  have len: "Len (kn_votes (kn N a)) = tree_sum par P w a"
    using pushed_leaf [OF f P(1) pu a] by (simp add: entry_ok_def)
  have ts: "0 \<le> tree_sum par P w a" unfolding tree_sum_def using P(2) by (intro sum_nonneg) auto
  have S: "{c \<in> ?A - insert a D. par c = Some q} = {c \<in> ?A - D. par c = Some q} - {a}" for q by auto
  have cardp: "card {c \<in> ?A - insert a D. par c = Some p} = card {c \<in> ?A - D. par c = Some p} - 1"
    "0 < card {c \<in> ?A - D. par c = Some p}"
    unfolding S using aA(1,2) p fA by (auto simp: card_gt_0_iff)
  have posp: "0 < kn_inDegree (kn N p)" using deg_ok_nonneg [OF D(6) [OF pA]] cardp(2) by linarith
  have deg: "kn_inDegree (if q = p then k else kn N q) = kn_inDegree (kn N q) - (if q = p then 1 else 0)" for q
    by (simp add: k_def)
  have votes: "kn_votes (if q = p then k else kn N q) =
      (if q = p then AddCount (kn_votes (kn N p)) a (tree_sum par P w a) else kn_votes (kn N q))" for q
    by (simp add: k_def len)
  show ?thesis
  proof (rule pushedI, unfold dom_update_N kn_update deg votes)
    show "insert p (dom (map_of N)) = ?A" using pA by (auto simp: D(1))
    show "insert a D \<subseteq> ?A" using aA(1) D(2) by simp
    show "c \<in> insert a D" if "c \<in> ?A" "q \<in> insert a D" "par c = Some q" for c q
      using that leaf D(3) [of c q] by (cases "q = a") auto
    show "bag_inv (if q = p then AddCount (kn_votes (kn N p)) a (tree_sum par P w a) else kn_votes (kn N q))" for q
      using D(4) bag_inv_AddCount by simp
    show "Count (if q = p then AddCount (kn_votes (kn N p)) a (tree_sum par P w a) else kn_votes (kn N q)) c =
        (if par c = Some q then (if c \<in> P then w c else 0) + (if c \<in> insert a D then tree_sum par P w c else 0) else 0)" for q c
      using D(5) [of q c] p aA(2) ts by (cases "q = p"; cases "c = a") (simp_all add: Count_AddCount)
    show "deg_ok ex (card {c \<in> ?A - insert a D. par c = Some q}) (kn_inDegree (kn N q) - (if q = p then 1 else 0))"
      if q: "q \<in> ?A" for q
    proof (cases "q = p")
      case True
      show ?thesis
        unfolding True cardp(1) using deg_ok_minus [OF D(6) [OF pA] cardp(2)] by (simp only: if_True refl)
    next
      case False
      then have "{c \<in> ?A - insert a D. par c = Some q} = {c \<in> ?A - D. par c = Some q}" using p by auto
      with False D(6) [OF q] show ?thesis by simp
    qed
    show "distinct (if kn_inDegree k = 0 then List.insert p (removeAll a L) else removeAll a L)"
      using D(7) by (simp add: distinct_removeAll)
    have kd: "kn_inDegree k = kn_inDegree (kn N p) - 1" by (simp add: k_def)
    have L: "b \<in> set (removeAll a L) \<longleftrightarrow> b \<in> ?A \<and> b \<notin> insert a D \<and> kn_inDegree (kn N b) = 0" for b
      unfolding set_removeAll D(8) by blast
    show "set (if kn_inDegree k = 0 then List.insert p (removeAll a L) else removeAll a L) =
        {b \<in> ?A - insert a D. kn_inDegree (kn N b) - (if b = p then 1 else 0) = 0}"
    proof (rule set_eqI)
      fix b
      show "b \<in> set (if kn_inDegree k = 0 then List.insert p (removeAll a L) else removeAll a L) \<longleftrightarrow>
          b \<in> {b \<in> ?A - insert a D. kn_inDegree (kn N b) - (if b = p then 1 else 0) = 0}"
        using L [of b] pA pD ap posp kd by (cases "b = p") (auto simp del: set_removeAll)
    qed
  qed
qed

section \<open>The loop\<close>

text \<open>The order of the pops: all registered children of a block are popped before it.\<close>

fun topo :: "(ID \<Rightarrow> ID option) \<Rightarrow> ID set \<Rightarrow> ID set \<Rightarrow> ID list \<Rightarrow> bool" where
  "topo par A D [] \<longleftrightarrow> True"
| "topo par A D (a # as) \<longleftrightarrow> a \<in> A - D \<and> (\<forall>c\<in>A. par c = Some a \<longrightarrow> c \<in> D) \<and> topo par A (insert a D) as"

lemma finite_imp_Max_rank:
  fixes rank :: "'a \<Rightarrow> nat"
  assumes "finite X" and "x \<in> X"
  shows "\<exists>a\<in>X. \<forall>b\<in>X. rank b \<le> rank a"
proof -
  have "Max (rank ` X) \<in> rank ` X" using assms by (intro Max_in) auto
  then obtain a where "a \<in> X" "rank a = Max (rank ` X)" by auto
  with assms(1) show ?thesis by (metis Max_ge finite_imageI imageI)
qed

lemma pushed_end:
  assumes f: "forest par rank" and p: "pushed True par w P D N []"
  shows "ancestors par P \<subseteq> D"
proof (rule ccontr)
  note D = pushedD [OF p]
  let ?X = "ancestors par P - D"
  assume "\<not> ancestors par P \<subseteq> D"
  then obtain x where "x \<in> ?X" by blast
  have fX: "finite ?X" using finite_dom_map_of [of N] by (simp add: D(1))
  then obtain a where a: "a \<in> ?X" "\<And>b. b \<in> ?X \<Longrightarrow> rank b \<le> rank a"
    using finite_imp_Max_rank [OF _ \<open>x \<in> ?X\<close>, of rank] by metis
  have "kn_inDegree (kn N a) \<noteq> 0" using D(8) a(1) by auto
  then have "card {c \<in> ?X. par c = Some a} \<noteq> 0" using D(6) [of a] a(1) by (auto simp: deg_ok_def)
  then obtain c where c: "c \<in> ?X" "par c = Some a" by (metis (mono_tags, lifting) card.empty empty_Collect_eq)
  with a(2) [of c] forestD [OF f, of c a] show False by simp
qed

lemma pushVotes_step:
  fixes st :: "votes list"
  assumes ok: "blocks_ok ts" and f: "forest (par_of ts) rank" and P: "finite P" "\<And>v. v \<in> P \<Longrightarrow> 0 \<le> w v"
    and p: "pushed ex (par_of ts) w P D N L" and a: "a \<in> set L" and pop: "a = L ! (env_pop env L mod length L)"
  defines "st' \<equiv> st @ (if Alpha (ts_params ts) \<le> Len (kn_votes (kn N a))
      then [\<lparr>v_parentID = a, v_votes = kn_votes (kn N a)\<rparr>] else [])"
  shows "\<exists>N' L'. pushed ex (par_of ts) w P (insert a D) N' L' \<and>
    pushVotes (Suc fuel) env (ks ts N L) st = pushVotes fuel env (ks ts N' L') st'"
proof -
  let ?A = "ancestors (par_of ts) P"
  have "a \<in> ?A" using a pushedD(8) [OF p] by auto
  then have "a \<in> block_ids ts"
    using par_of_in [OF ok] unfolding ancestors_def sbelow_down by blast
  then obtain n where n: "map_of (ts_blocks ts) a = Some n" by (auto simp: block_ids_iff)
  have L: "L \<noteq> []" using a by auto
  show ?thesis
  proof (cases "a = ts_head ts")
    case True
    then have "par_of ts a = None" by (simp add: par_of_def)
    moreover have "pushVotes (Suc fuel) env (ks ts N L) st = pushVotes fuel env (ks ts N (removeAll a L)) st'"
      using True n L accepted_iff_head [OF ok n] by (simp add: pushVotes.simps(2) Let_def st'_def flip: pop)
    ultimately show ?thesis using pushed_root [OF p a] by blast
  next
    case False
    obtain b where b: "sn_blk n = Some b" "par_of ts a = Some (blk_Parent b)"
      by (rule blocks_ok_block [OF ok n False])
    let ?p = "blk_Parent b"
    let ?k = "(kn N ?p)\<lparr>kn_inDegree := kn_inDegree (kn N ?p) - 1,
        kn_votes := AddCount (kn_votes (kn N ?p)) a (Len (kn_votes (kn N a)))\<rparr>"
    have "pushVotes (Suc fuel) env (ks ts N L) st = pushVotes fuel env (ks ts (AList.update ?p ?k N)
        (if kn_inDegree ?k = 0 then List.insert ?p (removeAll a L) else removeAll a L)) st'"
      using False n b L accepted_iff_head [OF ok n] by (simp add: pushVotes.simps(2) Let_def st'_def flip: pop)
    with pushed_child [OF f P p a b(2)] show ?thesis by blast
  qed
qed

lemma pushVotes_spec:
  assumes ok: "blocks_ok ts" and f: "forest (par_of ts) rank" and P: "finite P" "\<And>v. v \<in> P \<Longrightarrow> 0 \<le> w v"
  shows "pushed ex (par_of ts) w P D N L \<Longrightarrow> card (ancestors (par_of ts) P - D) < fuel \<Longrightarrow>
    \<exists>N' pops es. pushVotes fuel env (ks ts N L) st = Inr (ks ts N' [], st @ es) \<and>
      map v_parentID es = filter (\<lambda>a. Alpha (ts_params ts) \<le> tree_sum (par_of ts) P w a) pops \<and>
      (\<forall>e\<in>set es. entry_ok (par_of ts) w P (v_parentID e) (v_votes e)) \<and>
      topo (par_of ts) (ancestors (par_of ts) P) D pops \<and>
      (ex \<longrightarrow> ancestors (par_of ts) P \<subseteq> D \<union> set pops)"
proof (induction fuel arbitrary: D N L st)
  case (Suc fuel)
  let ?par = "par_of ts" and ?A = "ancestors (par_of ts) P"
  note D = pushedD [OF Suc.prems(1)]
  show ?case
  proof (cases "L = []")
    case True
    then have "?A \<subseteq> D" if ex using that pushed_end [OF f, of w P D N] Suc.prems(1) by simp
    with True show ?thesis by (intro exI [of _ N] exI [of _ "[]"]) (auto simp: pushVotes.simps(2))
  next
    case False
    define a where "a = L ! (env_pop env L mod length L)"
    have a: "a \<in> set L" using False by (simp add: a_def)
    then have aA: "a \<in> ?A" "a \<notin> D" "kn_inDegree (kn N a) = 0" using D(8) by auto
    have fA: "finite ?A" using finite_dom_map_of [of N] by (simp only: D(1))
    have "card {c \<in> ?A - D. ?par c = Some a} = 0" using deg_ok_nonneg [OF D(6) [OF aA(1)]] aA(3) by simp
    then have leaf: "c \<in> D" if "c \<in> ?A" "?par c = Some a" for c using that fA by auto
    have "card (?A - insert a D) < card (?A - D)" using aA fA by (intro psubset_card_mono) auto
    then have fuel: "card (?A - insert a D) < fuel" using Suc.prems(2) by simp
    have ent: "entry_ok ?par w P a (kn_votes (kn N a))" by (rule pushed_leaf [OF f P(1) Suc.prems(1) a])
    then have len: "Len (kn_votes (kn N a)) = tree_sum ?par P w a" by (simp add: entry_ok_def)
    let ?e = "if Alpha (ts_params ts) \<le> tree_sum ?par P w a then [\<lparr>v_parentID = a, v_votes = kn_votes (kn N a)\<rparr>] else []"
    have "\<exists>N1 L1. pushed ex ?par w P (insert a D) N1 L1 \<and>
        pushVotes (Suc fuel) env (ks ts N L) st = pushVotes fuel env (ks ts N1 L1) (st @ ?e)"
      using pushVotes_step [OF ok f P Suc.prems(1) a a_def, where fuel = fuel and st = st] unfolding len .
    then obtain N1 L1 where 1: "pushed ex ?par w P (insert a D) N1 L1"
        "pushVotes (Suc fuel) env (ks ts N L) st = pushVotes fuel env (ks ts N1 L1) (st @ ?e)" by blast
    obtain N' pops es where 2: "pushVotes fuel env (ks ts N1 L1) (st @ ?e) = Inr (ks ts N' [], (st @ ?e) @ es)"
        "map v_parentID es = filter (\<lambda>a. Alpha (ts_params ts) \<le> tree_sum ?par P w a) pops"
        "\<forall>e\<in>set es. entry_ok ?par w P (v_parentID e) (v_votes e)" "topo ?par ?A (insert a D) pops"
        "ex \<longrightarrow> ?A \<subseteq> insert a D \<union> set pops"
      using Suc.IH [OF 1(1) fuel, of "st @ ?e"] by blast
    show ?thesis
    proof (intro exI conjI)
      show "pushVotes (Suc fuel) env (ks ts N L) st = Inr (ks ts N' [], st @ (?e @ es))" using 1(2) 2(1) by simp
      show "topo ?par ?A D (a # pops)" using 2(4) leaf aA by simp
    qed (use 2 ent in auto)
  qed
qed simp

section \<open>The stack of votes\<close>

lemma topo_order:
  assumes f: "forest par rank" and up: "\<And>c a. c \<in> A \<Longrightarrow> par c = Some a \<Longrightarrow> a \<in> A"
  shows "topo par A D as \<Longrightarrow> (\<And>c a. c \<in> A \<Longrightarrow> par c = Some a \<Longrightarrow> a \<in> D \<Longrightarrow> c \<in> D) \<Longrightarrow>
    set as \<subseteq> A - D \<and> distinct as \<and> sorted_wrt (\<lambda>x y. y \<notin> sbelow par x) as \<and>
    (\<forall>c\<in>A. \<forall>a\<in>D \<union> set as. c \<in> below par a \<longrightarrow> c \<in> D \<union> set as)"
proof (induction as arbitrary: D)
  case Nil
  have "c \<in> D" if "c \<in> A" "a \<in> D" "c \<in> below par a" for c a
  proof -
    have "(c, a) \<in> (up par)\<^sup>*" using that(3) by (simp add: below_def)
    then show ?thesis using that(1)
      by (induction rule: converse_rtrancl_induct) (use that(2) up Nil.prems(2) in \<open>auto simp: up_def\<close>)
  qed
  then show ?case by auto
next
  case (Cons a as)
  have ch: "c \<in> insert a D" if "c \<in> A" "par c = Some b" "b \<in> insert a D" for c b
    using that Cons.prems by auto
  have IH: "set as \<subseteq> A - insert a D" "distinct as" "sorted_wrt (\<lambda>x y. y \<notin> sbelow par x) as"
    "\<And>c b. c \<in> A \<Longrightarrow> b \<in> insert a D \<union> set as \<Longrightarrow> c \<in> below par b \<Longrightarrow> c \<in> insert a D \<union> set as"
    using Cons.IH [of "insert a D"] ch Cons.prems(1) by auto
  have "y \<notin> sbelow par a" if y: "y \<in> set as" for y
  proof
    assume "y \<in> sbelow par a"
    then obtain c where c: "par c = Some a" "y \<in> below par c" by (auto simp: sbelow_down)
    have "y \<in> A" "y \<notin> D" using y IH(1) by auto
    have up': "c \<in> A" if "y \<in> below par c" for c
      using above_closed [of A par y] up \<open>y \<in> A\<close> that by (auto simp: above_def)
    have "(y, c) \<in> (up par)\<^sup>*" using c(2) by (simp add: below_def)
    then have "y \<in> D \<or> c \<notin> D" using \<open>y \<in> A\<close>
      by (induction rule: converse_rtrancl_induct) (use up Cons.prems(2) in \<open>auto simp: up_def\<close>)
    with up' [OF c(2)] c(1) Cons.prems(1) \<open>y \<notin> D\<close> show False by auto
  qed
  with IH Cons.prems(1) show ?case by auto
qed

text \<open>Consecutive entries of the stack, read from its top: each block is the parent of the next.\<close>

fun chain :: "(ID \<Rightarrow> ID option) \<Rightarrow> ID list \<Rightarrow> bool" where
  "chain par (a # b # as) \<longleftrightarrow> par b = Some a \<and> chain par (b # as)"
| "chain par as \<longleftrightarrow> True"

lemma chain_convex:
  assumes f: "forest par rank"
  shows "sorted_wrt (\<lambda>x y. y \<in> sbelow par x) as \<Longrightarrow>
    (\<And>x y m. x \<in> set as \<Longrightarrow> y \<in> set as \<Longrightarrow> m \<in> sbelow par x \<Longrightarrow> y \<in> sbelow par m \<Longrightarrow> m \<in> set as) \<Longrightarrow> chain par as"
proof (induction as rule: induct_list012)
  case (3 a b as)
  note irr = sbelow_irrefl [OF f]
  have ab: "b \<in> sbelow par a" and bs: "\<And>y. y \<in> set as \<Longrightarrow> y \<in> sbelow par b" using "3.prems"(1) by auto
  then obtain m where m: "par b = Some m" "m \<in> below par a" by (auto simp: sbelow_up [of b])
  have bm: "b \<in> sbelow par m" using m(1) by (rule sbelow_parent)
  have "m = a"
  proof (rule ccontr)
    assume "m \<noteq> a"
    with m(2) have "m \<in> sbelow par a" by (simp add: below_sbelow)
    with "3.prems"(2) [of a b m] bm have "m \<in> set (a # b # as)" by simp
    with \<open>m \<noteq> a\<close> bm irr [of b] bs [of m] sbelow_trans(1) [of b par m b] show False by (auto simp: below_sbelow [of b])
  qed
  moreover have "chain par (b # as)"
  proof (rule "3.IH"(2))
    show "sorted_wrt (\<lambda>x y. y \<in> sbelow par x) (b # as)" using "3.prems"(1) by simp
    fix x y m assume xy: "x \<in> set (b # as)" "y \<in> set (b # as)" "m \<in> sbelow par x" "y \<in> sbelow par m"
    then have "m \<in> set (a # b # as)" using "3.prems"(2) [of x y m] by simp
    moreover have "x \<in> sbelow par a" using xy(1) "3.prems"(1) by auto
    then have "m \<noteq> a" using xy(3) sbelow_trans(1) [of a par x a] irr [of a] by (auto simp: below_sbelow [of a])
    ultimately show "m \<in> set (b # as)" by simp
  qed
  ultimately show ?case using m(1) by simp
qed simp_all

text \<open>With at most \<open>K\<close> votes, two blocks with alpha votes below them lie on one branch.\<close>

lemma majority_linear:
  assumes P: "finite P" "\<And>v. v \<in> P \<Longrightarrow> 0 \<le> w v" and K: "sum w P < 2 * A"
    and "A \<le> tree_sum par P w p" "A \<le> tree_sum par P w q"
  shows "p \<in> below par q \<or> q \<in> below par p"
proof (rule ccontr)
  assume n: "\<not> ?thesis"
  have "(P \<inter> sbelow par p) \<inter> (P \<inter> sbelow par q) = {}"
  proof (rule ccontr)
    assume "(P \<inter> sbelow par p) \<inter> (P \<inter> sbelow par q) \<noteq> {}"
    then obtain i where "i \<in> below par p" "i \<in> below par q" by (auto simp: below_sbelow)
    with n below_linear show False by metis
  qed
  then have "tree_sum par P w p + tree_sum par P w q = sum w ((P \<inter> sbelow par p) \<union> (P \<inter> sbelow par q))"
    unfolding tree_sum_def using P(1) by (simp add: sum.union_disjoint)
  also have "\<dots> \<le> sum w P" using P by (intro sum_mono2) auto
  finally show False using assms by linarith
qed

text \<open>
  The stack \<open>pushVotes\<close> builds for a poll, from its top: a branch of the tree whose entries carry
  the votes below each child, and with the right order of the votes every block with alpha votes
  below it.
\<close>

definition stack_ok :: "bool \<Rightarrow> Topological \<Rightarrow> Bag \<Rightarrow> votes list \<Rightarrow> bool" where
  "stack_ok ex ts vs es \<longleftrightarrow>
     (let par = par_of ts; P = set (BagList vs); w = Count vs; A = Alpha (ts_params ts) in
      chain par (map v_parentID es) \<and>
      (\<forall>e\<in>set es. entry_ok par w P (v_parentID e) (v_votes e) \<and> A \<le> tree_sum par P w (v_parentID e)) \<and>
      (ex \<longrightarrow> v_parentID ` set es = {a. A \<le> tree_sum par P w a}))"

lemma topo_sorted:
  "distinct as \<Longrightarrow> sorted_wrt R as \<Longrightarrow> sorted_wrt (\<lambda>x y. x \<noteq> y \<and> R x y) as"
  by (induction as) auto

lemma big_chain:
  assumes f: "forest par rank" and P: "finite P" "\<And>v. v \<in> P \<Longrightarrow> 0 \<le> w v" and K: "sum w P < 2 * A" and A: "0 < A"
    and t: "topo par (ancestors par P) {} pops"
  shows "chain par (rev (filter (\<lambda>a. A \<le> tree_sum par P w a) pops))"
proof -
  let ?big = "\<lambda>a. A \<le> tree_sum par P w a"
  have "set pops \<subseteq> ancestors par P \<and> distinct pops \<and> sorted_wrt (\<lambda>x y. y \<notin> sbelow par x) pops \<and>
      (\<forall>c\<in>ancestors par P. \<forall>a\<in>set pops. c \<in> below par a \<longrightarrow> c \<in> set pops)"
    using topo_order [OF f _ t] ancestors_parent by auto
  then have o: "distinct pops" "sorted_wrt (\<lambda>x y. y \<notin> sbelow par x) pops"
      "\<And>c a. c \<in> ancestors par P \<Longrightarrow> a \<in> set pops \<Longrightarrow> c \<in> below par a \<Longrightarrow> c \<in> set pops" by blast+
  have "sorted_wrt (\<lambda>x y. x \<noteq> y \<and> y \<notin> sbelow par x) (filter ?big pops)"
    using o(1,2) by (intro sorted_wrt_filter topo_sorted)
  then have "sorted_wrt (\<lambda>x y. x \<in> sbelow par y) (filter ?big pops)"
  proof (rule sorted_wrt_mono_rel [rotated])
    show "x \<in> sbelow par y" if "x \<in> set (filter ?big pops)" "y \<in> set (filter ?big pops)" "x \<noteq> y \<and> y \<notin> sbelow par x" for x y
      using majority_linear [OF P K, where p = x and q = y and par = par] that by (auto simp: below_sbelow)
  qed
  then show ?thesis
  proof (intro chain_convex [OF f])
    fix x y m assume m: "x \<in> set (rev (filter ?big pops))" "y \<in> set (rev (filter ?big pops))"
      "m \<in> sbelow par x" "y \<in> sbelow par m"
    then have big: "?big m" using tree_sum_mono [of P w y par m] P
      by (auto simp: below_sbelow)
    then have "m \<in> ancestors par P" using A tree_sum_0 [of m par P w] by fastforce
    with m(1,3) o(3) [of m x] big show "m \<in> set (rev (filter ?big pops))" by (auto simp: below_sbelow)
  qed (simp add: sorted_wrt_rev)
qed

lemma collect_votes:
  assumes ok: "blocks_ok ts" and b: "bag_inv vs" and K: "Len vs \<le> K (ts_params ts)"
    and d: "ex \<Longrightarrow> deep_first (par_of ts) (BagList vs)"
  shows "\<exists>N es. bindR (calculateInDegree vs ts) (\<lambda>ts. pushVotes (Suc (length (ts_kahnNodes ts))) env ts []) =
      Inr (ks ts N [], es) \<and> stack_ok ex ts vs (rev es)"
proof -
  let ?par = "par_of ts" and ?P = "set (BagList vs)" and ?w = "Count vs" and ?al = "Alpha (ts_params ts)"
  let ?A = "ancestors ?par ?P"
  note V = Verify_None [OF blocks_okD(1) [OF ok]]
  obtain rank where f: "forest ?par rank" using blocks_okD(3) [OF ok] by blast
  have w: "0 \<le> ?w v" for v using Count_nonneg [OF b] .
  have "?w c = 0" if "c \<notin> ?P" for c
    using that map_of_eq_None_iff [of "bag_counts vs" c] by (simp add: BagList_def Count_def mget0_def)
  then have "Len vs = sum ?w ?P" using b by (intro vote_bag.len_sum) auto
  then have K2: "sum ?w ?P < 2 * ?al" using K V by linarith
  obtain N L where 1: "calculateInDegree vs ts = Inr (ks ts N L)" "counted ex ?par ?w ?P None N L"
    using calculateInDegree_spec [OF ok f b d] by blast
  have "card (?A - {}) < Suc (length N)"
    using counted_closed [OF 1(2)] card_length [of "map fst N"] by (simp add: dom_map_of_conv_image_fst less_Suc_eq_le flip: set_map)
  from pushVotes_spec [OF ok f finite_set w pushed_counted [OF 1(2)] this, of env "[]"]
  obtain N' pops es where 2: "pushVotes (Suc (length N)) env (ks ts N L) [] = Inr (ks ts N' [], es)"
      "map v_parentID es = filter (\<lambda>a. ?al \<le> tree_sum ?par ?P ?w a) pops"
      "\<forall>e\<in>set es. entry_ok ?par ?w ?P (v_parentID e) (v_votes e)" "topo ?par ?A {} pops" "ex \<longrightarrow> ?A \<subseteq> set pops"
    by auto
  have ids: "v_parentID ` set es = {a \<in> set pops. ?al \<le> tree_sum ?par ?P ?w a}"
    using arg_cong [OF 2(2), of set] by auto
  have "a \<in> ?A" if "?al \<le> tree_sum ?par ?P ?w a" for a using that V tree_sum_0 [of a ?par ?P ?w] by fastforce
  then have all: "v_parentID ` set es = {a. ?al \<le> tree_sum ?par ?P ?w a}" if ex using 2(5) ids that by auto
  have "chain ?par (map v_parentID (rev es))"
    using big_chain [OF f finite_set w K2 _ 2(4)] V by (simp add: 2(2) flip: rev_map)
  with 2(3) ids all have "stack_ok ex ts vs (rev es)" by (auto simp: stack_ok_def Let_def)
  with 1(1) 2(1) show ?thesis by auto
qed

end
