(* ===== verification/SnowmanSafety.thy ===== *)
theory SnowmanSafety
  imports SnowmanPush
begin

text \<open>
  What a poll does to the tree: the votes of the stack change snowball instances along one branch
  and may accept blocks next to the head, one after the other, each time rejecting everything
  outside the accepted block's sub-tree. No step dereferences a missing block.
\<close>

section \<open>Steps that change only nodes\<close>

definition only_blocks :: "Topological \<Rightarrow> Topological \<Rightarrow> bool" where
  "only_blocks ts ts' \<longleftrightarrow> same_shape ts ts' \<and> (\<exists>B. ts' = ts\<lparr>ts_blocks := B\<rparr>)"

lemma only_blocks_refl [simp]: "only_blocks ts ts"
  unfolding only_blocks_def by (metis same_shape_refl Topological.surjective Topological.update_convs(8))

lemma only_blocks_trans: "only_blocks a b \<Longrightarrow> only_blocks b c \<Longrightarrow> only_blocks a c"
  unfolding only_blocks_def by (auto intro: same_shape_trans)

text \<open>The preferred child of a block.\<close>

definition pref_of :: "Topological \<Rightarrow> ID \<Rightarrow> ID option" where
  "pref_of ts i = (case map_of (ts_blocks ts) i of None \<Rightarrow> None | Some n \<Rightarrow> map_option Tree_Preference (sn_sb n))"

lemma update_node_shape:
  assumes "map_of (ts_blocks ts) a = Some n" "sn_blk n' = sn_blk n" "sn_children n' = sn_children n"
  shows "only_blocks ts (ts\<lparr>ts_blocks := AList.update a n' (ts_blocks ts)\<rparr>)"
proof -
  have "a \<in> fst ` set (ts_blocks ts)" using assms(1) by (force dest: map_of_SomeD)
  with assms show ?thesis
    by (auto simp: only_blocks_def same_shape_def keys_update map_of_update)
qed

lemma update_node_ok:
  assumes ok: "blocks_ok ts" and n: "map_of (ts_blocks ts) a = Some n" "sn_blk n' = sn_blk n" "sn_children n' = sn_children n"
    and sb: "sb_ok (ts_params ts) n'"
  shows "blocks_ok (ts\<lparr>ts_blocks := AList.update a n' (ts_blocks ts)\<rparr>)"
proof (rule blocks_ok_same_shape [OF ok])
  show "same_shape ts (ts\<lparr>ts_blocks := AList.update a n' (ts_blocks ts)\<rparr>)"
    using update_node_shape [OF n] by (simp add: only_blocks_def)
  show "sb_ok (ts_params ts) m" if "map_of (ts_blocks (ts\<lparr>ts_blocks := AList.update a n' (ts_blocks ts)\<rparr>)) i = Some m" for i m
    using that sb blocks_ok_sb [OF ok] by (auto simp: map_of_update split: if_splits)
qed

lemma pref_of_update:
  "pref_of (ts\<lparr>ts_blocks := AList.update a n' (ts_blocks ts)\<rparr>) i =
     (if i = a then map_option Tree_Preference (sn_sb n') else pref_of ts i)"
  by (simp add: pref_of_def map_of_update)

lemma falter_children:
  "blocks_ok ts \<Longrightarrow> blocks_ok (fold (falter_child st nextID) cs ts) \<and> only_blocks ts (fold (falter_child st nextID) cs ts) \<and>
     pref_of (fold (falter_child st nextID) cs ts) = pref_of ts"
proof (induction cs arbitrary: ts)
  case (Cons c cs)
  let ?t = "falter_child st nextID c ts"
  have "blocks_ok ?t \<and> only_blocks ts ?t \<and> pref_of ?t = pref_of ts"
  proof (cases "\<not> st \<and> fst c = nextID \<or> map_of (ts_blocks ts) (fst c) = None")
    case True
    then have "?t = ts" by (auto simp: falter_child_def)
    with Cons.prems show ?thesis by simp
  next
    case False
    then obtain n where n: "map_of (ts_blocks ts) (fst c) = Some n" by auto
    let ?n = "n\<lparr>sn_shouldFalter := True\<rparr>"
    have t: "?t = ts\<lparr>ts_blocks := AList.update (fst c) ?n (ts_blocks ts)\<rparr>"
      using False n by (auto simp: falter_child_def)
    have "sb_ok (ts_params ts) ?n" using blocks_ok_sb [OF Cons.prems n] by (simp add: sb_ok_def split: option.splits)
    moreover have "pref_of ?t = pref_of ts" unfolding t by (rule ext) (simp add: pref_of_def map_of_update n)
    ultimately show ?thesis
      using update_node_ok [OF Cons.prems n, of ?n] update_node_shape [OF n, of ?n] unfolding t by simp
  qed
  with Cons.IH [of ?t] show ?case by (auto intro: only_blocks_trans)
qed simp

section \<open>The evolution of the state during a poll\<close>

inductive evolve :: "Env \<Rightarrow> Topological \<Rightarrow> Topological \<Rightarrow> bool" for env ts where
  ev_refl: "evolve env ts ts"
| ev_quiet: "evolve env ts t \<Longrightarrow> blocks_ok t' \<Longrightarrow> only_blocks t t' \<Longrightarrow> evolve env ts t'"
| ev_accept: "evolve env ts t \<Longrightarrow> map_of (ts_blocks t) (ts_head t) = Some n \<Longrightarrow> map_of (sn_children n) c = Some child \<Longrightarrow>
    distinct (map fst rs) \<Longrightarrow> fst ` set rs = block_ids t - {ts_head t} - below (par_of t) c \<Longrightarrow>
    \<forall>d\<in>set rs. blk_ID (snd d) = fst d \<Longrightarrow> evolve env ts (accepted_state env child rs t)"

lemma subtree_head:
  assumes "blocks_ok ts"
  shows "subtree (par_of ts) (ts_head ts) = par_of ts" "block_ids ts = below (par_of ts) (ts_head ts)"
proof -
  have "i \<in> sbelow (par_of ts) (ts_head ts)" if "par_of ts i = Some p" for i p
  proof -
    have "p \<in> below (par_of ts) (ts_head ts)" using par_of_in [OF assms that] below_head [OF assms] by blast
    with that show ?thesis by (simp add: sbelow_up [of i])
  qed
  then show "subtree (par_of ts) (ts_head ts) = par_of ts"
    by (intro ext) (metis not_None_eq subtree_def)
  show "block_ids ts = below (par_of ts) (ts_head ts)" using below_head [OF assms] by blast
qed

lemma sbelow_subtree:
  assumes "q \<in> below par r"
  shows "sbelow (subtree par r) q = sbelow par q"
proof (rule set_eqI)
  fix i
  have "subtree par r c = Some q \<longleftrightarrow> par c = Some q" for c
    using assms by (auto simp: subtree_def sbelow_up [of c])
  moreover have "below (subtree par r) c = below par c" if "par c = Some q" for c
    using below_subtree [of c par r] below_trans [OF below_parent [of par, OF that] assms] by simp
  ultimately show "i \<in> sbelow (subtree par r) q \<longleftrightarrow> i \<in> sbelow par q" by (auto simp: sbelow_down)
qed

lemma subtree_subtree:
  assumes "c \<in> below par r"
  shows "subtree (subtree par r) c = subtree par c"
  using sbelow_subtree [OF assms] assms
  by (auto simp: subtree_def fun_eq_iff intro: sbelow_trans)

lemma evolve_tree:
  assumes "evolve env ts t" and ok: "blocks_ok ts"
  shows "blocks_ok t \<and> ts_params t = ts_params ts \<and> ts_head t \<in> below (par_of ts) (ts_head ts) \<and>
    par_of t = subtree (par_of ts) (ts_head t) \<and> block_ids t = below (par_of ts) (ts_head t)"
  using assms(1)
proof induction
  case ev_refl
  then show ?case using ok subtree_head [OF ok] by simp
next
  case (ev_quiet t t')
  then have s: "same_shape t t'" by (simp add: only_blocks_def)
  with ev_quiet same_shape_par_of [OF s] same_shape_block_ids [OF s] show ?case by (auto simp: same_shape_def)
next
  case (ev_accept t n c child rs)
  then have t: "blocks_ok t" "par_of t = subtree (par_of ts) (ts_head t)" "ts_head t \<in> below (par_of ts) (ts_head ts)" by auto
  note acc = blocks_ok_accepted [OF t(1) ev_accept.hyps(2,3,5,6), of env]
  have "par_of t c = Some (ts_head t)" by (rule blocks_ok_child [OF t(1) ev_accept.hyps(2,3)])
  then have c: "c \<in> below (par_of ts) (ts_head t)"
    unfolding t(2) by (auto simp: subtree_def below_sbelow split: if_splits)
  have "c \<in> below (par_of ts) (ts_head ts)" using c t(3) by (rule below_trans)
  with acc ev_accept.IH show ?case by (simp add: t(2) subtree_subtree [OF c] below_subtree [OF c])
qed

section \<open>A vote on one block\<close>

text \<open>
  A vote on the block \<open>a\<close>, whose preferred child afterwards is \<open>pref\<close>: no other snowball instance
  changes, and only if \<open>a\<close> is the head the head may move, to \<open>pref\<close>.
\<close>

definition vote_ok :: "Env \<Rightarrow> Topological \<Rightarrow> ID \<Rightarrow> ID \<Rightarrow> Topological \<Rightarrow> bool" where
  "vote_ok env ts a pref ts' \<longleftrightarrow> a \<in> block_ids ts \<and> par_of ts pref = Some a \<and> evolve env ts ts' \<and>
     (ts_head ts' = ts_head ts \<or> ts_head ts' = pref \<and> a = ts_head ts) \<and>
     (\<forall>i\<in>block_ids ts'. pref_of ts' i = (if i = a then Some pref else pref_of ts i))"

lemma voted_node:
  assumes ok: "blocks_ok ts" and n: "map_of (ts_blocks ts) a = Some n" "sn_sb n = Some sb"
    and sb': "sb' = fst (Tree_RecordPoll vs (if sn_shouldFalter n then Tree_RecordUnsuccessfulPoll sb else sb))"
  shows "sb_ok (ts_params ts) (n\<lparr>sn_shouldFalter := False, sn_sb := Some sb'\<rparr>)" "par_of ts (Tree_Preference sb') = Some a"
proof -
  have "sb_ok (ts_params ts) n" using ok n(1) by (rule blocks_ok_sb)
  then have r: "tree_reachable (ts_params ts) (fst ` set (sn_children n)) sb" "distinct (map fst (sn_children n))"
    using n(2) by (simp_all add: sb_ok_def)
  then have r': "tree_reachable (ts_params ts) (fst ` set (sn_children n)) sb'"
    unfolding sb' by (auto intro: tree_reachable.intros)
  with r show "sb_ok (ts_params ts) (n\<lparr>sn_shouldFalter := False, sn_sb := Some sb'\<rparr>)" by (simp add: sb_ok_def)
  have "Tree_Preference sb' \<in> fst ` set (sn_children n)"
    using tree_reachable_valid(1) [OF blocks_okD(1) [OF ok] r'] by blast
  then show "par_of ts (Tree_Preference sb') = Some a" using children_par_of [OF ok n(1)] by auto
qed

lemma vote_accept:
  assumes ok: "blocks_ok ts" and env: "env_ok env" and n: "map_of (ts_blocks ts) (ts_head ts) = Some n" "sn_sb n = Some sb"
  defines "R \<equiv> bindR (acceptPreferredChild env n ts) (\<lambda>t. Inr (t\<lparr>ts_blocks := AList.delete (ts_head ts) (ts_blocks t)\<rparr>))"
  shows "(\<exists>e. R = Inl e \<and> env_error e) \<or>
    (\<exists>child rs. R = Inr (accepted_state env child rs ts) \<and> map_of (sn_children n) (Tree_Preference sb) = Some child \<and>
       distinct (map fst rs) \<and> fst ` set rs = block_ids ts - {ts_head ts} - below (par_of ts) (Tree_Preference sb) \<and>
       (\<forall>d\<in>set rs. blk_ID (snd d) = fst d))"
  using acceptPreferredChild_spec [OF ok env n]
proof (elim disjE exE conjE)
  fix child rs
  let ?p = "Tree_Preference sb"
  assume child: "map_of (sn_children n) ?p = Some child"
    and acc: "acceptPreferredChild env n ts = Inr ((reject_all env rs (accept_state env child ts))
         \<lparr>ts_blocks := filter (\<lambda>p. fst p = ts_head ts \<or> fst p \<in> below (par_of ts) ?p) (ts_blocks ts)\<rparr>)"
    and rs: "distinct (map fst rs)" "fst ` set rs = block_ids ts - {ts_head ts} - below (par_of ts) ?p"
      "\<forall>c\<in>set rs. blk_ID (snd c) = fst c"
  have c: "blk_ID child = ?p" "?p \<noteq> ts_head ts" by (rule blocks_ok_child [OF ok n(1) child], assumption)+
  have "ts_head ts \<notin> below (par_of ts) ?p"
    using below_root [of "par_of ts" "ts_head ts" ?p] c(2) by (simp add: par_of_def)
  then have "filter (\<lambda>p. (fst p = ts_head ts \<or> fst p \<in> below (par_of ts) ?p) \<and> fst p \<noteq> ts_head ts) (ts_blocks ts) =
      filter (\<lambda>p. fst p \<in> below (par_of ts) ?p) (ts_blocks ts)"
    by (intro filter_cong) auto
  then have "R = Inr (accepted_state env child rs ts)"
    unfolding R_def acc by (simp add: accepted_state_def c(1) delete_eq_filter)
  with child rs show ?thesis by blast
qed (simp add: R_def)

lemma vote_step_spec:
  fixes nextID np :: ID and on succ :: bool
  assumes ok: "blocks_ok ts" and env: "env_ok env"
    and ch: "v_parentID e \<in> block_ids ts \<Longrightarrow> \<exists>c. par_of ts c = Some (v_parentID e)"
  defines "R \<equiv> vote_step env e nextID (ts, np, on, succ)"
  shows "(\<exists>err. R = Inl err \<and> env_error err) \<or> (R = Inr None \<and> v_parentID e \<notin> block_ids ts) \<or>
    (\<exists>ts' pref succ'. R = Inr (Some (ts', if on then pref else np, on \<and> nextID = pref, succ')) \<and>
       vote_ok env ts (v_parentID e) pref ts')"
proof (cases "map_of (ts_blocks ts) (v_parentID e)")
  case None
  then have "R = Inr None" "v_parentID e \<notin> block_ids ts" by (simp_all add: R_def vote_step_def block_ids_iff)
  then show ?thesis by simp
next
  case (Some n)
  let ?a = "v_parentID e"
  have "fst ` set (sn_children n) \<noteq> {}" using ch Some children_par_of [OF ok Some] by (auto simp: block_ids_iff)
  then obtain sb where sb: "sn_sb n = Some sb" using blocks_ok_sb [OF ok Some] by (auto simp: sb_ok_def split: option.splits)
  obtain sb' succ' where sb': "Tree_RecordPoll (v_votes e) (if sn_shouldFalter n then Tree_RecordUnsuccessfulPoll sb else sb) = (sb', succ')"
    by fastforce
  let ?n = "n\<lparr>sn_shouldFalter := False, sn_sb := Some sb'\<rparr>" and ?p = "Tree_Preference sb'"
  let ?t = "ts\<lparr>ts_blocks := AList.update ?a ?n (ts_blocks ts)\<rparr>"
  have node: "sb_ok (ts_params ts) ?n" "par_of ts ?p = Some ?a"
    using voted_node [OF ok Some sb, of sb' "v_votes e"] sb' by simp_all
  have t: "blocks_ok ?t" "only_blocks ts ?t"
    using update_node_ok [OF ok Some, of ?n] update_node_shape [OF Some, of ?n] node(1) by simp_all
  have t_n: "map_of (ts_blocks ?t) ?a = Some ?n" by (simp add: map_of_update)
  have ev: "evolve env ts ?t" by (rule ev_quiet [OF ev_refl t])
  let ?fin = "\<lambda>t. fold (falter_child (sn_shouldFalter n) nextID) (env_range env (sn_children n)) t"
  let ?M = "if Tree_Finalized sb' \<and> ts_head ts = ?a then bindR (acceptPreferredChild env ?n ?t)
        (\<lambda>ts. Inr (ts\<lparr>ts_blocks := AList.delete ?a (ts_blocks ts)\<rparr>)) else Inr ?t"
  have R: "R = bindR ?M (\<lambda>t. Inr (Some (?fin t, if on then ?p else np, on \<and> nextID = ?p, succ' \<or> succ)))"
    unfolding R_def using Some sb sb' by (simp add: vote_step_def Let_def)
  have fin: "vote_ok env ts ?a ?p (?fin t)"
    if "evolve env ts t" "blocks_ok t" "ts_head t = ts_head ts \<or> ts_head t = ?p \<and> ?a = ts_head ts"
      "\<forall>i\<in>block_ids t. pref_of t i = (if i = ?a then Some ?p else pref_of ts i)" for t
  proof -
    let ?c = "env_range env (sn_children n)"
    note fc = falter_children [OF that(2), of "sn_shouldFalter n" nextID ?c]
    then have sh: "same_shape t (?fin t)" by (simp add: only_blocks_def)
    have "evolve env ts (?fin t)" using fc by (intro ev_quiet [OF that(1)]) simp_all
    with fc sh that(3,4) node(2) Some same_shape_block_ids [OF sh] show ?thesis
      by (auto simp: vote_ok_def same_shape_def block_ids_iff)
  qed
  show ?thesis
  proof (cases "Tree_Finalized sb' \<and> ts_head ts = ?a")
    case False
    have "vote_ok env ts ?a ?p (?fin ?t)" using ev t by (intro fin) (auto simp: pref_of_update)
    with False show ?thesis unfolding R by auto
  next
    case True
    then have t_h: "map_of (ts_blocks ?t) (ts_head ?t) = Some ?n" using t_n by simp
    have "sn_sb ?n = Some sb'" by simp
    from vote_accept [OF t(1) env t_h this] show ?thesis
    proof (elim disjE exE conjE)
      fix child rs
      assume acc: "bindR (acceptPreferredChild env ?n ?t) (\<lambda>t. Inr (t\<lparr>ts_blocks := AList.delete (ts_head ?t) (ts_blocks t)\<rparr>)) =
          Inr (accepted_state env child rs ?t)"
        and child: "map_of (sn_children ?n) ?p = Some child" and rs: "distinct (map fst rs)"
          "fst ` set rs = block_ids ?t - {ts_head ?t} - below (par_of ?t) ?p" "\<forall>d\<in>set rs. blk_ID (snd d) = fst d"
      let ?s = "accepted_state env child rs ?t"
      note acc' = blocks_ok_accepted [OF t(1) t_h child rs(2,3), of env]
      have "evolve env ts ?s" by (rule ev_accept [OF ev t_h child rs])
      moreover have "pref_of ?s i = (if i = ?a then Some ?p else pref_of ts i)" if i: "i \<in> block_ids ?s" for i
      proof -
        have "blk_ID child = ?p" by (rule blocks_ok_child [OF t(1) t_n child])
        with i have "pref_of ?s i = pref_of ?t i"
          by (auto simp: pref_of_def accepted_state_def map_of_filter_keys block_ids_iff split: if_splits)
        then show ?thesis by (simp add: pref_of_update)
      qed
      ultimately have "vote_ok env ts ?a ?p (?fin ?s)" using acc'(1,4) True by (intro fin) auto
      moreover have "?M = Inr ?s" using True acc by simp
      ultimately show ?thesis unfolding R by auto
    qed (use True R in \<open>auto simp: bindR_Inl\<close>)
  qed
qed

section \<open>The loop over the stack\<close>

text \<open>
  Relative to the tree \<open>par\<close> at the start of the poll: from \<open>s\<close> downwards, following the preferred
  children leads to \<open>x\<close>; and the preferences at and below \<open>x\<close> are the ones before the poll.
\<close>

definition follows :: "(ID \<Rightarrow> ID option) \<Rightarrow> ID \<Rightarrow> Topological \<Rightarrow> ID \<Rightarrow> bool" where
  "follows par s ts x \<longleftrightarrow> (\<forall>i\<in>block_ids ts. i \<in> below par s \<longrightarrow> x \<in> sbelow par i \<longrightarrow>
     (\<exists>p. pref_of ts i = Some p \<and> x \<in> below par p))"

definition untouched :: "Topological \<Rightarrow> Topological \<Rightarrow> ID \<Rightarrow> bool" where
  "untouched ts0 ts x \<longleftrightarrow> (\<forall>i\<in>below (par_of ts0) x. pref_of ts i = pref_of ts0 i)"

definition loop_inv :: "Topological \<Rightarrow> ID \<Rightarrow> Topological \<Rightarrow> ID \<Rightarrow> bool \<Rightarrow> votes list \<Rightarrow> bool" where
  "loop_inv ts0 s ts np on es \<longleftrightarrow> np \<in> block_ids ts \<and>
     (if on \<and> es \<noteq> []
      then v_parentID (hd es) \<in> block_ids ts \<and> follows (par_of ts0) s ts (v_parentID (hd es)) \<and>
        untouched ts0 ts (v_parentID (hd es))
      else follows (par_of ts0) s ts np \<and> untouched ts0 ts np \<and>
        (es \<noteq> [] \<longrightarrow> v_parentID (hd es) \<notin> below (par_of ts0) np \<and> np \<notin> below (par_of ts0) (v_parentID (hd es))))"

lemma evolve_trans: "evolve env ts0 ts \<Longrightarrow> evolve env ts ts' \<Longrightarrow> evolve env ts0 ts'"
  by (rotate_tac, induction rule: evolve.induct) (auto intro: evolve.intros)

lemma evolve_tree0:
  assumes "evolve env ts0 ts" and "blocks_ok ts0"
  shows "blocks_ok ts" and "par_of ts i = (if i \<in> sbelow (par_of ts0) (ts_head ts) then par_of ts0 i else None)"
    and "block_ids ts = below (par_of ts0) (ts_head ts)"
    and "i \<in> block_ids ts \<Longrightarrow> below (par_of ts) i = below (par_of ts0) i"
    and "i \<in> block_ids ts \<Longrightarrow> sbelow (par_of ts) i = sbelow (par_of ts0) i"
  using evolve_tree [OF assms] by (simp_all add: subtree_def below_subtree sbelow_subtree)

lemma vote_okD:
  assumes v: "vote_ok env ts a pref ts'" and ev: "evolve env ts0 ts" and ok: "blocks_ok ts0"
  shows "evolve env ts0 ts'" "par_of ts0 pref = Some a" "pref \<in> block_ids ts'"
    "i \<in> block_ids ts' \<Longrightarrow> pref_of ts' i = (if i = a then Some pref else pref_of ts i)"
    "block_ids ts' \<subseteq> block_ids ts" "a \<noteq> ts_head ts \<Longrightarrow> block_ids ts' = block_ids ts" "a \<in> block_ids ts"
proof -
  have v': "a \<in> block_ids ts" "par_of ts pref = Some a" "evolve env ts ts'"
      "ts_head ts' = ts_head ts \<or> ts_head ts' = pref \<and> a = ts_head ts"
      "\<And>i. i \<in> block_ids ts' \<Longrightarrow> pref_of ts' i = (if i = a then Some pref else pref_of ts i)"
    using v by (auto simp: vote_ok_def)
  note t = evolve_tree0 [OF ev ok] and t' = evolve_tree0 [OF v'(3) t(1)]
  show "evolve env ts0 ts'" by (rule evolve_trans [OF ev v'(3)])
  show "par_of ts0 pref = Some a" using v'(2) t(2) [of pref] by (simp split: if_splits)
  have pin: "pref \<in> block_ids ts" using dom_par_of [OF t(1)] v'(2) by blast
  have b: "block_ids ts = below (par_of ts) (ts_head ts)" by (rule subtree_head(2) [OF t(1)])
  show "pref \<in> block_ids ts'" using v'(4) pin b by (auto simp: t'(3))
  show "block_ids ts' \<subseteq> block_ids ts" using v'(4) pin below_trans [of _ "par_of ts" pref] b by (auto simp: t'(3))
  show "block_ids ts' = block_ids ts" if "a \<noteq> ts_head ts" using v'(4) that b by (auto simp: t'(3))
  show "a \<in> block_ids ts" by (rule v'(1))
  show "i \<in> block_ids ts' \<Longrightarrow> pref_of ts' i = (if i = a then Some pref else pref_of ts i)" by (rule v'(5))
qed

lemma incomparable_child:
  assumes "par c = Some a" and "a \<notin> below par x" and "x \<notin> below par a"
  shows "c \<notin> below par x \<and> x \<notin> below par c"
proof -
  have c: "c \<in> below par a" using assms(1) by (rule below_parent)
  have "x \<notin> below par c" using assms(3) below_trans [of x par c, OF _ c] by blast
  moreover have "c \<notin> below par x"
  proof
    assume "c \<in> below par x"
    then have "c = x \<or> a \<in> below par x" using assms(1) by (simp add: below_sbelow [of c] sbelow_up [of c])
    with assms c show False by blast
  qed
  ultimately show ?thesis by blast
qed

lemma loop_inv_step:
  assumes v: "vote_ok env ts (v_parentID e) pref ts'" and ev: "evolve env ts0 ts" and ok: "blocks_ok ts0"
    and inv: "loop_inv ts0 s ts np on (e # es)" and ch: "chain (par_of ts0) (v_parentID e # map v_parentID es)"
    and nid: "es \<noteq> [] \<Longrightarrow> nextID = v_parentID (hd es)"
  shows "loop_inv ts0 s ts' (if on then pref else np) (on \<and> nextID = pref) es"
proof -
  let ?par = "par_of ts0" and ?a = "v_parentID e"
  note D = vote_okD [OF v ev ok]
  obtain rank where f: "forest ?par rank" using blocks_okD(3) [OF ok] by blast
  note t' = evolve_tree0 [OF D(1) ok]
  have pa: "pref \<in> sbelow ?par ?a" by (rule sbelow_parent [of ?par, OF D(2)])
  have nx: "?par nextID = Some ?a" if "es \<noteq> []" using ch nid [OF that] that by (cases es) simp_all
  show ?thesis
  proof (cases on)
    case True
    then have inv': "follows ?par s ts ?a" "untouched ts0 ts ?a" using inv by (simp_all add: loop_inv_def)
    have "follows ?par s ts' pref"
      unfolding follows_def
    proof (intro ballI impI)
      fix i assume i: "i \<in> block_ids ts'" "i \<in> below ?par s" "pref \<in> sbelow ?par i"
      show "\<exists>p. pref_of ts' i = Some p \<and> pref \<in> below ?par p"
      proof (cases "i = ?a")
        case False
        with i(3) D(2) have "?a \<in> sbelow ?par i" by (auto simp: sbelow_up [of pref] below_sbelow [of ?a])
        then obtain p where "pref_of ts i = Some p" "?a \<in> below ?par p"
          using inv'(1) i(1,2) D(5) by (auto simp: follows_def)
        moreover have "pref \<in> below ?par ?a" using pa by (simp add: below_sbelow)
        ultimately show ?thesis using D(4) [OF i(1)] False below_trans by auto
      qed (use D(4) i(1) in auto)
    qed
    moreover have "untouched ts0 ts' pref"
      unfolding untouched_def
    proof
      fix i assume i: "i \<in> below ?par pref"
      have "i \<in> sbelow ?par ?a" using i pa by (rule sbelow_trans(1))
      then have "i \<noteq> ?a" "i \<in> below ?par ?a" using sbelow_irrefl [OF f, of i] by (auto simp: below_sbelow)
      moreover have "i \<in> block_ids ts'" using below_trans [OF i] D(3) by (auto simp: t'(3))
      ultimately show "pref_of ts' i = pref_of ts0 i" using D(4) inv'(2) by (auto simp: untouched_def)
    qed
    moreover have "v_parentID (hd es) \<notin> below ?par pref \<and> pref \<notin> below ?par (v_parentID (hd es))"
      if "es \<noteq> []" "nextID \<noteq> pref"
    proof -
      have "below ?par nextID \<inter> below ?par pref = {}" by (rule below_siblings [OF f nx [OF that(1)] D(2) that(2)])
      with nid [OF that(1)] below_refl [of nextID ?par] below_refl [of pref ?par] show ?thesis by blast
    qed
    ultimately show ?thesis
      using True D(3) nid unfolding loop_inv_def by (cases "es = []"; cases "nextID = pref") simp_all
  next
    case False
    then have inv': "np \<in> block_ids ts" "follows ?par s ts np" "untouched ts0 ts np" "?a \<notin> below ?par np" "np \<notin> below ?par ?a"
      using inv by (simp_all add: loop_inv_def)
    have "?a \<noteq> ts_head ts" using inv'(1,5) evolve_tree0(3) [OF ev ok] by auto
    note same = D(6) [OF this]
    have "follows ?par s ts' np"
      using inv'(2,5) D(4) unfolding follows_def same by (auto simp: below_sbelow)
    moreover have "untouched ts0 ts' np"
      unfolding untouched_def
    proof
      fix i assume i: "i \<in> below ?par np"
      have "i \<in> block_ids ts'" using below_trans [OF i] inv'(1) same by (auto simp: t'(3))
      with D(4) [OF this] i inv'(3,4) show "pref_of ts' i = pref_of ts0 i" by (auto simp: untouched_def)
    qed
    moreover have "v_parentID (hd es) \<notin> below ?par np \<and> np \<notin> below ?par (v_parentID (hd es))" if "es \<noteq> []"
      using incomparable_child [of ?par nextID ?a, OF nx [OF that] inv'(4,5)] nid [OF that] by simp
    ultimately show ?thesis using False inv'(1) same by (simp add: loop_inv_def)
  qed
qed

lemma vote_loop_spec:
  assumes ok: "blocks_ok ts0" and env: "env_ok env"
  shows "evolve env ts0 ts \<Longrightarrow> loop_inv ts0 s ts np on es \<Longrightarrow> chain (par_of ts0) (map v_parentID es) \<Longrightarrow>
    \<forall>e\<in>set es. \<exists>c. par_of ts0 c = Some (v_parentID e) \<Longrightarrow>
    (\<exists>err. vote_loop env es (ts, np, on, succ) = Inl err \<and> env_error err) \<or>
    (\<exists>ts' np' on' succ'. vote_loop env es (ts, np, on, succ) = Inr (ts', np', on', succ') \<and> evolve env ts0 ts' \<and>
       np' \<in> block_ids ts' \<and> follows (par_of ts0) s ts' np' \<and> untouched ts0 ts' np')"
proof (induction es arbitrary: ts np on succ)
  case Nil
  then show ?case by (auto simp: loop_inv_def)
next
  case (Cons e es)
  let ?par = "par_of ts0" and ?next = "case es of [] \<Rightarrow> 0 | w # _ \<Rightarrow> v_parentID w"
  note t = evolve_tree0 [OF Cons.prems(1) ok]
  have "\<exists>c. par_of ts c = Some (v_parentID e)" if "v_parentID e \<in> block_ids ts"
  proof -
    obtain c where c: "?par c = Some (v_parentID e)" using Cons.prems(4) by auto
    with that have "c \<in> sbelow ?par (ts_head ts)" by (auto simp: t(3) sbelow_up [of c])
    with c t(2) [of c] show ?thesis by auto
  qed
  from vote_step_spec [OF t(1) env this, of ?next np on succ]
  consider err where "vote_step env e ?next (ts, np, on, succ) = Inl err" "env_error err"
    | "vote_step env e ?next (ts, np, on, succ) = Inr None" "v_parentID e \<notin> block_ids ts"
    | ts' pref succ' where "vote_step env e ?next (ts, np, on, succ) =
          Inr (Some (ts', if on then pref else np, on \<and> ?next = pref, succ'))" "vote_ok env ts (v_parentID e) pref ts'"
    by blast
  then show ?case
  proof cases
    case 2
    then have "\<not> on" using Cons.prems(2) by (auto simp: loop_inv_def)
    with 2 Cons.prems(1,2) show ?thesis by (auto simp: loop_inv_def)
  next
    case 3
    have "loop_inv ts0 s ts' (if on then pref else np) (on \<and> ?next = pref) es"
      using Cons.prems(3) by (intro loop_inv_step [OF 3(2) Cons.prems(1) ok Cons.prems(2)]) (auto split: list.split)
    moreover have "chain ?par (map v_parentID es)" using Cons.prems(3) by (cases es) simp_all
    ultimately show ?thesis
      using Cons.IH [OF vote_okD(1) [OF 3(2) Cons.prems(1) ok], of "if on then pref else np" "on \<and> ?next = pref" succ'] 3(1) Cons.prems(4)
      by simp
  qed simp
qed

end
