(* ===== verification/SnowmanPoll.thy ===== *)
theory SnowmanPoll
  imports SnowmanSafety
begin

text \<open>
  A whole poll, the preferred branch, and the states reachable from a new instance by adding blocks
  and recording polls.
\<close>

section \<open>The preferred branch\<close>

text \<open>
  The tail is a block without children, and the preferred blocks are those on the way from the tail
  up to the head, the head excluded. In the strong form the way follows the preferences of the
  snowball instances.
\<close>

definition prefs_ok :: "Topological \<Rightarrow> bool" where
  "prefs_ok ts \<longleftrightarrow> ts_tail ts \<in> block_ids ts \<and> pref_of ts (ts_tail ts) = None \<and>
     ts_preferredIDs ts = above (par_of ts) (ts_tail ts) - {ts_head ts}"

definition on_preferences :: "Topological \<Rightarrow> bool" where
  "on_preferences ts \<longleftrightarrow> follows (par_of ts) (ts_head ts) ts (ts_tail ts)"

text \<open>Fields that the tree does not depend on.\<close>

definition same_tree :: "Topological \<Rightarrow> Topological \<Rightarrow> bool" where
  "same_tree ts ts' \<longleftrightarrow> ts_blocks ts' = ts_blocks ts \<and> ts_head ts' = ts_head ts \<and> ts_status ts' = ts_status ts \<and>
     ts_params ts' = ts_params ts"

lemma same_treeD:
  assumes "same_tree ts ts'"
  shows "blocks_ok ts' = blocks_ok ts" "par_of ts' = par_of ts" "block_ids ts' = block_ids ts" "pref_of ts' = pref_of ts"
proof -
  show "par_of ts' = par_of ts" using assms by (auto simp: same_tree_def par_of_def fun_eq_iff)
  with assms show "blocks_ok ts' = blocks_ok ts" by (simp add: same_tree_def blocks_ok_def)
qed (use assms in \<open>auto simp: same_tree_def block_ids_def pref_of_def fun_eq_iff\<close>)

lemma same_tree_updates [simp]:
  "blocks_ok (ts\<lparr>ts_tail := x\<rparr>) = blocks_ok ts" "blocks_ok (ts\<lparr>ts_preferredIDs := S\<rparr>) = blocks_ok ts"
  "blocks_ok (ts\<lparr>ts_Polls := q\<rparr>) = blocks_ok ts" "par_of (ts\<lparr>ts_tail := x\<rparr>) = par_of ts"
  "par_of (ts\<lparr>ts_preferredIDs := S\<rparr>) = par_of ts" "par_of (ts\<lparr>ts_Polls := q\<rparr>) = par_of ts"
  "block_ids (ts\<lparr>ts_tail := x\<rparr>) = block_ids ts" "block_ids (ts\<lparr>ts_preferredIDs := S\<rparr>) = block_ids ts"
  "block_ids (ts\<lparr>ts_Polls := q\<rparr>) = block_ids ts" "pref_of (ts\<lparr>ts_tail := x\<rparr>) = pref_of ts"
  "pref_of (ts\<lparr>ts_preferredIDs := S\<rparr>) = pref_of ts" "pref_of (ts\<lparr>ts_Polls := q\<rparr>) = pref_of ts"
  by (rule same_treeD, simp add: same_tree_def)+

lemma follows_updates [simp]:
  "follows par s (ts\<lparr>ts_tail := y\<rparr>) x = follows par s ts x" "follows par s (ts\<lparr>ts_preferredIDs := S\<rparr>) x = follows par s ts x"
  "follows par s (ts\<lparr>ts_Polls := q\<rparr>) x = follows par s ts x"
  by (simp_all add: follows_def)

lemma prefer_ancestors_spec:
  assumes ok: "blocks_ok ts" and f: "forest (par_of ts) rank"
  shows "map_of (ts_blocks ts) x = Some n \<Longrightarrow> card (above (par_of ts) x) \<le> fuel \<Longrightarrow>
    prefer_ancestors fuel n (ts\<lparr>ts_preferredIDs := S\<rparr>) =
      Inr (ts\<lparr>ts_preferredIDs := S \<union> (above (par_of ts) x - {ts_head ts})\<rparr>)"
proof (induction fuel arbitrary: x n S)
  case 0
  then have "finite (above (par_of ts) x)" "x \<in> above (par_of ts) x"
    using finite_above(2) [OF ok] by (auto simp: above_def block_ids_iff)
  with 0 show ?case by auto
next
  case (Suc fuel)
  show ?case
  proof (cases "x = ts_head ts")
    case True
    then have "S \<union> (above (par_of ts) x - {ts_head ts}) = S" by (auto simp: above_None par_of_def)
    then show ?thesis
      using True accepted_iff_head [OF ok Suc.prems(1)] by (simp only:) (simp add: prefer_ancestors.simps(2))
  next
    case False
    obtain b pn where b: "sn_blk n = Some b" "blk_ID b = x" "map_of (ts_blocks ts) (blk_Parent b) = Some pn"
        "par_of ts x = Some (blk_Parent b)"
      by (rule blocks_ok_block [OF ok Suc.prems(1) False])
    have pin: "blk_Parent b \<in> block_ids ts" using b(3) by (auto simp: block_ids_iff)
    have "card (above (par_of ts) (blk_Parent b)) \<le> fuel"
      using Suc.prems(2) card_above_Some [OF f b(4) finite_above(2) [OF ok pin]] by simp
    note IH = Suc.IH [OF b(3) this, of "insert x S"]
    have "insert x S \<union> (above (par_of ts) (blk_Parent b) - {ts_head ts}) = S \<union> (above (par_of ts) x - {ts_head ts})"
      using False by (auto simp: above_Some [of "par_of ts", OF b(4)])
    with IH show ?thesis
      using False b(1-3) accepted_iff_head [OF ok Suc.prems(1)] by (simp add: prefer_ancestors.simps(2))
  qed
qed

lemma prefer_descendants_spec:
  assumes ok: "blocks_ok ts" and f: "forest (par_of ts) rank"
  shows "map_of (ts_blocks ts) x = Some n \<Longrightarrow> card (below (par_of ts) x) \<le> fuel \<Longrightarrow>
    \<exists>y. prefer_descendants fuel n (ts\<lparr>ts_tail := x, ts_preferredIDs := S\<rparr>) =
      Inr (ts\<lparr>ts_tail := y, ts_preferredIDs := S \<union> (above (par_of ts) y - above (par_of ts) x)\<rparr>) \<and>
      y \<in> below (par_of ts) x \<and> pref_of ts y = None \<and> follows (par_of ts) x ts y"
proof (induction fuel arbitrary: x n S)
  case 0
  have "x \<in> block_ids ts" using 0(1) by (auto simp: block_ids_iff)
  then have "below (par_of ts) x \<subseteq> block_ids ts" using below_in_blocks [OF ok] by blast
  then have "finite (below (par_of ts) x)" by (rule finite_subset) simp
  with 0 show ?case by auto
next
  case (Suc fuel)
  let ?par = "par_of ts"
  have xin: "x \<in> block_ids ts" using Suc.prems(1) by (auto simp: block_ids_iff)
  show ?case
  proof (cases "sn_sb n")
    case None
    have "follows ?par x ts x" using sbelow_irrefl [OF f] sbelow_trans(1) by (fastforce simp: follows_def)
    with None Suc.prems(1) show ?thesis
      by (intro exI [of _ x]) (auto simp: prefer_descendants.simps(2) pref_of_def)
  next
    case (Some sb)
    let ?c = "Tree_Preference sb"
    have "tree_reachable (ts_params ts) (fst ` set (sn_children n)) sb"
      using blocks_ok_sb [OF ok Suc.prems(1)] Some by (simp add: sb_ok_def)
    then have "?c \<in> fst ` set (sn_children n)" using tree_reachable_valid(1) [OF blocks_okD(1) [OF ok]] by blast
    then have c: "?par ?c = Some x" using children_par_of [OF ok Suc.prems(1)] by auto
    then have "?c \<in> block_ids ts" using dom_par_of [OF ok] by blast
    then obtain cn where cn: "map_of (ts_blocks ts) ?c = Some cn" by (auto simp: block_ids_iff)
    have sub: "below ?par ?c \<subset> below ?par x"
      using below_trans below_parent [of ?par, OF c] below_antisym [OF f] sbelow_parent [of ?par, OF c] sbelow_irrefl [OF f]
      by (metis below_refl psubsetI subsetI)
    have "finite (below ?par x)"
      using below_in_blocks [OF ok _ xin] by (intro finite_subset [OF _ finite_block_ids [of ts]]) blast
    from psubset_card_mono [OF this sub] Suc.prems(2) have "card (below ?par ?c) \<le> fuel" by linarith
    from Suc.IH [OF cn this, of "insert ?c S"] obtain y where y:
        "prefer_descendants fuel cn (ts\<lparr>ts_tail := ?c, ts_preferredIDs := insert ?c S\<rparr>) =
          Inr (ts\<lparr>ts_tail := y, ts_preferredIDs := insert ?c S \<union> (above ?par y - above ?par ?c)\<rparr>)"
        "y \<in> below ?par ?c" "pref_of ts y = None" "follows ?par ?c ts y" by blast
    have S: "insert ?c S \<union> (above ?par y - above ?par ?c) = S \<union> (above ?par y - above ?par x)"
      using y(2) above_notin [OF f c] unfolding above_Some [of ?par, OF c] by (auto simp: above_def)
    have px: "pref_of ts x = Some ?c" using Suc.prems(1) Some by (simp add: pref_of_def)
    have "follows ?par x ts y"
      unfolding follows_def
    proof (intro ballI impI)
      fix i assume i: "i \<in> block_ids ts" "i \<in> below ?par x" "y \<in> sbelow ?par i"
      show "\<exists>p. pref_of ts i = Some p \<and> y \<in> below ?par p"
      proof (cases "i = x")
        case False
        have "y \<in> below ?par i" using i(3) by (simp add: below_sbelow)
        then have "i \<in> below ?par ?c \<or> ?c \<in> below ?par i" using y(2) below_linear by fast
        moreover have "i = ?c \<or> i = x" if "?c \<in> below ?par i"
          using that c i(2) below_antisym [OF f, of i x] by (auto simp: below_sbelow [of ?c] sbelow_up [of ?c])
        ultimately have "i \<in> below ?par ?c" using False by auto
        with y(4) i show ?thesis by (auto simp: follows_def)
      qed (use px y(2) in auto)
    qed
    moreover have "y \<in> below ?par x" using y(2) below_parent [of ?par, OF c] by (rule below_trans)
    ultimately show ?thesis using y(1,3) Some cn unfolding S
      by (intro exI [of _ y]) (simp add: prefer_descendants.simps(2))
  qed
qed

section \<open>The end of a poll\<close>

lemma evolve_prefs:
  assumes "evolve env ts t" and ok: "blocks_ok ts" and h: "ts_head ts \<notin> ts_preferredIDs ts"
  shows "ts_tail t = ts_tail ts \<and> ts_preferredIDs t = ts_preferredIDs ts - above (par_of ts) (ts_head t)"
  using assms(1)
proof induction
  case ev_refl
  have "above (par_of ts) (ts_head ts) = {ts_head ts}" by (intro above_None) (simp add: par_of_def)
  with h show ?case by simp
next
  case (ev_quiet t t')
  then show ?case by (auto simp: only_blocks_def)
next
  case (ev_accept t n c child rs)
  note t = evolve_tree0 [OF ev_accept.hyps(1) ok]
  have c: "par_of t c = Some (ts_head t)" "blk_ID child = c" by (rule blocks_ok_child [OF t(1) ev_accept.hyps(2,3)], assumption)+
  then have "par_of ts c = Some (ts_head t)" using t(2) [of c] by (simp split: if_splits)
  then have "above (par_of ts) c = insert c (above (par_of ts) (ts_head t))" by (rule above_Some)
  with ev_accept.IH c(2) show ?case by (auto simp: accepted_state_def)
qed

text \<open>The preferred branch of the old tree, seen in the tree that is left after the votes.\<close>

lemma above_evolve:
  assumes ev: "evolve env ts t" and ok: "blocks_ok ts" and x: "x \<in> block_ids t"
  shows "above (par_of t) x = above (par_of ts) x \<inter> block_ids t"
proof (rule set_eqI)
  fix a
  note t = evolve_tree0 [OF ev ok]
  have "a \<in> block_ids t" if "a \<in> above (par_of t) x" using finite_above(1) [OF t(1) x] that by blast
  with t(4) [of a] show "a \<in> above (par_of t) x \<longleftrightarrow> a \<in> above (par_of ts) x \<inter> block_ids t"
    by (auto simp: above_def)
qed

lemma prefs_ok_kept:
  assumes ev: "evolve env ts t" and ok: "blocks_ok ts" and p: "prefs_ok ts"
    and np: "np \<in> block_ids t" "untouched ts t np" "np \<in> ts_preferredIDs t"
  shows "prefs_ok t" "ts_tail t \<in> below (par_of ts) np" "ts_tail t = ts_tail ts"
proof -
  let ?par = "par_of ts" and ?x = "ts_tail ts"
  obtain rank where f: "forest ?par rank" using blocks_okD(3) [OF ok] by blast
  have pr: "ts_preferredIDs ts = above ?par ?x - {ts_head ts}" "pref_of ts ?x = None" using p by (simp_all add: prefs_ok_def)
  note t = evolve_tree0 [OF ev ok]
  have e: "ts_tail t = ?x" "ts_preferredIDs t = ts_preferredIDs ts - above ?par (ts_head t)"
    using evolve_prefs [OF ev ok] pr(1) by simp_all
  show "ts_tail t = ?x" by (rule e(1))
  have x: "?x \<in> below ?par np" using np(3) by (simp add: e(2) pr(1) above_def)
  then show "ts_tail t \<in> below ?par np" by (simp add: e(1))
  have xh: "?x \<in> below ?par (ts_head t)" using np(1) below_trans [OF x] by (simp add: t(3))
  then have xin: "?x \<in> block_ids t" by (simp add: t(3))
  have "a \<in> above ?par ?x - {ts_head ts} - above ?par (ts_head t) \<longleftrightarrow>
      a \<in> above ?par ?x \<inter> block_ids t - {ts_head t}" for a
  proof -
    have "a \<in> below ?par (ts_head t) \<or> ts_head t \<in> below ?par a" if "?x \<in> below ?par a"
      using below_linear [OF that xh] .
    moreover have "a = ts_head t" if "a \<in> below ?par (ts_head t)" "ts_head t \<in> below ?par a"
      using below_antisym [OF f that] .
    moreover have "ts_head t \<in> below ?par (ts_head ts)" using evolve_tree [OF ev ok] by blast
    ultimately show ?thesis by (auto simp: above_def t(3))
  qed
  then have "ts_preferredIDs t = above (par_of t) ?x - {ts_head t}"
    unfolding e(2) pr(1) above_evolve [OF ev ok xin] by blast
  moreover have "pref_of t ?x = None" using np(2) x pr(2) by (simp add: untouched_def)
  ultimately show "prefs_ok t" using xin by (simp add: prefs_ok_def e(1))
qed

lemma follows_trans:
  assumes f: "forest par rank" and "follows par s ts x" "follows par x ts y" "y \<in> below par x"
  shows "follows par s ts y"
  unfolding follows_def
proof (intro ballI impI)
  fix i assume i: "i \<in> block_ids ts" "i \<in> below par s" "y \<in> sbelow par i"
  then have "y \<in> below par i" by (simp add: below_sbelow)
  with assms(4) have "i \<in> below par x \<or> x \<in> below par i" using below_linear by fast
  then consider "i \<in> below par x" | "x \<in> sbelow par i" by (auto simp: below_sbelow)
  then show "\<exists>p. pref_of ts i = Some p \<and> y \<in> below par p"
  proof cases
    case 2
    with assms(2) i obtain p where "pref_of ts i = Some p" "x \<in> below par p" by (auto simp: follows_def)
    with assms(4) show ?thesis by (auto intro: below_trans)
  qed (use assms(3) i in \<open>auto simp: follows_def\<close>)
qed

lemma pref_child:
  assumes ok: "blocks_ok ts" and "pref_of ts i = Some p"
  shows "par_of ts p = Some i"
proof -
  obtain n sb where n: "map_of (ts_blocks ts) i = Some n" "sn_sb n = Some sb" "p = Tree_Preference sb"
    using assms(2) by (auto simp: pref_of_def split: option.splits)
  then have "tree_reachable (ts_params ts) (fst ` set (sn_children n)) sb"
    using blocks_ok_sb [OF ok n(1)] by (simp add: sb_ok_def)
  then have "p \<in> fst ` set (sn_children n)" using tree_reachable_valid(1) [OF blocks_okD(1) [OF ok]] n(3) by blast
  then show ?thesis using children_par_of [OF ok n(1)] by auto
qed

lemma follows_evolve:
  assumes ev: "evolve env ts t" and ok: "blocks_ok ts" and x: "x \<in> block_ids t"
    and fo: "follows (par_of ts) (ts_head ts) t x"
  shows "follows (par_of t) (ts_head t) t x"
  unfolding follows_def
proof (intro ballI impI)
  note t = evolve_tree0 [OF ev ok]
  fix i assume i: "i \<in> block_ids t" "x \<in> sbelow (par_of t) i"
  have "ts_head t \<in> below (par_of ts) (ts_head ts)" using evolve_tree [OF ev ok] by blast
  then have "i \<in> below (par_of ts) (ts_head ts)" using i(1) below_trans by (auto simp: t(3))
  then obtain p where p: "pref_of t i = Some p" "x \<in> below (par_of ts) p"
    using fo i t(5) [OF i(1)] by (auto simp: follows_def)
  have "p \<in> block_ids t" using pref_child [OF t(1) p(1)] dom_par_of [OF t(1)] by blast
  with p t(4) [of p] show "\<exists>p. pref_of t i = Some p \<and> x \<in> below (par_of t) p" by auto
qed

definition finish_poll :: "Topological \<Rightarrow> ID \<Rightarrow> ts_error + Topological" where
  "finish_poll ts preferred =
     (if preferred \<in> ts_preferredIDs ts then Inr ts
      else
        let ts = ts\<lparr>ts_preferredIDs := {}, ts_tail := preferred\<rparr> in
        (case map_of (ts_blocks ts) (ts_tail ts) of
           None \<Rightarrow> Inl NilDeref
         | Some startBlock \<Rightarrow>
             bindR (prefer_ancestors (Suc (length (ts_blocks ts))) startBlock ts)
               (\<lambda>ts. prefer_descendants (Suc (length (ts_blocks ts))) startBlock ts)))"

lemma finish_poll_new:
  assumes ok: "blocks_ok t" and np: "np \<in> block_ids t" "np \<notin> ts_preferredIDs t"
  shows "\<exists>y. finish_poll t np = Inr (t\<lparr>ts_tail := y, ts_preferredIDs := above (par_of t) y - {ts_head t}\<rparr>) \<and>
    y \<in> below (par_of t) np \<and> pref_of t y = None \<and> follows (par_of t) np t y"
proof -
  let ?par = "par_of t"
  obtain rank where f: "forest ?par rank" using blocks_okD(3) [OF ok] by blast
  obtain n where n: "map_of (ts_blocks t) np = Some n" using np(1) by (auto simp: block_ids_iff)
  let ?t = "t\<lparr>ts_tail := np\<rparr>"
  have a: "card (above ?par np) \<le> Suc (length (ts_blocks t))" using finite_above(3) [OF ok np(1)] by simp
  have "below ?par np \<subseteq> block_ids t" using below_in_blocks [OF ok _ np(1)] by blast
  then have "card (below ?par np) \<le> card (block_ids t)" by (intro card_mono) simp_all
  then have b: "card (below ?par np) \<le> Suc (length (ts_blocks t))" using card_block_ids [of t] by simp
  have "prefer_ancestors (Suc (length (ts_blocks t))) n (?t\<lparr>ts_preferredIDs := {}\<rparr>) =
      Inr (?t\<lparr>ts_preferredIDs := {} \<union> (above ?par np - {ts_head t})\<rparr>)"
    using prefer_ancestors_spec [of ?t rank np n "Suc (length (ts_blocks t))" "{}"] ok f n a by simp
  moreover obtain y where y: "prefer_descendants (Suc (length (ts_blocks t))) n (t\<lparr>ts_tail := np, ts_preferredIDs := above ?par np - {ts_head t}\<rparr>) =
      Inr (t\<lparr>ts_tail := y, ts_preferredIDs := (above ?par np - {ts_head t}) \<union> (above ?par y - above ?par np)\<rparr>)"
      "y \<in> below ?par np" "pref_of t y = None" "follows ?par np t y"
    using prefer_descendants_spec [OF ok f n b, of "above ?par np - {ts_head t}"] by blast
  moreover have "(above ?par np - {ts_head t}) \<union> (above ?par y - above ?par np) = above ?par y - {ts_head t}"
  proof -
    have "above ?par np \<subseteq> above ?par y" using y(2) below_trans by (auto simp: above_def)
    moreover have "ts_head t \<in> above ?par np" using np(1) below_head [OF ok] by (auto simp: above_def)
    ultimately show ?thesis by blast
  qed
  moreover have eq: "t\<lparr>ts_preferredIDs := {}, ts_tail := np\<rparr> = ?t\<lparr>ts_preferredIDs := {}\<rparr>" by simp
  ultimately show ?thesis
    using n np(2) by (intro exI [of _ y]) (simp add: finish_poll_def eq)
qed

lemma finish_poll_spec:
  assumes ev: "evolve env ts t" and ok: "blocks_ok ts" and p: "prefs_ok ts"
    and np: "np \<in> block_ids t" "untouched ts t np"
  shows "\<exists>y S. finish_poll (t\<lparr>ts_Polls := q\<rparr>) np = Inr (t\<lparr>ts_Polls := q, ts_tail := y, ts_preferredIDs := S\<rparr>) \<and>
    prefs_ok (t\<lparr>ts_Polls := q, ts_tail := y, ts_preferredIDs := S\<rparr>) \<and>
    (on_preferences ts \<longrightarrow> follows (par_of ts) (ts_head ts) t np \<longrightarrow>
      on_preferences (t\<lparr>ts_Polls := q, ts_tail := y, ts_preferredIDs := S\<rparr>))"
proof -
  note t = evolve_tree0 [OF ev ok]
  let ?t = "\<lambda>y S. t\<lparr>ts_Polls := q, ts_tail := y, ts_preferredIDs := S\<rparr>"
  show ?thesis
  proof (cases "np \<in> ts_preferredIDs t")
    case True
    note k = prefs_ok_kept [OF ev ok p np True]
    let ?x = "ts_tail t" and ?S = "ts_preferredIDs t"
    have "finish_poll (t\<lparr>ts_Polls := q\<rparr>) np = Inr (?t ?x ?S)" using True by (simp add: finish_poll_def)
    moreover have "prefs_ok (?t ?x ?S)" using k(1) by (simp add: prefs_ok_def)
    moreover have "on_preferences (?t ?x ?S)" if "on_preferences ts" "follows (par_of ts) (ts_head ts) t np"
    proof -
      obtain rank where f: "forest (par_of ts) rank" using blocks_okD(3) [OF ok] by blast
      have xin: "?x \<in> block_ids t" using k(1) by (simp add: prefs_ok_def)
      have "follows (par_of ts) np t ?x"
        using that(1) np(2) evolve_tree [OF ev ok] subtree_head(2) [OF ok] below_trans
        unfolding on_preferences_def follows_def untouched_def k(3) by (metis t(3))
      from follows_trans [OF f that(2) this k(2)] have "follows (par_of ts) (ts_head ts) t ?x" .
      from follows_evolve [OF ev ok xin this] show ?thesis by (simp add: on_preferences_def)
    qed
    ultimately show ?thesis by blast
  next
    case False
    obtain y where y: "finish_poll (t\<lparr>ts_Polls := q\<rparr>) np = Inr (?t y (above (par_of t) y - {ts_head t}))"
        "y \<in> below (par_of t) np" "pref_of t y = None" "follows (par_of t) np t y"
      using finish_poll_new [of "t\<lparr>ts_Polls := q\<rparr>" np] t(1) np(1) False by auto
    have "y \<in> block_ids t" by (rule below_in_blocks [OF t(1) y(2) np(1)])
    then have "prefs_ok (?t y (above (par_of t) y - {ts_head t}))" using y(3) by (simp add: prefs_ok_def)
    moreover have "on_preferences (?t y (above (par_of t) y - {ts_head t}))" if "follows (par_of ts) (ts_head ts) t np"
    proof -
      obtain rank where f: "forest (par_of t) rank" using blocks_okD(3) [OF t(1)] by blast
      from follows_trans [OF f follows_evolve [OF ev ok np(1) that] y(4,2)]
      show ?thesis by (simp add: on_preferences_def)
    qed
    ultimately show ?thesis using y(1) by blast
  qed
qed

section \<open>The whole poll\<close>

lemma chain_parent: "chain par (a # bs) \<Longrightarrow> b \<in> set bs \<Longrightarrow> par b \<noteq> None"
  by (induction bs arbitrary: a) auto

lemma stack_ok_entry:
  assumes ok: "blocks_ok ts" and "stack_ok ex ts vs es" and e: "e \<in> set es"
  shows "\<exists>c. par_of ts c = Some (v_parentID e)" "v_parentID e \<in> block_ids ts"
proof -
  have "0 < tree_sum (par_of ts) (set (BagList vs)) (Count vs) (v_parentID e)"
    using assms Verify_None(3) [OF blocks_okD(1) [OF ok]] by (fastforce simp: stack_ok_def Let_def)
  then have "set (BagList vs) \<inter> sbelow (par_of ts) (v_parentID e) \<noteq> {}" unfolding tree_sum_def by fastforce
  then obtain c where c: "par_of ts c = Some (v_parentID e)" by (auto simp: sbelow_down)
  then show "\<exists>c. par_of ts c = Some (v_parentID e)" by blast
  show "v_parentID e \<in> block_ids ts" by (rule par_of_in [OF ok c])
qed

text \<open>When no vote is lost, the stack begins at the head.\<close>

lemma stack_ok_top:
  assumes ok: "blocks_ok ts" and b: "bag_inv vs" and st: "stack_ok True ts vs (e # es)"
  shows "v_parentID e = ts_head ts"
proof -
  let ?ts = "tree_sum (par_of ts) (set (BagList vs)) (Count vs)"
  have S: "chain (par_of ts) (map v_parentID (e # es))" "v_parentID ` set (e # es) = {a. Alpha (ts_params ts) \<le> ?ts a}"
    using st by (simp_all add: stack_ok_def Let_def)
  have "v_parentID e \<in> below (par_of ts) (ts_head ts)"
    using stack_ok_entry(2) [OF ok st, of e] subtree_head(2) [OF ok] by simp
  then have "?ts (v_parentID e) \<le> ?ts (ts_head ts)" using Count_nonneg [OF b] by (intro tree_sum_mono) simp_all
  moreover have "Alpha (ts_params ts) \<le> ?ts (v_parentID e)" using S(2) by auto
  ultimately have "ts_head ts \<in> v_parentID ` set (e # es)" unfolding S(2) by simp
  moreover have "par_of ts (ts_head ts) = None" by (simp add: par_of_def)
  ultimately show ?thesis using chain_parent [of "par_of ts" "v_parentID e" "map v_parentID es" "ts_head ts"] S(1) by auto
qed

lemma ts_vote_spec:
  assumes ok: "blocks_ok ts" and env: "env_ok env" and p: "prefs_ok ts" and b: "bag_inv vs"
    and st: "stack_ok ex ts vs (rev es)"
  shows "(\<exists>err. ts_vote env es ts = Inl err \<and> env_error err) \<or>
    (\<exists>t q np. ts_vote env es ts = Inr (t\<lparr>ts_Polls := q\<rparr>, np) \<and> evolve env ts t \<and> np \<in> block_ids t \<and> untouched ts t np \<and>
       (ex \<longrightarrow> on_preferences ts \<longrightarrow> follows (par_of ts) (ts_head ts) t np))"
proof (cases "es = []")
  case True
  obtain n where n: "map_of (ts_blocks ts) (ts_head ts) = Some n" using head_in [OF ok] by (auto simp: block_ids_iff)
  let ?n = "n\<lparr>sn_shouldFalter := True\<rparr>"
  let ?t = "ts\<lparr>ts_blocks := AList.update (ts_head ts) ?n (ts_blocks ts)\<rparr>"
  have "sb_ok (ts_params ts) ?n" using blocks_ok_sb [OF ok n] by (simp add: sb_ok_def split: option.splits)
  then have t: "blocks_ok ?t" "only_blocks ts ?t"
    using update_node_ok [OF ok n, of ?n] update_node_shape [OF n, of ?n] by simp_all
  have pr: "pref_of ?t = pref_of ts" by (rule ext) (simp add: pref_of_def map_of_update n)
  have ev: "evolve env ts ?t" by (rule ev_quiet [OF ev_refl t])
  have ids: "block_ids ?t = block_ids ts" using t(2) by (simp add: only_blocks_def same_shape_block_ids)
  let ?q = "if 1 < length (ts_blocks ?t) then polls_Failed (ts_Polls ts) else ts_Polls ts"
  have "ts_vote env es ts = Inr (?t\<lparr>ts_Polls := ?q\<rparr>, ts_tail ts)"
    using True n by (simp add: ts_vote_def Let_def)
  then show ?thesis
    using p ev by (intro disjI2 exI [of _ ?t] exI [of _ ?q] exI [of _ "ts_tail ts"])
      (simp add: prefs_ok_def ids untouched_def pr on_preferences_def follows_def)
next
  case False
  then obtain e0 es' where es: "rev es = e0 # es'" by (cases "rev es") auto
  let ?par = "par_of ts" and ?s = "v_parentID e0"
  obtain rank where f: "forest ?par rank" using blocks_okD(3) [OF ok] by blast
  have s: "?s \<in> block_ids ts" using stack_ok_entry(2) [OF ok st] es by simp
  have "follows ?par ?s ts ?s"
    using sbelow_irrefl [OF f] sbelow_trans(1) by (fastforce simp: follows_def)
  then have inv: "loop_inv ts ?s ts (ts_head ts) True (rev es)"
    using s head_in [OF ok] by (simp add: loop_inv_def es untouched_def)
  have ch: "chain ?par (map v_parentID (rev es))" using st by (simp add: stack_ok_def Let_def)
  have "\<forall>e\<in>set (rev es). \<exists>c. ?par c = Some (v_parentID e)" using stack_ok_entry(1) [OF ok st] by blast
  from vote_loop_spec [OF ok env ev_refl inv ch this, of False]
  show ?thesis
  proof (elim disjE exE conjE)
    fix t np on succ
    assume l: "vote_loop env (rev es) (ts, ts_head ts, True, False) = Inr (t, np, on, succ)"
      and t: "evolve env ts t" "np \<in> block_ids t" "follows ?par ?s t np" "untouched ts t np"
    have "ts_vote env es ts = Inr (t\<lparr>ts_Polls := if succ then polls_Successful (ts_Polls t) else polls_Failed (ts_Polls t)\<rparr>, np)"
      using False l by (simp add: ts_vote_def)
    moreover have "?s = ts_head ts" if ex using stack_ok_top [OF ok b] st that es by simp
    then have "ex \<longrightarrow> on_preferences ts \<longrightarrow> follows ?par (ts_head ts) t np" using t(3) by auto
    ultimately show ?thesis using t(1,2,4) by blast
  qed (use False in \<open>auto simp: ts_vote_def\<close>)
qed

text \<open>What a poll leaves of the state before it: the tree evolves, the rest is bookkeeping.\<close>

definition poll_rel :: "Env \<Rightarrow> Topological \<Rightarrow> Topological \<Rightarrow> bool" where
  "poll_rel env ts ts' \<longleftrightarrow> (\<exists>N L t q y S.
     evolve env (ts\<lparr>ts_pollNumber := ts_pollNumber ts + 1, ts_kahnNodes := N, ts_leaves := L\<rparr>) t \<and>
     ts' = t\<lparr>ts_Polls := q, ts_tail := y, ts_preferredIDs := S\<rparr>)"

lemma same_tree_poll [simp]:
  "blocks_ok (ts\<lparr>ts_pollNumber := k, ts_kahnNodes := N, ts_leaves := L\<rparr>) = blocks_ok ts"
  "par_of (ts\<lparr>ts_pollNumber := k, ts_kahnNodes := N, ts_leaves := L\<rparr>) = par_of ts"
  "block_ids (ts\<lparr>ts_pollNumber := k, ts_kahnNodes := N, ts_leaves := L\<rparr>) = block_ids ts"
  "pref_of (ts\<lparr>ts_pollNumber := k, ts_kahnNodes := N, ts_leaves := L\<rparr>) = pref_of ts"
  "blocks_ok (ts\<lparr>ts_pollNumber := k\<rparr>) = blocks_ok ts" "par_of (ts\<lparr>ts_pollNumber := k\<rparr>) = par_of ts"
  by (rule same_treeD, simp add: same_tree_def)+

lemma Len_sum: "bag_inv vs \<Longrightarrow> Len vs = sum (Count vs) (set (BagList vs))"
proof -
  have "Count vs c = 0" if "c \<notin> set (BagList vs)" for c
    using that map_of_eq_None_iff [of "bag_counts vs" c] by (simp add: BagList_def Count_def mget0_def)
  then show "bag_inv vs \<Longrightarrow> ?thesis" by (intro vote_bag.len_sum) auto
qed

lemma ts_RecordPoll_spec:
  assumes ok: "blocks_ok ts" and env: "env_ok env" and p: "prefs_ok ts"
    and b: "bag_inv vs" "Len vs \<le> K (ts_params ts)"
  shows "(\<exists>err. ts_RecordPoll env vs ts = Inl err \<and> env_error err) \<or>
    (\<exists>ts'. ts_RecordPoll env vs ts = Inr ts' \<and> blocks_ok ts' \<and> prefs_ok ts' \<and> poll_rel env ts ts' \<and>
       (deep_first (par_of ts) (BagList vs) \<longrightarrow> on_preferences ts \<longrightarrow> on_preferences ts'))"
proof -
  let ?ts = "ts\<lparr>ts_pollNumber := ts_pollNumber ts + 1\<rparr>" and ?ex = "deep_first (par_of ts) (BagList vs)"
  let ?C = "if Len vs \<ge> Alpha (ts_params ts)
         then bindR (calculateInDegree vs ?ts) (\<lambda>ts. pushVotes (Suc (length (ts_kahnNodes ts))) env ts [])
         else Inr (?ts, [])"
  have R: "ts_RecordPoll env vs ts =
      bindR ?C (\<lambda>(ts, st). bindR (ts_vote env st ts) (\<lambda>(ts, preferred). finish_poll ts preferred))"
    by (simp add: ts_RecordPoll_def Let_def finish_poll_def)
  have "\<exists>N L es. ?C = Inr (ts\<lparr>ts_pollNumber := ts_pollNumber ts + 1, ts_kahnNodes := N, ts_leaves := L\<rparr>, es) \<and>
      stack_ok ?ex ts vs (rev es)"
  proof (cases "Alpha (ts_params ts) \<le> Len vs")
    case True
    have t: "blocks_ok ?ts" "Len vs \<le> K (ts_params ?ts)" "par_of ?ts = par_of ts" using ok b by simp_all
    from collect_votes [OF t(1) b(1) t(2), where ex = ?ex and env = env, unfolded t(3)] obtain N es
      where "bindR (calculateInDegree vs ?ts) (\<lambda>ts. pushVotes (Suc (length (ts_kahnNodes ts))) env ts []) = Inr (ks ?ts N [], es)"
        "stack_ok ?ex ?ts vs (rev es)" by blast
    with True show ?thesis by (auto simp: ks_def stack_ok_def Let_def)
  next
    case False
    have "tree_sum (par_of ts) (set (BagList vs)) (Count vs) a \<le> Len vs" for a
      unfolding Len_sum [OF b(1)] tree_sum_def using Count_nonneg [OF b(1)] by (intro sum_mono2) auto
    then have "tree_sum (par_of ts) (set (BagList vs)) (Count vs) a < Alpha (ts_params ts)" for a
      using False by (meson le_less_trans not_le)
    then have "stack_ok ?ex ts vs (rev [])" by (auto simp: stack_ok_def Let_def not_le)
    with False show ?thesis by (intro exI [of _ "ts_kahnNodes ts"] exI [of _ "ts_leaves ts"] exI [of _ "[]"]) simp
  qed
  then obtain N L es where C: "?C = Inr (ts\<lparr>ts_pollNumber := ts_pollNumber ts + 1, ts_kahnNodes := N, ts_leaves := L\<rparr>, es)"
    and st: "stack_ok ?ex ts vs (rev es)" by blast
  let ?t0 = "ts\<lparr>ts_pollNumber := ts_pollNumber ts + 1, ts_kahnNodes := N, ts_leaves := L\<rparr>"
  have t0: "blocks_ok ?t0" "prefs_ok ?t0" "stack_ok ?ex ?t0 vs (rev es)" "on_preferences ?t0 = on_preferences ts"
    using ok p st by (simp_all add: prefs_ok_def stack_ok_def on_preferences_def follows_def)
  from ts_vote_spec [OF t0(1) env t0(2) b(1) t0(3)] show ?thesis
  proof (elim disjE exE conjE)
    fix t q np
    assume v: "ts_vote env es ?t0 = Inr (t\<lparr>ts_Polls := q\<rparr>, np)"
      and t: "evolve env ?t0 t" "np \<in> block_ids t" "untouched ?t0 t np"
        "?ex \<longrightarrow> on_preferences ?t0 \<longrightarrow> follows (par_of ?t0) (ts_head ?t0) t np"
    from finish_poll_spec [OF t(1) t0(1,2) t(2,3), of q] obtain y S
      where y: "finish_poll (t\<lparr>ts_Polls := q\<rparr>) np = Inr (t\<lparr>ts_Polls := q, ts_tail := y, ts_preferredIDs := S\<rparr>)"
        "prefs_ok (t\<lparr>ts_Polls := q, ts_tail := y, ts_preferredIDs := S\<rparr>)"
        "on_preferences ?t0 \<longrightarrow> follows (par_of ?t0) (ts_head ?t0) t np \<longrightarrow>
           on_preferences (t\<lparr>ts_Polls := q, ts_tail := y, ts_preferredIDs := S\<rparr>)" by blast
    have "blocks_ok t" using evolve_tree0(1) [OF t(1) t0(1)] .
    moreover have "poll_rel env ts (t\<lparr>ts_Polls := q, ts_tail := y, ts_preferredIDs := S\<rparr>)"
      unfolding poll_rel_def using t(1) by blast
    moreover have "ts_RecordPoll env vs ts = Inr (t\<lparr>ts_Polls := q, ts_tail := y, ts_preferredIDs := S\<rparr>)"
      unfolding R C using v y(1) by simp
    ultimately show ?thesis using y(2,3) t(4) t0(4) by auto
  qed (simp add: R C)
qed

section \<open>Environments without failures\<close>

text \<open>An operation returns an error of its environment only if a call to it failed.\<close>

definition reliable :: "Env \<Rightarrow> bool" where
  "reliable env \<longleftrightarrow> (\<forall>i bytes. \<not> env_DecisionAccept env i bytes \<and> \<not> env_ConsensusAccept env i bytes \<and>
     \<not> env_Accept env i \<and> \<not> env_Reject env i)"

definition no_env_error :: "ts_error + 'a \<Rightarrow> bool" where
  "no_env_error r \<longleftrightarrow> (case r of Inl e \<Rightarrow> \<not> env_error e | Inr x \<Rightarrow> True)"

lemma no_env_error_simps [simp]: "no_env_error (Inl e) = (\<not> env_error e)" "no_env_error (Inr x)"
  by (simp_all add: no_env_error_def)

lemma no_env_error_bind: "no_env_error r \<Longrightarrow> (\<And>x. no_env_error (f x)) \<Longrightarrow> no_env_error (bindR r f)"
  by (cases r) simp_all

lemma no_env_error_foldR: "(\<And>x s. no_env_error (f x s)) \<Longrightarrow> no_env_error (foldR f xs s)"
  by (induction xs arbitrary: s) (auto intro: no_env_error_bind)

lemma no_env_error_markAncestors: "no_env_error (markAncestors fuel i ts)"
  by (induction fuel i ts rule: markAncestors.induct)
    (simp_all add: markAncestors.simps(2) Let_def split: option.split)

lemma no_env_error_pushVotes: "no_env_error (pushVotes fuel env ts vs)"
  by (induction fuel arbitrary: ts vs) (simp_all add: pushVotes.simps(2) Let_def split: option.split)

lemma no_env_error_prefer_ancestors: "no_env_error (prefer_ancestors fuel b ts)"
  by (induction fuel arbitrary: b ts) (simp_all add: prefer_ancestors.simps(2) Let_def split: option.split)

lemma no_env_error_prefer_descendants: "no_env_error (prefer_descendants fuel b ts)"
  by (induction fuel arbitrary: b ts) (simp_all add: prefer_descendants.simps(2) Let_def split: option.split)

lemma no_env_error_calculateInDegree: "no_env_error (calculateInDegree votes ts)"
  unfolding calculateInDegree_def calculateInDegree_vote_def
  by (rule no_env_error_foldR) (simp add: no_env_error_markAncestors Let_def split: option.split)

lemma no_env_error_reject_child: "reliable env \<Longrightarrow> no_env_error (reject_child env c s)"
  by (simp add: reject_child_def blk_Reject_def reliable_def)

lemma no_env_error_rejectTransitively: "reliable env \<Longrightarrow> no_env_error (rejectTransitively fuel env rs ts)"
proof (induction fuel arbitrary: rs ts)
  case (Suc fuel)
  then show ?case
    by (auto simp: rejectTransitively.simps(2) Let_def split: option.split
        intro!: no_env_error_bind no_env_error_foldR no_env_error_reject_child)
qed simp

lemma no_env_error_acceptPreferredChild: "reliable env \<Longrightarrow> no_env_error (acceptPreferredChild env n ts)"
  by (auto simp: acceptPreferredChild_def blk_Accept_def reliable_def Let_def split: option.split
      intro!: no_env_error_bind no_env_error_foldR no_env_error_reject_child no_env_error_rejectTransitively)

lemma no_env_error_vote_step: "reliable env \<Longrightarrow> no_env_error (vote_step env v nextID s)"
  by (auto simp: vote_step_def Let_def split: option.split prod.split
      intro!: no_env_error_bind no_env_error_acceptPreferredChild)

lemma no_env_error_vote_loop: "reliable env \<Longrightarrow> no_env_error (vote_loop env es s)"
  by (induction es arbitrary: s) (auto intro!: no_env_error_bind no_env_error_vote_step split: option.split)

lemma no_env_error_RecordPoll: "reliable env \<Longrightarrow> no_env_error (ts_RecordPoll env vs ts)"
  by (auto simp: ts_RecordPoll_def ts_vote_def Let_def split: option.split
      intro!: no_env_error_bind no_env_error_vote_loop no_env_error_calculateInDegree no_env_error_pushVotes
        no_env_error_prefer_ancestors no_env_error_prefer_descendants)

end
