(* ===== verification/SnowmanHistory.thy ===== *)
theory SnowmanHistory
  imports SnowmanPoll
begin

text \<open>
  The decisions of a run, the states reachable from a new instance by adding blocks and recording
  polls, and the properties of the snowman instance as a whole.
\<close>

section \<open>Adding a block keeps the preferred branch\<close>

lemma Tree_Add_Preference:
  assumes "Verify prm = None" and "tree_reachable prm A t"
  shows "Tree_Preference (Tree_Add x t) = Tree_Preference t"
proof -
  have prm: "params_ok prm" using assms(1) by (rule params_ok_Verify)
  have inv: "tree_inv prm A t" by (rule tree_inv_reachable [OF prm assms(2)])
  from Tree_Add_cases [of x t] show ?thesis
  proof (elim disjE conjE)
    assume "agree 0 (node_DecidedPrefix (tree_node t)) (node_Preference (tree_node t)) x"
      and "tree_node (Tree_Add x t) = node_Add (tree_params t) (tree_node t) x"
    with inv node_Add_ok [OF prm, of "tree_node t" x] show ?thesis by (simp add: tree_inv_def Tree_Preference_def)
  qed (simp add: Tree_Preference_def)
qed

lemma above_extend:
  assumes "par' = par(i := Some p)" and "i \<notin> dom par" "i \<notin> ran par" "i \<noteq> p" and "x \<noteq> i"
  shows "above par' x = above par x"
proof (rule set_eqI)
  fix a
  have "x \<in> below par a" if "x \<in> below par' a"
  proof -
    have "(x, a) \<in> (up par')\<^sup>*" using that by (simp add: below_def)
    then show ?thesis using assms(5)
    proof (induction rule: converse_rtrancl_induct)
      case (step y z)
      then have z: "par y = Some z" using assms(1) by (auto simp: up_def split: if_splits)
      then have "z \<noteq> i" using assms(3) by (auto simp: ran_def)
      with step z show ?case using below_trans [OF below_parent [of par, OF z]] by blast
    qed simp
  qed
  moreover have "below par a \<subseteq> below par' a"
    using assms(1,2) by (intro below_mono) auto
  ultimately show "a \<in> above par' x \<longleftrightarrow> a \<in> above par x" by (auto simp: above_def)
qed

lemma ts_Add_inserted:
  assumes ok: "blocks_ok ts" and add: "ts_Add env blk ts = Inr ts'" and p: "blk_Parent blk \<in> block_ids ts"
  shows "blk_ID blk \<notin> block_ids ts" "par_of ts' = (par_of ts)(blk_ID blk := Some (blk_Parent blk))"
    "block_ids ts' = insert (blk_ID blk) (block_ids ts)" "ts_head ts' = ts_head ts"
    "ts_tail ts' = (if ts_tail ts = blk_Parent blk then blk_ID blk else ts_tail ts)"
    "ts_preferredIDs ts' = (if ts_tail ts = blk_Parent blk then insert (blk_ID blk) (ts_preferredIDs ts) else ts_preferredIDs ts)"
    "pref_of ts' i = (if i = blk_ID blk then None else if i = blk_Parent blk \<and> pref_of ts i = None then Some (blk_ID blk) else pref_of ts i)"
    "\<not> Status_Decided (ts_status ts (blk_ID blk))" "ts_status ts' = ts_status ts" "ts_trace ts' = ts_trace ts"
    "ts_Latency ts' = l_Issued (env_now env (blk_ID blk)) (blk_ID blk) (ts_pollNumber ts) (ts_Latency ts)"
    "ts_params ts' = ts_params ts"
proof -
  obtain pn n L where inserted: "\<not> ts_Decided ts blk" "\<not> ts_Processing ts (blk_ID blk)"
      "map_of (ts_blocks ts) (blk_Parent blk) = Some pn"
      "L = l_Issued (env_now env (blk_ID blk)) (blk_ID blk) (ts_pollNumber ts) (ts_Latency ts)"
      "n = \<lparr>sn_blk = Some blk, sn_shouldFalter = False, sn_sb = None, sn_children = []\<rparr>"
      "ts' = ts\<lparr>ts_Latency := L,
                ts_blocks := AList.update (blk_ID blk) n
                  (AList.update (blk_Parent blk) (AddChild (ts_params ts) blk pn) (ts_blocks ts)),
                ts_tail := (if ts_tail ts = blk_Parent blk then blk_ID blk else ts_tail ts),
                ts_preferredIDs := (if ts_tail ts = blk_Parent blk then insert (blk_ID blk) (ts_preferredIDs ts)
                                    else ts_preferredIDs ts)\<rparr>"
    by (rule ts_Add_cases [OF add]) (use p in blast)+
  let ?i = "blk_ID blk" and ?p = "blk_Parent blk" and ?pn = "AddChild (ts_params ts) blk pn"
  have undec: "\<not> Status_Decided (ts_status ts ?i)" using inserted(1) by (simp add: ts_Decided_def split: if_splits)
  have new: "?i \<notin> block_ids ts" and inh: "?i \<noteq> ts_head ts"
    using inserted(1,2) blocks_okD(4) [OF ok]
    by (auto simp: ts_Decided_def ts_Processing_def block_ids_iff split: if_splits)
  have pi: "?p \<noteq> ?i" using new p by auto
  have look: "map_of (ts_blocks ts') i = (if i = ?i then Some n else if i = ?p then Some ?pn else map_of (ts_blocks ts) i)" for i
    by (simp add: inserted(6) map_of_update)
  have "ts_head ts' = ts_head ts" by (simp add: inserted(6))
  then have par: "par_of ts' = (par_of ts)(?i := Some ?p)"
    using inserted(3,5) inh by (auto simp: par_of_def look fun_eq_iff)
  have ids: "block_ids ts' = insert ?i (block_ids ts)" using inserted(3) by (auto simp: block_ids_iff look split: if_splits)
  show "pref_of ts' i = (if i = ?i then None else if i = ?p \<and> pref_of ts i = None then Some ?i else pref_of ts i)"
  proof (cases "sn_sb pn")
    case None
    with inserted(3,5) show ?thesis
      by (simp add: pref_of_def look AddChild_def Let_def Tree_Initialize_def Tree_Preference_def)
  next
    case (Some sb)
    then have "tree_reachable (ts_params ts) (fst ` set (sn_children pn)) sb"
      using blocks_ok_sb [OF ok inserted(3)] by (simp add: sb_ok_def)
    from Tree_Add_Preference [OF blocks_okD(1) [OF ok] this] Some inserted(3,5) show ?thesis
      by (simp add: pref_of_def look AddChild_def Let_def)
  qed
  show "?i \<notin> block_ids ts" "par_of ts' = (par_of ts)(?i := Some ?p)" "block_ids ts' = insert ?i (block_ids ts)"
    "\<not> Status_Decided (ts_status ts ?i)" by (fact new par ids undec)+
  show "ts_head ts' = ts_head ts" "ts_tail ts' = (if ts_tail ts = ?p then ?i else ts_tail ts)"
    "ts_preferredIDs ts' = (if ts_tail ts = ?p then insert ?i (ts_preferredIDs ts) else ts_preferredIDs ts)"
    "ts_status ts' = ts_status ts" "ts_trace ts' = ts_trace ts" "ts_params ts' = ts_params ts"
    "ts_Latency ts' = l_Issued (env_now env ?i) ?i (ts_pollNumber ts) (ts_Latency ts)"
    by (simp_all add: inserted(4,6))
qed

lemma ts_Add_rejected:
  assumes ok: "blocks_ok ts" and add: "ts_Add env blk ts = Inr ts'" and p: "blk_Parent blk \<notin> block_ids ts"
  shows "same_tree (ts\<lparr>ts_status := (ts_status ts)(blk_ID blk := Rejected)\<rparr>) ts'"
    "ts_tail ts' = ts_tail ts" "ts_preferredIDs ts' = ts_preferredIDs ts" "ts_trace ts' = ts_trace ts @ [EvReject blk]"
    "ts_Latency ts' = l_Rejected (env_now env (blk_ID blk)) (blk_ID blk) (ts_pollNumber ts)
         (l_Issued (env_now env (blk_ID blk)) (blk_ID blk) (ts_pollNumber ts) (ts_Latency ts))"
    "\<not> Status_Decided (ts_status ts (blk_ID blk))" "blk_ID blk \<notin> block_ids ts" "par_of ts' = par_of ts"
    "block_ids ts' = block_ids ts" "pref_of ts' = pref_of ts"
proof -
  obtain L where rejected: "\<not> ts_Decided ts blk" "\<not> ts_Processing ts (blk_ID blk)" "blk_Parent blk \<notin> block_ids ts"
      "L = l_Rejected (env_now env (blk_ID blk)) (blk_ID blk) (ts_pollNumber ts)
         (l_Issued (env_now env (blk_ID blk)) (blk_ID blk) (ts_pollNumber ts) (ts_Latency ts))"
      "ts' = ts\<lparr>ts_Latency := L, ts_status := (ts_status ts)(blk_ID blk := Rejected),
                ts_trace := ts_trace ts @ [EvReject blk]\<rparr>"
    by (rule ts_Add_cases [OF add]) (use p in \<open>auto simp: block_ids_iff\<close>)
  have undec: "\<not> Status_Decided (ts_status ts (blk_ID blk))" using rejected(1) by (simp add: ts_Decided_def split: if_splits)
  have new: "blk_ID blk \<notin> block_ids ts"
    using rejected(1,2) blocks_okD(4) [OF ok] by (auto simp: ts_Decided_def ts_Processing_def block_ids_iff split: if_splits)
  show "par_of ts' = par_of ts" "block_ids ts' = block_ids ts" "pref_of ts' = pref_of ts"
    by (auto simp: rejected(5) par_of_def block_ids_def pref_of_def fun_eq_iff)
  show "\<not> Status_Decided (ts_status ts (blk_ID blk))" "blk_ID blk \<notin> block_ids ts" by (fact undec new)+
  show "same_tree (ts\<lparr>ts_status := (ts_status ts)(blk_ID blk := Rejected)\<rparr>) ts'"
    "ts_tail ts' = ts_tail ts" "ts_preferredIDs ts' = ts_preferredIDs ts" "ts_trace ts' = ts_trace ts @ [EvReject blk]"
    "ts_Latency ts' = l_Rejected (env_now env (blk_ID blk)) (blk_ID blk) (ts_pollNumber ts)
         (l_Issued (env_now env (blk_ID blk)) (blk_ID blk) (ts_pollNumber ts) (ts_Latency ts))"
    by (simp_all add: rejected(4,5) same_tree_def)
qed

lemma on_preferences_iff:
  assumes ok: "blocks_ok ts" and x: "ts_tail ts \<in> block_ids ts"
  shows "on_preferences ts \<longleftrightarrow>
    (\<forall>i\<in>above (par_of ts) (ts_tail ts) - {ts_tail ts}. \<exists>p\<in>above (par_of ts) (ts_tail ts). pref_of ts i = Some p)"
proof -
  obtain rank where f: "forest (par_of ts) rank" using blocks_okD(3) [OF ok] by blast
  have "i \<in> block_ids ts \<and> i \<in> below (par_of ts) (ts_head ts) \<and> ts_tail ts \<in> sbelow (par_of ts) i \<longleftrightarrow>
      i \<in> above (par_of ts) (ts_tail ts) - {ts_tail ts}" for i
    using finite_above(1) [OF ok x] subtree_head(2) [OF ok] sbelow_irrefl [OF f, of "ts_tail ts"]
    by (auto simp: above_def below_sbelow [of "ts_tail ts"])
  then show ?thesis unfolding on_preferences_def follows_def above_def [of _ "ts_tail ts"] by blast
qed

lemma prefs_ok_Add:
  assumes ok: "blocks_ok ts" and add: "ts_Add env blk ts = Inr ts'" and p: "prefs_ok ts"
  shows "prefs_ok ts'" and "on_preferences ts \<Longrightarrow> on_preferences ts'"
proof -
  let ?i = "blk_ID blk" and ?p = "blk_Parent blk" and ?x = "ts_tail ts"
  have x: "?x \<in> block_ids ts" "pref_of ts ?x = None" "ts_preferredIDs ts = above (par_of ts) ?x - {ts_head ts}"
    using p by (simp_all add: prefs_ok_def)
  have "prefs_ok ts' \<and> (on_preferences ts \<longrightarrow> on_preferences ts')"
  proof (cases "?p \<in> block_ids ts")
    case False
    note A = ts_Add_rejected [OF ok add False]
    have "ts_head ts' = ts_head ts" using A(1) by (simp add: same_tree_def)
    with A x show ?thesis by (simp add: prefs_ok_def on_preferences_def follows_def)
  next
    case True
    note A = ts_Add_inserted [OF ok add True]
    have ok': "blocks_ok ts'" by (rule blocks_ok_Add [OF ok add])
    have dom: "?i \<notin> dom (par_of ts)" using dom_par_of [OF ok] A(1) by blast
    have ran: "?i \<notin> ran (par_of ts)" using par_of_in [OF ok] A(1) by (auto simp: ran_def)
    have ip: "?i \<noteq> ?p" using A(1) True by auto
    have ih: "?i \<noteq> ts_head ts" using A(1) head_in [OF ok] by auto
    have ab: "above (par_of ts') y = above (par_of ts) y" if "y \<noteq> ?i" for y
      by (rule above_extend [OF A(2) dom ran ip that])
    have abi: "above (par_of ts') ?i = insert ?i (above (par_of ts) ?p)"
      using above_Some [of "par_of ts'" ?i ?p] A(2) ab [of ?p] ip by simp
    have xi: "?x \<noteq> ?i" using x(1) A(1) by auto
    have "prefs_ok ts'"
      using x A(3-7) ih ip ab [OF xi] abi xi by (auto simp: prefs_ok_def)
    moreover have "on_preferences ts'" if on: "on_preferences ts"
    proof -
      note O = on [unfolded on_preferences_iff [OF ok x(1)], rule_format]
      have x': "ts_tail ts' \<in> block_ids ts'" using x(1) by (simp add: A(3,5))
      have abx: "above (par_of ts) ?x \<subseteq> block_ids ts" by (rule finite_above(1) [OF ok x(1)])
      have xx: "?x \<in> above (par_of ts) ?x" by (simp add: above_def)
      show ?thesis
      proof (cases "?x = ?p")
        case True
        have "\<exists>q\<in>insert ?i (above (par_of ts) ?p). pref_of ts' j = Some q" if "j \<in> above (par_of ts) ?p" for j
          using O [of j] that True x(2) A(1) abx by (cases "j = ?p") (auto simp: A(7))
        then show ?thesis unfolding on_preferences_iff [OF ok' x'] using True by (auto simp: A(5) abi)
      next
        case False
        have "\<exists>q\<in>above (par_of ts) ?x. pref_of ts' j = Some q" if "j \<in> above (par_of ts) ?x - {?x}" for j
          using O [of j] that A(1) abx by (auto simp: A(7))
        then show ?thesis unfolding on_preferences_iff [OF ok' x'] using False by (simp add: A(5) ab [OF xi])
      qed
    qed
    ultimately show ?thesis by blast
  qed
  then show "prefs_ok ts'" "on_preferences ts \<Longrightarrow> on_preferences ts'" by blast+
qed

section \<open>The history of decisions\<close>

fun accepted_blocks :: "event list \<Rightarrow> Block list" where
  "accepted_blocks [] = []"
| "accepted_blocks (e # es) = (case e of EvAccept b \<Rightarrow> b # accepted_blocks es | _ \<Rightarrow> accepted_blocks es)"

fun rejected_blocks :: "event list \<Rightarrow> Block list" where
  "rejected_blocks [] = []"
| "rejected_blocks (e # es) = (case e of EvReject b \<Rightarrow> b # rejected_blocks es | _ \<Rightarrow> rejected_blocks es)"

text \<open>The last block of a sequence in which each block extends the one before it.\<close>

fun tip :: "ID \<Rightarrow> Block list \<Rightarrow> ID option" where
  "tip r [] = Some r"
| "tip r (b # bs) = (if blk_Parent b = r then tip (blk_ID b) bs else None)"

text \<open>The acceptors are told of a block immediately before it is accepted, with its own bytes.\<close>

fun notified :: "event list \<Rightarrow> bool" where
  "notified [] \<longleftrightarrow> True"
| "notified (EvReject b # es) \<longleftrightarrow> notified es"
| "notified (EvDecisionAccept i bs # EvConsensusAccept j cs # EvAccept b # es) \<longleftrightarrow>
     i = blk_ID b \<and> j = blk_ID b \<and> bs = blk_Bytes b \<and> cs = blk_Bytes b \<and> notified es"
| "notified _ \<longleftrightarrow> False"

lemma accepted_blocks_append [simp]: "accepted_blocks (xs @ ys) = accepted_blocks xs @ accepted_blocks ys"
  by (induction xs) (auto split: event.split)

lemma rejected_blocks_append [simp]: "rejected_blocks (xs @ ys) = rejected_blocks xs @ rejected_blocks ys"
  by (induction xs) (auto split: event.split)

lemma blocks_of_rejects [simp]:
  "accepted_blocks (map (EvReject \<circ> snd) rs) = []" "rejected_blocks (map (EvReject \<circ> snd) rs) = map snd rs"
  by (induction rs) auto

lemma tip_append: "tip r (xs @ ys) = (case tip r xs of None \<Rightarrow> None | Some q \<Rightarrow> tip q ys)"
  by (induction xs arbitrary: r) auto

lemma notified_append: "notified xs \<Longrightarrow> notified ys \<Longrightarrow> notified (xs @ ys)"
  by (induction xs rule: notified.induct) auto

lemma notified_rejects [simp]: "notified (map (EvReject \<circ> snd) rs)"
  by (induction rs) auto

definition history_ok :: "ID \<Rightarrow> Topological \<Rightarrow> bool" where
  "history_ok root ts \<longleftrightarrow>
     (let acc = accepted_blocks (ts_trace ts); rej = rejected_blocks (ts_trace ts) in
      tip root acc = Some (ts_head ts) \<and> notified (ts_trace ts) \<and>
      distinct (root # map blk_ID (acc @ rej)) \<and>
      (\<forall>i\<in>insert root (blk_ID ` set acc). ts_status ts i = Accepted) \<and>
      (\<forall>i\<in>blk_ID ` set rej. ts_status ts i = Rejected))"

text \<open>Further decisions on undecided blocks: one block on top of the head is accepted, others rejected.\<close>

lemma distinct_extend:
  "distinct (r # xs @ ys) \<Longrightarrow> distinct (bs @ cs) \<Longrightarrow> set (bs @ cs) \<inter> insert r (set (xs @ ys)) = {} \<Longrightarrow>
   distinct (r # (xs @ bs) @ (ys @ cs))"
  by auto

lemma history_ok_decide:
  assumes h: "history_ok root ts"
    and acc: "accepted_blocks ev = bs" "tip (ts_head ts) bs = Some (ts_head ts')" and rej: "rejected_blocks ev = rs"
    and ev: "ts_trace ts' = ts_trace ts @ ev" "notified ev"
    and d: "distinct (map blk_ID (bs @ rs))" "\<And>b. b \<in> set (bs @ rs) \<Longrightarrow> \<not> Status_Decided (ts_status ts (blk_ID b))"
    and st: "\<And>b. b \<in> set bs \<Longrightarrow> ts_status ts' (blk_ID b) = Accepted" "\<And>b. b \<in> set rs \<Longrightarrow> ts_status ts' (blk_ID b) = Rejected"
      "\<And>i. Status_Decided (ts_status ts i) \<Longrightarrow> ts_status ts' i = ts_status ts i"
  shows "history_ok root ts'"
proof -
  let ?A = "accepted_blocks (ts_trace ts)" and ?R = "rejected_blocks (ts_trace ts)"
  have H: "tip root ?A = Some (ts_head ts)" "notified (ts_trace ts)" "distinct (root # map blk_ID (?A @ ?R))"
    "\<forall>i\<in>insert root (blk_ID ` set ?A). ts_status ts i = Accepted" "\<forall>i\<in>blk_ID ` set ?R. ts_status ts i = Rejected"
    using h by (simp_all add: history_ok_def Let_def)
  have dec: "Status_Decided (ts_status ts i)" if "i \<in> insert root (blk_ID ` set (?A @ ?R))" for i
    using that H(4,5) by auto
  then have "blk_ID ` set (bs @ rs) \<inter> insert root (blk_ID ` set (?A @ ?R)) = {}" using d(2) by blast
  then have "distinct (root # map blk_ID ((?A @ bs) @ (?R @ rs)))"
    using distinct_extend [of root "map blk_ID ?A" "map blk_ID ?R" "map blk_ID bs" "map blk_ID rs"] H(3) d(1)
    by (simp add: image_Un)
  moreover have "\<forall>i\<in>insert root (blk_ID ` set (?A @ bs)). ts_status ts' i = Accepted"
    "\<forall>i\<in>blk_ID ` set (?R @ rs). ts_status ts' i = Rejected"
    using H(4,5) st dec by auto
  moreover have "accepted_blocks (ts_trace ts') = ?A @ bs" "rejected_blocks (ts_trace ts') = ?R @ rs"
    using acc(1) rej ev(1) by simp_all
  moreover have "tip root (?A @ bs) = Some (ts_head ts')" using H(1) acc(2) by (simp add: tip_append)
  moreover have "notified (ts_trace ts')" using H(2) ev notified_append by simp
  ultimately show ?thesis unfolding history_ok_def Let_def by (simp only: simp_thms)
qed

lemma history_evolve:
  assumes "evolve env ts t" and ok: "blocks_ok ts" and h: "history_ok root ts"
  shows "history_ok root t"
  using assms(1)
proof induction
  case (ev_quiet t t')
  then have "ts_trace t' = ts_trace t" "ts_status t' = ts_status t" "ts_head t' = ts_head t" by (auto simp: only_blocks_def)
  with ev_quiet.IH show ?case by (simp add: history_ok_def)
next
  case (ev_accept t n c child rs)
  have t: "blocks_ok t" by (rule evolve_tree0(1) [OF ev_accept.hyps(1) ok])
  have c: "c \<noteq> ts_head t" "blk_Parent child = ts_head t" "blk_ID child = c" "par_of t c = Some (ts_head t)"
    by (rule blocks_ok_child [OF t ev_accept.hyps(2,3)], assumption)+
  have undec: "\<not> Status_Decided (ts_status t i)" if "i \<in> block_ids t - {ts_head t}" for i
    using that blocks_ok_block [OF t] by (auto simp: block_ids_iff)
  have cin: "c \<in> block_ids t - {ts_head t}" using c(4) dom_par_of [OF t] by blast
  have ids: "map blk_ID (map snd rs) = map fst rs" using ev_accept.hyps(6) by auto
  have rs: "blk_ID b \<in> block_ids t - {ts_head t} - below (par_of t) c" if "b \<in> set (map snd rs)" for b
    using that ev_accept.hyps(5,6) by force
  show ?case
  proof (rule history_ok_decide [OF ev_accept.IH, where bs = "[child]" and rs = "map snd rs"
        and ev = "[EvDecisionAccept c (blk_Bytes child), EvConsensusAccept c (blk_Bytes child), EvAccept child] @ map (EvReject \<circ> snd) rs"])
    have "c \<notin> fst ` set rs" using ev_accept.hyps(5) by auto
    then show "distinct (map blk_ID ([child] @ map snd rs))"
      using ev_accept.hyps(4) by (simp only: map_append list.map c(3) ids append.simps distinct.simps set_map) simp
    show "\<not> Status_Decided (ts_status t (blk_ID b))" if "b \<in> set ([child] @ map snd rs)" for b
      using that rs [of b] undec cin c(3) by auto
    show "ts_status (accepted_state env child rs t) (blk_ID b) = Rejected" if "b \<in> set (map snd rs)" for b
    proof -
      have "blk_ID b \<in> blk_ID ` set (map snd rs)" using that by simp
      then show ?thesis by (simp add: accepted_state_def image_comp)
    qed
    show "ts_status (accepted_state env child rs t) (blk_ID b) = Accepted" if "b \<in> set [child]" for b
    proof -
      have "c \<notin> blk_ID ` set (map snd rs)" using rs below_refl [of c "par_of t"] by blast
      then show ?thesis using that c(3) by (simp add: accepted_state_def image_comp)
    qed
    show "ts_status (accepted_state env child rs t) i = ts_status t i" if "Status_Decided (ts_status t i)" for i
    proof -
      have "i \<noteq> c" using that undec cin by blast
      moreover have "i \<notin> blk_ID ` set (map snd rs)" using that undec rs by blast
      ultimately show ?thesis by (simp add: accepted_state_def c(3) image_comp)
    qed
  qed (simp_all add: accepted_state_def c)
qed (rule h)

section \<open>Reachable states\<close>

definition latency_ok :: "Topological \<Rightarrow> bool" where
  "latency_ok ts \<longleftrightarrow> latency_inv (ts_Latency ts) \<and> processing_ids (ts_Latency ts) = block_ids ts - {ts_head ts}"

lemma latency_evolve:
  assumes "evolve env ts t" and ok: "blocks_ok ts" and h: "latency_ok ts"
  shows "latency_ok t"
  using assms(1)
proof induction
  case (ev_quiet t t')
  then have "ts_Latency t' = ts_Latency t" "ts_head t' = ts_head t" by (auto simp: only_blocks_def)
  moreover have "block_ids t' = block_ids t"
    using ev_quiet.hyps(3) by (intro same_shape_block_ids) (simp add: only_blocks_def)
  ultimately show ?case using ev_quiet.IH by (simp add: latency_ok_def)
next
  case (ev_accept t n c child rs)
  have t: "blocks_ok t" by (rule evolve_tree0(1) [OF ev_accept.hyps(1) ok])
  have c: "blk_ID child = c" "c \<noteq> ts_head t" "par_of t c = Some (ts_head t)"
    by (rule blocks_ok_child [OF t ev_accept.hyps(2,3)], assumption)+
  note acc = blocks_ok_accepted [OF t ev_accept.hyps(2,3,5,6), of env]
  have hb: "ts_head t \<notin> below (par_of t) c"
    using below_root [of "par_of t" "ts_head t" c] c(2) by (simp add: par_of_def)
  have sub: "below (par_of t) c \<subseteq> block_ids t"
    using below_in_blocks [OF t] dom_par_of [OF t] c(3) by blast
  have l: "latency_inv (ts_Latency t)" "processing_ids (ts_Latency t) = block_ids t - {ts_head t}"
    using ev_accept.IH by (simp_all add: latency_ok_def)
  have "latency_inv (ts_Latency (accept_state env child t))"
    "processing_ids (ts_Latency (accept_state env child t)) = block_ids t - {ts_head t} - {c}"
    using l l_decided_ok [OF l(1)] by (simp_all add: c(1))
  with reject_all_latency [of "accept_state env child t" env rs]
  have "latency_inv (ts_Latency (accepted_state env child rs t)) \<and>
      processing_ids (ts_Latency (accepted_state env child rs t)) = block_ids t - {ts_head t} - {c} - fst ` set rs"
    by (simp add: accepted_state_def)
  moreover have "block_ids t - {ts_head t} - {c} - fst ` set rs = below (par_of t) c - {c}"
    unfolding ev_accept.hyps(5) using hb sub by blast
  ultimately show ?case unfolding latency_ok_def acc(3,4) by simp
qed (rule h)

inductive ts_reachable :: "ID \<Rightarrow> Topological \<Rightarrow> bool" for root where
  ts_init: "ts_Initialize status params root height = Inr ts \<Longrightarrow> status root = Accepted \<Longrightarrow> ts_reachable root ts"
| ts_add: "ts_reachable root ts \<Longrightarrow> ts_Add env blk ts = Inr ts' \<Longrightarrow> ts_reachable root ts'"
| ts_poll: "ts_reachable root ts \<Longrightarrow> env_ok env \<Longrightarrow> bag_inv vs \<Longrightarrow> Len vs \<le> K (ts_params ts) \<Longrightarrow>
    ts_RecordPoll env vs ts = Inr ts' \<Longrightarrow> ts_reachable root ts'"

lemma history_Add:
  assumes ok: "blocks_ok ts" and add: "ts_Add env blk ts = Inr ts'" and h: "history_ok root ts" "latency_ok ts"
  shows "history_ok root ts'" "latency_ok ts'"
proof -
  let ?i = "blk_ID blk"
  have l: "latency_inv (ts_Latency ts)" "processing_ids (ts_Latency ts) = block_ids ts - {ts_head ts}"
    using h(2) by (simp_all add: latency_ok_def)
  have "history_ok root ts' \<and> latency_ok ts'"
  proof (cases "blk_Parent blk \<in> block_ids ts")
    case True
    note A = ts_Add_inserted [OF ok add True]
    have ih: "?i \<noteq> ts_head ts" using A(1) head_in [OF ok] by auto
    have "history_ok root ts'" using h(1) by (simp add: history_ok_def A(4,9,10))
    moreover have "latency_ok ts'"
      using l_Issued_ok [OF l(1), of ?i] l(2) A(1) ih by (auto simp: latency_ok_def A(3,4,11))
    ultimately show ?thesis by blast
  next
    case False
    note A = ts_Add_rejected [OF ok add False]
    have st: "ts_status ts' = (ts_status ts)(?i := Rejected)" "ts_head ts' = ts_head ts"
      using A(1) by (simp_all add: same_tree_def)
    have "history_ok root ts'"
      by (rule history_ok_decide [OF h(1), where bs = "[]" and rs = "[blk]" and ev = "[EvReject blk]"])
        (use A(4,6) st in auto)
    moreover have "latency_ok ts'"
    proof -
      have i: "?i \<notin> processing_ids (ts_Latency ts)" using A(7) l(2) by simp
      note L = l_Issued_ok [OF l(1) i]
      note R = l_decided_ok(3,4) [OF L(1)]
      show ?thesis using A(7,9) st(2) i by (simp add: latency_ok_def A(5) R L l(2))
    qed
    ultimately show ?thesis by blast
  qed
  then show "history_ok root ts'" "latency_ok ts'" by blast+
qed

lemma history_Poll:
  assumes ok: "blocks_ok ts" and r: "poll_rel env ts ts'" and h: "history_ok root ts" "latency_ok ts"
  shows "history_ok root ts'" "latency_ok ts'"
proof -
  obtain N L t q y S where ev: "evolve env (ts\<lparr>ts_pollNumber := ts_pollNumber ts + 1, ts_kahnNodes := N, ts_leaves := L\<rparr>) t"
    and ts': "ts' = t\<lparr>ts_Polls := q, ts_tail := y, ts_preferredIDs := S\<rparr>"
    using r by (auto simp: poll_rel_def)
  let ?t = "ts\<lparr>ts_pollNumber := ts_pollNumber ts + 1, ts_kahnNodes := N, ts_leaves := L\<rparr>"
  have t0: "blocks_ok ?t" "history_ok root ?t" "latency_ok ?t"
    using ok h by (simp_all add: history_ok_def latency_ok_def)
  show "history_ok root ts'" using history_evolve [OF ev t0(1,2)] by (simp add: ts' history_ok_def)
  show "latency_ok ts'" using latency_evolve [OF ev t0(1,3)] by (simp add: ts' latency_ok_def)
qed

lemma ts_reachable_inv:
  "ts_reachable root ts \<Longrightarrow> blocks_ok ts \<and> prefs_ok ts \<and> history_ok root ts \<and> latency_ok ts"
proof (induction rule: ts_reachable.induct)
  case (ts_init status params height ts)
  note I = blocks_ok_Initialize [OF ts_init]
  have "prefs_ok ts" using I by (auto simp: prefs_ok_def block_ids_def pref_of_def above_None par_of_def)
  moreover have "history_ok root ts" "latency_ok ts"
    using I ts_init(2) by (simp_all add: history_ok_def latency_ok_def block_ids_def)
  ultimately show ?case using I(1) by blast
next
  case (ts_add ts env blk ts')
  then show ?case using blocks_ok_Add prefs_ok_Add(1) history_Add by blast
next
  case (ts_poll ts env vs ts')
  then have inv: "blocks_ok ts" "prefs_ok ts" "history_ok root ts" "latency_ok ts" by auto
  from ts_RecordPoll_spec [OF inv(1) ts_poll.hyps(2) inv(2) ts_poll.hyps(3,4)] ts_poll.hyps(5)
  have "blocks_ok ts'" "prefs_ok ts'" "poll_rel env ts ts'" by auto
  with history_Poll [OF inv(1) _ inv(3,4)] show ?case by blast
qed

end
