(* ===== verification/SnowmanProperties.thy ===== *)
theory SnowmanProperties
  imports SnowmanHistory
begin

text \<open>
  The properties of the snowman instance, and the poll whose outcome depends on the order in which
  the votes are listed.
\<close>

section \<open>What a poll decides\<close>

lemma prune_sets:
  assumes "Bc \<subseteq> Bh" "Ac = insert c Ah" "Ah \<inter> Bh = {h}" "Bh \<subseteq> I" "c \<in> Bc"
  shows "(I - Bh - Ah) \<union> (Bh - {h} - Bc) = I - Bc - Ac"
  using assms by blast

lemma evolve_decisions:
  assumes "evolve env ts t" and ok: "blocks_ok ts"
  shows "\<exists>ev. ts_trace t = ts_trace ts @ ev \<and> tip (ts_head ts) (accepted_blocks ev) = Some (ts_head t) \<and>
    blk_ID ` set (rejected_blocks ev) = block_ids ts - below (par_of ts) (ts_head t) - above (par_of ts) (ts_head t)"
  using assms(1)
proof induction
  case ev_refl
  have "block_ids ts = below (par_of ts) (ts_head ts)" by (rule subtree_head(2) [OF ok])
  then show ?case by auto
next
  case (ev_quiet t t')
  then have "ts_trace t' = ts_trace t" "ts_head t' = ts_head t" by (auto simp: only_blocks_def)
  with ev_quiet.IH show ?case by simp
next
  case (ev_accept t n c child rs)
  let ?par = "par_of ts" and ?h = "ts_head t"
  note t = evolve_tree0 [OF ev_accept.hyps(1) ok]
  have c: "blk_Parent child = ?h" "blk_ID child = c" "par_of t c = Some ?h"
    by (rule blocks_ok_child [OF t(1) ev_accept.hyps(2,3)], assumption)+
  then have pc: "?par c = Some ?h" using t(2) [of c] by (simp split: if_splits)
  have cin: "c \<in> block_ids t" using dom_par_of [OF t(1)] c(3) by blast
  obtain rank where f: "forest ?par rank" using blocks_okD(3) [OF ok] by blast
  obtain ev where ev: "ts_trace t = ts_trace ts @ ev" "tip (ts_head ts) (accepted_blocks ev) = Some ?h"
      "blk_ID ` set (rejected_blocks ev) = block_ids ts - below ?par ?h - above ?par ?h" using ev_accept.IH by blast
  let ?new = "[EvDecisionAccept c (blk_Bytes child), EvConsensusAccept c (blk_Bytes child), EvAccept child] @ map (EvReject \<circ> snd) rs"
  have "ts_trace (accepted_state env child rs t) = ts_trace ts @ (ev @ ?new)" "ts_head (accepted_state env child rs t) = c"
    using ev(1) by (simp_all add: accepted_state_def c)
  moreover have "tip (ts_head ts) (accepted_blocks (ev @ ?new)) = Some c" using ev(2) by (simp add: tip_append c)
  moreover have "blk_ID ` set (rejected_blocks (ev @ ?new)) = block_ids ts - below ?par c - above ?par c"
  proof -
    have "blk_ID ` set (map snd rs) = fst ` set rs" unfolding set_map image_image using ev_accept.hyps(6) by (intro image_cong) auto
    also have "\<dots> = below ?par ?h - {?h} - below ?par c" unfolding ev_accept.hyps(5) t(3) [symmetric] t(4) [OF cin] ..
    finally have X: "blk_ID ` set (map snd rs) = below ?par ?h - {?h} - below ?par c" .
    have rb: "rejected_blocks (ev @ ?new) = rejected_blocks ev @ map snd rs" by simp
    show ?thesis
      unfolding rb set_append image_Un ev(3) X
    proof (rule prune_sets [where c = c])
      have "c \<in> below ?par ?h" by (rule below_parent [of ?par, OF pc])
      then show "below ?par c \<subseteq> below ?par ?h" by (auto intro: below_trans)
      show "above ?par c = insert c (above ?par ?h)" by (rule above_Some [of ?par, OF pc])
      have "x = ?h" if "x \<in> above ?par ?h" "x \<in> below ?par ?h" for x
        using below_antisym [OF f that(2)] that(1) by (simp add: above_def)
      moreover have "?h \<in> above ?par ?h" by (simp add: above_def)
      ultimately show "above ?par ?h \<inter> below ?par ?h = {?h}" by auto
      have "?h \<in> below ?par (ts_head ts)" using evolve_tree [OF ev_accept.hyps(1) ok] by simp
      then show "below ?par ?h \<subseteq> block_ids ts" unfolding subtree_head(2) [OF ok] by (auto intro: below_trans)
    qed simp
  qed
  ultimately show ?case by (intro exI [of _ "ev @ ?new"]) simp
qed

lemma poll_rel_tree:
  assumes ok: "blocks_ok ts" and r: "poll_rel env ts ts'"
  shows "block_ids ts' = below (par_of ts) (ts_head ts') \<and>
    (\<exists>ev. ts_trace ts' = ts_trace ts @ ev \<and> tip (ts_head ts) (accepted_blocks ev) = Some (ts_head ts') \<and>
      blk_ID ` set (rejected_blocks ev) = block_ids ts - below (par_of ts) (ts_head ts') - above (par_of ts) (ts_head ts'))"
proof -
  obtain N L t q y S where ev: "evolve env (ts\<lparr>ts_pollNumber := ts_pollNumber ts + 1, ts_kahnNodes := N, ts_leaves := L\<rparr>) t"
    and ts': "ts' = t\<lparr>ts_Polls := q, ts_tail := y, ts_preferredIDs := S\<rparr>"
    using r by (auto simp: poll_rel_def)
  have "blocks_ok (ts\<lparr>ts_pollNumber := ts_pollNumber ts + 1, ts_kahnNodes := N, ts_leaves := L\<rparr>)" using ok by simp
  from evolve_tree0(3) [OF ev this] evolve_decisions [OF ev this] show ?thesis by (simp add: ts')
qed

section \<open>An example run\<close>

definition example_env :: Env where
  "example_env = \<lparr>env_now = (\<lambda>_. 0), env_DecisionAccept = (\<lambda>_ _. False), env_ConsensusAccept = (\<lambda>_ _. False),
     env_Accept = (\<lambda>_. False), env_Reject = (\<lambda>_. False), env_pop = (\<lambda>_. 0), env_range = (\<lambda>xs. xs)\<rparr>"

definition example_status :: "ID \<Rightarrow> Status" where
  "example_status i = (if i = 10 then Accepted else Processing)"

definition example_run :: "(ID \<times> ID) list \<Rightarrow> ts_error + Topological" where
  "example_run bs = bindR (ts_Initialize example_status example_params 10 0)
     (foldR (\<lambda>(i, p). ts_Add example_env \<lparr>blk_ID = i, blk_Parent = p, blk_Height = 1, blk_Bytes = [1]\<rparr>) bs)"

lemma example_env_ok [simp]: "env_ok example_env"
  by (simp add: env_ok_def example_env_def)

lemma example_run_reachable:
  assumes "example_run bs = Inr ts"
  shows "ts_reachable 10 ts"
proof -
  have "foldR (\<lambda>(i, p). ts_Add example_env \<lparr>blk_ID = i, blk_Parent = p, blk_Height = 1, blk_Bytes = [1]\<rparr>) bs t = Inr ts \<Longrightarrow>
      ts_reachable 10 t \<Longrightarrow> ts_reachable 10 ts" for t
    by (induction bs arbitrary: t) (auto simp: bindR_Inr intro: ts_add)
  moreover obtain t where t: "ts_Initialize example_status example_params 10 0 = Inr t"
      "foldR (\<lambda>(i, p). ts_Add example_env \<lparr>blk_ID = i, blk_Parent = p, blk_Height = 1, blk_Bytes = [1]\<rparr>) bs t = Inr ts"
    using assms by (auto simp: example_run_def bindR_Inr)
  moreover have "ts_reachable 10 t" by (rule ts_init [OF t(1)]) (simp add: example_status_def)
  ultimately show ?thesis by blast
qed

lemma example_projr: "\<not> isl (example_run bs) \<Longrightarrow> ts_reachable 10 (projr (example_run bs))"
  by (rule example_run_reachable [of bs]) (simp add: sum.expand)

lemma example_poll:
  assumes "ts_reachable 10 ts" "bag_inv vs" "Len vs \<le> K (ts_params ts)" "\<not> isl (ts_RecordPoll example_env vs ts)"
  shows "ts_reachable 10 (projr (ts_RecordPoll example_env vs ts))"
  by (rule ts_poll [OF assms(1) example_env_ok assms(2,3)]) (simp add: assms(4) sum.expand)

section \<open>Properties\<close>

text \<open>
  C1. On every state reached from a new instance, an operation fails only with an error of its
  environment: a poll of at most \<open>K\<close> votes never dereferences a missing block or snowball instance
  and all its loops end, so its only errors are those returned by the acceptors and by the blocks'
  \<open>Accept\<close> and \<open>Reject\<close>; \<open>Add\<close> fails only on a duplicate or when rejecting an orphan fails. When they
  succeed, the invariants of the tree hold again.
\<close>

theorem snowman_no_panic:
  assumes "ts_reachable root ts" and "env_ok env" and "bag_inv vs" and "Len vs \<le> K (ts_params ts)"
  shows "(case ts_RecordPoll env vs ts of Inl e \<Rightarrow> env_error e | Inr ts' \<Rightarrow> blocks_ok ts') \<and>
    (case ts_Add env blk ts of
        Inl e \<Rightarrow> (if ts_Decided ts blk \<or> ts_Processing ts (blk_ID blk) then e = ErrDuplicateAdd
                 else (\<exists>ts'. e = ErrBlockReject blk ts') \<and> env_Reject env (blk_ID blk))
      | Inr ts' \<Rightarrow> blocks_ok ts')"
proof (rule conjI)
  have inv: "blocks_ok ts" "prefs_ok ts" using ts_reachable_inv [OF assms(1)] by auto
  from ts_RecordPoll_spec [OF inv(1) assms(2) inv(2) assms(3,4)]
  show "case ts_RecordPoll env vs ts of Inl e \<Rightarrow> env_error e | Inr ts' \<Rightarrow> blocks_ok ts'" by auto
  show "case ts_Add env blk ts of
        Inl e \<Rightarrow> (if ts_Decided ts blk \<or> ts_Processing ts (blk_ID blk) then e = ErrDuplicateAdd
                 else (\<exists>ts'. e = ErrBlockReject blk ts') \<and> env_Reject env (blk_ID blk))
      | Inr ts' \<Rightarrow> blocks_ok ts'"
  proof (cases "ts_Add env blk ts")
    case (Inl e)
    then show ?thesis by (auto simp: ts_Add_def Let_def blk_Reject_def split: if_splits option.splits)
  qed (use blocks_ok_Add [OF inv(1)] in auto)
qed

theorem snowman_no_panic_witness:
  "case ts_RecordPoll example_env (AddCount emptyBag 11 2) (projr (example_run [(11, 10), (12, 11)])) of
     Inl e \<Rightarrow> False | Inr ts' \<Rightarrow> ts_head ts' = 11 \<and> blocks_ok ts'"
proof -
  let ?ts = "projr (example_run [(11, 10), (12, 11)])" and ?vs = "AddCount emptyBag 11 2"
  have r: "ts_reachable 10 ?ts" by (rule example_projr) code_simp
  have e: "\<not> isl (ts_RecordPoll example_env ?vs ?ts)" "ts_head (projr (ts_RecordPoll example_env ?vs ?ts)) = 11"
    "Len ?vs \<le> K (ts_params ?ts)" by code_simp+
  have b: "bag_inv ?vs" by (simp add: bag_inv_AddCount)
  from snowman_no_panic [OF r example_env_ok b e(3)] e(1,2) show ?thesis
    by (auto split: sum.splits)
qed

text \<open>
  C2. Decisions: in every reachable state the accepted blocks, in the order of their acceptance, form
  a chain that starts at the initial last accepted block and ends at the current one; no block is
  decided twice or both ways; and the blocks' statuses are the ones decided.
\<close>

theorem snowman_decisions:
  assumes "ts_reachable root ts"
  shows "let acc = accepted_blocks (ts_trace ts); rej = rejected_blocks (ts_trace ts) in
    tip root acc = Some (ts_head ts) \<and> distinct (root # map blk_ID (acc @ rej)) \<and>
    (\<forall>b\<in>set acc. ts_status ts (blk_ID b) = Accepted) \<and> (\<forall>b\<in>set rej. ts_status ts (blk_ID b) = Rejected)"
  using ts_reachable_inv [OF assms] by (simp add: history_ok_def Let_def)

theorem snowman_decisions_witness:
  "let ts = projr (ts_RecordPoll example_env (AddCount emptyBag 12 2)
         (projr (example_run [(11, 10), (30, 99), (12, 11)]))) in
   map blk_ID (accepted_blocks (ts_trace ts)) = [11, 12] \<and> map blk_ID (rejected_blocks (ts_trace ts)) = [30] \<and>
   tip 10 (accepted_blocks (ts_trace ts)) = Some (ts_head ts)"
proof -
  let ?vs = "AddCount emptyBag 12 2" and ?t0 = "projr (example_run [(11, 10), (30, 99), (12, 11)])"
  let ?t1 = "projr (ts_RecordPoll example_env ?vs ?t0)"
  have b: "bag_inv ?vs" by (simp add: bag_inv_AddCount)
  have r0: "ts_reachable 10 ?t0" by (rule example_projr) code_simp
  have r1: "ts_reachable 10 ?t1" by (rule example_poll [OF r0 b]) code_simp+
  have "map blk_ID (accepted_blocks (ts_trace ?t1)) = [11, 12]" "map blk_ID (rejected_blocks (ts_trace ?t1)) = [30]"
    by code_simp+
  with snowman_decisions [OF r1] show ?thesis by (simp add: Let_def)
qed

text \<open>
  C21. Order of notifications: whenever a block is accepted, the decision acceptor and then the
  consensus acceptor have been told its identifier and bytes immediately before, and neither is told
  of a block that is not then accepted.
\<close>

theorem snowman_notifies:
  assumes "ts_reachable root ts"
  shows "notified (ts_trace ts)"
  using ts_reachable_inv [OF assms] by (simp add: history_ok_def Let_def)

theorem snowman_notifies_witness:
  "let ts = projr (ts_RecordPoll example_env (AddCount emptyBag 11 2) (projr (example_run [(11, 10)]))) in
   length (ts_trace ts) = 3 \<and> notified (ts_trace ts)"
proof -
  let ?vs = "AddCount emptyBag 11 2" and ?t0 = "projr (example_run [(11, 10)])"
  have b: "bag_inv ?vs" by (simp add: bag_inv_AddCount)
  have r0: "ts_reachable 10 ?t0" by (rule example_projr) code_simp
  have r1: "ts_reachable 10 (projr (ts_RecordPoll example_env ?vs ?t0))" by (rule example_poll [OF r0 b]) code_simp+
  have "length (ts_trace (projr (ts_RecordPoll example_env ?vs ?t0))) = 3" by code_simp
  with snowman_notifies [OF r1] show ?thesis by (simp add: Let_def)
qed

text \<open>
  C5. Pruning: after a successful poll of a reachable instance, exactly the blocks at or below the new
  last accepted block are left; the newly accepted blocks are the path from the old to the new last
  accepted block; and the newly rejected blocks are all those that are neither above nor below it.
\<close>

theorem snowman_poll_prunes:
  assumes "ts_reachable root ts" "env_ok env" "bag_inv vs" "Len vs \<le> K (ts_params ts)"
    and "ts_RecordPoll env vs ts = Inr ts'"
  shows "block_ids ts' = below (par_of ts) (ts_head ts') \<and>
    (\<exists>ev. ts_trace ts' = ts_trace ts @ ev \<and> tip (ts_head ts) (accepted_blocks ev) = Some (ts_head ts') \<and>
      blk_ID ` set (rejected_blocks ev) = block_ids ts - below (par_of ts) (ts_head ts') - above (par_of ts) (ts_head ts'))"
proof -
  have inv: "blocks_ok ts" "prefs_ok ts" using ts_reachable_inv [OF assms(1)] by auto
  from ts_RecordPoll_spec [OF inv(1) assms(2) inv(2) assms(3,4)] assms(5) have "poll_rel env ts ts'" by auto
  then show ?thesis by (rule poll_rel_tree [OF inv(1)])
qed

theorem snowman_poll_prunes_witness:
  "let ts = projr (example_run [(11, 10), (12, 11)]); ts' = projr (ts_RecordPoll example_env (AddCount emptyBag 11 2) ts) in
   ts_head ts' = 11 \<and> block_ids ts' = below (par_of ts) 11"
proof -
  let ?vs = "AddCount emptyBag 11 2" and ?t0 = "projr (example_run [(11, 10), (12, 11)])"
  let ?t1 = "projr (ts_RecordPoll example_env ?vs ?t0)"
  have b: "bag_inv ?vs" by (simp add: bag_inv_AddCount)
  have r0: "ts_reachable 10 ?t0" by (rule example_projr) code_simp
  have e: "\<not> isl (ts_RecordPoll example_env ?vs ?t0)" "Len ?vs \<le> K (ts_params ?t0)" "ts_head ?t1 = 11" by code_simp+
  have "ts_RecordPoll example_env ?vs ?t0 = Inr ?t1" using e(1) by (simp add: sum.expand)
  from snowman_poll_prunes [OF r0 example_env_ok b e(2) this] e(3) show ?thesis by (simp add: Let_def)
qed

text \<open>
  C19. The preferred branch: in every reachable state the preference is a block of the tree without
  children, and a block of the tree is preferred exactly when the preference is that block or one
  of its descendants.
\<close>

theorem snowman_preferred_branch:
  assumes "ts_reachable root ts"
  shows "ts_Preference ts \<in> block_ids ts \<and> (\<forall>c. par_of ts c \<noteq> Some (ts_Preference ts)) \<and>
    (\<forall>blk. blk_ID blk \<in> block_ids ts \<longrightarrow> IsPreferred ts blk = (ts_Preference ts \<in> below (par_of ts) (blk_ID blk)))"
proof (intro conjI allI impI)
  have inv: "blocks_ok ts" "prefs_ok ts" using ts_reachable_inv [OF assms] by auto
  let ?x = "ts_tail ts"
  have p: "?x \<in> block_ids ts" "pref_of ts ?x = None" "ts_preferredIDs ts = above (par_of ts) ?x - {ts_head ts}"
    using inv(2) by (simp_all add: prefs_ok_def)
  show "ts_Preference ts \<in> block_ids ts" using p(1) by (simp add: ts_Preference_def)
  obtain n where n: "map_of (ts_blocks ts) ?x = Some n" using p(1) by (auto simp: block_ids_iff)
  then have "sn_sb n = None" using p(2) by (simp add: pref_of_def)
  then have "sn_children n = []" using blocks_ok_sb [OF inv(1) n] by (simp add: sb_ok_def)
  then show "par_of ts c \<noteq> Some (ts_Preference ts)" for c
    using children_par_of [OF inv(1) n] by (auto simp: ts_Preference_def)
  fix blk :: Block assume b: "blk_ID blk \<in> block_ids ts"
  show "IsPreferred ts blk = (ts_Preference ts \<in> below (par_of ts) (blk_ID blk))"
  proof (cases "blk_ID blk = ts_head ts")
    case True
    with below_head [OF inv(1)] p(1) blocks_okD(4) [OF inv(1)] show ?thesis
      by (auto simp: IsPreferred_def ts_Preference_def)
  next
    case False
    obtain m where "map_of (ts_blocks ts) (blk_ID blk) = Some m" using b by (auto simp: block_ids_iff)
    then have "\<not> Status_Decided (ts_status ts (blk_ID blk))" using False by (rule blocks_ok_block [OF inv(1)])
    then have "ts_status ts (blk_ID blk) \<noteq> Accepted" by auto
    with False show ?thesis by (simp add: IsPreferred_def ts_Preference_def p(3) above_def)
  qed
qed

theorem snowman_preferred_branch_witness:
  "let ts = projr (example_run [(11, 10), (21, 10), (12, 11)]) in ts_Preference ts = 12 \<and> 12 \<in> block_ids ts"
proof -
  let ?t0 = "projr (example_run [(11, 10), (21, 10), (12, 11)])"
  have r0: "ts_reachable 10 ?t0" by (rule example_projr) code_simp
  have "ts_Preference ?t0 = 12" by code_simp
  with snowman_preferred_branch [OF r0] show ?thesis by (simp add: Let_def)
qed

text \<open>States reached with polls whose votes are all counted.\<close>

inductive ts_reachable_deep :: "ID \<Rightarrow> Topological \<Rightarrow> bool" for root where
  td_init: "ts_Initialize status params root height = Inr ts \<Longrightarrow> status root = Accepted \<Longrightarrow> ts_reachable_deep root ts"
| td_add: "ts_reachable_deep root ts \<Longrightarrow> ts_Add env blk ts = Inr ts' \<Longrightarrow> ts_reachable_deep root ts'"
| td_poll: "ts_reachable_deep root ts \<Longrightarrow> env_ok env \<Longrightarrow> bag_inv vs \<Longrightarrow> Len vs \<le> K (ts_params ts) \<Longrightarrow>
    deep_first (par_of ts) (BagList vs) \<Longrightarrow> ts_RecordPoll env vs ts = Inr ts' \<Longrightarrow> ts_reachable_deep root ts'"

lemma ts_reachable_deep_inv: "ts_reachable_deep root ts \<Longrightarrow> ts_reachable root ts \<and> on_preferences ts"
proof (induction rule: ts_reachable_deep.induct)
  case (td_init status params height ts)
  note I = blocks_ok_Initialize [OF td_init]
  have "\<not> root \<in> sbelow (par_of ts) i" for i using I(3) by (simp add: sbelow_up par_of_def)
  with I ts_reachable.ts_init [OF td_init] show ?case by (simp add: on_preferences_def follows_def)
next
  case (td_add ts env blk ts')
  then have r: "ts_reachable root ts" "on_preferences ts" by auto
  have "blocks_ok ts" "prefs_ok ts" using ts_reachable_inv [OF r(1)] by auto
  with td_add.hyps(2) r prefs_ok_Add(2) ts_reachable.ts_add show ?case by blast
next
  case (td_poll ts env vs ts')
  then have r: "ts_reachable root ts" "on_preferences ts" by auto
  have inv: "blocks_ok ts" "prefs_ok ts" using ts_reachable_inv [OF r(1)] by auto
  from ts_RecordPoll_spec [OF inv(1) td_poll.hyps(2) inv(2) td_poll.hyps(3,4)] td_poll.hyps(5,6) r(2)
  have "on_preferences ts'" by auto
  moreover have "ts_reachable root ts'" by (rule ts_reachable.ts_poll [OF r(1) td_poll.hyps(2,3,4,6)])
  ultimately show ?case by blast
qed

text \<open>
  C20. When every poll lists its votes so that a vote is never preceded by a vote for a block on a
  shorter branch above its parent, the preference is the block reached from the last accepted block
  by following the snowball preferences: at every proper ancestor of the preference, the preferred
  child is on the way to the preference.
\<close>

theorem snowman_preference_follows:
  assumes "ts_reachable_deep root ts" and "ts_Preference ts \<in> sbelow (par_of ts) i"
  shows "\<exists>n sb. map_of (ts_blocks ts) i = Some n \<and> sn_sb n = Some sb \<and>
    ts_Preference ts \<in> below (par_of ts) (Tree_Preference sb)"
proof -
  have r: "ts_reachable root ts" "on_preferences ts" using ts_reachable_deep_inv [OF assms(1)] by auto
  have ok: "blocks_ok ts" using ts_reachable_inv [OF r(1)] by auto
  have i: "i \<in> block_ids ts" using assms(2) par_of_in [OF ok] by (auto simp: sbelow_down)
  then have "i \<in> below (par_of ts) (ts_head ts)" using subtree_head(2) [OF ok] by simp
  with r(2) i assms(2) obtain p where "pref_of ts i = Some p" "ts_Preference ts \<in> below (par_of ts) p"
    by (auto simp: on_preferences_def follows_def ts_Preference_def)
  then show ?thesis by (auto simp: pref_of_def split: option.splits)
qed

theorem snowman_preference_follows_witness:
  "let ts = projr (ts_RecordPoll example_env (AddCount emptyBag 21 2) (projr (example_run [(11, 10), (21, 10)]))) in
   ts_Preference ts = 21 \<and> (\<exists>n sb. map_of (ts_blocks ts) 10 = Some n \<and> sn_sb n = Some sb \<and>
     ts_Preference ts \<in> below (par_of ts) (Tree_Preference sb))"
proof -
  let ?vs = "AddCount emptyBag 21 2" and ?t0 = "projr (example_run [(11, 10), (21, 10)])"
  let ?t1 = "projr (ts_RecordPoll example_env ?vs ?t0)"
  have b: "bag_inv ?vs" by (simp add: bag_inv_AddCount)
  obtain t where t: "ts_Initialize example_status example_params 10 0 = Inr t" by (auto simp: ts_Initialize_def example_params_def Verify_def)
  have "ts_reachable_deep 10 t" by (rule td_init [OF t]) (simp add: example_status_def)
  moreover have "foldR (\<lambda>(i, p). ts_Add example_env \<lparr>blk_ID = i, blk_Parent = p, blk_Height = 1, blk_Bytes = [1]\<rparr>)
      [(11, 10), (21, 10)] t = Inr ?t0"
  proof -
    have "\<not> isl (example_run [(11, 10), (21, 10)])" by code_simp
    then have "example_run [(11, 10), (21, 10)] = Inr ?t0" by (simp add: sum.expand)
    then show ?thesis by (simp add: example_run_def t)
  qed
  ultimately have r0: "ts_reachable_deep 10 ?t0" by (auto simp: bindR_Inr intro: td_add)
  have e: "\<not> isl (ts_RecordPoll example_env ?vs ?t0)" "Len ?vs \<le> K (ts_params ?t0)" "BagList ?vs = [21]"
    "ts_Preference ?t1 = 21" "par_of ?t1 21 = Some 10" by code_simp+
  have "ts_reachable_deep 10 ?t1"
    by (rule td_poll [OF r0 example_env_ok b e(2)]) (simp_all add: e(1,3) sum.expand deep_first_def)
  from snowman_preference_follows [OF this, of 10] e(4) sbelow_parent [of "par_of ?t1", OF e(5)]
  show ?thesis by (simp add: Let_def)
qed

text \<open>
  C6. Vote propagation: for a poll of at most \<open>K\<close> votes on a reachable instance, whatever the order
  of the votes and the leaves, the stack of votes is a branch of the tree, each entry holds alpha
  votes or more, and it counts for every child of its block exactly the votes for that child and
  its descendants. When the votes are listed deepest first (\<open>deep_first\<close>), the entries are all the
  blocks with alpha votes for their descendants.
\<close>

theorem poll_collects_votes:
  assumes "ts_reachable root ts" "bag_inv vs" "Len vs \<le> K (ts_params ts)"
  shows "\<exists>ts' es. bindR (calculateInDegree vs ts) (\<lambda>ts. pushVotes (Suc (length (ts_kahnNodes ts))) env ts []) = Inr (ts', es) \<and>
    chain (par_of ts) (map v_parentID (rev es)) \<and>
    (\<forall>e\<in>set es. Alpha (ts_params ts) \<le> Len (v_votes e) \<and>
      (\<forall>c. Count (v_votes e) c =
        (if par_of ts c = Some (v_parentID e) then sum (Count vs) (set (BagList vs) \<inter> below (par_of ts) c) else 0))) \<and>
    (deep_first (par_of ts) (BagList vs) \<longrightarrow>
      v_parentID ` set es = {a. Alpha (ts_params ts) \<le> sum (Count vs) (set (BagList vs) \<inter> sbelow (par_of ts) a)})"
proof -
  let ?ex = "deep_first (par_of ts) (BagList vs)"
  have ok: "blocks_ok ts" using ts_reachable_inv [OF assms(1)] by auto
  from collect_votes [OF ok assms(2,3), where ex = ?ex and env = env] obtain N es
    where "bindR (calculateInDegree vs ts) (\<lambda>ts. pushVotes (Suc (length (ts_kahnNodes ts))) env ts []) = Inr (ks ts N [], es)"
      "stack_ok ?ex ts vs (rev es)" by blast
  then show ?thesis by (auto simp: stack_ok_def entry_ok_def tree_sum_def Let_def)
qed

theorem poll_collects_votes_witness:
  "let ts = projr (example_run [(11, 10), (12, 11)]); vs = AddCount emptyBag 12 2 in
   \<exists>ts' es. bindR (calculateInDegree vs ts) (\<lambda>ts. pushVotes (Suc (length (ts_kahnNodes ts))) example_env ts []) = Inr (ts', es) \<and>
     v_parentID ` set es = {a. 2 \<le> sum (Count vs) (set (BagList vs) \<inter> sbelow (par_of ts) a)}"
proof -
  let ?ts = "projr (example_run [(11, 10), (12, 11)])" and ?vs = "AddCount emptyBag 12 2"
  have b: "bag_inv ?vs" by (simp add: bag_inv_AddCount)
  have r: "ts_reachable 10 ?ts" by (rule example_projr) code_simp
  have e: "Len ?vs \<le> K (ts_params ?ts)" "BagList ?vs = [12]" "Alpha (ts_params ?ts) = 2" by code_simp+
  have "deep_first (par_of ?ts) (BagList ?vs)" by (simp add: e(2) deep_first_def)
  with poll_collects_votes [OF r b e(1), of example_env] show ?thesis unfolding e(3) Let_def by blast
qed

text \<open>
  When the votes are not listed deepest first, votes are lost. On the chain 10, 11, 12, 13 with alpha 2, one vote for 13
  and one for 12 accept the blocks 11 and 12 when 13 is listed first; when 12 is listed first nothing is
  accepted, although the two bags are equal. On a fork, votes listed in the wrong order even move
  the preference to a branch that the snowball instance of the last accepted block does not
  prefer.
\<close>

lemma poll_loses_votes:
  "(let ts = projr (example_run [(11, 10), (12, 11), (13, 12)]);
        v = AddCount (AddCount emptyBag 13 1) 12 1; v' = AddCount (AddCount emptyBag 12 1) 13 1 in
    Equals v v' \<and> ts_head (projr (ts_RecordPoll example_env v ts)) = 12 \<and>
    ts_head (projr (ts_RecordPoll example_env v' ts)) = 10) \<and>
   (let ts = projr (ts_RecordPoll example_env (AddCount (AddCount emptyBag 22 1) 23 1)
          (projr (example_run [(11, 10), (21, 10), (22, 21), (23, 22)]))) in
    ts_Preference ts = 23 \<and> pref_of ts 10 = Some 11)"
  by code_simp

text \<open>
  C40. The number of processing blocks: in every reachable state \<open>NumProcessing\<close>, the length of the
  latency metric and the number reported by the health check are the number of blocks in the tree
  other than the last accepted one, and the instance is finalized exactly when there are none.
\<close>

theorem snowman_processing_count:
  assumes "ts_reachable root ts"
  shows "NumProcessing ts = int (card (block_ids ts - {ts_head ts})) \<and>
    l_NumProcessing (ts_Latency ts) = card (block_ids ts - {ts_head ts}) \<and>
    fst (ts_HealthCheck now ts) = card (block_ids ts - {ts_head ts}) \<and>
    (ts_Finalized ts \<longleftrightarrow> block_ids ts = {ts_head ts})"
proof -
  have inv: "blocks_ok ts" "latency_ok ts" using ts_reachable_inv [OF assms] by auto
  have h: "ts_head ts \<in> block_ids ts" by (rule head_in [OF inv(1)])
  have len: "length (ts_blocks ts) = card (block_ids ts)"
    using blocks_okD(2) [OF inv(1)] unfolding block_ids_def by (metis distinct_card length_map set_map)
  have "l_NumProcessing (ts_Latency ts) = card (processing_ids (ts_Latency ts))"
    using inv(2) by (simp add: latency_ok_def latency_inv_def l_NumProcessing_def processing_ids_def lhm.len_keys)
  then have l: "l_NumProcessing (ts_Latency ts) = card (block_ids ts - {ts_head ts})"
    using inv(2) by (simp add: latency_ok_def)
  have c: "card (block_ids ts) = Suc (card (block_ids ts - {ts_head ts}))" by (rule card.remove [OF _ h]) simp
  have "block_ids ts = {ts_head ts} \<longleftrightarrow> block_ids ts - {ts_head ts} = {}" using h by blast
  also have "\<dots> \<longleftrightarrow> card (block_ids ts - {ts_head ts}) = 0" by simp
  finally show ?thesis using l c len by (simp add: NumProcessing_def ts_HealthCheck_def ts_Finalized_def Let_def)
qed

theorem snowman_processing_count_witness:
  "let ts = projr (example_run [(11, 10), (21, 10), (12, 11)]) in NumProcessing ts = 3 \<and> l_NumProcessing (ts_Latency ts) = 3"
proof -
  let ?t0 = "projr (example_run [(11, 10), (21, 10), (12, 11)])"
  have r0: "ts_reachable 10 ?t0" by (rule example_projr) code_simp
  have "NumProcessing ?t0 = 3" by code_simp
  with snowman_processing_count [OF r0, of 0] show ?thesis by (simp add: Let_def)
qed

end
