(* ===== verification/Versions.thy ===== *)
theory Versions
  imports Prelude
begin

text \<open>
  The mockable clock (\<open>src/utils/timer/mockable/clock.go\<close>) and package \<open>version\<close>
  (\<open>src/version\<close>): application and database versions, their textual form and its parser, the
  comparison, and the compatibility check a node applies to its peers.

  A Go \<open>time.Time\<close> is its number of nanoseconds since the Unix epoch, a Go \<open>int\<close> an \<open>int\<close> with
  the wrap-around of 64-bit two's complement (\<open>int64\<close>) written where the source subtracts.
\<close>

section \<open>The clock\<close>

type_synonym time = int

definition Second :: int where "Second = 1000000000"

record Clock =
  ck_faked :: bool
  ck_time :: time

definition newClock :: Clock where
  "newClock = \<lparr>ck_faked = False, ck_time = 0\<rparr>"

definition Clock_Set :: "time \<Rightarrow> Clock \<Rightarrow> Clock" where
  "Clock_Set t c = c\<lparr>ck_faked := True, ck_time := t\<rparr>"

definition Clock_Sync :: "Clock \<Rightarrow> Clock" where
  "Clock_Sync c = c\<lparr>ck_faked := False\<rparr>"

text \<open>\<open>now\<close> is what \<open>time.Now()\<close> returns.\<close>

definition Clock_Time :: "time \<Rightarrow> Clock \<Rightarrow> time" where
  "Clock_Time now c = (if ck_faked c then ck_time c else now)"

text \<open>
  \<open>Truncate(time.Second)\<close> rounds towards the past (it works on the time since year 1, a whole
  number of seconds before the epoch); \<open>Unix()\<close> likewise drops the nanoseconds downwards.
\<close>

definition UnixTime :: "time \<Rightarrow> Clock \<Rightarrow> time" where
  "UnixTime now c = (let resTime = Clock_Time now c in resTime - resTime mod Second)"

definition Unix :: "time \<Rightarrow> Clock \<Rightarrow> 64 word" where
  "Unix now c = (let unix = Clock_Time now c div Second;
                     unix = (if unix < 0 then 0 else unix) in word_of_int unix)"

section \<open>Decimal numbers\<close>

definition digit_char :: "nat \<Rightarrow> char" where
  "digit_char d = char_of (48 + d)"

definition is_digit :: "char \<Rightarrow> bool" where
  "is_digit c = (48 \<le> (of_char c :: nat) \<and> (of_char c :: nat) \<le> 57)"

definition digit_val :: "char \<Rightarrow> nat" where
  "digit_val c = of_char c - 48"

fun show_nat :: "nat \<Rightarrow> string" where
  "show_nat n = (if n < 10 then [digit_char n] else show_nat (n div 10) @ [digit_char (n mod 10)])"

declare show_nat.simps [simp del]

text \<open>\<open>fmt.Sprintf("%d", i)\<close>.\<close>

definition show_int :: "int \<Rightarrow> string" where
  "show_int i = (if i < 0 then CHR ''-'' # show_nat (nat (- i)) else show_nat (nat i))"

definition digits_val :: "string \<Rightarrow> nat" where
  "digits_val s = foldl (\<lambda>n c. 10 * n + digit_val c) 0 s"

text \<open>\<open>strconv.Atoi\<close>: an optional sign, at least one digit, nothing else, and the value must fit.\<close>

definition Atoi :: "string \<Rightarrow> int option" where
  "Atoi s =
     (let (neg, ds) = (case s of [] \<Rightarrow> (False, [])
        | c # r \<Rightarrow> if c = CHR ''-'' then (True, r) else if c = CHR ''+'' then (False, r) else (False, s))
      in if ds = [] \<or> \<not> list_all is_digit ds then None
         else let n = int (digits_val ds); i = (if neg then - n else n)
              in if in_int64 i then Some i else None)"

text \<open>\<open>strings.SplitN(s, ".", n)\<close> for \<open>n > 0\<close>.\<close>

fun SplitN :: "nat \<Rightarrow> string \<Rightarrow> string list" where
  "SplitN 0 s = []"
| "SplitN (Suc 0) s = [s]"
| "SplitN (Suc (Suc n)) s =
     (if CHR ''.'' \<in> set s
      then takeWhile (\<lambda>c. c \<noteq> CHR ''.'') s # SplitN (Suc n) (tl (dropWhile (\<lambda>c. c \<noteq> CHR ''.'') s))
      else [s])"

section \<open>Versions\<close>

text \<open>\<open>Semantic\<close> and \<open>Application\<close> have the same fields; \<open>v_str\<close> is the cached string.\<close>

record Semantic =
  v_Major :: int
  v_Minor :: int
  v_Patch :: int
  v_str :: "string option"

type_synonym Application = Semantic

datatype ver_error = errMissingPrefix | errNotAVersion | errDifferentMajor | errIncompatible

definition version_text :: "string \<Rightarrow> Semantic \<Rightarrow> string" where
  "version_text pre v = pre @ show_int (v_Major v) @ ''.'' @ show_int (v_Minor v) @ ''.'' @ show_int (v_Patch v)"

definition Semantic_String :: "Semantic \<Rightarrow> string \<times> Semantic" where
  "Semantic_String s = (case v_str s of Some strIntf \<Rightarrow> (strIntf, s)
     | None \<Rightarrow> let str = version_text ''v'' s in (str, s\<lparr>v_str := Some str\<rparr>))"

definition Application_String :: "Application \<Rightarrow> string \<times> Application" where
  "Application_String a = (case v_str a of Some strIntf \<Rightarrow> (strIntf, a)
     | None \<Rightarrow> let str = version_text ''avalanche/'' a in (str, a\<lparr>v_str := Some str\<rparr>))"

definition Semantic_Compare :: "Semantic \<Rightarrow> Semantic \<Rightarrow> int" where
  "Semantic_Compare s o' =
     (if v_Major s \<noteq> v_Major o' then int64 (v_Major s - v_Major o')
      else if v_Minor s \<noteq> v_Minor o' then int64 (v_Minor s - v_Minor o')
      else int64 (v_Patch s - v_Patch o'))"

definition Application_Compare :: "Application \<Rightarrow> Application \<Rightarrow> int" where
  "Application_Compare a o' =
     (if v_Major a \<noteq> v_Major o' then int64 (v_Major a - v_Major o')
      else if v_Minor a \<noteq> v_Minor o' then int64 (v_Minor a - v_Minor o')
      else int64 (v_Patch a - v_Patch o'))"

definition Application_Before :: "Application \<Rightarrow> Application \<Rightarrow> bool" where
  "Application_Before a o' = (Application_Compare a o' < 0)"

definition Application_Compatible :: "Application \<Rightarrow> Application \<Rightarrow> ver_error + unit" where
  "Application_Compatible a o' = (if v_Major a > v_Major o' then Inl errDifferentMajor else Inr ())"

section \<open>Parsing\<close>

definition parseVersions :: "string \<Rightarrow> ver_error + int \<times> int \<times> int" where
  "parseVersions s =
     (case SplitN 3 s of
        [a, b, c] \<Rightarrow> (case Atoi a of None \<Rightarrow> Inl errNotAVersion | Some major \<Rightarrow>
          (case Atoi b of None \<Rightarrow> Inl errNotAVersion | Some minor \<Rightarrow>
          (case Atoi c of None \<Rightarrow> Inl errNotAVersion | Some patch \<Rightarrow> Inr (major, minor, patch))))
      | _ \<Rightarrow> Inl errNotAVersion)"

definition Parse_Semantic :: "string \<Rightarrow> ver_error + Semantic" where
  "Parse_Semantic s =
     (if take 1 s \<noteq> ''v'' then Inl errMissingPrefix
      else bindR (parseVersions (drop 1 s)) (\<lambda>(major, minor, patch).
        Inr \<lparr>v_Major = major, v_Minor = minor, v_Patch = patch, v_str = None\<rparr>))"

definition ParseApplication :: "string \<Rightarrow> ver_error + Application" where
  "ParseApplication s =
     (if take 10 s \<noteq> ''avalanche/'' then Inl errMissingPrefix
      else bindR (parseVersions (drop 10 s)) (\<lambda>(major, minor, patch).
        Inr \<lparr>v_Major = major, v_Minor = minor, v_Patch = patch, v_str = None\<rparr>))"

section \<open>Compatibility\<close>

record compatibility =
  co_version :: Application
  co_minCompatable :: Application
  co_minCompatableTime :: time
  co_prevMinCompatable :: Application
  co_clock :: Clock

definition NewCompatibility :: "Application \<Rightarrow> Application \<Rightarrow> time \<Rightarrow> Application \<Rightarrow> compatibility" where
  "NewCompatibility version minCompatable minCompatableTime prevMinCompatable =
     \<lparr>co_version = version, co_minCompatable = minCompatable, co_minCompatableTime = minCompatableTime,
      co_prevMinCompatable = prevMinCompatable, co_clock = newClock\<rparr>"

definition Compatible :: "time \<Rightarrow> compatibility \<Rightarrow> Application \<Rightarrow> ver_error + unit" where
  "Compatible now c peer =
     bindR (Application_Compatible (co_version c) peer) (\<lambda>_.
     if \<not> Application_Before peer (co_minCompatable c) then Inr ()
     else
       let t = Clock_Time now (co_clock c) in
       if \<not> t < co_minCompatableTime c then Inl errIncompatible
       else if \<not> Application_Before peer (co_prevMinCompatable c) then Inr ()
       else Inl errIncompatible)"

section \<open>The node's own constants\<close>

definition mkVersion :: "int \<Rightarrow> int \<Rightarrow> int \<Rightarrow> Semantic" where
  "mkVersion a b c = \<lparr>v_Major = a, v_Minor = b, v_Patch = c, v_str = None\<rparr>"

definition Current :: Semantic where "Current = mkVersion 1 7 18"
definition CurrentApp :: Application where
  "CurrentApp = mkVersion (v_Major Current) (v_Minor Current) (v_Patch Current)"
definition MinimumCompatibleVersion :: Application where "MinimumCompatibleVersion = mkVersion 1 7 0"
definition PrevMinimumCompatibleVersion :: Application where "PrevMinimumCompatibleVersion = mkVersion 1 6 0"

definition MainnetID :: "32 word" where "MainnetID = 1"
definition FujiID :: "32 word" where "FujiID = 5"

text \<open>\<open>time.Date(y, m, d, h, 0, 0, 0, time.UTC)\<close> in the proleptic Gregorian calendar.\<close>

definition leap :: "int \<Rightarrow> bool" where
  "leap y = (4 dvd y \<and> (\<not> 100 dvd y \<or> 400 dvd y))"

definition days_before_year :: "int \<Rightarrow> int" where
  "days_before_year y = (let p = y - 1 in 365 * p + p div 4 - p div 100 + p div 400)"

definition month_days :: "int \<Rightarrow> int list" where
  "month_days y = [31, if leap y then 29 else 28, 31, 30, 31, 30, 31, 31, 30, 31, 30, 31]"

definition Date :: "int \<Rightarrow> nat \<Rightarrow> int \<Rightarrow> int \<Rightarrow> time" where
  "Date y m d h =
     (let days = days_before_year y - days_before_year 1970 + sum_list (take (m - 1) (month_days y)) + d - 1
      in (days * 86400 + h * 3600) * Second)"

definition upgrade_time :: "(32 word, time) gomap \<Rightarrow> time \<Rightarrow> 32 word \<Rightarrow> time" where
  "upgrade_time upgrades dflt networkID = (case map_of upgrades networkID of Some t \<Rightarrow> t | None \<Rightarrow> dflt)"

definition GetApricotPhase3Time :: "32 word \<Rightarrow> time" where
  "GetApricotPhase3Time = upgrade_time [(MainnetID, Date 2021 8 24 14), (FujiID, Date 2021 8 16 19)] (Date 2020 12 5 5)"

definition GetApricotPhase4Time :: "32 word \<Rightarrow> time" where
  "GetApricotPhase4Time = upgrade_time [(MainnetID, Date 2021 9 22 21), (FujiID, Date 2021 9 16 21)] (Date 2020 12 5 5)"

definition GetApricotPhase4MinPChainHeight :: "32 word \<Rightarrow> 64 word" where
  "GetApricotPhase4MinPChainHeight networkID =
     (case map_of [(MainnetID, 793005), (FujiID, 47437)] networkID of Some h \<Rightarrow> h | None \<Rightarrow> 0)"

definition GetApricotPhase5Time :: "32 word \<Rightarrow> time" where
  "GetApricotPhase5Time = upgrade_time [(MainnetID, Date 2021 12 2 18), (FujiID, Date 2021 11 24 15)] (Date 2020 12 5 5)"

definition GetBlueberryTime :: "32 word \<Rightarrow> time" where
  "GetBlueberryTime = upgrade_time [(MainnetID, Date 10000 12 1 0), (FujiID, Date 10000 12 1 0)] (Date 2020 12 5 5)"

definition GetXChainMigrationTime :: "32 word \<Rightarrow> time" where
  "GetXChainMigrationTime = upgrade_time [(MainnetID, Date 10000 12 1 0), (FujiID, Date 10000 12 1 0)] (Date 2020 12 5 5)"

definition GetCompatibility :: "32 word \<Rightarrow> compatibility" where
  "GetCompatibility networkID =
     NewCompatibility CurrentApp MinimumCompatibleVersion (GetApricotPhase5Time networkID) PrevMinimumCompatibleVersion"

section \<open>Printing and parsing numbers\<close>

lemma of_char_digit: "d < 10 \<Longrightarrow> (of_char (digit_char d) :: nat) = 48 + d"
  by (simp add: digit_char_def)

lemma digit_char_facts: "d < 10 \<Longrightarrow> is_digit (digit_char d) \<and> digit_val (digit_char d) = d"
  by (simp add: is_digit_def digit_val_def of_char_digit)

lemma show_nat_digits: "list_all is_digit (show_nat n) \<and> show_nat n \<noteq> []"
  by (induction n rule: show_nat.induct) (subst (1 2) show_nat.simps, auto simp: digit_char_facts)

lemma digits_val_show: "digits_val (show_nat n) = n"
proof (induction n rule: show_nat.induct)
  case (1 n)
  then show ?case
    by (cases "n < 10") (subst show_nat.simps, simp add: digits_val_def digit_char_facts)+
qed

lemma not_digit: "\<not> is_digit (CHR ''.'')" "\<not> is_digit (CHR ''-'')" "\<not> is_digit (CHR ''+'')"
  by (simp_all add: is_digit_def)

lemma Atoi_show:
  assumes "in_int64 i"
  shows "Atoi (show_int i) = Some i"
proof (cases "i < 0")
  case True
  then show ?thesis using assms show_nat_digits [of "nat (- i)"]
    by (simp add: Atoi_def show_int_def digits_val_show Let_def)
next
  case False
  obtain c r where s: "show_nat (nat i) = c # r" using show_nat_digits [of "nat i"] by (cases "show_nat (nat i)") auto
  then have "is_digit c" using show_nat_digits [of "nat i"] by simp
  then have "c \<noteq> CHR ''-''" "c \<noteq> CHR ''+''" using not_digit by auto
  then show ?thesis using False assms show_nat_digits [of "nat i"] digits_val_show [of "nat i"]
    by (simp add: Atoi_def show_int_def s Let_def)
qed

lemma show_int_nodot: "CHR ''.'' \<notin> set (show_int i)"
  using show_nat_digits [of "nat i"] show_nat_digits [of "nat (- i)"] not_digit
  by (auto simp: show_int_def list_all_iff)

lemma SplitN_dot: "CHR ''.'' \<notin> set a \<Longrightarrow> SplitN (Suc (Suc n)) (a @ CHR ''.'' # b) = a # SplitN (Suc n) b"
proof -
  assume a: "CHR ''.'' \<notin> set a"
  have "takeWhile (\<lambda>c. c \<noteq> CHR ''.'') (a @ CHR ''.'' # b) = a"
    "dropWhile (\<lambda>c. c \<noteq> CHR ''.'') (a @ CHR ''.'' # b) = CHR ''.'' # b"
    using a by (induction a) auto
  then show ?thesis by simp
qed

lemma parseVersions_show:
  assumes "in_int64 a" "in_int64 b" "in_int64 c"
  shows "parseVersions (show_int a @ ''.'' @ show_int b @ ''.'' @ show_int c) = Inr (a, b, c)"
proof -
  have "SplitN 3 (show_int a @ ''.'' @ show_int b @ ''.'' @ show_int c) = [show_int a, show_int b, show_int c]"
    by (simp add: numeral_3_eq_3 SplitN_dot show_int_nodot del: SplitN.simps(3))
  then show ?thesis using assms by (simp add: parseVersions_def Atoi_show)
qed

definition version_range :: "int \<Rightarrow> Semantic \<Rightarrow> bool" where
  "version_range n v = (- n \<le> v_Major v \<and> v_Major v < n \<and> - n \<le> v_Minor v \<and> v_Minor v < n
     \<and> - n \<le> v_Patch v \<and> v_Patch v < n)"

text \<open>
  C30. Version strings round-trip: for every version whose components are Go \<open>int\<close>s, parsing the
  string that \<open>Application.String\<close> (or \<open>Semantic.String\<close>) computes gives back the same version.
\<close>

theorem version_roundtrip:
  assumes "version_range (2 ^ 63) v" and "v_str v = None"
  shows "ParseApplication (fst (Application_String v)) = Inr v
    \<and> Parse_Semantic (fst (Semantic_String v)) = Inr v"
  using assms
  by (auto simp: ParseApplication_def Parse_Semantic_def Application_String_def Semantic_String_def
      version_text_def parseVersions_show [simplified] in_int64_def version_range_def Let_def)

theorem version_roundtrip_witness:
  "ParseApplication (fst (Application_String Current)) = Inr Current
    \<and> Parse_Semantic (fst (Semantic_String Current)) = Inr Current"
  using version_roundtrip [of Current] by (simp add: Current_def mkVersion_def version_range_def)

section \<open>Comparing versions\<close>

text \<open>The order the documentation of \<open>Compare\<close> refers to: lexicographic.\<close>

definition version_less :: "Semantic \<Rightarrow> Semantic \<Rightarrow> bool" where
  "version_less a b =
     (v_Major a < v_Major b \<or> v_Major a = v_Major b \<and>
       (v_Minor a < v_Minor b \<or> v_Minor a = v_Minor b \<and> v_Patch a < v_Patch b))"

lemma Compare_exact:
  assumes "version_range (2 ^ 62) a" "version_range (2 ^ 62) b"
  shows "Application_Before a b = version_less a b" "(Application_Compare a b = 0) = (\<not> version_less a b \<and> \<not> version_less b a)"
proof -
  have "in_int64 (v_Major a - v_Major b)" "in_int64 (v_Minor a - v_Minor b)" "in_int64 (v_Patch a - v_Patch b)"
    using assms by (simp_all add: version_range_def in_int64_def)
  then have eqs: "int64 (v_Major a - v_Major b) = v_Major a - v_Major b" "int64 (v_Minor a - v_Minor b) = v_Minor a - v_Minor b"
    "int64 (v_Patch a - v_Patch b) = v_Patch a - v_Patch b"
    by (simp_all add: int64_id)
  show "Application_Before a b = version_less a b" "(Application_Compare a b = 0) = (\<not> version_less a b \<and> \<not> version_less b a)"
    by (auto simp: Application_Before_def Application_Compare_def version_less_def eqs)
qed

text \<open>
  C31. The compatibility check of peers is the documented one on versions whose components stay
  below \<open>2 ^ 62\<close>: a peer is accepted exactly when its major version is not behind the local one and
  it is at least the minimum compatible version, or, before the activation time, at least the
  previous minimum.
\<close>

theorem compatible_iff:
  assumes "version_range (2 ^ 62) peer" "version_range (2 ^ 62) (co_minCompatable c)"
    "version_range (2 ^ 62) (co_prevMinCompatable c)"
  shows "Compatible now c peer = Inr () \<longleftrightarrow>
     v_Major (co_version c) \<le> v_Major peer \<and>
     (\<not> version_less peer (co_minCompatable c)
      \<or> Clock_Time now (co_clock c) < co_minCompatableTime c \<and> \<not> version_less peer (co_prevMinCompatable c))"
  by (auto simp: Compatible_def Application_Compatible_def Compare_exact [OF assms(1,2)]
      Compare_exact [OF assms(1,3)] Let_def)

theorem compatible_iff_witness:
  "Compatible 0 (GetCompatibility 7) (mkVersion 1 6 5) = Inr ()"
proof -
  have "version_range (2 ^ 62) (mkVersion 1 6 5)" "version_range (2 ^ 62) (co_minCompatable (GetCompatibility 7))"
    "version_range (2 ^ 62) (co_prevMinCompatable (GetCompatibility 7))"
    by code_simp+
  moreover have "v_Major (co_version (GetCompatibility 7)) \<le> v_Major (mkVersion 1 6 5)"
    "Clock_Time 0 (co_clock (GetCompatibility 7)) < co_minCompatableTime (GetCompatibility 7)"
    "\<not> version_less (mkVersion 1 6 5) (co_prevMinCompatable (GetCompatibility 7))"
    by code_simp+
  ultimately show ?thesis
    using compatible_iff [of "mkVersion 1 6 5" "GetCompatibility 7" 0] by blast
qed

text \<open>
  The subtraction in \<open>Compare\<close> wraps: a peer that announces the version string below has
  a minor version far behind every minimum, yet it parses and is reported compatible after the
  activation time, on every network.
\<close>

theorem compare_wraps:
  "\<exists>peer. ParseApplication ''avalanche/1.-9223372036854775808.0'' = Inr peer
     \<and> version_less peer PrevMinimumCompatibleVersion
     \<and> Application_Compare peer MinimumCompatibleVersion > 0
     \<and> Compatible now (GetCompatibility networkID) peer = Inr ()"
proof (intro exI conjI)
  let ?p = "mkVersion 1 (- (2 ^ 63)) 0"
  show "ParseApplication ''avalanche/1.-9223372036854775808.0'' = Inr ?p"
    by (simp add: ParseApplication_def parseVersions_def numeral_3_eq_3 Atoi_def is_digit_def digits_val_def
        digit_val_def in_int64_def mkVersion_def)
  show "version_less ?p PrevMinimumCompatibleVersion"
    by (simp add: version_less_def mkVersion_def PrevMinimumCompatibleVersion_def)
  show gt: "Application_Compare ?p MinimumCompatibleVersion > 0"
    by code_simp
  then show "Compatible now (GetCompatibility networkID) ?p = Inr ()"
    by (simp add: Compatible_def GetCompatibility_def NewCompatibility_def Application_Before_def
        Application_Compatible_def CurrentApp_def Current_def mkVersion_def)
qed

end
