(* ===== verification/Packing.thy ===== *)
theory Packing
  imports Versions
begin

text \<open>
  Package \<open>utils/wrappers\<close> (\<open>src/utils/wrappers/packing.go\<close>, \<open>errors.go\<close>): the \<open>Packer\<close>,
  a cursor over a byte slice that every wire format of the node is written with and read from.

  Operations are functions of type \<open>'a pk\<close>: they take the packer and return a Go panic
  (\<open>Inl\<close>) or a value and the new packer. An \<^emph>\<open>error\<close> is not a panic: it is stored in the
  packer (\<open>pk_Err\<close>) and turns later operations into no-ops. The slice \<open>p.Bytes\<close> is its
  contents \<open>pk_Bytes\<close> together with the part of the backing array between length and capacity
  (\<open>pk_spare\<close>), which \<open>Expand\<close> exposes; \<open>pk_grow\<close> stands for the capacity that the
  run-time's \<open>append\<close> chooses to add. \<open>nil\<close> and empty slices are identified; the slices that the
  unpacking operations return share the packer's backing array, which no operation writes
  while unpacking, so they are modelled by their contents. Go \<open>int\<close> is \<open>int\<close>: the sums the
  packer forms are bounded by a slice length plus \<open>2 ^ 32\<close>.
\<close>

type_synonym byte = "8 word"

datatype go_panic = IndexOutOfRange | SliceBounds | NilPointer | NilFunc | TypeAssertion

datatype pk_err = errBadLength | errNegativeOffset | errInvalidInput | errBadType | errBadBool
  | errBadCert

record Packer =
  pk_Err :: "pk_err option"
  pk_MaxSize :: int
  pk_Bytes :: "byte list"
  pk_spare :: "byte list"
  pk_grow :: "nat \<Rightarrow> nat"
  pk_Offset :: int

type_synonym 'a pk = "Packer \<Rightarrow> go_panic + 'a \<times> Packer"

definition retP :: "'a \<Rightarrow> 'a pk" where
  "retP x = (\<lambda>p. Inr (x, p))"

definition bindP :: "'a pk \<Rightarrow> ('a \<Rightarrow> 'b pk) \<Rightarrow> 'b pk" where
  "bindP m f = (\<lambda>p. bindR (m p) (\<lambda>(x, p'). f x p'))"

definition thenP :: "unit pk \<Rightarrow> 'b pk \<Rightarrow> 'b pk" where
  "thenP m k = bindP m (\<lambda>_. k)"

definition len :: "'a list \<Rightarrow> int" where
  "len xs = int (length xs)"

section \<open>Errors and space\<close>

definition Errored :: "Packer \<Rightarrow> bool" where
  "Errored p = (pk_Err p \<noteq> None)"

text \<open>\<open>Errs.Add\<close> with one error, as every caller in the packer uses it: the first error stays.\<close>

definition Add :: "pk_err \<Rightarrow> Packer \<Rightarrow> Packer" where
  "Add e p = (if pk_Err p = None then p\<lparr>pk_Err := Some e\<rparr> else p)"

definition pk_cap :: "Packer \<Rightarrow> int" where
  "pk_cap p = len (pk_Bytes p) + len (pk_spare p)"

definition CheckSpace :: "int \<Rightarrow> Packer \<Rightarrow> Packer" where
  "CheckSpace bytes p =
     (if pk_Offset p < 0 then Add errNegativeOffset p
      else if bytes < 0 then Add errInvalidInput p
      else if len (pk_Bytes p) - pk_Offset p < bytes then Add errBadLength p
      else p)"

definition Expand :: "int \<Rightarrow> Packer \<Rightarrow> Packer" where
  "Expand bytes p =
     (let neededSize = bytes + pk_Offset p;
          arr = pk_Bytes p @ pk_spare p
      in if neededSize \<le> len (pk_Bytes p) then p
         else if neededSize > pk_MaxSize p then p\<lparr>pk_Err := Some errBadLength\<rparr>
         else if neededSize \<le> pk_cap p
         then p\<lparr>pk_Bytes := take (nat neededSize) arr, pk_spare := drop (nat neededSize) arr\<rparr>
         else p\<lparr>pk_Bytes := arr @ replicate (nat (neededSize - pk_cap p)) 0,
                pk_spare := replicate (pk_grow p (nat neededSize)) 0\<rparr>)"

text \<open>\<open>p.Bytes[p.Offset:]\<close>: the offset must lie within the slice.\<close>

definition tail_at :: "Packer \<Rightarrow> go_panic + byte list" where
  "tail_at p = (if pk_Offset p < 0 \<or> pk_Offset p > len (pk_Bytes p) then Inl SliceBounds
                else Inr (drop (nat (pk_Offset p)) (pk_Bytes p)))"

text \<open>Overwriting the bytes from the offset on, as \<open>copy\<close> does: what does not fit is dropped.\<close>

definition write_here :: "byte list \<Rightarrow> Packer \<Rightarrow> Packer" where
  "write_here bs p =
     (let off = nat (pk_Offset p); fit = take (length (pk_Bytes p) - off) bs
      in p\<lparr>pk_Bytes := take off (pk_Bytes p) @ fit @ drop (off + length fit) (pk_Bytes p)\<rparr>)"

definition advance :: "int \<Rightarrow> Packer \<Rightarrow> Packer" where
  "advance n p = p\<lparr>pk_Offset := pk_Offset p + n\<rparr>"

text \<open>
  \<open>binary.BigEndian\<close>: \<open>PutUintN\<close> and \<open>UintN\<close> for \<open>N = 8 n\<close>. They panic on a slice shorter
  than \<open>n\<close> bytes.
\<close>

fun be_bytes :: "nat \<Rightarrow> 'w::len word \<Rightarrow> byte list" where
  "be_bytes 0 w = []"
| "be_bytes (Suc n) w = ucast (drop_bit (8 * n) w) # be_bytes n w"

fun be_read :: "byte list \<Rightarrow> 'w::len word" where
  "be_read [] = 0"
| "be_read (b # bs) = push_bit (8 * length bs) (ucast b) OR be_read bs"

definition put_uint :: "nat \<Rightarrow> 'w::len word \<Rightarrow> Packer \<Rightarrow> go_panic + Packer" where
  "put_uint n w p = bindR (tail_at p) (\<lambda>t.
     if length t < n then Inl IndexOutOfRange else Inr (write_here (be_bytes n w) p))"

definition get_uint :: "nat \<Rightarrow> Packer \<Rightarrow> go_panic + 'w::len word" where
  "get_uint n p = bindR (tail_at p) (\<lambda>t.
     if length t < n then Inl IndexOutOfRange else Inr (be_read (take n t)))"

section \<open>Packing and unpacking the base types\<close>

definition MaxStringLen :: int where "MaxStringLen = 65535"
definition ByteLen :: int where "ByteLen = 1"
definition ShortLen :: int where "ShortLen = 2"
definition IntLen :: int where "IntLen = 4"
definition LongLen :: int where "LongLen = 8"
definition HashLen :: int where "HashLen = 32"

definition PackByte :: "byte \<Rightarrow> unit pk" where
  "PackByte val p =
     (let p = Expand ByteLen p in
      if Errored p then Inr ((), p)
      else if pk_Offset p < 0 \<or> pk_Offset p \<ge> len (pk_Bytes p) then Inl IndexOutOfRange
      else let p = p\<lparr>pk_Bytes := (pk_Bytes p)[nat (pk_Offset p) := val]\<rparr>
           in Inr ((), advance 1 p))"

definition UnpackByte :: "byte pk" where
  "UnpackByte p =
     (let p = CheckSpace ByteLen p in
      if Errored p then Inr (0, p)
      else if pk_Offset p < 0 \<or> pk_Offset p \<ge> len (pk_Bytes p) then Inl IndexOutOfRange
      else let val = pk_Bytes p ! nat (pk_Offset p) in Inr (val, advance 1 p))"

definition PackShort :: "16 word \<Rightarrow> unit pk" where
  "PackShort val p =
     (let p = Expand ShortLen p in
      if Errored p then Inr ((), p)
      else bindR (put_uint 2 val p) (\<lambda>p. Inr ((), advance ShortLen p)))"

definition UnpackShort :: "16 word pk" where
  "UnpackShort p =
     (let p = CheckSpace ShortLen p in
      if Errored p then Inr (0, p)
      else bindR (get_uint 2 p) (\<lambda>val. Inr (val, advance ShortLen p)))"

definition PackInt :: "32 word \<Rightarrow> unit pk" where
  "PackInt val p =
     (let p = Expand IntLen p in
      if Errored p then Inr ((), p)
      else bindR (put_uint 4 val p) (\<lambda>p. Inr ((), advance IntLen p)))"

definition UnpackInt :: "32 word pk" where
  "UnpackInt p =
     (let p = CheckSpace IntLen p in
      if Errored p then Inr (0, p)
      else bindR (get_uint 4 p) (\<lambda>val. Inr (val, advance IntLen p)))"

definition PackLong :: "64 word \<Rightarrow> unit pk" where
  "PackLong val p =
     (let p = Expand LongLen p in
      if Errored p then Inr ((), p)
      else bindR (put_uint 8 val p) (\<lambda>p. Inr ((), advance LongLen p)))"

definition UnpackLong :: "64 word pk" where
  "UnpackLong p =
     (let p = CheckSpace LongLen p in
      if Errored p then Inr (0, p)
      else bindR (get_uint 8 p) (\<lambda>val. Inr (val, advance LongLen p)))"

definition PackBool :: "bool \<Rightarrow> unit pk" where
  "PackBool b = (if b then PackByte 1 else PackByte 0)"

definition UnpackBool :: "bool pk" where
  "UnpackBool = bindP UnpackByte (\<lambda>b p.
     if b = 0 then Inr (False, p)
     else if b = 1 then Inr (True, p)
     else Inr (False, Add errBadBool p))"

definition PackFixedBytes :: "byte list \<Rightarrow> unit pk" where
  "PackFixedBytes bytes p =
     (let p = Expand (len bytes) p in
      if Errored p then Inr ((), p)
      else bindR (tail_at p) (\<lambda>_. Inr ((), advance (len bytes) (write_here bytes p))))"

definition UnpackFixedBytes :: "int \<Rightarrow> byte list pk" where
  "UnpackFixedBytes sz p =
     (let p = CheckSpace sz p in
      if Errored p then Inr ([], p)
      else bindR (tail_at p) (\<lambda>t.
        if sz < 0 \<or> sz > len t then Inl SliceBounds
        else Inr (take (nat sz) t, advance sz p)))"

definition PackBytes :: "byte list \<Rightarrow> unit pk" where
  "PackBytes bytes = thenP (PackInt (of_nat (length bytes))) (PackFixedBytes bytes)"

definition UnpackBytes :: "byte list pk" where
  "UnpackBytes = bindP UnpackInt (\<lambda>sz. UnpackFixedBytes (uint sz))"

section \<open>Slices\<close>

text \<open>\<open>for _, x := range xs\<close> with a packing operation as its body.\<close>

fun pack_all :: "('x \<Rightarrow> unit pk) \<Rightarrow> 'x list \<Rightarrow> unit pk" where
  "pack_all f [] = retP ()"
| "pack_all f (x # xs) = thenP (f x) (pack_all f xs)"

text \<open>\<open>for i := uint32(0); i < sliceSize \<and> \<not>p.Errored(); i++\<close> appending what the body returns.\<close>

fun unpack_n :: "'x pk \<Rightarrow> nat \<Rightarrow> 'x list pk" where
  "unpack_n f 0 = retP []"
| "unpack_n f (Suc n) = (\<lambda>p. if Errored p then Inr ([], p)
     else bindP f (\<lambda>x. bindP (unpack_n f n) (\<lambda>xs. retP (x # xs))) p)"

definition PackFixedByteSlices :: "byte list list \<Rightarrow> unit pk" where
  "PackFixedByteSlices byteSlices =
     thenP (PackInt (of_nat (length byteSlices))) (pack_all PackFixedBytes byteSlices)"

definition UnpackFixedByteSlices :: "int \<Rightarrow> byte list list pk" where
  "UnpackFixedByteSlices sz =
     bindP UnpackInt (\<lambda>sliceSize. unpack_n (UnpackFixedBytes sz) (unat sliceSize))"

definition Pack2DByteSlice :: "byte list list \<Rightarrow> unit pk" where
  "Pack2DByteSlice byteSlices =
     thenP (PackInt (of_nat (length byteSlices))) (pack_all PackBytes byteSlices)"

definition Unpack2DByteSlice :: "byte list list pk" where
  "Unpack2DByteSlice = bindP UnpackInt (\<lambda>sliceSize. unpack_n UnpackBytes (unat sliceSize))"

section \<open>Strings, addresses, certificates\<close>

text \<open>A Go string is its bytes.\<close>

definition PackStr :: "byte list \<Rightarrow> unit pk" where
  "PackStr str =
     (let strSize = len str in
      if strSize > MaxStringLen then (\<lambda>p. Inr ((), Add errInvalidInput p))
      else thenP (PackShort (of_int strSize)) (PackFixedBytes str))"

definition UnpackStr :: "byte list pk" where
  "UnpackStr = bindP UnpackShort (\<lambda>strSize. UnpackFixedBytes (uint strSize))"

record IPPort =
  ip_IP :: "byte list"
  ip_Port :: "16 word"

text \<open>\<open>net.IP.To16\<close>: an IPv4 address becomes an IPv4-mapped IPv6 one; any length but 4 and 16 gives \<open>nil\<close>.\<close>

definition To16 :: "byte list \<Rightarrow> byte list" where
  "To16 ip = (if length ip = 4 then replicate 10 0 @ [0xff, 0xff] @ ip
              else if length ip = 16 then ip else [])"

definition PackIP :: "IPPort \<Rightarrow> unit pk" where
  "PackIP ip = thenP (PackFixedBytes (To16 (ip_IP ip))) (PackShort (ip_Port ip))"

definition UnpackIP :: "IPPort pk" where
  "UnpackIP = bindP (UnpackFixedBytes 16) (\<lambda>ip. bindP UnpackShort (\<lambda>port.
     retP \<lparr>ip_IP = ip, ip_Port = port\<rparr>))"

text \<open>The loop of \<open>PackIPs\<close> stops at the first error.\<close>

fun pack_until_err :: "('x \<Rightarrow> unit pk) \<Rightarrow> 'x list \<Rightarrow> unit pk" where
  "pack_until_err f [] = retP ()"
| "pack_until_err f (x # xs) = (\<lambda>p. if Errored p then Inr ((), p)
     else thenP (f x) (pack_until_err f xs) p)"

definition PackIPs :: "IPPort list \<Rightarrow> unit pk" where
  "PackIPs ips = thenP (PackInt (of_nat (length ips))) (pack_until_err PackIP ips)"

definition UnpackIPs :: "IPPort list pk" where
  "UnpackIPs = bindP UnpackInt (\<lambda>sliceSize. unpack_n UnpackIP (unat sliceSize))"

text \<open>
  A certificate is represented by its DER bytes (\<open>cert.Raw\<close>), which determine it; a \<open>nil\<close>
  pointer is \<open>None\<close>. \<open>x509.ParseCertificate\<close> is the parameter \<open>okc\<close>: which byte strings it accepts.
\<close>

type_synonym Certificate = "byte list"

record ClaimedIPPort =
  cl_Cert :: "Certificate option"
  cl_IPPort :: IPPort
  cl_Timestamp :: "64 word"
  cl_Signature :: "byte list"

definition PackX509Certificate :: "Certificate option \<Rightarrow> unit pk" where
  "PackX509Certificate cert =
     (case cert of None \<Rightarrow> (\<lambda>p. Inl NilPointer) | Some raw \<Rightarrow> PackBytes raw)"

definition UnpackX509Certificate :: "(byte list \<Rightarrow> bool) \<Rightarrow> Certificate option pk" where
  "UnpackX509Certificate okc = bindP UnpackBytes (\<lambda>b p.
     if okc b then Inr (Some b, p) else Inr (None, Add errBadCert p))"

definition PackClaimedIPPort :: "ClaimedIPPort \<Rightarrow> unit pk" where
  "PackClaimedIPPort ipCert =
     thenP (PackX509Certificate (cl_Cert ipCert))
    (thenP (PackIP (cl_IPPort ipCert))
    (thenP (PackLong (cl_Timestamp ipCert))
           (PackBytes (cl_Signature ipCert))))"

definition UnpackClaimedIPPort :: "(byte list \<Rightarrow> bool) \<Rightarrow> ClaimedIPPort pk" where
  "UnpackClaimedIPPort okc =
     bindP (UnpackX509Certificate okc) (\<lambda>cert.
     bindP UnpackIP (\<lambda>ip.
     bindP UnpackLong (\<lambda>ts.
     bindP UnpackBytes (\<lambda>sig.
     retP \<lparr>cl_Cert = cert, cl_IPPort = ip, cl_Timestamp = ts, cl_Signature = sig\<rparr>))))"

text \<open>\<open>ClaimedIPPort.BytesLen\<close>: \<open>baseIPCertDescLen\<close> is \<open>2 * 4 + 18 + 8\<close>.\<close>

definition BytesLen :: "ClaimedIPPort \<Rightarrow> go_panic + int" where
  "BytesLen i = (case cl_Cert i of None \<Rightarrow> Inl NilPointer
     | Some raw \<Rightarrow> Inr (2 * 4 + 18 + 8 + len raw + len (cl_Signature i)))"

section \<open>Values of dynamic type\<close>

text \<open>
  The dynamic types an \<open>interface{}\<close> holds in the message code. \<open>V_other\<close> is a value
  of any other type.
\<close>

datatype intf =
    V_uint8 byte
  | V_uint32 "32 word"
  | V_uint64 "64 word"
  | V_bytes "byte list"
  | V_bytess "byte list list"
  | V_string "byte list"
  | V_ip IPPort
  | V_claimed "ClaimedIPPort list"
  | V_uint64s "64 word list"
  | V_version Application
  | V_other nat

definition bad_type :: "unit pk" where
  "bad_type = (\<lambda>p. Inr ((), Add errBadType p))"

definition TryPackByte :: "intf \<Rightarrow> unit pk" where
  "TryPackByte v = (case v of V_uint8 val \<Rightarrow> PackByte val | _ \<Rightarrow> bad_type)"

definition TryUnpackByte :: "intf pk" where
  "TryUnpackByte = bindP UnpackByte (\<lambda>x. retP (V_uint8 x))"

definition TryPackInt :: "intf \<Rightarrow> unit pk" where
  "TryPackInt v = (case v of V_uint32 val \<Rightarrow> PackInt val | _ \<Rightarrow> bad_type)"

definition TryUnpackInt :: "intf pk" where
  "TryUnpackInt = bindP UnpackInt (\<lambda>x. retP (V_uint32 x))"

definition TryPackLong :: "intf \<Rightarrow> unit pk" where
  "TryPackLong v = (case v of V_uint64 val \<Rightarrow> PackLong val | _ \<Rightarrow> bad_type)"

definition TryUnpackLong :: "intf pk" where
  "TryUnpackLong = bindP UnpackLong (\<lambda>x. retP (V_uint64 x))"

definition TryPackHash :: "intf \<Rightarrow> unit pk" where
  "TryPackHash v = (case v of V_bytes val \<Rightarrow> PackFixedBytes val | _ \<Rightarrow> bad_type)"

definition TryUnpackHash :: "intf pk" where
  "TryUnpackHash = bindP (UnpackFixedBytes HashLen) (\<lambda>x. retP (V_bytes x))"

definition TryPackHashes :: "intf \<Rightarrow> unit pk" where
  "TryPackHashes v = (case v of V_bytess val \<Rightarrow> PackFixedByteSlices val | _ \<Rightarrow> bad_type)"

definition TryUnpackHashes :: "intf pk" where
  "TryUnpackHashes = bindP (UnpackFixedByteSlices HashLen) (\<lambda>x. retP (V_bytess x))"

definition TryPackBytes :: "intf \<Rightarrow> unit pk" where
  "TryPackBytes v = (case v of V_bytes val \<Rightarrow> PackBytes val | _ \<Rightarrow> bad_type)"

definition TryUnpackBytes :: "intf pk" where
  "TryUnpackBytes = bindP UnpackBytes (\<lambda>x. retP (V_bytes x))"

definition TryPack2DBytes :: "intf \<Rightarrow> unit pk" where
  "TryPack2DBytes v = (case v of V_bytess val \<Rightarrow> Pack2DByteSlice val | _ \<Rightarrow> bad_type)"

definition TryUnpack2DBytes :: "intf pk" where
  "TryUnpack2DBytes = bindP Unpack2DByteSlice (\<lambda>x. retP (V_bytess x))"

definition TryPackStr :: "intf \<Rightarrow> unit pk" where
  "TryPackStr v = (case v of V_string val \<Rightarrow> PackStr val | _ \<Rightarrow> bad_type)"

definition TryUnpackStr :: "intf pk" where
  "TryUnpackStr = bindP UnpackStr (\<lambda>x. retP (V_string x))"

definition TryPackIP :: "intf \<Rightarrow> unit pk" where
  "TryPackIP v = (case v of V_ip val \<Rightarrow> PackIP val | _ \<Rightarrow> bad_type)"

definition TryUnpackIP :: "intf pk" where
  "TryUnpackIP = bindP UnpackIP (\<lambda>x. retP (V_ip x))"

definition TryPackClaimedIPPortList :: "intf \<Rightarrow> unit pk" where
  "TryPackClaimedIPPortList v = (case v of
     V_claimed ipCertList \<Rightarrow>
       thenP (PackInt (of_nat (length ipCertList))) (pack_all PackClaimedIPPort ipCertList)
   | _ \<Rightarrow> bad_type)"

definition TryUnpackClaimedIPPortList :: "(byte list \<Rightarrow> bool) \<Rightarrow> intf pk" where
  "TryUnpackClaimedIPPortList okc = bindP UnpackInt (\<lambda>sliceSize.
     bindP (unpack_n (UnpackClaimedIPPort okc) (unat sliceSize)) (\<lambda>x. retP (V_claimed x)))"

definition TryPackUint64Slice :: "intf \<Rightarrow> unit pk" where
  "TryPackUint64Slice v = (case v of
     V_uint64s longList \<Rightarrow>
       thenP (PackInt (of_nat (length longList))) (pack_all PackLong longList)
   | _ \<Rightarrow> bad_type)"

definition TryUnpackUint64Slice :: "intf pk" where
  "TryUnpackUint64Slice = bindP UnpackInt (\<lambda>sliceSize.
     bindP (unpack_n UnpackLong (unat sliceSize)) (\<lambda>x. retP (V_uint64s x)))"

end
