(* ===== verification/WireFormat.thy ===== *)
theory WireFormat
  imports Packing
begin

text \<open>
  What the packer's operations promise: \<open>packs\<close> and \<open>unpacks\<close> (an operation writes, or reads back,
  a given byte string), \<open>reads\<close> and \<open>writes\<close> (an operation never panics, keeps the cursor inside
  the slice and keeps a stored error), \<open>canon\<close> (what was read without error is exactly what would
  have been written). The locale \<open>wire_format\<close> collects the contract of a matching pair of
  packing and unpacking operations; it is interpreted for every pair of \<open>packing.go\<close>.
\<close>

section \<open>Big-endian integers\<close>

lemma length_be_bytes [simp]: "length (be_bytes n w) = n"
  by (induction n) simp_all

lemma len_append [simp]: "len (xs @ ys) = len xs + len ys"
  by (simp add: len_def)

lemma len_Nil [simp]: "len [] = 0"
  by (simp add: len_def)

lemma len_ge_0 [simp]: "0 \<le> len xs"
  by (simp add: len_def)

lemma nat_len [simp]: "nat (len xs) = length xs"
  by (simp add: len_def)

lemma bit_be_read:
  "bit (be_read bs :: 'w::len word) k \<longleftrightarrow>
   k < LENGTH('w) \<and> k div 8 < length bs \<and> bit (bs ! (length bs - 1 - k div 8)) (k mod 8)"
proof (induction bs)
  case (Cons b bs)
  show ?case
  proof (cases "k < 8 * length bs")
    case True
    then have "k div 8 < length bs" by simp
    then show ?thesis using Cons True by (auto simp: bit_simps nth_Cons')
  next
    case False
    then have ge: "8 * length bs \<le> k" by simp
    then obtain j where j: "k = 8 * length bs + j" by (auto simp: le_iff_add)
    have "\<not> k div 8 < length bs" using ge by simp
    then have "\<not> bit (be_read bs :: 'w word) k" using Cons by simp
    moreover have "bit b j \<Longrightarrow> j < 8" using bit_imp_le_length by fastforce
    ultimately show ?thesis
      by (cases "j < 8") (auto simp: bit_simps j nth_Cons')
  qed
qed simp

lemma nth_be_bytes: "i < n \<Longrightarrow> be_bytes n w ! i = ucast (drop_bit (8 * (n - 1 - i)) w)"
  by (induction n arbitrary: i) (auto simp: nth_Cons split: nat.split)

lemma be_read_bytes:
  assumes "LENGTH('w::len) = 8 * n"
  shows "be_read (be_bytes n (w :: 'w word)) = w"
proof (rule bit_word_eqI)
  fix k assume k: "k < LENGTH('w)"
  then have "k div 8 < n" using assms by simp
  then show "bit (be_read (be_bytes n w) :: 'w word) k = bit w k"
    using k by (simp add: bit_be_read nth_be_bytes bit_simps)
qed

lemma be_bytes_read:
  assumes "LENGTH('w::len) = 8 * length bs"
  shows "be_bytes (length bs) (be_read bs :: 'w word) = bs"
proof (rule nth_equalityI)
  fix i assume i: "i < length (be_bytes (length bs) (be_read bs :: 'w word))"
  show "be_bytes (length bs) (be_read bs :: 'w word) ! i = bs ! i"
  proof (rule bit_word_eqI)
    fix j :: nat assume "j < LENGTH(8)"
    then have j: "j < 8" by simp
    define m where "m = length bs - Suc i"
    then have m: "length bs - Suc m = i" "m < length bs" using i by simp_all
    have "(8 * m + j) div 8 = m" "(8 * m + j) mod 8 = j" "8 * m + j < LENGTH('w)"
      using j m(2) assms by simp_all
    then show "bit (be_bytes (length bs) (be_read bs :: 'w word) ! i) j = bit (bs ! i) j"
      using i j m by (simp add: nth_be_bytes bit_simps bit_be_read m_def [symmetric])
  qed
qed simp

section \<open>All base operations are fixed-width byte operations\<close>

lemma bindP_apply: "bindP m f p = bindR (m p) (\<lambda>(x, p'). f x p')"
  by (simp add: bindP_def)

lemma thenP_apply: "thenP m k p = bindR (m p) (\<lambda>(x, p'). k p')"
  by (simp add: thenP_def bindP_def)

lemma retP_apply [simp]: "retP x p = Inr (x, p)"
  by (simp add: retP_def)

lemma Expand_room:
  assumes "0 \<le> pk_Offset p" "0 \<le> n" "pk_Offset p \<le> len (pk_Bytes p)"
    "pk_Offset p + n \<le> max (pk_MaxSize p) (len (pk_Bytes p))"
  shows "pk_Err (Expand n p) = pk_Err p" "pk_Offset (Expand n p) = pk_Offset p"
    "pk_MaxSize (Expand n p) = pk_MaxSize p"
    "len (pk_Bytes (Expand n p)) = max (len (pk_Bytes p)) (pk_Offset p + n)"
    "take (nat (pk_Offset p)) (pk_Bytes (Expand n p)) = take (nat (pk_Offset p)) (pk_Bytes p)"
proof -
  show "pk_Err (Expand n p) = pk_Err p" "pk_Offset (Expand n p) = pk_Offset p"
    "pk_MaxSize (Expand n p) = pk_MaxSize p"
    using assms by (auto simp: Expand_def Let_def)
  show "len (pk_Bytes (Expand n p)) = max (len (pk_Bytes p)) (pk_Offset p + n)"
    using assms by (auto simp: Expand_def Let_def pk_cap_def len_def min_def)
  show "take (nat (pk_Offset p)) (pk_Bytes (Expand n p)) = take (nat (pk_Offset p)) (pk_Bytes p)"
    using assms by (auto simp: Expand_def Let_def pk_cap_def len_def min_def)
qed

lemma Expand_full:
  assumes "pk_Offset p + n > max (pk_MaxSize p) (len (pk_Bytes p))"
  shows "Expand n p = p\<lparr>pk_Err := Some errBadLength\<rparr>"
  using assms by (auto simp: Expand_def Let_def)

lemma Expand_len: "0 \<le> pk_Offset p \<Longrightarrow> \<not> Errored (Expand n p) \<Longrightarrow>
  pk_Offset (Expand n p) = pk_Offset p \<and> pk_Offset p + n \<le> len (pk_Bytes (Expand n p))"
  by (auto simp: Expand_def Let_def Errored_def pk_cap_def len_def min_def split: if_splits)

lemma put_eq_copy:
  assumes "0 \<le> pk_Offset p" "\<not> Errored (Expand (int n) p)"
  shows "bindR (put_uint n w (Expand (int n) p)) (\<lambda>p. Inr ((), advance (int n) p))
       = PackFixedBytes (be_bytes n w) p"
proof -
  let ?q = "Expand (int n) p"
  have "pk_Offset ?q = pk_Offset p \<and> pk_Offset p + int n \<le> len (pk_Bytes ?q)"
    using Expand_len [OF assms] by simp
  then have "tail_at ?q = Inr (drop (nat (pk_Offset p)) (pk_Bytes ?q))"
    "\<not> length (drop (nat (pk_Offset p)) (pk_Bytes ?q)) < n"
    using assms(1) by (auto simp: tail_at_def len_def)
  then show ?thesis using assms(2)
    by (simp add: put_uint_def PackFixedBytes_def len_def)
qed

lemma pack_eq_fixed:
  assumes "0 \<le> pk_Offset p"
  shows "PackByte b p = PackFixedBytes [b] p" "PackShort s p = PackFixedBytes (be_bytes 2 s) p"
    "PackInt i p = PackFixedBytes (be_bytes 4 i) p" "PackLong l p = PackFixedBytes (be_bytes 8 l) p"
proof -
  show "PackShort s p = PackFixedBytes (be_bytes 2 s) p"
    using put_eq_copy [OF assms, of 2 s]
    by (cases "Errored (Expand 2 p)") (simp_all add: PackShort_def PackFixedBytes_def ShortLen_def len_def)
  show "PackInt i p = PackFixedBytes (be_bytes 4 i) p"
    using put_eq_copy [OF assms, of 4 i]
    by (cases "Errored (Expand 4 p)") (simp_all add: PackInt_def PackFixedBytes_def IntLen_def len_def)
  show "PackLong l p = PackFixedBytes (be_bytes 8 l) p"
    using put_eq_copy [OF assms, of 8 l]
    by (cases "Errored (Expand 8 p)") (simp_all add: PackLong_def PackFixedBytes_def LongLen_def len_def)
  show "PackByte b p = PackFixedBytes [b] p"
  proof (cases "Errored (Expand 1 p)")
    case False
    then have "pk_Offset (Expand 1 p) = pk_Offset p \<and> pk_Offset p + 1 \<le> len (pk_Bytes (Expand 1 p))"
      using Expand_len [OF assms, of 1] by simp
    then show ?thesis using False assms
      by (auto simp: PackByte_def PackFixedBytes_def ByteLen_def len_def tail_at_def write_here_def
          upd_conv_take_nth_drop Let_def nat_less_iff Suc_diff_le)
  qed (simp add: PackByte_def PackFixedBytes_def ByteLen_def len_def)
qed

lemma Add_simps [simp]: "Errored (Add e p)" "pk_Bytes (Add e p) = pk_Bytes p"
  "pk_Offset (Add e p) = pk_Offset p" "pk_MaxSize (Add e p) = pk_MaxSize p"
  "pk_spare (Add e p) = pk_spare p" "Errored p \<Longrightarrow> Add e p = p"
  by (auto simp: Add_def Errored_def)

lemma CheckSpace_cases:
  "CheckSpace n p = p \<and> (Errored p \<or> 0 \<le> pk_Offset p \<and> 0 \<le> n \<and> pk_Offset p + n \<le> len (pk_Bytes p))
   \<or> (\<exists>e. CheckSpace n p = Add e p)"
  by (auto simp: CheckSpace_def)

lemma get_eq_fixed:
  assumes "n > 0" "m = int n"
  shows "(let p = CheckSpace m p in if Errored p then Inr (0, p)
          else bindR (get_uint n p) (\<lambda>val. Inr (val, advance m p)))
       = bindP (UnpackFixedBytes m) (\<lambda>bs. retP (be_read bs)) p"
  using CheckSpace_cases [of m p] assms
  by (auto simp: Let_def UnpackFixedBytes_def bindP_apply get_uint_def tail_at_def len_def)

lemma unpack_eq_fixed:
  "UnpackShort = bindP (UnpackFixedBytes 2) (\<lambda>bs. retP (be_read bs))"
  "UnpackInt = bindP (UnpackFixedBytes 4) (\<lambda>bs. retP (be_read bs))"
  "UnpackLong = bindP (UnpackFixedBytes 8) (\<lambda>bs. retP (be_read bs))"
  "UnpackByte = bindP (UnpackFixedBytes 1) (\<lambda>bs. retP (be_read bs))"
proof -
  show "UnpackShort = bindP (UnpackFixedBytes 2) (\<lambda>bs. retP (be_read bs))"
    by (rule ext, unfold UnpackShort_def ShortLen_def, rule get_eq_fixed) simp_all
  show "UnpackInt = bindP (UnpackFixedBytes 4) (\<lambda>bs. retP (be_read bs))"
    by (rule ext, unfold UnpackInt_def IntLen_def, rule get_eq_fixed) simp_all
  show "UnpackLong = bindP (UnpackFixedBytes 8) (\<lambda>bs. retP (be_read bs))"
    by (rule ext, unfold UnpackLong_def LongLen_def, rule get_eq_fixed) simp_all
  show "UnpackByte = bindP (UnpackFixedBytes 1) (\<lambda>bs. retP (be_read bs))"
  proof
    fix p
    have "0 \<le> off \<Longrightarrow> off + 1 \<le> len bs \<Longrightarrow> take 1 (drop (nat off) bs) = [bs ! nat off]"
      for off and bs :: "byte list"
      by (simp add: take_Suc_conv_app_nth len_def nat_less_iff)
    then show "UnpackByte p = bindP (UnpackFixedBytes 1) (\<lambda>bs. retP (be_read bs)) p"
      using CheckSpace_cases [of 1 p]
      by (auto simp: UnpackByte_def UnpackFixedBytes_def bindP_apply ByteLen_def tail_at_def len_def)
  qed
qed

section \<open>Contracts of operations\<close>

definition in_slice :: "Packer \<Rightarrow> bool" where
  "in_slice p \<longleftrightarrow> 0 \<le> pk_Offset p \<and> pk_Offset p \<le> len (pk_Bytes p)"

text \<open>\<open>bs\<close> lies at the cursor.\<close>

definition at_cursor :: "Packer \<Rightarrow> byte list \<Rightarrow> bool" where
  "at_cursor p bs \<longleftrightarrow> \<not> Errored p \<and> 0 \<le> pk_Offset p \<and> pk_Offset p + len bs \<le> len (pk_Bytes p)
     \<and> take (length bs) (drop (nat (pk_Offset p)) (pk_Bytes p)) = bs"

definition wrote :: "byte list \<Rightarrow> Packer \<Rightarrow> Packer \<Rightarrow> bool" where
  "wrote bs p p' \<longleftrightarrow> in_slice p \<and> \<not> Errored p' \<and> pk_MaxSize p' = pk_MaxSize p
     \<and> pk_Offset p' = pk_Offset p + len bs
     \<and> pk_Bytes p' = take (nat (pk_Offset p)) (pk_Bytes p) @ bs
                     @ drop (nat (pk_Offset p) + length bs) (pk_Bytes p)"

definition has_room :: "Packer \<Rightarrow> int \<Rightarrow> bool" where
  "has_room p n \<longleftrightarrow> \<not> Errored p \<and> in_slice p \<and> pk_Offset p + n \<le> max (pk_MaxSize p) (len (pk_Bytes p))"

definition packs :: "unit pk \<Rightarrow> byte list \<Rightarrow> bool" where
  "packs m bs \<longleftrightarrow> (\<forall>p. has_room p (len bs) \<longrightarrow> (\<exists>p'. m p = Inr ((), p') \<and> wrote bs p p'))"

definition unpacks :: "'a pk \<Rightarrow> 'a \<Rightarrow> byte list \<Rightarrow> bool" where
  "unpacks m x bs \<longleftrightarrow> (\<forall>p. at_cursor p bs \<longrightarrow> m p = Inr (x, advance (len bs) p))"

text \<open>
  A packing operation that starts with the cursor in the slice does not panic, keeps it there, never
  moves it back, never drops an error and never grows the slice past the limit.
\<close>

definition writes :: "unit pk \<Rightarrow> bool" where
  "writes m \<longleftrightarrow> (\<forall>p. in_slice p \<longrightarrow> (\<exists>p'. m p = Inr ((), p') \<and> in_slice p'
     \<and> pk_MaxSize p' = pk_MaxSize p \<and> pk_Offset p \<le> pk_Offset p'
     \<and> len (pk_Bytes p) \<le> len (pk_Bytes p') \<and> len (pk_Bytes p') \<le> max (pk_MaxSize p) (len (pk_Bytes p))
     \<and> (Errored p \<longrightarrow> Errored p' \<and> pk_Offset p' = pk_Offset p)))"

text \<open>
  An unpacking operation never panics, whatever the packer; it changes nothing but the offset,
  which stays within the slice, and the error, which it never drops.
\<close>

definition reads :: "'a pk \<Rightarrow> bool" where
  "reads m \<longleftrightarrow> (\<forall>p. \<exists>x p'. m p = Inr (x, p') \<and> pk_Bytes p' = pk_Bytes p
     \<and> pk_MaxSize p' = pk_MaxSize p \<and> pk_Offset p \<le> pk_Offset p'
     \<and> (in_slice p \<longrightarrow> in_slice p') \<and> (Errored p \<longrightarrow> p' = p))"

text \<open>Reading without error consumes a byte string that \<open>Q\<close> relates to the value.\<close>

definition consumed :: "Packer \<Rightarrow> byte list \<Rightarrow> Packer \<Rightarrow> bool" where
  "consumed p bs p' \<longleftrightarrow> \<not> Errored p \<and> p' = advance (len bs) p \<and> (bs = [] \<or> at_cursor p bs)"

definition canon :: "'a pk \<Rightarrow> ('a \<Rightarrow> byte list \<Rightarrow> bool) \<Rightarrow> bool" where
  "canon m Q \<longleftrightarrow> (\<forall>p x p'. m p = Inr (x, p') \<longrightarrow> \<not> Errored p' \<longrightarrow> (\<exists>bs. Q x bs \<and> consumed p bs p'))"

lemma advance_simps [simp]: "pk_Offset (advance n p) = pk_Offset p + n"
  "pk_Bytes (advance n p) = pk_Bytes p" "pk_Err (advance n p) = pk_Err p"
  "pk_MaxSize (advance n p) = pk_MaxSize p" "Errored (advance n p) = Errored p" "advance 0 p = p"
  "advance m (advance n p) = advance (n + m) p"
  by (simp_all add: advance_def Errored_def)

lemma take_append_iff:
  "take (length a + length b) ys = a @ b \<longleftrightarrow> take (length a) ys = a \<and> take (length b) (drop (length a) ys) = b"
proof (cases "length a \<le> length ys")
  case True
  then show ?thesis by (simp add: take_add)
next
  case False
  then have "length (take (length a + length b) ys) \<noteq> length (a @ b)" "length (take (length a) ys) \<noteq> length a"
    by simp_all
  then show ?thesis by metis
qed

lemma at_cursor_append:
  "at_cursor p (a @ b) \<longleftrightarrow> at_cursor p a \<and> at_cursor (advance (len a) p) b"
proof -
  have n: "0 \<le> pk_Offset p \<Longrightarrow> drop (nat (pk_Offset p + len a)) ys = drop (length a) (drop (nat (pk_Offset p)) ys)"
    for ys :: "byte list" by (simp add: nat_add_distrib add.commute)
  show ?thesis
    using len_ge_0 [of a] len_ge_0 [of b]
    by (auto simp: at_cursor_def n take_append_iff simp del: len_ge_0 drop_drop)
qed

lemma packs_ret: "packs (retP ()) []"
  by (auto simp: packs_def wrote_def has_room_def)

lemma wrote_len:
  "wrote bs p q \<Longrightarrow> in_slice q \<and> len (pk_Bytes q) = max (len (pk_Bytes p)) (pk_Offset p + len bs)"
  by (auto simp: wrote_def in_slice_def len_def)

lemma wrote_room: "wrote a p q \<Longrightarrow> has_room p (len (a @ b)) \<Longrightarrow> has_room q (len b)"
  using wrote_len [of a p q] by (auto simp: wrote_def has_room_def)

lemma wrote_trans: "wrote a p q \<Longrightarrow> wrote b q r \<Longrightarrow> wrote (a @ b) p r"
  by (auto simp: wrote_def in_slice_def len_def nat_add_distrib ac_simps)

lemma packs_then: "packs m a \<Longrightarrow> packs k b \<Longrightarrow> packs (thenP m k) (a @ b)"
  unfolding packs_def
proof (intro allI impI)
  fix p
  assume m: "\<forall>p. has_room p (len a) \<longrightarrow> (\<exists>p'. m p = Inr ((), p') \<and> wrote a p p')"
    and k: "\<forall>p. has_room p (len b) \<longrightarrow> (\<exists>p'. k p = Inr ((), p') \<and> wrote b p p')"
    and room: "has_room p (len (a @ b))"
  have "has_room p (len a)" using room len_ge_0 [of b] by (simp add: has_room_def del: len_ge_0)
  then obtain q where q: "m p = Inr ((), q)" "wrote a p q" using m by blast
  then obtain r where "k q = Inr ((), r)" "wrote b q r" using k wrote_room [OF _ room] by blast
  then show "\<exists>p'. thenP m k p = Inr ((), p') \<and> wrote (a @ b) p p'"
    using q wrote_trans by (auto simp: thenP_apply)
qed

lemma unpacks_ret: "unpacks (retP x) x []"
  by (simp add: unpacks_def)

lemma unpacks_bind: "unpacks m x a \<Longrightarrow> unpacks (f x) y b \<Longrightarrow> unpacks (bindP m f) y (a @ b)"
  by (auto simp: unpacks_def at_cursor_append bindP_apply)

lemma unpacks_map: "unpacks m x a \<Longrightarrow> y = g x \<Longrightarrow> unpacks (bindP m (\<lambda>x. retP (g x))) y a"
  using unpacks_bind [of m x a "\<lambda>x. retP (g x)" y "[]"] unpacks_ret by fastforce

lemma reads_ret: "reads (retP x)"
  by (simp add: reads_def)

lemma readsE:
  assumes "reads m"
  obtains x p' where "m p = Inr (x, p')" "pk_Bytes p' = pk_Bytes p" "pk_MaxSize p' = pk_MaxSize p"
    "pk_Offset p \<le> pk_Offset p'" "in_slice p \<longrightarrow> in_slice p'" "Errored p \<longrightarrow> p' = p"
  using assms unfolding reads_def by blast

lemma reads_bind:
  assumes "reads m" "\<And>x. reads (f x)"
  shows "reads (bindP m f)"
  unfolding reads_def
proof
  fix p
  obtain x q where q: "m p = Inr (x, q)" "pk_Bytes q = pk_Bytes p" "pk_MaxSize q = pk_MaxSize p"
    "pk_Offset p \<le> pk_Offset q" "in_slice p \<longrightarrow> in_slice q" "Errored p \<longrightarrow> q = p"
    using readsE [OF assms(1)] by metis
  obtain y r where r: "f x q = Inr (y, r)" "pk_Bytes r = pk_Bytes q" "pk_MaxSize r = pk_MaxSize q"
    "pk_Offset q \<le> pk_Offset r" "in_slice q \<longrightarrow> in_slice r" "Errored q \<longrightarrow> r = q"
    using readsE [OF assms(2)] by metis
  show "\<exists>x p'. bindP m f p = Inr (x, p') \<and> pk_Bytes p' = pk_Bytes p
     \<and> pk_MaxSize p' = pk_MaxSize p \<and> pk_Offset p \<le> pk_Offset p'
     \<and> (in_slice p \<longrightarrow> in_slice p') \<and> (Errored p \<longrightarrow> p' = p)"
    using q r by (auto simp: bindP_apply)
qed

lemma reads_guard: "reads m \<Longrightarrow> reads (\<lambda>p. if Errored p then Inr (x, p) else m p)"
  unfolding reads_def
proof
  fix p
  assume "\<forall>p. \<exists>x p'. m p = Inr (x, p') \<and> pk_Bytes p' = pk_Bytes p \<and> pk_MaxSize p' = pk_MaxSize p
     \<and> pk_Offset p \<le> pk_Offset p' \<and> (in_slice p \<longrightarrow> in_slice p') \<and> (Errored p \<longrightarrow> p' = p)"
  then show "\<exists>y p'. (if Errored p then Inr (x, p) else m p) = Inr (y, p') \<and> pk_Bytes p' = pk_Bytes p
     \<and> pk_MaxSize p' = pk_MaxSize p \<and> pk_Offset p \<le> pk_Offset p'
     \<and> (in_slice p \<longrightarrow> in_slice p') \<and> (Errored p \<longrightarrow> p' = p)"
    by (cases "Errored p") (simp, metis)
qed

lemma reads_ok: "reads m \<Longrightarrow> m p = Inr (x, p') \<Longrightarrow> \<not> Errored p' \<Longrightarrow> \<not> Errored p"
  unfolding reads_def by (metis Inr_inject Pair_inject)

lemma canon_ret: "canon (retP x) (\<lambda>y bs. y = x \<and> bs = [])"
  by (auto simp: canon_def consumed_def)

lemma consumed_trans: "consumed p a q \<Longrightarrow> consumed q b r \<Longrightarrow> consumed p (a @ b) r"
  by (cases "a = []"; cases "b = []") (auto simp: consumed_def at_cursor_append)

text \<open>Writing over the bytes that were consumed, with the same bytes, changes nothing.\<close>

lemma wrote_consumed:
  assumes "wrote bs p q" "consumed p bs p'"
  shows "pk_Bytes q = pk_Bytes p \<and> pk_Offset q = pk_Offset p' \<and> \<not> Errored q"
proof -
  have "take (nat (pk_Offset p)) (pk_Bytes p) @ bs @ drop (nat (pk_Offset p) + length bs) (pk_Bytes p) = pk_Bytes p"
  proof (cases "bs = []")
    case False
    then have "take (length bs) (drop (nat (pk_Offset p)) (pk_Bytes p)) = bs"
      using assms(2) by (auto simp: consumed_def at_cursor_def)
    then show ?thesis
      using append_take_drop_id [of "length bs" "drop (nat (pk_Offset p)) (pk_Bytes p)"]
      by (simp add: add.commute)
  qed simp
  then show ?thesis using assms by (auto simp: wrote_def consumed_def)
qed

lemma canon_bind:
  assumes "canon m Q" "\<And>x. canon (f x) (R x)"
  shows "canon (bindP m f) (\<lambda>y bs. \<exists>x a b. Q x a \<and> R x y b \<and> bs = a @ b)"
  unfolding canon_def
proof (intro allI impI)
  fix p y r
  assume "bindP m f p = Inr (y, r)" "\<not> Errored r"
  then obtain x q where x: "m p = Inr (x, q)" "f x q = Inr (y, r)"
    by (auto simp: bindP_apply bindR_Inr)
  obtain b where b: "R x y b" "consumed q b r"
    using assms(2) x(2) \<open>\<not> Errored r\<close> unfolding canon_def by blast
  then have "\<not> Errored q" by (simp add: consumed_def)
  then obtain a where "Q x a" "consumed p a q"
    using assms(1) x(1) unfolding canon_def by blast
  then show "\<exists>bs. (\<exists>x a b. Q x a \<and> R x y b \<and> bs = a @ b) \<and> consumed p bs r"
    using b consumed_trans by blast
qed

lemma canon_mono: "canon m Q \<Longrightarrow> (\<And>x bs. Q x bs \<Longrightarrow> R x bs) \<Longrightarrow> canon m R"
  unfolding canon_def by blast

lemma canon_map:
  assumes "canon m Q" "\<And>x bs. Q x bs \<Longrightarrow> R (g x) bs"
  shows "canon (bindP m (\<lambda>x. retP (g x))) R"
  by (rule canon_mono, rule canon_bind [OF assms(1)], rule canon_ret) (use assms(2) in auto)

lemma writes_then:
  assumes "writes m" "writes k"
  shows "writes (thenP m k)"
  unfolding writes_def
proof (intro allI impI)
  fix p assume "in_slice p"
  then obtain q where q: "m p = Inr ((), q)" "in_slice q" "pk_MaxSize q = pk_MaxSize p" "pk_Offset p \<le> pk_Offset q"
    "len (pk_Bytes p) \<le> len (pk_Bytes q)" "len (pk_Bytes q) \<le> max (pk_MaxSize p) (len (pk_Bytes p))"
    "Errored p \<longrightarrow> Errored q \<and> pk_Offset q = pk_Offset p"
    using assms(1) unfolding writes_def by blast
  then obtain r where r: "k q = Inr ((), r)" "in_slice r" "pk_MaxSize r = pk_MaxSize q" "pk_Offset q \<le> pk_Offset r"
    "len (pk_Bytes q) \<le> len (pk_Bytes r)" "len (pk_Bytes r) \<le> max (pk_MaxSize q) (len (pk_Bytes q))"
    "Errored q \<longrightarrow> Errored r \<and> pk_Offset r = pk_Offset q"
    using assms(2) unfolding writes_def by blast
  show "\<exists>p'. thenP m k p = Inr ((), p') \<and> in_slice p' \<and> pk_MaxSize p' = pk_MaxSize p
     \<and> pk_Offset p \<le> pk_Offset p'
     \<and> len (pk_Bytes p) \<le> len (pk_Bytes p') \<and> len (pk_Bytes p') \<le> max (pk_MaxSize p) (len (pk_Bytes p))
     \<and> (Errored p \<longrightarrow> Errored p' \<and> pk_Offset p' = pk_Offset p)"
    by (rule exI [of _ r]) (use q r in \<open>auto simp: thenP_apply\<close>)
qed

lemma writes_ret: "writes (retP ())"
  by (simp add: writes_def)

lemma writes_add: "writes (\<lambda>p. Inr ((), Add e p))"
  by (simp add: writes_def in_slice_def)

section \<open>Fixed-width bytes meet the contracts\<close>

lemma fixed_packs: "packs (PackFixedBytes bs) bs"
  unfolding packs_def
proof (intro allI impI)
  fix p assume room: "has_room p (len bs)"
  let ?q = "Expand (len bs) p" and ?o = "nat (pk_Offset p)"
  have q: "\<not> Errored ?q" "pk_Offset ?q = pk_Offset p" "pk_MaxSize ?q = pk_MaxSize p"
    "len (pk_Bytes ?q) = max (len (pk_Bytes p)) (pk_Offset p + len bs)"
    using Expand_room [of p "len bs"] room by (auto simp: has_room_def in_slice_def Errored_def)
  have pre: "take ?o (pk_Bytes ?q) = take ?o (pk_Bytes p)"
    "drop (?o + length bs) (pk_Bytes ?q) = drop (?o + length bs) (pk_Bytes p)"
    using room by (auto simp: has_room_def in_slice_def Expand_def Let_def pk_cap_def len_def min_def)
  have "tail_at ?q = Inr (drop ?o (pk_Bytes ?q))" "take (length (pk_Bytes ?q) - ?o) bs = bs"
    using room q by (auto simp: tail_at_def has_room_def in_slice_def len_def)
  then have "PackFixedBytes bs p = Inr ((), advance (len bs) (write_here bs ?q))"
    "pk_Bytes (write_here bs ?q) = take ?o (pk_Bytes p) @ bs @ drop (?o + length bs) (pk_Bytes p)"
    using q pre by (simp_all add: PackFixedBytes_def write_here_def Let_def)
  then show "\<exists>p'. PackFixedBytes bs p = Inr ((), p') \<and> wrote bs p p'"
    using q room by (auto simp: wrote_def has_room_def write_here_def Errored_def Let_def)
qed

lemma fixed_writes: "writes (PackFixedBytes bs)"
  unfolding writes_def
proof (intro allI impI)
  fix p assume sl: "in_slice p"
  let ?P = "\<lambda>p'. PackFixedBytes bs p = Inr ((), p') \<and> in_slice p'
     \<and> pk_MaxSize p' = pk_MaxSize p \<and> pk_Offset p \<le> pk_Offset p'
     \<and> len (pk_Bytes p) \<le> len (pk_Bytes p') \<and> len (pk_Bytes p') \<le> max (pk_MaxSize p) (len (pk_Bytes p))
     \<and> (Errored p \<longrightarrow> Errored p' \<and> pk_Offset p' = pk_Offset p)"
  show "\<exists>p'. ?P p'"
  proof (cases "has_room p (len bs)")
    case True
    then obtain q where "PackFixedBytes bs p = Inr ((), q)" "wrote bs p q"
      using fixed_packs unfolding packs_def by blast
    then show ?thesis
      using wrote_len [of bs p q] True by (intro exI [of _ q]) (auto simp: wrote_def has_room_def)
  next
    case False
    let ?q = "Expand (len bs) p"
    have "Errored ?q \<and> in_slice ?q \<and> pk_MaxSize ?q = pk_MaxSize p \<and> pk_Offset p = pk_Offset ?q
     \<and> len (pk_Bytes p) \<le> len (pk_Bytes ?q) \<and> len (pk_Bytes ?q) \<le> max (pk_MaxSize p) (len (pk_Bytes p))"
    proof (cases "pk_Offset p + len bs \<le> max (pk_MaxSize p) (len (pk_Bytes p))")
      case True
      then show ?thesis using Expand_room [of p "len bs"] sl False
        by (auto simp: has_room_def in_slice_def Errored_def)
    next
      case nr: False
      then have "?q = p\<lparr>pk_Err := Some errBadLength\<rparr>" by (intro Expand_full) (simp add: not_le)
      then show ?thesis using sl by (simp add: in_slice_def Errored_def)
    qed
    then show ?thesis by (intro exI [of _ ?q]) (auto simp: PackFixedBytes_def)
  qed
qed

lemma fixed_unpacks: "n = len bs \<Longrightarrow> unpacks (UnpackFixedBytes n) bs bs"
  by (auto simp: unpacks_def at_cursor_def UnpackFixedBytes_def CheckSpace_def tail_at_def Let_def len_def)

lemma fixed_reads: "reads (UnpackFixedBytes n)"
  unfolding reads_def
proof
  fix p
  show "\<exists>x p'. UnpackFixedBytes n p = Inr (x, p') \<and> pk_Bytes p' = pk_Bytes p \<and> pk_MaxSize p' = pk_MaxSize p
     \<and> pk_Offset p \<le> pk_Offset p' \<and> (in_slice p \<longrightarrow> in_slice p') \<and> (Errored p \<longrightarrow> p' = p)"
    using CheckSpace_cases [of n p]
    by (auto simp: UnpackFixedBytes_def tail_at_def Let_def in_slice_def len_def)
qed

lemma fixed_canon: "canon (UnpackFixedBytes n) (\<lambda>x bs. bs = x \<and> len x = n)"
  unfolding canon_def
proof (intro allI impI)
  fix p x p'
  assume "UnpackFixedBytes n p = Inr (x, p')" "\<not> Errored p'"
  then show "\<exists>bs. (bs = x \<and> len x = n) \<and> consumed p bs p'"
    using CheckSpace_cases [of n p]
    by (auto simp: UnpackFixedBytes_def tail_at_def Let_def consumed_def at_cursor_def len_def
        split: if_splits)
qed

section \<open>Wire formats\<close>

text \<open>
  A pair of operations and the byte string \<open>enc x\<close> of each value \<open>x\<close> it can represent (\<open>ok x\<close>).
\<close>

locale wire_format =
  fixes pack :: "'a \<Rightarrow> unit pk"
    and unpack :: "'a pk"
    and enc :: "'a \<Rightarrow> byte list"
    and ok :: "'a \<Rightarrow> bool"
  assumes pack_enc: "ok x \<Longrightarrow> packs (pack x) (enc x)"
    and unpack_enc: "ok x \<Longrightarrow> unpacks unpack x (enc x)"
    and unpack_reads: "reads unpack"
    and unpack_canon: "canon unpack (\<lambda>x bs. ok x \<and> bs = enc x)"
begin

text \<open>What was packed is unpacked again, wherever in the slice.\<close>

lemma roundtrip:
  assumes "ok x" "has_room p (len (enc x))"
  shows "\<exists>p'. pack x p = Inr ((), p') \<and> wrote (enc x) p p' \<and> unpack (p'\<lparr>pk_Offset := pk_Offset p\<rparr>) = Inr (x, p')"
proof -
  obtain q where q: "pack x p = Inr ((), q)" "wrote (enc x) p q"
    using pack_enc assms unfolding packs_def by blast
  have "at_cursor (q\<lparr>pk_Offset := pk_Offset p\<rparr>) (enc x)"
    using q(2) by (auto simp: at_cursor_def wrote_def in_slice_def len_def Errored_def)
  then have "unpack (q\<lparr>pk_Offset := pk_Offset p\<rparr>) = Inr (x, q)"
    using unpack_enc [OF assms(1)] q(2) by (simp add: unpacks_def advance_def wrote_def)
  then show ?thesis using q by blast
qed

text \<open>Writing a value back over the bytes it was read from changes nothing.\<close>

lemma rewrite_same:
  assumes "unpack p = Inr (x, p')" "\<not> Errored p'" "in_slice p"
  shows "\<exists>q. pack x p = Inr ((), q) \<and> pk_Bytes q = pk_Bytes p \<and> pk_Offset q = pk_Offset p' \<and> \<not> Errored q"
proof -
  have x: "ok x" "consumed p (enc x) p'"
    using unpack_canon assms unfolding canon_def by blast+
  have "has_room p (len (enc x))"
    using x(2) assms(3) by (auto simp: consumed_def at_cursor_def has_room_def in_slice_def)
  then obtain q where "pack x p = Inr ((), q)" "wrote (enc x) p q"
    using pack_enc [OF x(1)] unfolding packs_def by blast
  then show ?thesis using wrote_consumed [OF _ x(2)] by blast
qed

text \<open>The encoding is injective, also when other bytes follow.\<close>

lemma enc_prefix:
  assumes "ok x" "ok y" "enc x @ r = enc y @ s"
  shows "x = y \<and> r = s"
proof -
  define p :: Packer where "p = \<lparr>pk_Err = None, pk_MaxSize = 0, pk_Bytes = enc x @ r, pk_spare = [],
    pk_grow = id, pk_Offset = 0\<rparr>"
  have x: "at_cursor p (enc x)"
    by (simp add: p_def at_cursor_def len_def Errored_def)
  have "at_cursor p (enc y)"
    unfolding p_def assms(3) by (simp add: at_cursor_def len_def Errored_def)
  then have "Inr (x, advance (len (enc x)) p) = (Inr (y, advance (len (enc y)) p) :: go_panic + _)"
    using unpack_enc [OF assms(1)] unpack_enc [OF assms(2)] x unfolding unpacks_def by metis
  then show ?thesis using assms(3) by auto
qed

lemma pack_all_packs: "list_all ok xs \<Longrightarrow> packs (pack_all pack xs) (concat (map enc xs))"
  by (induction xs) (auto intro: packs_ret packs_then pack_enc)

lemma pack_until_packs: "list_all ok xs \<Longrightarrow> packs (pack_until_err pack xs) (concat (map enc xs))"
proof (induction xs)
  case (Cons x xs)
  then have "packs (thenP (pack x) (pack_until_err pack xs)) (concat (map enc (x # xs)))"
    by (auto intro: packs_then pack_enc)
  then show ?case by (simp add: packs_def has_room_def)
qed (simp add: packs_ret)

lemma unpack_n_unpacks: "list_all ok xs \<Longrightarrow> unpacks (unpack_n unpack (length xs)) xs (concat (map enc xs))"
proof (induction xs)
  case (Cons x xs)
  then have "unpacks (bindP unpack (\<lambda>x. bindP (unpack_n unpack (length xs)) (\<lambda>xs. retP (x # xs))))
      (x # xs) (enc x @ concat (map enc xs))"
    by (intro unpacks_bind unpacks_map) (auto intro: unpack_enc)
  then show ?case by (simp add: unpacks_def at_cursor_def)
qed (simp add: unpacks_ret)

lemma unpack_n_reads: "reads (unpack_n unpack n)"
proof (induction n)
  case (Suc n)
  then have "reads (bindP unpack (\<lambda>x. bindP (unpack_n unpack n) (\<lambda>xs. retP (x # xs))))"
    by (intro reads_bind unpack_reads reads_ret)
  then show ?case unfolding unpack_n.simps by (rule reads_guard)
qed (simp only: unpack_n.simps reads_ret)

lemma unpack_n_canon:
  "canon (unpack_n unpack n) (\<lambda>xs bs. length xs = n \<and> list_all ok xs \<and> bs = concat (map enc xs))"
proof (induction n)
  case (Suc n)
  have "canon (bindP unpack (\<lambda>x. bindP (unpack_n unpack n) (\<lambda>xs. retP (x # xs))))
     (\<lambda>ys bs. length ys = Suc n \<and> list_all ok ys \<and> bs = concat (map enc ys))"
  proof (rule canon_mono [OF canon_bind [OF unpack_canon]])
    fix x
    show "canon (bindP (unpack_n unpack n) (\<lambda>xs. retP (x # xs)))
       (\<lambda>ys bs. \<exists>xs. ys = x # xs \<and> length xs = n \<and> list_all ok xs \<and> bs = concat (map enc xs))"
      by (rule canon_map [OF Suc.IH]) blast
  qed auto
  then show ?case by (auto simp: canon_def)
qed (auto simp: canon_def consumed_def)

end

end
