(* ===== verification/PackingFormats.thy ===== *)
theory PackingFormats
  imports WireFormat
begin

text \<open>
  Every pair of packing and unpacking operations of \<open>src/utils/wrappers/packing.go\<close> is a
  \<open>wire_format\<close>: the encodings as plain functions on byte strings, the interpretations of the
  locale on the operations, and the properties that follow from them.
\<close>

section \<open>Integers, booleans, fixed bytes\<close>

lemma packs_cong: "(\<And>p. 0 \<le> pk_Offset p \<Longrightarrow> m p = m' p) \<Longrightarrow> packs m' bs \<Longrightarrow> packs m bs"
  by (simp add: packs_def has_room_def in_slice_def)

lemma writes_cong: "(\<And>p. 0 \<le> pk_Offset p \<Longrightarrow> m p = m' p) \<Longrightarrow> writes m' \<Longrightarrow> writes m"
  by (simp add: writes_def in_slice_def)

lemma uint_wire:
  fixes P :: "'w::len word \<Rightarrow> unit pk"
  assumes P: "\<And>w p. 0 \<le> pk_Offset p \<Longrightarrow> P w p = PackFixedBytes (be_bytes n w) p"
    and U: "U = bindP (UnpackFixedBytes (int n)) (\<lambda>bs. retP (be_read bs))"
    and n: "LENGTH('w) = 8 * n"
  shows "wire_format P U (be_bytes n) (\<lambda>_. True)"
proof
  fix w :: "'w word"
  show "packs (P w) (be_bytes n w)" using P fixed_packs by (rule packs_cong)
  have "unpacks (UnpackFixedBytes (int n)) (be_bytes n w) (be_bytes n w)"
    by (rule fixed_unpacks) (simp add: len_def)
  then show "unpacks U w (be_bytes n w)" unfolding U by (rule unpacks_map) (simp add: be_read_bytes n)
  show "reads U" unfolding U by (intro reads_bind fixed_reads reads_ret)
  show "canon U (\<lambda>w bs. True \<and> bs = be_bytes n w)" unfolding U
    by (rule canon_map [OF fixed_canon]) (use be_bytes_read [where 'w = 'w] n in \<open>auto simp: len_def\<close>)
qed

interpretation byte_fmt: wire_format PackByte UnpackByte "be_bytes 1" "\<lambda>_. True"
  by (rule uint_wire) (simp_all add: pack_eq_fixed unpack_eq_fixed)

interpretation short_fmt: wire_format PackShort UnpackShort "be_bytes 2" "\<lambda>_. True"
  by (rule uint_wire) (simp_all add: pack_eq_fixed unpack_eq_fixed)

interpretation int_fmt: wire_format PackInt UnpackInt "be_bytes 4" "\<lambda>_. True"
  by (rule uint_wire) (simp_all add: pack_eq_fixed unpack_eq_fixed)

interpretation long_fmt: wire_format PackLong UnpackLong "be_bytes 8" "\<lambda>_. True"
  by (rule uint_wire) (simp_all add: pack_eq_fixed unpack_eq_fixed)

lemma fixed_wire: "wire_format PackFixedBytes (UnpackFixedBytes n) (\<lambda>b. b) (\<lambda>b. len b = n)"
proof
  show "canon (UnpackFixedBytes n) (\<lambda>x bs. len x = n \<and> bs = x)"
    by (rule canon_mono [OF fixed_canon]) simp
qed (simp_all add: fixed_packs fixed_unpacks fixed_reads)

interpretation hash_fmt: wire_format PackFixedBytes "UnpackFixedBytes HashLen" "\<lambda>b. b" "\<lambda>b. len b = HashLen"
  by (rule fixed_wire)

lemma bool_canon: "canon UnpackBool (\<lambda>x bs. True \<and> bs = be_bytes 1 (if x then 1 else 0 :: byte))"
  unfolding UnpackBool_def
proof (rule canon_mono [OF canon_bind [OF byte_fmt.unpack_canon]])
  fix b :: byte
  show "canon (\<lambda>p. if b = 0 then Inr (False, p) else if b = 1 then Inr (True, p) else Inr (False, Add errBadBool p))
      (\<lambda>x bs. b = (if x then 1 else 0) \<and> bs = [])"
    by (auto simp: canon_def consumed_def split: if_splits)
qed auto

interpretation bool_fmt: wire_format PackBool UnpackBool "\<lambda>b. be_bytes 1 (if b then 1 else 0 :: byte)" "\<lambda>_. True"
proof
  fix x
  show "packs (PackBool x) (be_bytes 1 (if x then 1 else 0 :: byte))"
    using byte_fmt.pack_enc by (simp add: PackBool_def)
  have "unpacks UnpackBool x (be_bytes 1 (if x then 1 else 0 :: byte) @ [])"
    unfolding UnpackBool_def
    by (rule unpacks_bind [OF byte_fmt.unpack_enc]) (auto simp: unpacks_def)
  then show "unpacks UnpackBool x (be_bytes 1 (if x then 1 else 0 :: byte))" by simp
  have "reads (\<lambda>p. if b = 0 then Inr (False, p) else if b = 1 then Inr (True, p) else Inr (False, Add errBadBool p))"
    for b :: byte by (auto simp: reads_def in_slice_def)
  then show "reads UnpackBool" unfolding UnpackBool_def by (intro reads_bind byte_fmt.unpack_reads)
qed (rule bool_canon)

section \<open>Length-prefixed data\<close>

definition enc_bytes :: "byte list \<Rightarrow> byte list" where
  "enc_bytes b = be_bytes 4 (of_nat (length b) :: 32 word) @ b"

definition enc_list :: "('x \<Rightarrow> byte list) \<Rightarrow> 'x list \<Rightarrow> byte list" where
  "enc_list e xs = be_bytes 4 (of_nat (length xs) :: 32 word) @ concat (map e xs)"

definition enc_str :: "byte list \<Rightarrow> byte list" where
  "enc_str b = be_bytes 2 (of_nat (length b) :: 16 word) @ b"

definition ok_bytes :: "byte list \<Rightarrow> bool" where
  "ok_bytes b = (length b < 2 ^ 32)"

definition ok_list :: "('x \<Rightarrow> bool) \<Rightarrow> 'x list \<Rightarrow> bool" where
  "ok_list k xs = (length xs < 2 ^ 32 \<and> list_all k xs)"

definition ok_str :: "byte list \<Rightarrow> bool" where
  "ok_str b = (length b < 2 ^ 16)"

lemma unat_len32: "length xs < 2 ^ 32 \<Longrightarrow> unat (of_nat (length xs) :: 32 word) = length xs"
  by (simp add: unsigned_of_nat take_bit_nat_eq_self)

lemma uint_len: "length xs < 2 ^ LENGTH('w::len) \<Longrightarrow> uint (of_nat (length xs) :: 'w word) = len xs"
  by (simp add: len_def unsigned_of_nat take_bit_nat_eq_self)

lemma len_uint: "len x = uint (n :: 'w::len word) \<Longrightarrow> length x < 2 ^ LENGTH('w) \<and> of_nat (length x) = n"
proof -
  assume "len x = uint n"
  then have "nat (len x) = nat (uint n)" by (rule arg_cong)
  then have "length x = unat n" by (simp only: nat_len unat_eq_nat_uint)
  then show ?thesis using unsigned_less [of n] by simp
qed

text \<open>A slice of encodable elements, counted by a \<open>uint32\<close>.\<close>

context wire_format
begin

lemma list_unpacks: "ok_list ok xs \<Longrightarrow>
  unpacks (bindP UnpackInt (\<lambda>n. unpack_n unpack (unat n))) xs (enc_list enc xs)"
  unfolding enc_list_def
  by (rule unpacks_bind [OF int_fmt.unpack_enc])
     (use unpack_n_unpacks [of xs] in \<open>simp_all add: ok_list_def unat_len32 del: of_nat_id\<close>)

lemma list_canon: "canon (bindP UnpackInt (\<lambda>n. unpack_n unpack (unat n))) (\<lambda>xs bs. ok_list ok xs \<and> bs = enc_list enc xs)"
proof (rule canon_mono [OF canon_bind [OF int_fmt.unpack_canon unpack_n_canon]])
  fix xs bs
  assume "\<exists>n a b. (True \<and> a = be_bytes 4 (n :: 32 word)) \<and>
      (length xs = unat n \<and> list_all ok xs \<and> b = concat (map enc xs)) \<and> bs = a @ b"
  then obtain n :: "32 word" where n: "length xs = unat n" "list_all ok xs" "bs = be_bytes 4 n @ concat (map enc xs)"
    by blast
  have "length xs < 2 ^ 32" using n(1) unsigned_less [of n] by simp
  then show "ok_list ok xs \<and> bs = enc_list enc xs" using n by (simp add: ok_list_def enc_list_def)
qed

lemma list_wire:
  "wire_format (\<lambda>xs. thenP (PackInt (of_nat (length xs))) (pack_all pack xs))
     (bindP UnpackInt (\<lambda>n. unpack_n unpack (unat n))) (enc_list enc) (ok_list ok)"
proof
  fix xs
  show "packs (thenP (PackInt (of_nat (length xs))) (pack_all pack xs)) (enc_list enc xs)" if "ok_list ok xs"
    unfolding enc_list_def
    by (intro packs_then int_fmt.pack_enc pack_all_packs TrueI) (use that in \<open>simp add: ok_list_def\<close>)
qed (auto intro: list_unpacks list_canon reads_bind int_fmt.unpack_reads unpack_n_reads)

end

interpretation bytes_fmt: wire_format PackBytes UnpackBytes enc_bytes ok_bytes
proof
  fix x
  show "packs (PackBytes x) (enc_bytes x)" unfolding PackBytes_def enc_bytes_def
    by (intro packs_then int_fmt.pack_enc fixed_packs TrueI)
  show "unpacks UnpackBytes x (enc_bytes x)" if "ok_bytes x" unfolding UnpackBytes_def enc_bytes_def
    by (rule unpacks_bind [OF int_fmt.unpack_enc fixed_unpacks])
       (use that in \<open>simp_all add: uint_len ok_bytes_def\<close>)
  show "reads UnpackBytes" unfolding UnpackBytes_def by (intro reads_bind int_fmt.unpack_reads fixed_reads)
  show "canon UnpackBytes (\<lambda>x bs. ok_bytes x \<and> bs = enc_bytes x)" unfolding UnpackBytes_def
    by (rule canon_mono [OF canon_bind [OF int_fmt.unpack_canon fixed_canon]])
       (auto simp: ok_bytes_def enc_bytes_def dest!: len_uint)
qed

interpretation str_fmt: wire_format PackStr UnpackStr enc_str ok_str
proof
  fix x
  show "packs (PackStr x) (enc_str x)" if "ok_str x"
  proof -
    have "PackStr x = thenP (PackShort (of_nat (length x))) (PackFixedBytes x)"
      using that by (simp add: PackStr_def ok_str_def MaxStringLen_def len_def Let_def)
    then show ?thesis unfolding enc_str_def
      by (simp only:) (intro packs_then short_fmt.pack_enc fixed_packs TrueI)
  qed
  show "unpacks UnpackStr x (enc_str x)" if "ok_str x" unfolding UnpackStr_def enc_str_def
    by (rule unpacks_bind [OF short_fmt.unpack_enc fixed_unpacks])
       (use that in \<open>simp_all add: uint_len ok_str_def\<close>)
  show "reads UnpackStr" unfolding UnpackStr_def by (intro reads_bind short_fmt.unpack_reads fixed_reads)
  show "canon UnpackStr (\<lambda>x bs. ok_str x \<and> bs = enc_str x)" unfolding UnpackStr_def
    by (rule canon_mono [OF canon_bind [OF short_fmt.unpack_canon fixed_canon]])
       (auto simp: ok_str_def enc_str_def dest!: len_uint)
qed

lemma UnpackFixedByteSlices_wire:
  "wire_format PackFixedByteSlices (UnpackFixedByteSlices n) (enc_list (\<lambda>b. b)) (ok_list (\<lambda>b. len b = n))"
  using wire_format.list_wire [OF fixed_wire [of n]]
  by (simp add: PackFixedByteSlices_def [abs_def] UnpackFixedByteSlices_def)

interpretation hashes_fmt: wire_format PackFixedByteSlices "UnpackFixedByteSlices HashLen"
  "enc_list (\<lambda>b. b)" "ok_list (\<lambda>b. len b = HashLen)"
  by (rule UnpackFixedByteSlices_wire)

interpretation bytess_fmt: wire_format Pack2DByteSlice Unpack2DByteSlice "enc_list enc_bytes" "ok_list ok_bytes"
  using bytes_fmt.list_wire by (simp add: Pack2DByteSlice_def [abs_def] Unpack2DByteSlice_def)

section \<open>Addresses and certificates\<close>

definition enc_ip :: "IPPort \<Rightarrow> byte list" where
  "enc_ip ip = To16 (ip_IP ip) @ be_bytes 2 (ip_Port ip)"

definition ok_ip :: "IPPort \<Rightarrow> bool" where
  "ok_ip ip = (length (ip_IP ip) = 16)"

definition enc_cert :: "Certificate option \<Rightarrow> byte list" where
  "enc_cert c = (case c of None \<Rightarrow> [] | Some raw \<Rightarrow> enc_bytes raw)"

definition ok_cert :: "(byte list \<Rightarrow> bool) \<Rightarrow> Certificate option \<Rightarrow> bool" where
  "ok_cert okc c = (case c of None \<Rightarrow> False | Some raw \<Rightarrow> ok_bytes raw \<and> okc raw)"

definition enc_claimed :: "ClaimedIPPort \<Rightarrow> byte list" where
  "enc_claimed c = enc_cert (cl_Cert c) @ enc_ip (cl_IPPort c) @ be_bytes 8 (cl_Timestamp c)
     @ enc_bytes (cl_Signature c)"

definition ok_claimed :: "(byte list \<Rightarrow> bool) \<Rightarrow> ClaimedIPPort \<Rightarrow> bool" where
  "ok_claimed okc c = (ok_cert okc (cl_Cert c) \<and> ok_ip (cl_IPPort c) \<and> ok_bytes (cl_Signature c))"

lemma PackIP_packs: "packs (PackIP ip) (enc_ip ip)"
  unfolding PackIP_def enc_ip_def by (intro packs_then short_fmt.pack_enc fixed_packs TrueI)

interpretation ip_fmt: wire_format PackIP UnpackIP enc_ip ok_ip
proof
  fix x
  show "unpacks UnpackIP x (enc_ip x)" if "ok_ip x"
  proof -
    have "unpacks UnpackIP \<lparr>ip_IP = ip_IP x, ip_Port = ip_Port x\<rparr> (ip_IP x @ be_bytes 2 (ip_Port x))"
      unfolding UnpackIP_def
      by (rule unpacks_bind [OF fixed_unpacks]) (use that in \<open>auto simp: ok_ip_def len_def intro!: unpacks_map short_fmt.unpack_enc\<close>)
    moreover have "\<lparr>ip_IP = ip_IP x, ip_Port = ip_Port x\<rparr> = x" by simp
    ultimately show ?thesis using that by (simp only: ok_ip_def enc_ip_def To16_def) simp
  qed
  show "reads UnpackIP" unfolding UnpackIP_def
    by (intro reads_bind short_fmt.unpack_reads fixed_reads reads_ret)
  show "canon UnpackIP (\<lambda>x bs. ok_ip x \<and> bs = enc_ip x)" unfolding UnpackIP_def
    by (rule canon_mono [OF canon_bind [OF fixed_canon canon_bind [OF short_fmt.unpack_canon canon_ret]]])
       (auto simp: ok_ip_def enc_ip_def To16_def len_def)
qed (rule PackIP_packs)

interpretation ips_fmt: wire_format PackIPs UnpackIPs "enc_list enc_ip" "ok_list ok_ip"
proof
  fix x :: "IPPort list"
  show "packs (PackIPs x) (enc_list enc_ip x)" if "ok_list ok_ip x"
    unfolding PackIPs_def enc_list_def
    by (intro packs_then int_fmt.pack_enc ip_fmt.pack_until_packs TrueI) (use that in \<open>simp add: ok_list_def\<close>)
  show "unpacks UnpackIPs x (enc_list enc_ip x)" if "ok_list ok_ip x"
    unfolding UnpackIPs_def by (rule ip_fmt.list_unpacks [OF that])
  show "reads UnpackIPs" unfolding UnpackIPs_def
    by (intro reads_bind int_fmt.unpack_reads ip_fmt.unpack_n_reads)
  show "canon UnpackIPs (\<lambda>x bs. ok_list ok_ip x \<and> bs = enc_list enc_ip x)"
    unfolding UnpackIPs_def by (rule ip_fmt.list_canon)
qed

lemma cert_wire: "wire_format PackX509Certificate (UnpackX509Certificate okc) enc_cert (ok_cert okc)"
proof
  fix x :: "Certificate option"
  show "packs (PackX509Certificate x) (enc_cert x)" if "ok_cert okc x"
    using that bytes_fmt.pack_enc by (auto simp: PackX509Certificate_def enc_cert_def ok_cert_def split: option.splits)
  show "unpacks (UnpackX509Certificate okc) x (enc_cert x)" if ok: "ok_cert okc x"
  proof -
    obtain raw where raw: "x = Some raw" "ok_bytes raw" "okc raw"
      using ok by (auto simp: ok_cert_def split: option.splits)
    have "unpacks (UnpackX509Certificate okc) x (enc_bytes raw @ [])" unfolding UnpackX509Certificate_def
      by (rule unpacks_bind [OF bytes_fmt.unpack_enc]) (use raw in \<open>auto simp: unpacks_def\<close>)
    then show ?thesis using raw by (simp add: enc_cert_def)
  qed
  have "reads (\<lambda>p. if okc b then Inr (Some b, p) else Inr (None, Add errBadCert p))" for b
    by (simp add: reads_def in_slice_def)
  then show "reads (UnpackX509Certificate okc)" unfolding UnpackX509Certificate_def
    by (intro reads_bind bytes_fmt.unpack_reads)
  show "canon (UnpackX509Certificate okc) (\<lambda>x bs. ok_cert okc x \<and> bs = enc_cert x)"
    unfolding UnpackX509Certificate_def
  proof (rule canon_mono [OF canon_bind [OF bytes_fmt.unpack_canon]])
    fix b
    show "canon (\<lambda>p. if okc b then Inr (Some b, p) else Inr (None, Add errBadCert p))
        (\<lambda>y bs. y = Some b \<and> okc b \<and> bs = [])"
      by (auto simp: canon_def consumed_def split: if_splits)
  qed (auto simp: ok_cert_def enc_cert_def)
qed

lemma claimed_wire:
  "wire_format PackClaimedIPPort (UnpackClaimedIPPort okc) enc_claimed (ok_claimed okc)"
proof
  fix x :: ClaimedIPPort
  show "packs (PackClaimedIPPort x) (enc_claimed x)" if "ok_claimed okc x"
    unfolding PackClaimedIPPort_def enc_claimed_def
    by (intro packs_then wire_format.pack_enc [OF cert_wire [of okc]] ip_fmt.pack_enc long_fmt.pack_enc bytes_fmt.pack_enc)
       (use that in \<open>auto simp: ok_claimed_def\<close>)
  show "unpacks (UnpackClaimedIPPort okc) x (enc_claimed x)" if "ok_claimed okc x"
    unfolding UnpackClaimedIPPort_def enc_claimed_def
    by (rule unpacks_bind [OF wire_format.unpack_enc [OF cert_wire] unpacks_bind [OF ip_fmt.unpack_enc
          unpacks_bind [OF long_fmt.unpack_enc unpacks_map [OF bytes_fmt.unpack_enc]]]])
       (use that in \<open>auto simp: ok_claimed_def\<close>)
  show "reads (UnpackClaimedIPPort okc)" unfolding UnpackClaimedIPPort_def
    by (intro reads_bind wire_format.unpack_reads [OF cert_wire] ip_fmt.unpack_reads long_fmt.unpack_reads
        bytes_fmt.unpack_reads reads_ret)
  show "canon (UnpackClaimedIPPort okc) (\<lambda>x bs. ok_claimed okc x \<and> bs = enc_claimed x)"
    unfolding UnpackClaimedIPPort_def
    by (rule canon_mono [OF canon_bind [OF wire_format.unpack_canon [OF cert_wire] canon_bind [OF ip_fmt.unpack_canon
          canon_bind [OF long_fmt.unpack_canon canon_bind [OF bytes_fmt.unpack_canon canon_ret]]]]])
       (auto simp: ok_claimed_def enc_claimed_def)
qed

end
