(* ===== verification/PackingValues.thy ===== *)
theory PackingValues
  imports PackingFormats
begin

text \<open>
  The operations on values of dynamic type (\<open>TryPackX\<close>, \<open>TryUnpackX\<close> of
  \<open>src/utils/wrappers/packing.go\<close>) as one family of wire formats, and the properties of the
  packer: round trip, canonical encoding, no panics, size bound.
\<close>

section \<open>The wire types\<close>

datatype wire = W_byte | W_int | W_long | W_hash | W_hashes | W_bytes | W_2dbytes | W_str | W_ip
  | W_claimed | W_longs

text \<open>The operations of a wire type, its encoding, and the values it can represent.\<close>

fun try_pack :: "wire \<Rightarrow> intf \<Rightarrow> unit pk" where
  "try_pack W_byte = TryPackByte" | "try_pack W_int = TryPackInt" | "try_pack W_long = TryPackLong"
| "try_pack W_hash = TryPackHash" | "try_pack W_hashes = TryPackHashes" | "try_pack W_bytes = TryPackBytes"
| "try_pack W_2dbytes = TryPack2DBytes" | "try_pack W_str = TryPackStr" | "try_pack W_ip = TryPackIP"
| "try_pack W_claimed = TryPackClaimedIPPortList" | "try_pack W_longs = TryPackUint64Slice"

fun try_unpack :: "(byte list \<Rightarrow> bool) \<Rightarrow> wire \<Rightarrow> intf pk" where
  "try_unpack okc W_byte = TryUnpackByte" | "try_unpack okc W_int = TryUnpackInt"
| "try_unpack okc W_long = TryUnpackLong" | "try_unpack okc W_hash = TryUnpackHash"
| "try_unpack okc W_hashes = TryUnpackHashes" | "try_unpack okc W_bytes = TryUnpackBytes"
| "try_unpack okc W_2dbytes = TryUnpack2DBytes" | "try_unpack okc W_str = TryUnpackStr"
| "try_unpack okc W_ip = TryUnpackIP" | "try_unpack okc W_claimed = TryUnpackClaimedIPPortList okc"
| "try_unpack okc W_longs = TryUnpackUint64Slice"

fun enc_as :: "wire \<Rightarrow> intf \<Rightarrow> byte list" where
  "enc_as W_byte v = (case v of V_uint8 x \<Rightarrow> be_bytes 1 x | _ \<Rightarrow> [])"
| "enc_as W_int v = (case v of V_uint32 x \<Rightarrow> be_bytes 4 x | _ \<Rightarrow> [])"
| "enc_as W_long v = (case v of V_uint64 x \<Rightarrow> be_bytes 8 x | _ \<Rightarrow> [])"
| "enc_as W_hash v = (case v of V_bytes x \<Rightarrow> x | _ \<Rightarrow> [])"
| "enc_as W_hashes v = (case v of V_bytess x \<Rightarrow> enc_list (\<lambda>b. b) x | _ \<Rightarrow> [])"
| "enc_as W_bytes v = (case v of V_bytes x \<Rightarrow> enc_bytes x | _ \<Rightarrow> [])"
| "enc_as W_2dbytes v = (case v of V_bytess x \<Rightarrow> enc_list enc_bytes x | _ \<Rightarrow> [])"
| "enc_as W_str v = (case v of V_string x \<Rightarrow> enc_str x | _ \<Rightarrow> [])"
| "enc_as W_ip v = (case v of V_ip x \<Rightarrow> enc_ip x | _ \<Rightarrow> [])"
| "enc_as W_claimed v = (case v of V_claimed x \<Rightarrow> enc_list enc_claimed x | _ \<Rightarrow> [])"
| "enc_as W_longs v = (case v of V_uint64s x \<Rightarrow> enc_list (be_bytes 8) x | _ \<Rightarrow> [])"

fun ok_as :: "(byte list \<Rightarrow> bool) \<Rightarrow> wire \<Rightarrow> intf \<Rightarrow> bool" where
  "ok_as okc W_byte v = (case v of V_uint8 x \<Rightarrow> True | _ \<Rightarrow> False)"
| "ok_as okc W_int v = (case v of V_uint32 x \<Rightarrow> True | _ \<Rightarrow> False)"
| "ok_as okc W_long v = (case v of V_uint64 x \<Rightarrow> True | _ \<Rightarrow> False)"
| "ok_as okc W_hash v = (case v of V_bytes x \<Rightarrow> len x = HashLen | _ \<Rightarrow> False)"
| "ok_as okc W_hashes v = (case v of V_bytess x \<Rightarrow> ok_list (\<lambda>b. len b = HashLen) x | _ \<Rightarrow> False)"
| "ok_as okc W_bytes v = (case v of V_bytes x \<Rightarrow> ok_bytes x | _ \<Rightarrow> False)"
| "ok_as okc W_2dbytes v = (case v of V_bytess x \<Rightarrow> ok_list ok_bytes x | _ \<Rightarrow> False)"
| "ok_as okc W_str v = (case v of V_string x \<Rightarrow> ok_str x | _ \<Rightarrow> False)"
| "ok_as okc W_ip v = (case v of V_ip x \<Rightarrow> ok_ip x | _ \<Rightarrow> False)"
| "ok_as okc W_claimed v = (case v of V_claimed x \<Rightarrow> ok_list (ok_claimed okc) x | _ \<Rightarrow> False)"
| "ok_as okc W_longs v = (case v of V_uint64s x \<Rightarrow> ok_list (\<lambda>_. True) x | _ \<Rightarrow> False)"

lemma wire_map:
  assumes "wire_format P U e k"
    and "\<And>x. TP (C x) = P x" "\<And>x. E (C x) = e x" "\<And>x. K (C x) = k x" "\<And>v. K v \<Longrightarrow> \<exists>x. v = C x"
    and "TU = bindP U (\<lambda>x. retP (C x))"
  shows "wire_format TP TU E K"
proof
  fix v
  show "packs (TP v) (E v)" if "K v"
    using wire_format.pack_enc [OF assms(1)] assms(2-5) that by metis
  show "unpacks TU v (E v)" if k: "K v"
  proof -
    obtain x where "v = C x" using assms(5) k by blast
    then show ?thesis using k unfolding assms(6)
      by (simp add: assms(3,4)) (rule unpacks_map [OF wire_format.unpack_enc [OF assms(1)]], simp_all)
  qed
  show "reads TU" unfolding assms(6)
    by (intro reads_bind reads_ret wire_format.unpack_reads [OF assms(1)])
  show "canon TU (\<lambda>x bs. K x \<and> bs = E x)" unfolding assms(6)
    by (rule canon_map [OF wire_format.unpack_canon [OF assms(1)]]) (simp add: assms(3,4))
qed

lemma bindP_assoc: "bindP (bindP m f) g = bindP m (\<lambda>x. bindP (f x) g)"
  by (rule ext) (auto simp: bindP_apply bindR_def split: sum.split)

lemma ok_as_cases:
  "ok_as okc W_byte v \<Longrightarrow> \<exists>x. v = V_uint8 x" "ok_as okc W_int v \<Longrightarrow> \<exists>x. v = V_uint32 x"
  "ok_as okc W_long v \<Longrightarrow> \<exists>x. v = V_uint64 x" "ok_as okc W_hash v \<Longrightarrow> \<exists>x. v = V_bytes x"
  "ok_as okc W_hashes v \<Longrightarrow> \<exists>x. v = V_bytess x" "ok_as okc W_bytes v \<Longrightarrow> \<exists>x. v = V_bytes x"
  "ok_as okc W_2dbytes v \<Longrightarrow> \<exists>x. v = V_bytess x" "ok_as okc W_str v \<Longrightarrow> \<exists>x. v = V_string x"
  "ok_as okc W_ip v \<Longrightarrow> \<exists>x. v = V_ip x" "ok_as okc W_claimed v \<Longrightarrow> \<exists>x. v = V_claimed x"
  "ok_as okc W_longs v \<Longrightarrow> \<exists>x. v = V_uint64s x"
  by (cases v; simp)+

lemmas try_defs =
  TryPackByte_def TryPackInt_def TryPackLong_def TryPackHash_def TryPackHashes_def TryPackBytes_def
  TryPack2DBytes_def TryPackStr_def TryPackIP_def TryPackClaimedIPPortList_def TryPackUint64Slice_def
  TryUnpackByte_def TryUnpackInt_def TryUnpackLong_def TryUnpackHash_def TryUnpackHashes_def TryUnpackBytes_def
  TryUnpack2DBytes_def TryUnpackStr_def TryUnpackIP_def TryUnpackClaimedIPPortList_def TryUnpackUint64Slice_def

lemma try_wire: "wire_format (try_pack w) (try_unpack okc w) (enc_as w) (ok_as okc w)"
proof (cases w)
  case W_byte
  show ?thesis unfolding W_byte
    by (rule wire_map [OF byte_fmt.wire_format_axioms, where C = V_uint8]) (simp_all add: try_defs ok_as_cases)
next
  case W_int
  show ?thesis unfolding W_int
    by (rule wire_map [OF int_fmt.wire_format_axioms, where C = V_uint32]) (simp_all add: try_defs ok_as_cases)
next
  case W_long
  show ?thesis unfolding W_long
    by (rule wire_map [OF long_fmt.wire_format_axioms, where C = V_uint64]) (simp_all add: try_defs ok_as_cases)
next
  case W_hash
  show ?thesis unfolding W_hash
    by (rule wire_map [OF hash_fmt.wire_format_axioms, where C = V_bytes]) (simp_all add: try_defs ok_as_cases)
next
  case W_hashes
  show ?thesis unfolding W_hashes
    by (rule wire_map [OF hashes_fmt.wire_format_axioms, where C = V_bytess]) (simp_all add: try_defs ok_as_cases)
next
  case W_bytes
  show ?thesis unfolding W_bytes
    by (rule wire_map [OF bytes_fmt.wire_format_axioms, where C = V_bytes]) (simp_all add: try_defs ok_as_cases)
next
  case W_2dbytes
  show ?thesis unfolding W_2dbytes
    by (rule wire_map [OF bytess_fmt.wire_format_axioms, where C = V_bytess]) (simp_all add: try_defs ok_as_cases)
next
  case W_str
  show ?thesis unfolding W_str
    by (rule wire_map [OF str_fmt.wire_format_axioms, where C = V_string]) (simp_all add: try_defs ok_as_cases)
next
  case W_ip
  show ?thesis unfolding W_ip
    by (rule wire_map [OF ip_fmt.wire_format_axioms, where C = V_ip]) (simp_all add: try_defs ok_as_cases)
next
  case W_claimed
  show ?thesis unfolding W_claimed
    by (rule wire_map [OF wire_format.list_wire [OF claimed_wire], where C = V_claimed])
       (simp_all add: try_defs ok_as_cases bindP_assoc)
next
  case W_longs
  show ?thesis unfolding W_longs
    by (rule wire_map [OF long_fmt.list_wire, where C = V_uint64s])
       (simp_all add: try_defs ok_as_cases bindP_assoc)
qed

interpretation try_fmt: wire_format "try_pack w" "try_unpack okc w" "enc_as w" "ok_as okc w" for w okc
  by (rule try_wire)

section \<open>Packing never panics\<close>

text \<open>The one value that panics is a claimed address without a certificate.\<close>

fun packable :: "intf \<Rightarrow> bool" where
  "packable (V_claimed cs) = list_all (\<lambda>c. cl_Cert c \<noteq> None) cs"
| "packable _ = True"

lemma base_writes: "writes (PackByte b)" "writes (PackShort s)" "writes (PackInt i)" "writes (PackLong l)"
  by (rule writes_cong [OF _ fixed_writes], erule pack_eq_fixed)+

lemma bytes_writes: "writes (PackBytes bs)"
  unfolding PackBytes_def by (intro writes_then base_writes fixed_writes)

lemma str_writes: "writes (PackStr bs)"
  unfolding PackStr_def Let_def by (simp add: writes_add writes_then base_writes fixed_writes)

lemma pack_all_writes: "list_all (\<lambda>x. writes (f x)) xs \<Longrightarrow> writes (pack_all f xs)"
proof (induction xs)
  case (Cons x xs)
  then show ?case by (simp add: writes_then)
qed (simp only: pack_all.simps writes_ret)

lemma ip_writes: "writes (PackIP ip)"
  unfolding PackIP_def by (intro writes_then base_writes fixed_writes)

lemma claimed_writes: "cl_Cert c \<noteq> None \<Longrightarrow> writes (PackClaimedIPPort c)"
  unfolding PackClaimedIPPort_def
  by (intro writes_then base_writes ip_writes bytes_writes) (auto simp: PackX509Certificate_def bytes_writes)

lemma bad_type_writes: "writes bad_type"
  unfolding bad_type_def by (rule writes_add)

lemma list_writes: "list_all (\<lambda>x. writes (f x)) xs \<Longrightarrow> writes (thenP (PackInt n) (pack_all f xs))"
  by (intro writes_then base_writes pack_all_writes)

lemmas writes_intros = base_writes bytes_writes str_writes ip_writes bad_type_writes fixed_writes list_writes

lemma try_writes: "packable v \<Longrightarrow> writes (try_pack w v)"
  by (cases w; cases v)
     (auto simp: try_defs PackFixedByteSlices_def Pack2DByteSlice_def list_all_iff
       intro!: writes_intros claimed_writes)

end
