(* ===== verification/MessageOps.thy ===== *)
theory MessageOps
  imports PackingValues
begin

text \<open>
  Package \<open>message\<close>, the tables (\<open>src/message/ops.go\<close>, \<open>src/message/fields.go\<close>): opcodes, the
  fields of every message, how each field is packed and unpacked, which messages may be
  compressed, and the request/response/failure relations used by the router and the handler.

  An \<open>Op\<close> of the source is a byte with named values; here it is a datatype of the named
  values, \<open>op_code\<close> gives their bytes and \<open>op_of_byte\<close> reads a byte. The bytes without a name are in no
  table of the source.
\<close>

section \<open>Opcodes\<close>

datatype Op =
    Pong | Ping
  | GetAcceptedFrontier | AcceptedFrontier | GetAccepted | Accepted | GetAncestors | Ancestors
  | Get | Put | PushQuery | PullQuery | Chits
  | PeerList | Version
  | AppRequest | AppResponse | AppGossip
  | GetStateSummaryFrontier | StateSummaryFrontier | GetAcceptedStateSummary | AcceptedStateSummary
  | ChitsV2
  | GetAcceptedFrontierFailed | GetAcceptedFailed | GetAncestorsFailed | GetFailed | QueryFailed
  | AppRequestFailed | Timeout | Connected | Disconnected | Notify | GossipRequest
  | GetStateSummaryFrontierFailed | GetAcceptedStateSummaryFailed

text \<open>The values of the \<open>iota\<close> block, the skipped ones included.\<close>

fun op_code :: "Op \<Rightarrow> byte" where
  "op_code Pong = 3" | "op_code Ping = 4"
| "op_code GetAcceptedFrontier = 6" | "op_code AcceptedFrontier = 7" | "op_code GetAccepted = 8"
| "op_code Accepted = 9" | "op_code GetAncestors = 10" | "op_code Ancestors = 11"
| "op_code Get = 12" | "op_code Put = 13" | "op_code PushQuery = 14" | "op_code PullQuery = 15"
| "op_code Chits = 16" | "op_code PeerList = 18" | "op_code Version = 19"
| "op_code AppRequest = 20" | "op_code AppResponse = 21" | "op_code AppGossip = 22"
| "op_code GetStateSummaryFrontier = 23" | "op_code StateSummaryFrontier = 24"
| "op_code GetAcceptedStateSummary = 25" | "op_code AcceptedStateSummary = 26" | "op_code ChitsV2 = 27"
| "op_code GetAcceptedFrontierFailed = 28" | "op_code GetAcceptedFailed = 29"
| "op_code GetAncestorsFailed = 30" | "op_code GetFailed = 31" | "op_code QueryFailed = 32"
| "op_code AppRequestFailed = 33" | "op_code Timeout = 34" | "op_code Connected = 35"
| "op_code Disconnected = 36" | "op_code Notify = 37" | "op_code GossipRequest = 38"
| "op_code GetStateSummaryFrontierFailed = 39" | "op_code GetAcceptedStateSummaryFailed = 40"

definition HandshakeOps :: "Op list" where
  "HandshakeOps = [Version, PeerList, Ping, Pong]"

definition ConsensusRequestOps :: "Op list" where
  "ConsensusRequestOps = [GetAcceptedFrontier, GetAccepted, GetAncestors, Get, PushQuery, PullQuery,
     AppRequest, GetStateSummaryFrontier, GetAcceptedStateSummary]"

definition ConsensusResponseOps :: "Op list" where
  "ConsensusResponseOps = [AcceptedFrontier, Accepted, Ancestors, Put, Chits, ChitsV2, AppResponse,
     StateSummaryFrontier, AcceptedStateSummary]"

definition ConsensusExternalOps :: "Op list" where
  "ConsensusExternalOps = ConsensusRequestOps @ (ConsensusResponseOps @ [AppGossip])"

definition ConsensusInternalOps :: "Op list" where
  "ConsensusInternalOps = [GetAcceptedFrontierFailed, GetAcceptedFailed, GetAncestorsFailed, GetFailed,
     QueryFailed, AppRequestFailed, Timeout, Connected, Disconnected, Notify, GossipRequest,
     GetStateSummaryFrontierFailed, GetAcceptedStateSummaryFailed]"

definition ConsensusOps :: "Op list" where
  "ConsensusOps = ConsensusExternalOps @ ConsensusInternalOps"

definition ExternalOps :: "Op list" where
  "ExternalOps = ConsensusExternalOps @ HandshakeOps"

definition SynchronousOps :: "Op list" where
  "SynchronousOps = [GetAcceptedFrontier, AcceptedFrontier, GetAccepted, Accepted, GetAncestors, Ancestors,
     Get, Put, PushQuery, PullQuery, Chits, ChitsV2, GetAcceptedFrontierFailed, GetAcceptedFailed,
     GetAncestorsFailed, GetFailed, QueryFailed, Connected, Disconnected,
     GetStateSummaryFrontier, StateSummaryFrontier, GetAcceptedStateSummary, AcceptedStateSummary,
     GetStateSummaryFrontierFailed, GetAcceptedStateSummaryFailed]"

definition AsynchronousOps :: "Op list" where
  "AsynchronousOps = [AppRequest, AppGossip, AppRequestFailed, AppResponse]"

definition RequestToResponseOps :: "(Op, Op) gomap" where
  "RequestToResponseOps = [
     (GetAcceptedFrontier, AcceptedFrontier), (GetAccepted, Accepted), (GetAncestors, Ancestors),
     (Get, Put), (PushQuery, Chits), (PullQuery, Chits), (AppRequest, AppResponse),
     (GetStateSummaryFrontier, StateSummaryFrontier), (GetAcceptedStateSummary, AcceptedStateSummary)]"

definition ResponseToFailedOps :: "(Op, Op) gomap" where
  "ResponseToFailedOps = [
     (AcceptedFrontier, GetAcceptedFrontierFailed), (Accepted, GetAcceptedFailed),
     (Ancestors, GetAncestorsFailed), (Put, GetFailed), (Chits, QueryFailed), (ChitsV2, QueryFailed),
     (AppResponse, AppRequestFailed), (StateSummaryFrontier, GetStateSummaryFrontierFailed),
     (AcceptedStateSummary, GetAcceptedStateSummaryFailed)]"

definition FailedToResponseOps :: "(Op, Op) gomap" where
  "FailedToResponseOps = [
     (GetAcceptedFrontierFailed, AcceptedFrontier), (GetAcceptedFailed, Accepted),
     (GetAncestorsFailed, Ancestors), (GetFailed, Put), (QueryFailed, Chits),
     (AppRequestFailed, AppResponse), (GetStateSummaryFrontierFailed, StateSummaryFrontier),
     (GetAcceptedStateSummaryFailed, AcceptedStateSummary)]"

definition UnrequestedOps :: "Op set" where
  "UnrequestedOps = {GetAcceptedFrontier, GetAccepted, GetAncestors, Get, PushQuery, PullQuery,
     AppRequest, AppGossip, GetStateSummaryFrontier, GetAcceptedStateSummary}"

fun Compressible :: "Op \<Rightarrow> bool" where
  "Compressible op = (op \<in> {PeerList, Put, Ancestors, PushQuery, AppRequest, AppResponse, AppGossip,
     StateSummaryFrontier, GetAcceptedStateSummary, AcceptedStateSummary})"

fun Op_String :: "Op \<Rightarrow> string" where
  "Op_String Version = ''version''"
| "Op_String PeerList = ''peerlist''"
| "Op_String Ping = ''ping''"
| "Op_String Pong = ''pong''"
| "Op_String GetAcceptedFrontier = ''get_accepted_frontier''"
| "Op_String AcceptedFrontier = ''accepted_frontier''"
| "Op_String GetAccepted = ''get_accepted''"
| "Op_String Accepted = ''accepted''"
| "Op_String Get = ''get''"
| "Op_String GetAncestors = ''get_ancestors''"
| "Op_String Put = ''put''"
| "Op_String Ancestors = ''ancestors''"
| "Op_String PushQuery = ''push_query''"
| "Op_String PullQuery = ''pull_query''"
| "Op_String Chits = ''chits''"
| "Op_String ChitsV2 = ''chits_v2''"
| "Op_String AppRequest = ''app_request''"
| "Op_String AppResponse = ''app_response''"
| "Op_String AppGossip = ''app_gossip''"
| "Op_String GetStateSummaryFrontier = ''get_state_summary_frontier''"
| "Op_String StateSummaryFrontier = ''state_summary_frontier''"
| "Op_String GetAcceptedStateSummary = ''get_accepted_state_summary''"
| "Op_String AcceptedStateSummary = ''accepted_state_summary''"
| "Op_String GetAcceptedFrontierFailed = ''get_accepted_frontier_failed''"
| "Op_String GetAcceptedFailed = ''get_accepted_failed''"
| "Op_String GetAncestorsFailed = ''get_ancestors_failed''"
| "Op_String GetFailed = ''get_failed''"
| "Op_String QueryFailed = ''query_failed''"
| "Op_String AppRequestFailed = ''app_request_failed''"
| "Op_String GetStateSummaryFrontierFailed = ''get_state_summary_frontier_failed''"
| "Op_String GetAcceptedStateSummaryFailed = ''get_accepted_state_summary_failed''"
| "Op_String Timeout = ''timeout''"
| "Op_String Connected = ''connected''"
| "Op_String Disconnected = ''disconnected''"
| "Op_String Notify = ''notify''"
| "Op_String GossipRequest = ''gossip_request''"

section \<open>Fields\<close>

datatype Field =
    VersionStr | NetworkID | NodeID | MyTime | IP | ChainID | RequestID | Deadline | ContainerID
  | ContainerBytes | ContainerIDs | MultiContainerBytes | SigBytes | VersionTime | Peers
  | TrackedSubnets | AppBytes | VMMessage | Uptime | SummaryBytes | SummaryHeights | SummaryIDs
  | VersionStruct

text \<open>\<open>Field.Packer\<close> and \<open>Field.Unpacker\<close>: \<open>None\<close> is the \<open>nil\<close> function.\<close>

definition Field_Packer :: "Field \<Rightarrow> (intf \<Rightarrow> unit pk) option" where
  "Field_Packer f =
     (if f = VersionStr then Some TryPackStr
      else if f \<in> {NetworkID, NodeID, RequestID} then Some TryPackInt
      else if f \<in> {MyTime, Deadline, VersionTime} then Some TryPackLong
      else if f = IP then Some TryPackIP
      else if f \<in> {ChainID, ContainerID} then Some TryPackHash
      else if f \<in> {ContainerBytes, AppBytes, SigBytes, SummaryBytes} then Some TryPackBytes
      else if f \<in> {ContainerIDs, TrackedSubnets, SummaryIDs} then Some TryPackHashes
      else if f = MultiContainerBytes then Some TryPack2DBytes
      else if f = Peers then Some TryPackClaimedIPPortList
      else if f = Uptime then Some TryPackByte
      else if f = SummaryHeights then Some TryPackUint64Slice
      else None)"

definition Field_Unpacker :: "(byte list \<Rightarrow> bool) \<Rightarrow> Field \<Rightarrow> intf pk option" where
  "Field_Unpacker okc f =
     (if f = VersionStr then Some TryUnpackStr
      else if f \<in> {NetworkID, NodeID, RequestID} then Some TryUnpackInt
      else if f \<in> {MyTime, Deadline, VersionTime} then Some TryUnpackLong
      else if f = IP then Some TryUnpackIP
      else if f \<in> {ChainID, ContainerID} then Some TryUnpackHash
      else if f \<in> {ContainerBytes, AppBytes, SigBytes, SummaryBytes} then Some TryUnpackBytes
      else if f \<in> {ContainerIDs, TrackedSubnets, SummaryIDs} then Some TryUnpackHashes
      else if f = MultiContainerBytes then Some TryUnpack2DBytes
      else if f = Peers then Some (TryUnpackClaimedIPPortList okc)
      else if f = Uptime then Some TryUnpackByte
      else if f = SummaryHeights then Some TryUnpackUint64Slice
      else None)"

fun Field_String :: "Field \<Rightarrow> string" where
  "Field_String VersionStr = ''VersionStr''"
| "Field_String NetworkID = ''NetworkID''"
| "Field_String NodeID = ''NodeID''"
| "Field_String MyTime = ''MyTime''"
| "Field_String IP = ''IP''"
| "Field_String ChainID = ''ChainID''"
| "Field_String RequestID = ''RequestID''"
| "Field_String Deadline = ''Deadline''"
| "Field_String ContainerID = ''ContainerID''"
| "Field_String ContainerBytes = ''Container Bytes''"
| "Field_String ContainerIDs = ''Container IDs''"
| "Field_String MultiContainerBytes = ''MultiContainerBytes''"
| "Field_String AppBytes = ''AppBytes''"
| "Field_String SigBytes = ''SigBytes''"
| "Field_String VersionTime = ''VersionTime''"
| "Field_String Peers = ''Peers''"
| "Field_String TrackedSubnets = ''TrackedSubnets''"
| "Field_String VMMessage = ''VMMessage''"
| "Field_String Uptime = ''Uptime''"
| "Field_String SummaryBytes = ''Summary''"
| "Field_String SummaryHeights = ''SummaryHeights''"
| "Field_String SummaryIDs = ''SummaryIDs''"
| "Field_String VersionStruct = ''VersionStruct''"

text \<open>The fields of the messages that travel on the wire, in wire order.\<close>

definition messages :: "(Op, Field list) gomap" where
  "messages = [
     (Version, [NetworkID, NodeID, MyTime, IP, VersionStr, VersionTime, SigBytes, TrackedSubnets]),
     (PeerList, [Peers]),
     (Ping, []),
     (Pong, [Uptime]),
     (GetAcceptedFrontier, [ChainID, RequestID, Deadline]),
     (AcceptedFrontier, [ChainID, RequestID, ContainerIDs]),
     (GetAccepted, [ChainID, RequestID, Deadline, ContainerIDs]),
     (Accepted, [ChainID, RequestID, ContainerIDs]),
     (GetAncestors, [ChainID, RequestID, Deadline, ContainerID]),
     (Ancestors, [ChainID, RequestID, MultiContainerBytes]),
     (Get, [ChainID, RequestID, Deadline, ContainerID]),
     (Put, [ChainID, RequestID, ContainerID, ContainerBytes]),
     (PushQuery, [ChainID, RequestID, Deadline, ContainerID, ContainerBytes]),
     (PullQuery, [ChainID, RequestID, Deadline, ContainerID]),
     (Chits, [ChainID, RequestID, ContainerIDs]),
     (ChitsV2, [ChainID, RequestID, ContainerIDs, ContainerID]),
     (AppRequest, [ChainID, RequestID, Deadline, AppBytes]),
     (AppResponse, [ChainID, RequestID, AppBytes]),
     (AppGossip, [ChainID, AppBytes]),
     (GetStateSummaryFrontier, [ChainID, RequestID, Deadline]),
     (StateSummaryFrontier, [ChainID, RequestID, SummaryBytes]),
     (GetAcceptedStateSummary, [ChainID, RequestID, Deadline, SummaryHeights]),
     (AcceptedStateSummary, [ChainID, RequestID, SummaryIDs])]"

text \<open>Reading a byte as an opcode.\<close>

definition all_ops :: "Op list" where
  "all_ops = ExternalOps @ ConsensusInternalOps"

definition op_of_byte :: "byte \<Rightarrow> Op option" where
  "op_of_byte b = find (\<lambda>op. op_code op = b) all_ops"

section \<open>Facts about the tables\<close>

lemmas op_list_defs = ExternalOps_def ConsensusExternalOps_def ConsensusRequestOps_def
  ConsensusResponseOps_def ConsensusInternalOps_def HandshakeOps_def

lemma op_of_code [simp]: "op_of_byte (op_code op) = Some op"
  by (cases op) (simp_all add: op_of_byte_def all_ops_def op_list_defs)

lemma op_code_inject: "op_code op = op_code op' \<longleftrightarrow> op = op'"
  using op_of_code [of op] op_of_code [of op'] by (metis option.inject)

lemma op_of_byte_Some: "op_of_byte b = Some op \<Longrightarrow> op_code op = b"
  by (auto simp: op_of_byte_def find_Some_iff)

lemma all_ops_complete: "op \<in> set all_ops"
  using op_of_code [of op] by (auto simp: op_of_byte_def find_Some_iff)

lemma messages_external: "map_of messages op \<noteq> None \<longleftrightarrow> op \<in> set ExternalOps"
  by (cases op) (simp_all add: messages_def op_list_defs)

text \<open>The wire type of a field; both tables agree with it.\<close>

fun wire_of :: "Field \<Rightarrow> wire option" where
  "wire_of VersionStr = Some W_str"
| "wire_of NetworkID = Some W_int" | "wire_of NodeID = Some W_int" | "wire_of RequestID = Some W_int"
| "wire_of MyTime = Some W_long" | "wire_of Deadline = Some W_long" | "wire_of VersionTime = Some W_long"
| "wire_of IP = Some W_ip" | "wire_of ChainID = Some W_hash" | "wire_of ContainerID = Some W_hash"
| "wire_of ContainerBytes = Some W_bytes" | "wire_of AppBytes = Some W_bytes" | "wire_of SigBytes = Some W_bytes"
| "wire_of SummaryBytes = Some W_bytes" | "wire_of ContainerIDs = Some W_hashes"
| "wire_of TrackedSubnets = Some W_hashes" | "wire_of SummaryIDs = Some W_hashes"
| "wire_of MultiContainerBytes = Some W_2dbytes" | "wire_of Peers = Some W_claimed"
| "wire_of Uptime = Some W_byte" | "wire_of SummaryHeights = Some W_longs"
| "wire_of VMMessage = None" | "wire_of VersionStruct = None"

lemma Field_Packer_wire: "Field_Packer f = map_option try_pack (wire_of f)"
  by (cases f) (simp_all add: Field_Packer_def)

lemma Field_Unpacker_wire: "Field_Unpacker okc f = map_option (try_unpack okc) (wire_of f)"
  by (cases f) (simp_all add: Field_Unpacker_def)

lemma messages_fields: "map_of messages op = Some fs \<Longrightarrow> distinct fs \<and> list_all (\<lambda>f. wire_of f \<noteq> None) fs"
  by (cases op) (auto simp: messages_def)

lemma messages_request: "map_of messages op = Some fs \<Longrightarrow> Deadline \<in> set fs \<longleftrightarrow> op \<in> set ConsensusRequestOps"
  by (cases op) (auto simp: messages_def ConsensusRequestOps_def)

text \<open>
  The message tables are consistent. Opcodes and names are injective; the fields of a message
  are defined exactly for the external operations, they are pairwise distinct and each of them has
  both a packer and an unpacker; a message carries a deadline exactly when it is a
  request; every request has a response and every response a failure message, which leads back to
  a response with the same failure; a message may arrive unrequested exactly when it is a request or
  application gossip; every consensus operation except the three local notifications is either
  synchronous or asynchronous, never both.
\<close>

theorem message_tables:
  "(op_code op = op_code op' \<longleftrightarrow> op = op') \<and> (Op_String op = Op_String op' \<longleftrightarrow> op = op')
   \<and> (map_of messages op \<noteq> None \<longleftrightarrow> op \<in> set ExternalOps)
   \<and> (\<forall>fs. map_of messages op = Some fs \<longrightarrow> distinct fs
        \<and> list_all (\<lambda>f. Field_Packer f \<noteq> None \<and> Field_Unpacker okc f \<noteq> None) fs
        \<and> (Deadline \<in> set fs \<longleftrightarrow> op \<in> set ConsensusRequestOps))
   \<and> (map_of RequestToResponseOps op \<noteq> None \<longleftrightarrow> op \<in> set ConsensusRequestOps)
   \<and> (\<forall>r. map_of RequestToResponseOps op = Some r \<longrightarrow> r \<in> set ConsensusResponseOps)
   \<and> (map_of ResponseToFailedOps op \<noteq> None \<longleftrightarrow> op \<in> set ConsensusResponseOps)
   \<and> (\<forall>f. map_of ResponseToFailedOps op = Some f \<longrightarrow> f \<in> set ConsensusInternalOps
        \<and> (\<exists>r. map_of FailedToResponseOps f = Some r \<and> map_of ResponseToFailedOps r = Some f))
   \<and> (op \<in> UnrequestedOps \<longleftrightarrow> op \<in> set ConsensusRequestOps \<or> op = AppGossip)
   \<and> (op \<in> set ConsensusOps - {Timeout, Notify, GossipRequest} \<longleftrightarrow>
        op \<in> set SynchronousOps \<or> op \<in> set AsynchronousOps)
   \<and> \<not> (op \<in> set SynchronousOps \<and> op \<in> set AsynchronousOps)"
proof (intro conjI allI impI)
  show "op_code op = op_code op' \<longleftrightarrow> op = op'"
    by (rule op_code_inject)
  show "Op_String op = Op_String op' \<longleftrightarrow> op = op'"
    by (cases op; cases op'; simp)
  show "map_of messages op \<noteq> None \<longleftrightarrow> op \<in> set ExternalOps" by (rule messages_external)
  fix fs assume fs: "map_of messages op = Some fs"
  show "distinct fs" "Deadline \<in> set fs \<longleftrightarrow> op \<in> set ConsensusRequestOps"
    using messages_fields [OF fs] messages_request [OF fs] by simp_all
  show "list_all (\<lambda>f. Field_Packer f \<noteq> None \<and> Field_Unpacker okc f \<noteq> None) fs"
    using messages_fields [OF fs] by (simp add: Field_Packer_wire Field_Unpacker_wire list_all_iff)
next
  show "map_of RequestToResponseOps op \<noteq> None \<longleftrightarrow> op \<in> set ConsensusRequestOps"
    by (cases op) (simp_all add: RequestToResponseOps_def ConsensusRequestOps_def)
  show "map_of ResponseToFailedOps op \<noteq> None \<longleftrightarrow> op \<in> set ConsensusResponseOps"
    by (cases op) (simp_all add: ResponseToFailedOps_def ConsensusResponseOps_def)
  show "op \<in> UnrequestedOps \<longleftrightarrow> op \<in> set ConsensusRequestOps \<or> op = AppGossip"
    by (cases op) (simp_all add: UnrequestedOps_def ConsensusRequestOps_def)
  show "op \<in> set ConsensusOps - {Timeout, Notify, GossipRequest} \<longleftrightarrow>
        op \<in> set SynchronousOps \<or> op \<in> set AsynchronousOps"
    by (cases op) (simp_all add: ConsensusOps_def op_list_defs SynchronousOps_def AsynchronousOps_def)
  show "\<not> (op \<in> set SynchronousOps \<and> op \<in> set AsynchronousOps)"
    by (cases op) (simp_all add: SynchronousOps_def AsynchronousOps_def)
next
  fix r assume "map_of RequestToResponseOps op = Some r"
  then show "r \<in> set ConsensusResponseOps"
    by (cases op) (simp_all add: RequestToResponseOps_def ConsensusResponseOps_def)
next
  fix f assume "map_of ResponseToFailedOps op = Some f"
  then show "f \<in> set ConsensusInternalOps"
    "\<exists>r. map_of FailedToResponseOps f = Some r \<and> map_of ResponseToFailedOps r = Some f"
    by (cases op; simp add: ResponseToFailedOps_def ConsensusInternalOps_def FailedToResponseOps_def)+
qed

theorem message_tables_witness:
  "Deadline \<in> set [ChainID, RequestID, Deadline, ContainerID] \<and> Get \<in> set ConsensusRequestOps
   \<and> Put \<in> set ConsensusResponseOps"
  using message_tables [of Get Put "\<lambda>_. True"] by (simp add: messages_def RequestToResponseOps_def)

end
