(* ===== verification/MessageCodec.thy ===== *)
theory MessageCodec
  imports MessageOps Ids
begin

text \<open>
  Package \<open>message\<close>, the codec (\<open>src/message/codec.go\<close>), inbound and outbound messages
  (\<open>src/message/messages.go\<close>), and the compressor (\<open>src/utils/compression/gzip_compressor.go\<close>).

  The gzip reader and writer and the certificate parser are parameters of the model, collected in
  the record \<open>Lib\<close>. Times are arguments: \<open>now\<close> is the value of \<open>time.Now()\<close>. The metrics
  that record durations have no effect on the results and are kept as the set of operations that have one,
  since observing a missing one panics.
\<close>

section \<open>Compression\<close>

text \<open>
  \<open>gz_write\<close>: what the gzip writer leaves in the buffer after \<open>Write\<close> and \<open>Close\<close>; \<open>gz_reset\<close>: whether
  the gzip reader accepts the header; \<open>gz_read n\<close>: what \<open>io.ReadAll\<close> returns on the stream limited
  to \<open>n\<close> bytes; \<open>gz_close\<close>: whether \<open>Close\<close> succeeds after that; \<open>x509_ok\<close>: whether
  \<open>x509.ParseCertificate\<close> accepts the bytes.
\<close>

record Lib =
  gz_write :: "byte list \<Rightarrow> byte list option"
  gz_reset :: "byte list \<Rightarrow> bool"
  gz_read :: "nat \<Rightarrow> byte list \<Rightarrow> byte list option"
  gz_close :: "nat \<Rightarrow> byte list \<Rightarrow> bool"
  x509_ok :: "byte list \<Rightarrow> bool"

datatype gz_error = errMsgTooLong | errGzipWrite | errGzipHeader | errGzipRead | errGzipClose

definition Compress :: "Lib \<Rightarrow> int \<Rightarrow> byte list \<Rightarrow> gz_error + byte list" where
  "Compress L maxSize msg =
     (if len msg > maxSize then Inl errMsgTooLong
      else case gz_write L msg of None \<Rightarrow> Inl errGzipWrite | Some compressed \<Rightarrow> Inr compressed)"

text \<open>
  The limit \<open>maxSize + 1\<close> of \<open>io.LimitReader\<close> is an \<open>int64\<close> and wraps around for the largest \<open>maxSize\<close>; a
  limit that is not positive ends the stream at once.
\<close>

definition Decompress :: "Lib \<Rightarrow> int \<Rightarrow> byte list \<Rightarrow> gz_error + byte list" where
  "Decompress L maxSize msg =
     (if \<not> gz_reset L msg then Inl errGzipHeader
      else let limit = int64 (maxSize + 1) in
        case (if limit \<le> 0 then Some [] else gz_read L (nat limit) msg) of None \<Rightarrow> Inl errGzipRead
        | Some decompressed \<Rightarrow>
            if len decompressed > maxSize then Inl errMsgTooLong
            else if \<not> gz_close L (nat limit) msg then Inl errGzipClose
            else Inr decompressed)"

section \<open>Messages\<close>

type_synonym fields = "(Field, intf) gomap"

text \<open>A zero \<open>expirationTime\<close> is \<open>None\<close>; \<open>onFinishedHandling\<close> is the callback's name, \<open>None\<close> for \<open>nil\<close>.\<close>

record inboundMessage =
  im_op :: Op
  im_bytesSavedCompression :: int
  im_fields :: fields
  im_nodeID :: "Ids.NodeID"
  im_expirationTime :: "time option"
  im_onFinishedHandling :: "nat option"

definition im_Get :: "inboundMessage \<Rightarrow> Field \<Rightarrow> intf option" where
  "im_Get inMsg field = map_of (im_fields inMsg) field"

text \<open>The callbacks run so far are a list; \<open>OnFinishedHandling\<close> runs the message's, if any.\<close>

definition OnFinishedHandling :: "inboundMessage \<Rightarrow> nat list \<Rightarrow> nat list" where
  "OnFinishedHandling inMsg callbacks =
     (case im_onFinishedHandling inMsg of None \<Rightarrow> callbacks | Some f \<Rightarrow> callbacks @ [f])"

definition hex_digit :: "nat \<Rightarrow> char" where
  "hex_digit d = (if d < 10 then digit_char d else char_of (87 + d))"

definition show_hex :: "byte list \<Rightarrow> string" where
  "show_hex bs = concat (map (\<lambda>b. [hex_digit (unat b div 16), hex_digit (unat b mod 16)]) bs)"

text \<open>
  \<open>inboundMessage.String\<close>: a type assertion on a value of another type, or on an absent field,
  panics. \<open>nodeStr\<close> is \<open>NodeID.String\<close>.
\<close>

definition as_bytes :: "inboundMessage \<Rightarrow> Field \<Rightarrow> go_panic + byte list" where
  "as_bytes m f = (case im_Get m f of Some (V_bytes b) \<Rightarrow> Inr b | _ \<Rightarrow> Inl TypeAssertion)"

definition as_bytess :: "inboundMessage \<Rightarrow> Field \<Rightarrow> go_panic + byte list list" where
  "as_bytess m f = (case im_Get m f of Some (V_bytess b) \<Rightarrow> Inr b | _ \<Rightarrow> Inl TypeAssertion)"

definition as_uint32 :: "inboundMessage \<Rightarrow> Field \<Rightarrow> go_panic + 32 word" where
  "as_uint32 m f = (case im_Get m f of Some (V_uint32 b) \<Rightarrow> Inr b | _ \<Rightarrow> Inl TypeAssertion)"

definition inMsg_String :: "(Ids.NodeID \<Rightarrow> string) \<Rightarrow> inboundMessage \<Rightarrow> go_panic + string" where
  "inMsg_String nodeStr m =
     (let sb = ''(Op: '' @ Op_String (im_op m) @ '', NodeID: '' @ nodeStr (im_nodeID m) in
      bindR (case im_Get m RequestID of None \<Rightarrow> Inr sb
             | Some _ \<Rightarrow> bindR (as_uint32 m RequestID) (\<lambda>r.
                 Inr (sb @ '', RequestID: '' @ show_nat (unat r)))) (\<lambda>sb.
      let sb = (case im_expirationTime m of None \<Rightarrow> sb
                | Some t \<Rightarrow> sb @ '', Deadline: '' @ show_int (t div Second)) in
      if im_op m \<in> {GetAccepted, Accepted, Chits, AcceptedFrontier}
      then bindR (as_bytess m ContainerIDs) (\<lambda>c. Inr (sb @ '', NumContainerIDs: '' @ show_nat (length c) @ '')''))
      else if im_op m \<in> {Get, GetAncestors, Put, PushQuery, PullQuery}
      then bindR (as_bytes m ContainerID) (\<lambda>c. Inr (sb @ '', ContainerID: 0x'' @ show_hex c @ '')''))
      else if im_op m = Ancestors
      then bindR (as_bytess m MultiContainerBytes) (\<lambda>c. Inr (sb @ '', NumContainers: '' @ show_nat (length c) @ '')''))
      else if im_op m = Notify
      then bindR (as_uint32 m VMMessage) (\<lambda>n. Inr (sb @ '', Notification: '' @ show_nat (unat n) @ '')''))
      else if im_op m \<in> {AppRequest, AppResponse, AppGossip}
      then bindR (as_bytes m AppBytes) (\<lambda>c. Inr (sb @ '', len(AppMsg): '' @ show_nat (length c) @ '')''))
      else Inr (sb @ '')'')))"

record outboundMessage =
  om_bytes :: "byte list"
  om_bytesSavedCompression :: int
  om_op :: Op
  om_bypassThrottling :: bool
  om_refs :: int

section \<open>The codec\<close>

record codec =
  cd_pool :: "byte list list"
  cd_clock :: Clock
  cd_compressTimeMetrics :: "Op list"
  cd_decompressTimeMetrics :: "Op list"
  cd_maxSize :: int
  cd_maxMessageTimeout :: int

definition DefaultByteSliceCap :: nat where
  "DefaultByteSliceCap = 128"

definition NewCodecWithMemoryPool :: "int \<Rightarrow> int \<Rightarrow> codec" where
  "NewCodecWithMemoryPool maxMessageSize maxMessageTimeout =
     \<lparr>cd_pool = [], cd_clock = newClock,
      cd_compressTimeMetrics = filter Compressible ExternalOps,
      cd_decompressTimeMetrics = filter Compressible ExternalOps,
      cd_maxSize = maxMessageSize, cd_maxMessageTimeout = maxMessageTimeout\<rparr>"

definition codec_SetTime :: "time \<Rightarrow> codec \<Rightarrow> codec" where
  "codec_SetTime t c = c\<lparr>cd_clock := Clock_Set t (cd_clock c)\<rparr>"

text \<open>
  \<open>sync.Pool\<close>: \<open>Get\<close> takes out some pooled slice, given by \<open>pick\<close>, or makes a new one; the pool holds
  the whole backing array of each slice, since only \<open>buffer[:0]\<close> is used.
\<close>

definition pool_Get :: "nat option \<Rightarrow> codec \<Rightarrow> byte list \<times> codec" where
  "pool_Get pick c =
     (case pick of
        Some i \<Rightarrow> if i < length (cd_pool c)
          then (cd_pool c ! i, c\<lparr>cd_pool := take i (cd_pool c) @ drop (Suc i) (cd_pool c)\<rparr>)
          else (replicate DefaultByteSliceCap 0, c)
      | None \<Rightarrow> (replicate DefaultByteSliceCap 0, c))"

definition AddRef :: "outboundMessage \<Rightarrow> outboundMessage" where
  "AddRef outMsg = outMsg\<lparr>om_refs := om_refs outMsg + 1\<rparr>"

definition DecRef :: "outboundMessage \<Rightarrow> codec \<Rightarrow> outboundMessage \<times> codec" where
  "DecRef outMsg c =
     (let outMsg = outMsg\<lparr>om_refs := om_refs outMsg - 1\<rparr> in
      (outMsg, if om_refs outMsg = 0 then c\<lparr>cd_pool := om_bytes outMsg # cd_pool c\<rparr> else c))"

datatype msg_error = errMissingField | errBadOp | errPacker pk_err | errCompress gz_error
  | errDecompress gz_error | errExpectedLength | msg_panic go_panic

definition lift_panic :: "go_panic + 'a \<Rightarrow> msg_error + 'a" where
  "lift_panic r = (case r of Inl e \<Rightarrow> Inl (msg_panic e) | Inr x \<Rightarrow> Inr x)"

definition MaxInt32 :: int where
  "MaxInt32 = 2147483647"

text \<open>The environment of a call: which pooled buffer is handed out, and the growth of slices.\<close>

record PackEnv =
  pe_pick :: "nat option"
  pe_grow :: "nat \<Rightarrow> nat"

definition pack_field :: "fields \<Rightarrow> Field \<Rightarrow> Packer \<Rightarrow> msg_error + Packer" where
  "pack_field fieldValues field p =
     (case map_of fieldValues field of None \<Rightarrow> Inl errMissingField
      | Some data \<Rightarrow> (case Field_Packer field of None \<Rightarrow> Inl (msg_panic NilFunc)
          | Some f \<Rightarrow> bindR (lift_panic (f data p)) (\<lambda>(_, p). Inr p)))"

definition Pack :: "Lib \<Rightarrow> PackEnv \<Rightarrow> codec \<Rightarrow> Op \<Rightarrow> fields \<Rightarrow> bool \<Rightarrow> bool \<Rightarrow> msg_error + outboundMessage \<times> codec" where
  "Pack L env c op fieldValues compress bypassThrottling =
     (case map_of messages op of None \<Rightarrow> Inl errBadOp
      | Some msgFields \<Rightarrow>
        let (buffer, c) = pool_Get (pe_pick env) c;
            p = \<lparr>pk_Err = None, pk_MaxSize = MaxInt32, pk_Bytes = [], pk_spare = buffer,
                 pk_grow = pe_grow env, pk_Offset = 0\<rparr>
        in bindR (lift_panic (PackByte (op_code op) p)) (\<lambda>(_, p).
           bindR (if Compressible op then lift_panic (PackBool compress p) else Inr ((), p)) (\<lambda>(_, p).
           bindR (foldR (pack_field fieldValues) msgFields p) (\<lambda>p.
           case pk_Err p of Some e \<Rightarrow> Inl (errPacker e)
           | None \<Rightarrow>
             let msg = \<lparr>om_bytes = pk_Bytes p, om_bytesSavedCompression = 0, om_op = op,
                        om_bypassThrottling = bypassThrottling, om_refs = 1\<rparr>
             in if \<not> compress then Inr (msg, c)
                else if length (om_bytes msg) < 2 then Inl (msg_panic SliceBounds)
                else
                  let payloadBytes = drop 2 (om_bytes msg) in
                  case Compress L (cd_maxSize c) payloadBytes of Inl e \<Rightarrow> Inl (errCompress e)
                  | Inr compressedPayloadBytes \<Rightarrow>
                    if op \<notin> set (cd_compressTimeMetrics c) then Inl (msg_panic NilPointer)
                    else Inr (msg\<lparr>om_bytesSavedCompression := len payloadBytes - len compressedPayloadBytes,
                                 om_bytes := take 2 (om_bytes msg) @ compressedPayloadBytes\<rparr>, c)))))"

text \<open>\<open>fieldValues[field] = field.Unpacker()(&p)\<close>\<close>

definition unpack_field :: "(byte list \<Rightarrow> bool) \<Rightarrow> Field \<Rightarrow> fields \<times> Packer \<Rightarrow> msg_error + fields \<times> Packer" where
  "unpack_field okc field s =
     (case s of (fieldValues, p) \<Rightarrow>
       (case Field_Unpacker okc field of None \<Rightarrow> Inl (msg_panic NilFunc)
        | Some f \<Rightarrow> bindR (lift_panic (f p)) (\<lambda>(v, p). Inr (AList.update field v fieldValues, p))))"

text \<open>\<open>time.Duration(deadline.(uint64))\<close> reads the 64 bits as a signed number.\<close>

definition Duration :: "64 word \<Rightarrow> int" where
  "Duration w = sint w"

definition capDeadline :: "int \<Rightarrow> 64 word \<Rightarrow> int" where
  "capDeadline maxMessageTimeout deadline =
     (let deadlineDuration = Duration deadline
      in if deadlineDuration > maxMessageTimeout then maxMessageTimeout else deadlineDuration)"

definition expiration :: "codec \<Rightarrow> time \<Rightarrow> fields \<Rightarrow> msg_error + time option" where
  "expiration c now fieldValues =
     (case map_of fieldValues Deadline of None \<Rightarrow> Inr None
      | Some (V_uint64 deadline) \<Rightarrow>
          Inr (Some (Clock_Time now (cd_clock c) + capDeadline (cd_maxMessageTimeout c) deadline))
      | Some _ \<Rightarrow> Inl (msg_panic TypeAssertion))"

definition decompressPayload :: "Lib \<Rightarrow> codec \<Rightarrow> Op \<Rightarrow> Packer \<Rightarrow> msg_error + int \<times> Packer" where
  "decompressPayload L c op p =
     (if length (pk_Bytes p) < 2 then Inl (msg_panic SliceBounds)
      else
        let compressedPayloadBytes = drop 2 (pk_Bytes p) in
        case Decompress L (cd_maxSize c) compressedPayloadBytes of Inl e \<Rightarrow> Inl (errDecompress e)
        | Inr payloadBytes \<Rightarrow>
          if op \<notin> set (cd_decompressTimeMetrics c) then Inl (msg_panic NilPointer)
          else Inr (len payloadBytes - len compressedPayloadBytes,
                    p\<lparr>pk_Bytes := take 1 (pk_Bytes p) @ payloadBytes, pk_Offset := pk_Offset p - 1\<rparr>))"

definition parse_fields :: "Lib \<Rightarrow> codec \<Rightarrow> time \<Rightarrow> Op \<Rightarrow> Field list \<Rightarrow> Ids.NodeID \<Rightarrow> nat option \<Rightarrow> int \<Rightarrow> Packer
    \<Rightarrow> msg_error + inboundMessage" where
  "parse_fields L c now op msgFields nodeID onFinishedHandling bytesSaved p =
     bindR (foldR (unpack_field (x509_ok L)) msgFields ([], p)) (\<lambda>(fieldValues, p).
     case pk_Err p of Some e \<Rightarrow> Inl (errPacker e)
     | None \<Rightarrow>
       if pk_Offset p \<noteq> len (pk_Bytes p) then Inl errExpectedLength
       else bindR (expiration c now fieldValues) (\<lambda>expirationTime.
         Inr \<lparr>im_op = op, im_bytesSavedCompression = bytesSaved, im_fields = fieldValues, im_nodeID = nodeID,
              im_expirationTime = expirationTime, im_onFinishedHandling = onFinishedHandling\<rparr>))"

definition Parse :: "Lib \<Rightarrow> codec \<Rightarrow> time \<Rightarrow> byte list \<Rightarrow> Ids.NodeID \<Rightarrow> nat option \<Rightarrow> msg_error + inboundMessage" where
  "Parse L c now bytes nodeID onFinishedHandling =
     (let p = \<lparr>pk_Err = None, pk_MaxSize = 0, pk_Bytes = bytes, pk_spare = [], pk_grow = id, pk_Offset = 0\<rparr>
      in bindR (lift_panic (UnpackByte p)) (\<lambda>(b, p).
         case op_of_byte b of None \<Rightarrow> Inl errBadOp | Some op \<Rightarrow>
         (case map_of messages op of None \<Rightarrow> Inl errBadOp
          | Some msgFields \<Rightarrow>
            bindR (if Compressible op then lift_panic (UnpackBool p) else Inr (False, p)) (\<lambda>(compressed, p).
            case pk_Err p of Some e \<Rightarrow> Inl (errPacker e)
            | None \<Rightarrow>
              bindR (if compressed then decompressPayload L c op p else Inr (0, p)) (\<lambda>(bytesSaved, p).
              parse_fields L c now op msgFields nodeID onFinishedHandling bytesSaved p)))))"

end
