(* ===== verification/MessageWire.thy ===== *)
theory MessageWire
  imports MessageCodec
begin

text \<open>
  The wire image of a message, and the proofs that \<open>Pack\<close> produces it and \<open>Parse\<close> reads it back:
  the loops over the fields of a message, the header, and the compressed payload.
\<close>

section \<open>The image of a message\<close>

definition enc_field :: "fields \<Rightarrow> Field \<Rightarrow> byte list" where
  "enc_field vals f = (case wire_of f of None \<Rightarrow> [] | Some w \<Rightarrow>
     (case map_of vals f of None \<Rightarrow> [] | Some v \<Rightarrow> enc_as w v))"

definition payload :: "fields \<Rightarrow> Field list \<Rightarrow> byte list" where
  "payload vals fs = concat (map (enc_field vals) fs)"

definition ok_field :: "(byte list \<Rightarrow> bool) \<Rightarrow> fields \<Rightarrow> Field \<Rightarrow> bool" where
  "ok_field okc vals f = (case wire_of f of None \<Rightarrow> False | Some w \<Rightarrow>
     (case map_of vals f of None \<Rightarrow> False | Some v \<Rightarrow> ok_as okc w v))"

definition restrict :: "fields \<Rightarrow> Field list \<Rightarrow> fields" where
  "restrict vals fs = map (\<lambda>f. (f, the (map_of vals f))) fs"

definition header :: "Op \<Rightarrow> bool \<Rightarrow> byte list" where
  "header op compress = op_code op # (if Compressible op then [if compress then 1 else 0] else [])"

definition message_bytes :: "Lib \<Rightarrow> Op \<Rightarrow> fields \<Rightarrow> Field list \<Rightarrow> bool \<Rightarrow> byte list" where
  "message_bytes L op vals fs compress =
     header op compress @ (if compress then the (gz_write L (payload vals fs)) else payload vals fs)"

text \<open>
  What the code relies on in \<open>compress/gzip\<close>: the reader accepts what the writer wrote, delivers the
  written bytes up to the limit, and closes cleanly when the whole stream was read.
\<close>

definition gz_lossless :: "Lib \<Rightarrow> bool" where
  "gz_lossless L \<longleftrightarrow> (\<forall>msg z. gz_write L msg = Some z \<longrightarrow>
     gz_reset L z \<and> (\<forall>n. gz_read L n z = Some (take n msg) \<and> (length msg < n \<longrightarrow> gz_close L n z)))"

text \<open>Every message that may be compressed has its metrics, as \<open>NewCodecWithMemoryPool\<close> sets them up.\<close>

definition codec_ok :: "codec \<Rightarrow> bool" where
  "codec_ok c \<longleftrightarrow> (\<forall>op \<in> set ExternalOps. Compressible op \<longrightarrow>
     op \<in> set (cd_compressTimeMetrics c) \<and> op \<in> set (cd_decompressTimeMetrics c))"

lemma new_codec_ok: "codec_ok (NewCodecWithMemoryPool s t)"
  by (simp add: codec_ok_def NewCodecWithMemoryPool_def)

lemma compressible_external: "Compressible op \<Longrightarrow> op \<in> set ExternalOps"
  by (auto simp: op_list_defs)

declare Compressible.simps [simp del]

section \<open>The field loops\<close>

lemma has_room_mono: "has_room p n \<Longrightarrow> m \<le> n \<Longrightarrow> has_room p m"
  by (auto simp: has_room_def)

lemma pack_field_wrote:
  assumes "ok_field okc vals f" "has_room p (len (enc_field vals f))"
  shows "\<exists>q. pack_field vals f p = Inr q \<and> wrote (enc_field vals f) p q"
proof -
  obtain w v where wv: "wire_of f = Some w" "map_of vals f = Some v" "ok_as okc w v"
    using assms(1) by (auto simp: ok_field_def split: option.splits)
  then have e: "enc_field vals f = enc_as w v" by (simp add: enc_field_def)
  obtain q where "try_pack w v p = Inr ((), q)" "wrote (enc_as w v) p q"
    using try_fmt.pack_enc [OF wv(3)] assms(2) unfolding packs_def e by blast
  then show ?thesis using wv e by (simp add: pack_field_def Field_Packer_wire lift_panic_def)
qed

lemma pack_fields_wrote:
  assumes "list_all (ok_field okc vals) fs" "has_room p (len (payload vals fs))"
  shows "\<exists>q. foldR (pack_field vals) fs p = Inr q \<and> wrote (payload vals fs) p q"
  using assms
proof (induction fs arbitrary: p)
  case Nil
  then show ?case by (simp add: payload_def wrote_def has_room_def)
next
  case (Cons f fs)
  have split: "payload vals (f # fs) = enc_field vals f @ payload vals fs" by (simp add: payload_def)
  then have "has_room p (len (enc_field vals f))" using Cons.prems(2) by (auto intro: has_room_mono)
  then obtain q where q: "pack_field vals f p = Inr q" "wrote (enc_field vals f) p q"
    using pack_field_wrote [of okc vals f p] Cons.prems(1) by auto
  then have "has_room q (len (payload vals fs))"
    using wrote_room Cons.prems(2) unfolding split by blast
  then obtain r where "foldR (pack_field vals) fs q = Inr r" "wrote (payload vals fs) q r"
    using Cons by auto
  then show ?case using q wrote_trans unfolding split by auto
qed

lemma unpack_field_read:
  assumes "ok_field okc vals f" "at_cursor p (enc_field vals f)" "f \<notin> fst ` set acc"
  shows "unpack_field okc f (acc, p) = Inr (acc @ [(f, the (map_of vals f))], advance (len (enc_field vals f)) p)"
proof -
  obtain w v where wv: "wire_of f = Some w" "map_of vals f = Some v" "ok_as okc w v"
    using assms(1) by (auto simp: ok_field_def split: option.splits)
  then have "enc_field vals f = enc_as w v" by (simp add: enc_field_def)
  then show ?thesis using wv assms(2,3) try_fmt.unpack_enc [OF wv(3)]
    by (simp add: unpack_field_def Field_Unpacker_wire lift_panic_def unpacks_def update_notin)
qed

lemma unpack_fields_read:
  assumes "list_all (ok_field okc vals) fs" "distinct fs" "set fs \<inter> fst ` set acc = {}"
    "at_cursor p (payload vals fs)"
  shows "foldR (unpack_field okc) fs (acc, p) = Inr (acc @ restrict vals fs, advance (len (payload vals fs)) p)"
  using assms
proof (induction fs arbitrary: p acc)
  case Nil
  then show ?case by (simp add: payload_def restrict_def)
next
  case (Cons f fs)
  have split: "payload vals (f # fs) = enc_field vals f @ payload vals fs" by (simp add: payload_def)
  have cur: "at_cursor p (enc_field vals f)" "at_cursor (advance (len (enc_field vals f)) p) (payload vals fs)"
    using Cons.prems(4) unfolding split at_cursor_append by auto
  have "unpack_field okc f (acc, p) = Inr (acc @ [(f, the (map_of vals f))], advance (len (enc_field vals f)) p)"
    by (rule unpack_field_read) (use Cons.prems cur in auto)
  moreover have "foldR (unpack_field okc) fs (acc @ [(f, the (map_of vals f))], advance (len (enc_field vals f)) p)
      = Inr ((acc @ [(f, the (map_of vals f))]) @ restrict vals fs,
             advance (len (payload vals fs)) (advance (len (enc_field vals f)) p))"
    by (rule Cons.IH) (use Cons.prems cur in auto)
  ultimately show ?case by (simp add: split restrict_def)
qed

text \<open>Reading fields without error consumes exactly their image.\<close>

lemma unpack_fields_canon:
  assumes "foldR (unpack_field okc) fs (acc, p) = Inr (vals, q)" "\<not> Errored q"
    "distinct fs" "set fs \<inter> fst ` set acc = {}"
  shows "\<exists>new. vals = acc @ new \<and> map fst new = fs \<and> list_all (ok_field okc new) fs \<and> consumed p (payload new fs) q"
  using assms
proof (induction fs arbitrary: p acc)
  case Nil
  then show ?case by (auto simp: payload_def consumed_def)
next
  case (Cons f fs)
  obtain acc1 p1 where step: "unpack_field okc f (acc, p) = Inr (acc1, p1)"
    and rest: "foldR (unpack_field okc) fs (acc1, p1) = Inr (vals, q)"
    using Cons.prems(1) by (auto simp: bindR_Inr)
  obtain w v where w: "wire_of f = Some w" and u: "try_unpack okc w p = Inr (v, p1)" "acc1 = acc @ [(f, v)]"
    using step Cons.prems(4)
    by (auto simp: unpack_field_def Field_Unpacker_wire lift_panic_def bindR_Inr update_notin
        split: option.splits sum.splits)
  obtain new where new: "vals = acc1 @ new" "map fst new = fs" "list_all (ok_field okc new) fs"
    "consumed p1 (payload new fs) q"
    using Cons.IH [OF rest Cons.prems(2)] Cons.prems(3,4) u(2) by auto
  have "\<not> Errored p1" using new(4) by (simp add: consumed_def)
  then have v: "ok_as okc w v" "consumed p (enc_as w v) p1"
    using try_fmt.unpack_canon u(1) unfolding canon_def by blast+
  have f: "f \<notin> set fs" using Cons.prems(3) by simp
  have other: "g \<in> set fs \<Longrightarrow> map_of ((f, v) # new) g = map_of new g" for g using f by auto
  have "map (enc_field ((f, v) # new)) fs = map (enc_field new) fs"
    by (rule map_cong [OF refl], unfold enc_field_def, subst other) simp_all
  then have "payload ((f, v) # new) (f # fs) = enc_as w v @ payload new fs"
    using w by (simp add: payload_def enc_field_def [of "(f, v) # new" f] cong: map_cong)
  moreover have "ok_field okc ((f, v) # new) g = ok_field okc new g" if "g \<in> set fs" for g
    unfolding ok_field_def other [OF that] ..
  then have "list_all (ok_field okc ((f, v) # new)) (f # fs)"
    using w v(1) new(3) by (simp add: list_all_iff ok_field_def [of okc "(f, v) # new" f])
  ultimately show ?case
    using consumed_trans [OF v(2) new(4)] new(1,2) u(2) by (intro exI [of _ "(f, v) # new"]) simp
qed

text \<open>The loops do not panic.\<close>

definition no_panic :: "msg_error + 'a \<Rightarrow> bool" where
  "no_panic r = (case r of Inl (msg_panic e) \<Rightarrow> False | _ \<Rightarrow> True)"

lemma no_panic_simps [simp]: "no_panic (Inr x)" "no_panic (Inl errMissingField)" "no_panic (Inl errBadOp)"
  "no_panic (Inl (errPacker e))" "no_panic (Inl (errCompress g))" "no_panic (Inl (errDecompress g))"
  "no_panic (Inl errExpectedLength)" "\<not> no_panic (Inl (msg_panic a))"
  by (simp_all add: no_panic_def)

lemma no_panic_bind: "no_panic r \<Longrightarrow> (\<And>x. r = Inr x \<Longrightarrow> no_panic (f x)) \<Longrightarrow> no_panic (bindR r f)"
  by (cases r) (auto simp: no_panic_def split: msg_error.splits)

lemma unpack_fields_total:
  "list_all (\<lambda>f. wire_of f \<noteq> None) fs \<Longrightarrow>
   \<exists>vals q. foldR (unpack_field okc) fs (acc, p) = Inr (vals, q) \<and> (Errored p \<longrightarrow> q = p)"
proof (induction fs arbitrary: acc p)
  case (Cons f fs)
  then obtain w where w: "wire_of f = Some w" by auto
  obtain v p1 where u: "try_unpack okc w p = Inr (v, p1)" "Errored p \<longrightarrow> p1 = p"
    using readsE [OF try_fmt.unpack_reads] by metis
  then have "unpack_field okc f (acc, p) = Inr (AList.update f v acc, p1)"
    using w by (simp add: unpack_field_def Field_Unpacker_wire lift_panic_def)
  then show ?case using Cons.IH [of "AList.update f v acc" p1] Cons.prems u(2) by auto
qed simp

lemma pack_fields_total:
  assumes "list_all (\<lambda>f. wire_of f \<noteq> None) fs" "list_all (\<lambda>(f, v). packable v) vals" "in_slice p"
  shows "foldR (pack_field vals) fs p = Inl errMissingField \<or>
    (\<exists>q. foldR (pack_field vals) fs p = Inr q \<and> in_slice q \<and> pk_Offset p \<le> pk_Offset q
       \<and> len (pk_Bytes q) \<le> max (pk_MaxSize p) (len (pk_Bytes p)) \<and> pk_MaxSize q = pk_MaxSize p
       \<and> (Errored p \<longrightarrow> Errored q))"
  using assms
proof (induction fs arbitrary: p)
  case (Cons f fs)
  then obtain w where w: "wire_of f = Some w" by auto
  show ?case
  proof (cases "map_of vals f")
    case None
    then show ?thesis by (simp add: pack_field_def)
  next
    case (Some v)
    then have "packable v" using Cons.prems(2) map_of_SomeD by (fastforce simp: list_all_iff)
    then obtain q where q: "try_pack w v p = Inr ((), q)" "in_slice q" "pk_Offset p \<le> pk_Offset q"
      "pk_MaxSize q = pk_MaxSize p" "len (pk_Bytes q) \<le> max (pk_MaxSize p) (len (pk_Bytes p))" "Errored p \<longrightarrow> Errored q"
      using try_writes Cons.prems(3) unfolding writes_def by meson
    have f: "pack_field vals f p = Inr q"
      using w Some q(1) by (simp add: pack_field_def Field_Packer_wire lift_panic_def)
    show ?thesis
      using Cons.IH [OF _ Cons.prems(2) q(2)] Cons.prems(1) q f by auto
  qed
qed simp

section \<open>Packing a message\<close>

definition start_packer :: "PackEnv \<Rightarrow> byte list \<Rightarrow> Packer" where
  "start_packer env buffer = \<lparr>pk_Err = None, pk_MaxSize = MaxInt32, pk_Bytes = [], pk_spare = buffer,
     pk_grow = pe_grow env, pk_Offset = 0\<rparr>"

definition pack_header :: "Op \<Rightarrow> bool \<Rightarrow> unit pk" where
  "pack_header op compress = thenP (PackByte (op_code op)) (if Compressible op then PackBool compress else retP ())"

lemma pack_header_packs: "packs (pack_header op compress) (header op compress)"
proof -
  have b: "be_bytes 1 (x :: byte) = [x]" for x by simp
  have "packs (thenP (PackByte (op_code op)) (PackBool compress)) ([op_code op] @ [if compress then 1 else 0])"
    using packs_then [OF byte_fmt.pack_enc [of "op_code op"] bool_fmt.pack_enc [of compress]] by (simp only: b)
  moreover have "packs (thenP (PackByte (op_code op)) (retP ())) ([op_code op] @ [])"
    using packs_then [OF byte_fmt.pack_enc [of "op_code op"] packs_ret] by (simp only: b)
  ultimately show ?thesis by (simp add: pack_header_def header_def)
qed

lemma pack_header_writes: "writes (pack_header op compress)"
  unfolding pack_header_def PackBool_def by (auto intro!: writes_then base_writes writes_ret)

lemma lift_panic_simps [simp]: "lift_panic (Inr x) = Inr x" "lift_panic (Inl e) = Inl (msg_panic e)"
  by (simp_all add: lift_panic_def)

definition finish_pack :: "Lib \<Rightarrow> codec \<Rightarrow> Op \<Rightarrow> bool \<Rightarrow> bool \<Rightarrow> Packer \<Rightarrow> msg_error + outboundMessage \<times> codec" where
  "finish_pack L c op compress bypassThrottling p =
     (case pk_Err p of Some e \<Rightarrow> Inl (errPacker e)
      | None \<Rightarrow>
        let msg = \<lparr>om_bytes = pk_Bytes p, om_bytesSavedCompression = 0, om_op = op,
                   om_bypassThrottling = bypassThrottling, om_refs = 1\<rparr>
        in if \<not> compress then Inr (msg, c)
           else if length (om_bytes msg) < 2 then Inl (msg_panic SliceBounds)
           else
             let payloadBytes = drop 2 (om_bytes msg) in
             case Compress L (cd_maxSize c) payloadBytes of Inl e \<Rightarrow> Inl (errCompress e)
             | Inr compressedPayloadBytes \<Rightarrow>
               if op \<notin> set (cd_compressTimeMetrics c) then Inl (msg_panic NilPointer)
               else Inr (msg\<lparr>om_bytesSavedCompression := len payloadBytes - len compressedPayloadBytes,
                            om_bytes := take 2 (om_bytes msg) @ compressedPayloadBytes\<rparr>, c))"

lemma Pack_steps:
  assumes "map_of messages op = Some fs"
  shows "Pack L env c op vals compress bypass =
    (let (buffer, c) = pool_Get (pe_pick env) c in
     bindR (lift_panic (pack_header op compress (start_packer env buffer))) (\<lambda>(_, p).
     bindR (foldR (pack_field vals) fs p) (finish_pack L c op compress bypass)))"
proof -
  have "bindR (lift_panic (PackByte b p)) (\<lambda>(_, p). bindR (if C then lift_panic (PackBool compress p) else Inr ((), p)) (\<lambda>(_, p). k p))
     = bindR (lift_panic (thenP (PackByte b) (if C then PackBool compress else retP ()) p)) (\<lambda>(_, p). k p)"
    for b p C and k :: "Packer \<Rightarrow> msg_error + outboundMessage \<times> codec"
    by (cases "PackByte b p") (auto simp: thenP_apply)
  then show ?thesis using assms
    unfolding Pack_def start_packer_def pack_header_def finish_pack_def
    by (simp only: option.case split_def Let_def)
qed

lemma pool_Get_keeps:
  "cd_clock (snd (pool_Get k c)) = cd_clock c \<and> cd_compressTimeMetrics (snd (pool_Get k c)) = cd_compressTimeMetrics c
   \<and> cd_decompressTimeMetrics (snd (pool_Get k c)) = cd_decompressTimeMetrics c \<and> cd_maxSize (snd (pool_Get k c)) = cd_maxSize c
   \<and> cd_maxMessageTimeout (snd (pool_Get k c)) = cd_maxMessageTimeout c"
  by (simp add: pool_Get_def split: option.splits)

lemma Pack_uncompressed_bytes:
  assumes fs: "map_of messages op = Some fs" and ok: "list_all (ok_field okc vals) fs"
    and size: "len (payload vals fs) \<le> MaxInt32 - 2"
  shows "Pack L env c op vals compress bypass =
    finish_pack L (snd (pool_Get (pe_pick env) c)) op compress bypass
      \<lparr>pk_Err = None, pk_MaxSize = MaxInt32, pk_Bytes = header op compress @ payload vals fs,
       pk_spare = [], pk_grow = id, pk_Offset = 0\<rparr>"
proof -
  obtain buffer c1 where g: "pool_Get (pe_pick env) c = (buffer, c1)" by fastforce
  let ?p = "start_packer env buffer"
  have hl: "len (header op compress) \<le> 2" by (simp add: header_def len_def)
  then have "has_room ?p (len (header op compress @ payload vals fs))"
    using size by (simp add: has_room_def in_slice_def start_packer_def Errored_def)
  moreover then have "has_room ?p (len (header op compress))" by (auto intro: has_room_mono)
  then obtain q where q: "pack_header op compress ?p = Inr ((), q)" "wrote (header op compress) ?p q"
    using pack_header_packs unfolding packs_def by blast
  ultimately have "has_room q (len (payload vals fs))" using wrote_room by blast
  then obtain r where r: "foldR (pack_field vals) fs q = Inr r" "wrote (payload vals fs) q r"
    using pack_fields_wrote [OF ok] by blast
  have "wrote (header op compress @ payload vals fs) ?p r" using wrote_trans q(2) r(2) by blast
  then have "pk_Bytes r = header op compress @ payload vals fs" "pk_Err r = None"
    by (auto simp: wrote_def start_packer_def Errored_def)
  then show ?thesis using q(1) r(1) by (simp add: Pack_steps [OF fs] g finish_pack_def)
qed

text \<open>
  The compressed payload must be accepted by the compressor: within its size limit, and written
  without error.
\<close>

definition can_compress :: "Lib \<Rightarrow> codec \<Rightarrow> byte list \<Rightarrow> bool" where
  "can_compress L c msg = (len msg \<le> cd_maxSize c \<and> gz_write L msg \<noteq> None)"

lemma Pack_exact:
  assumes fs: "map_of messages op = Some fs" and ok: "list_all (ok_field okc vals) fs"
    and size: "len (payload vals fs) \<le> MaxInt32 - 2" and c: "codec_ok c"
    and compr: "compress \<longrightarrow> Compressible op \<and> can_compress L c (payload vals fs)"
  shows "\<exists>msg. Pack L env c op vals compress bypass = Inr (msg, snd (pool_Get (pe_pick env) c))
    \<and> om_bytes msg = message_bytes L op vals fs compress \<and> om_op msg = op \<and> om_refs msg = 1
    \<and> om_bypassThrottling msg = bypass"
proof (cases compress)
  case False
  then show ?thesis
    by (simp add: Pack_uncompressed_bytes [OF fs ok size] finish_pack_def message_bytes_def)
next
  case True
  then have C: "Compressible op" "can_compress L c (payload vals fs)" using compr by auto
  then obtain z where "gz_write L (payload vals fs) = Some z" "len (payload vals fs) \<le> cd_maxSize c"
    by (auto simp: can_compress_def)
  moreover have "op \<in> set (cd_compressTimeMetrics c)"
    using c C(1) compressible_external unfolding codec_ok_def by blast
  moreover have "length (header op True) = 2" using C(1) by (simp add: header_def)
  ultimately show ?thesis using True pool_Get_keeps [of "pe_pick env" c]
    by (simp add: Pack_uncompressed_bytes [OF fs ok size] finish_pack_def message_bytes_def Compress_def)
qed

section \<open>Parsing a message\<close>

definition parse_packer :: "byte list \<Rightarrow> Packer" where
  "parse_packer bytes = \<lparr>pk_Err = None, pk_MaxSize = 0, pk_Bytes = bytes, pk_spare = [], pk_grow = id, pk_Offset = 0\<rparr>"

lemma at_cursor_start: "at_cursor (parse_packer (bs @ rest)) bs"
  by (simp add: at_cursor_def parse_packer_def Errored_def len_def)

lemma at_cursor_next: "at_cursor (advance (len pre) (parse_packer (pre @ bs @ rest))) bs"
  using at_cursor_start [of "pre @ bs" rest] by (simp add: at_cursor_append)

lemma Parse_header:
  assumes "map_of messages op = Some fs" "compress \<longrightarrow> Compressible op"
  shows "Parse L c now (header op compress @ rest) nodeID h =
    bindR (if compress then decompressPayload L c op (advance 2 (parse_packer (header op compress @ rest)))
           else Inr (0, advance (len (header op compress)) (parse_packer (header op compress @ rest))))
      (\<lambda>(bytesSaved, p). parse_fields L c now op fs nodeID h bytesSaved p)"
proof -
  let ?p = "parse_packer (header op compress @ rest)"
  have b: "be_bytes 1 (x :: byte) = [x]" for x by simp
  have "at_cursor ?p [op_code op]"
    using at_cursor_start [of "[op_code op]"] by (simp add: header_def)
  then have op: "UnpackByte ?p = Inr (op_code op, advance 1 ?p)"
    using byte_fmt.unpack_enc [of "op_code op"] unfolding b by (simp add: unpacks_def len_def)
  have "UnpackBool (advance 1 ?p) = Inr (compress, advance 2 ?p)" if "Compressible op"
  proof -
    have "at_cursor (advance 1 ?p) [if compress then 1 else 0]"
      using at_cursor_next [of "[op_code op]" "[if compress then 1 else 0]" rest] that
      by (simp add: header_def len_def)
    then show ?thesis using bool_fmt.unpack_enc [of compress] unfolding b by (simp add: unpacks_def len_def)
  qed
  moreover have "pk_Err (advance k ?p) = None" for k by (simp add: parse_packer_def advance_def)
  moreover have "len (header op compress) = (if Compressible op then 2 else 1)" by (simp add: header_def len_def)
  ultimately show ?thesis using assms op
    by (auto simp: Parse_def parse_packer_def [symmetric])
qed

lemma parse_fields_exact:
  assumes "map_of messages op = Some fs" "list_all (ok_field (x509_ok L) vals) fs"
    "pk_Bytes p = pre @ payload vals fs" "pk_Offset p = len pre" "pk_Err p = None"
  shows "parse_fields L c now op fs nodeID h saved p =
    bindR (expiration c now (restrict vals fs)) (\<lambda>t.
      Inr \<lparr>im_op = op, im_bytesSavedCompression = saved, im_fields = restrict vals fs, im_nodeID = nodeID,
           im_expirationTime = t, im_onFinishedHandling = h\<rparr>)"
proof -
  have "at_cursor p (payload vals fs)"
    using assms(3-5) by (simp add: at_cursor_def Errored_def)
  then have "foldR (unpack_field (x509_ok L)) fs ([], p) = Inr (restrict vals fs, advance (len (payload vals fs)) p)"
    using unpack_fields_read [OF assms(2), of "[]" p] messages_fields [OF assms(1)] by simp
  then show ?thesis using assms(3-5) by (simp add: parse_fields_def)
qed

end
