(* ===== verification/MessageBuilders.thy ===== *)
theory MessageBuilders
  imports MessageWire
begin

text \<open>
  Package \<open>message\<close>, the builders: \<open>src/message/outbound_msg_builder.go\<close> (messages sent to
  peers, packed by the codec), \<open>src/message/inbound_msg_builder.go\<close> (messages a node delivers to itself
  without the wire) and \<open>src/message/internal_msg_builder.go\<close> (notifications, among them failed requests).

  A \<open>time.Duration\<close> is an \<open>int\<close>; \<open>uint64(deadline)\<close> is its two's complement image \<open>word_of_int\<close>.
\<close>

section \<open>Outbound messages\<close>

record outMsgBuilder =
  ob_c :: codec
  ob_compress :: bool

definition NewOutboundBuilder :: "codec \<Rightarrow> bool \<Rightarrow> outMsgBuilder" where
  "NewOutboundBuilder c enableCompression = \<lparr>ob_c = c, ob_compress = enableCompression\<rparr>"

text \<open>\<open>encodeIDs\<close>: the byte slices of the identifiers, in order.\<close>

definition encodeIDs :: "ID list \<Rightarrow> byte list list" where
  "encodeIDs ids = map ID_bytes ids"

type_synonym out_result = "msg_error + outboundMessage \<times> codec"

definition out_Version :: "Lib \<Rightarrow> PackEnv \<Rightarrow> outMsgBuilder \<Rightarrow> 32 word \<Rightarrow> 64 word \<Rightarrow> IPPort \<Rightarrow> byte list \<Rightarrow> 64 word \<Rightarrow> byte list \<Rightarrow> ID list \<Rightarrow> out_result" where
  "out_Version L env b networkID myTime ip myVersion myVersionTime sig trackedSubnets =
     Pack L env (ob_c b) Version
       [(NetworkID, V_uint32 networkID),
        (NodeID, V_uint32 0),
        (MyTime, V_uint64 myTime),
        (IP, V_ip ip),
        (VersionStr, V_string myVersion),
        (VersionTime, V_uint64 myVersionTime),
        (SigBytes, V_bytes sig),
        (TrackedSubnets, V_bytess (encodeIDs trackedSubnets))]
       (Compressible Version) True"

definition out_PeerList :: "Lib \<Rightarrow> PackEnv \<Rightarrow> outMsgBuilder \<Rightarrow> ClaimedIPPort list \<Rightarrow> bool \<Rightarrow> out_result" where
  "out_PeerList L env b peers bypassThrottling =
     Pack L env (ob_c b) PeerList
       [(Peers, V_claimed peers)]
       (ob_compress b \<and> Compressible PeerList) bypassThrottling"

definition out_Ping :: "Lib \<Rightarrow> PackEnv \<Rightarrow> outMsgBuilder \<Rightarrow> out_result" where
  "out_Ping L env b =
     Pack L env (ob_c b) Ping
       []
       (Compressible Ping) False"

definition out_Pong :: "Lib \<Rightarrow> PackEnv \<Rightarrow> outMsgBuilder \<Rightarrow> byte \<Rightarrow> out_result" where
  "out_Pong L env b uptimePercentage =
     Pack L env (ob_c b) Pong
       [(Uptime, V_uint8 uptimePercentage)]
       (Compressible Pong) False"

definition out_GetStateSummaryFrontier :: "Lib \<Rightarrow> PackEnv \<Rightarrow> outMsgBuilder \<Rightarrow> ID \<Rightarrow> 32 word \<Rightarrow> int \<Rightarrow> out_result" where
  "out_GetStateSummaryFrontier L env b chainID requestID deadline =
     Pack L env (ob_c b) GetStateSummaryFrontier
       [(ChainID, V_bytes (ID_bytes chainID)),
        (RequestID, V_uint32 requestID),
        (Deadline, V_uint64 (word_of_int deadline))]
       (Compressible GetStateSummaryFrontier) False"

definition out_StateSummaryFrontier :: "Lib \<Rightarrow> PackEnv \<Rightarrow> outMsgBuilder \<Rightarrow> ID \<Rightarrow> 32 word \<Rightarrow> byte list \<Rightarrow> out_result" where
  "out_StateSummaryFrontier L env b chainID requestID summary =
     Pack L env (ob_c b) StateSummaryFrontier
       [(ChainID, V_bytes (ID_bytes chainID)),
        (RequestID, V_uint32 requestID),
        (SummaryBytes, V_bytes summary)]
       (ob_compress b \<and> Compressible StateSummaryFrontier) False"

definition out_GetAcceptedStateSummary :: "Lib \<Rightarrow> PackEnv \<Rightarrow> outMsgBuilder \<Rightarrow> ID \<Rightarrow> 32 word \<Rightarrow> int \<Rightarrow> 64 word list \<Rightarrow> out_result" where
  "out_GetAcceptedStateSummary L env b chainID requestID deadline heights =
     Pack L env (ob_c b) GetAcceptedStateSummary
       [(ChainID, V_bytes (ID_bytes chainID)),
        (RequestID, V_uint32 requestID),
        (Deadline, V_uint64 (word_of_int deadline)),
        (SummaryHeights, V_uint64s heights)]
       (ob_compress b \<and> Compressible GetAcceptedStateSummary) False"

definition out_AcceptedStateSummary :: "Lib \<Rightarrow> PackEnv \<Rightarrow> outMsgBuilder \<Rightarrow> ID \<Rightarrow> 32 word \<Rightarrow> ID list \<Rightarrow> out_result" where
  "out_AcceptedStateSummary L env b chainID requestID summaryIDs =
     Pack L env (ob_c b) AcceptedStateSummary
       [(ChainID, V_bytes (ID_bytes chainID)),
        (RequestID, V_uint32 requestID),
        (SummaryIDs, V_bytess (encodeIDs summaryIDs))]
       (ob_compress b \<and> Compressible AcceptedStateSummary) False"

definition out_GetAcceptedFrontier :: "Lib \<Rightarrow> PackEnv \<Rightarrow> outMsgBuilder \<Rightarrow> ID \<Rightarrow> 32 word \<Rightarrow> int \<Rightarrow> out_result" where
  "out_GetAcceptedFrontier L env b chainID requestID deadline =
     Pack L env (ob_c b) GetAcceptedFrontier
       [(ChainID, V_bytes (ID_bytes chainID)),
        (RequestID, V_uint32 requestID),
        (Deadline, V_uint64 (word_of_int deadline))]
       (Compressible GetAcceptedFrontier) False"

definition out_AcceptedFrontier :: "Lib \<Rightarrow> PackEnv \<Rightarrow> outMsgBuilder \<Rightarrow> ID \<Rightarrow> 32 word \<Rightarrow> ID list \<Rightarrow> out_result" where
  "out_AcceptedFrontier L env b chainID requestID containerIDs =
     Pack L env (ob_c b) AcceptedFrontier
       [(ChainID, V_bytes (ID_bytes chainID)),
        (RequestID, V_uint32 requestID),
        (ContainerIDs, V_bytess (encodeIDs containerIDs))]
       (Compressible AcceptedFrontier) False"

definition out_GetAccepted :: "Lib \<Rightarrow> PackEnv \<Rightarrow> outMsgBuilder \<Rightarrow> ID \<Rightarrow> 32 word \<Rightarrow> int \<Rightarrow> ID list \<Rightarrow> out_result" where
  "out_GetAccepted L env b chainID requestID deadline containerIDs =
     Pack L env (ob_c b) GetAccepted
       [(ChainID, V_bytes (ID_bytes chainID)),
        (RequestID, V_uint32 requestID),
        (Deadline, V_uint64 (word_of_int deadline)),
        (ContainerIDs, V_bytess (encodeIDs containerIDs))]
       (Compressible GetAccepted) False"

definition out_Accepted :: "Lib \<Rightarrow> PackEnv \<Rightarrow> outMsgBuilder \<Rightarrow> ID \<Rightarrow> 32 word \<Rightarrow> ID list \<Rightarrow> out_result" where
  "out_Accepted L env b chainID requestID containerIDs =
     Pack L env (ob_c b) Accepted
       [(ChainID, V_bytes (ID_bytes chainID)),
        (RequestID, V_uint32 requestID),
        (ContainerIDs, V_bytess (encodeIDs containerIDs))]
       (Compressible Accepted) False"

definition out_GetAncestors :: "Lib \<Rightarrow> PackEnv \<Rightarrow> outMsgBuilder \<Rightarrow> ID \<Rightarrow> 32 word \<Rightarrow> int \<Rightarrow> ID \<Rightarrow> out_result" where
  "out_GetAncestors L env b chainID requestID deadline containerID =
     Pack L env (ob_c b) GetAncestors
       [(ChainID, V_bytes (ID_bytes chainID)),
        (RequestID, V_uint32 requestID),
        (Deadline, V_uint64 (word_of_int deadline)),
        (ContainerID, V_bytes (ID_bytes containerID))]
       (Compressible GetAncestors) False"

definition out_Ancestors :: "Lib \<Rightarrow> PackEnv \<Rightarrow> outMsgBuilder \<Rightarrow> ID \<Rightarrow> 32 word \<Rightarrow> byte list list \<Rightarrow> out_result" where
  "out_Ancestors L env b chainID requestID containers =
     Pack L env (ob_c b) Ancestors
       [(ChainID, V_bytes (ID_bytes chainID)),
        (RequestID, V_uint32 requestID),
        (MultiContainerBytes, V_bytess containers)]
       (ob_compress b \<and> Compressible Ancestors) False"

definition out_Get :: "Lib \<Rightarrow> PackEnv \<Rightarrow> outMsgBuilder \<Rightarrow> ID \<Rightarrow> 32 word \<Rightarrow> int \<Rightarrow> ID \<Rightarrow> out_result" where
  "out_Get L env b chainID requestID deadline containerID =
     Pack L env (ob_c b) Get
       [(ChainID, V_bytes (ID_bytes chainID)),
        (RequestID, V_uint32 requestID),
        (Deadline, V_uint64 (word_of_int deadline)),
        (ContainerID, V_bytes (ID_bytes containerID))]
       (Compressible Get) False"

definition out_Put :: "Lib \<Rightarrow> PackEnv \<Rightarrow> outMsgBuilder \<Rightarrow> ID \<Rightarrow> 32 word \<Rightarrow> ID \<Rightarrow> byte list \<Rightarrow> out_result" where
  "out_Put L env b chainID requestID containerID container =
     Pack L env (ob_c b) Put
       [(ChainID, V_bytes (ID_bytes chainID)),
        (RequestID, V_uint32 requestID),
        (ContainerID, V_bytes (ID_bytes containerID)),
        (ContainerBytes, V_bytes container)]
       (ob_compress b \<and> Compressible Put) False"

definition out_PushQuery :: "Lib \<Rightarrow> PackEnv \<Rightarrow> outMsgBuilder \<Rightarrow> ID \<Rightarrow> 32 word \<Rightarrow> int \<Rightarrow> ID \<Rightarrow> byte list \<Rightarrow> out_result" where
  "out_PushQuery L env b chainID requestID deadline containerID container =
     Pack L env (ob_c b) PushQuery
       [(ChainID, V_bytes (ID_bytes chainID)),
        (RequestID, V_uint32 requestID),
        (Deadline, V_uint64 (word_of_int deadline)),
        (ContainerID, V_bytes (ID_bytes containerID)),
        (ContainerBytes, V_bytes container)]
       (ob_compress b \<and> Compressible PushQuery) False"

definition out_PullQuery :: "Lib \<Rightarrow> PackEnv \<Rightarrow> outMsgBuilder \<Rightarrow> ID \<Rightarrow> 32 word \<Rightarrow> int \<Rightarrow> ID \<Rightarrow> out_result" where
  "out_PullQuery L env b chainID requestID deadline containerID =
     Pack L env (ob_c b) PullQuery
       [(ChainID, V_bytes (ID_bytes chainID)),
        (RequestID, V_uint32 requestID),
        (Deadline, V_uint64 (word_of_int deadline)),
        (ContainerID, V_bytes (ID_bytes containerID))]
       (Compressible PullQuery) False"

definition out_Chits :: "Lib \<Rightarrow> PackEnv \<Rightarrow> outMsgBuilder \<Rightarrow> ID \<Rightarrow> 32 word \<Rightarrow> ID list \<Rightarrow> out_result" where
  "out_Chits L env b chainID requestID containerIDs =
     Pack L env (ob_c b) Chits
       [(ChainID, V_bytes (ID_bytes chainID)),
        (RequestID, V_uint32 requestID),
        (ContainerIDs, V_bytess (encodeIDs containerIDs))]
       (Compressible Chits) False"

definition out_ChitsV2 :: "Lib \<Rightarrow> PackEnv \<Rightarrow> outMsgBuilder \<Rightarrow> ID \<Rightarrow> 32 word \<Rightarrow> ID list \<Rightarrow> ID \<Rightarrow> out_result" where
  "out_ChitsV2 L env b chainID requestID containerIDs containerID =
     Pack L env (ob_c b) ChitsV2
       [(ChainID, V_bytes (ID_bytes chainID)),
        (RequestID, V_uint32 requestID),
        (ContainerIDs, V_bytess (encodeIDs containerIDs)),
        (ContainerID, V_bytes (ID_bytes containerID))]
       (Compressible ChitsV2) False"

definition out_AppRequest :: "Lib \<Rightarrow> PackEnv \<Rightarrow> outMsgBuilder \<Rightarrow> ID \<Rightarrow> 32 word \<Rightarrow> int \<Rightarrow> byte list \<Rightarrow> out_result" where
  "out_AppRequest L env b chainID requestID deadline msg =
     Pack L env (ob_c b) AppRequest
       [(ChainID, V_bytes (ID_bytes chainID)),
        (RequestID, V_uint32 requestID),
        (Deadline, V_uint64 (word_of_int deadline)),
        (AppBytes, V_bytes msg)]
       (ob_compress b \<and> Compressible AppRequest) False"

definition out_AppResponse :: "Lib \<Rightarrow> PackEnv \<Rightarrow> outMsgBuilder \<Rightarrow> ID \<Rightarrow> 32 word \<Rightarrow> byte list \<Rightarrow> out_result" where
  "out_AppResponse L env b chainID requestID msg =
     Pack L env (ob_c b) AppResponse
       [(ChainID, V_bytes (ID_bytes chainID)),
        (RequestID, V_uint32 requestID),
        (AppBytes, V_bytes msg)]
       (ob_compress b \<and> Compressible AppResponse) False"

definition out_AppGossip :: "Lib \<Rightarrow> PackEnv \<Rightarrow> outMsgBuilder \<Rightarrow> ID \<Rightarrow> byte list \<Rightarrow> out_result" where
  "out_AppGossip L env b chainID msg =
     Pack L env (ob_c b) AppGossip
       [(ChainID, V_bytes (ID_bytes chainID)),
        (AppBytes, V_bytes msg)]
       (ob_compress b \<and> Compressible AppGossip) False"

section \<open>Inbound messages\<close>

record inMsgBuilder =
  ib_codec :: codec
  ib_clock :: Clock

definition NewInboundBuilder :: "codec \<Rightarrow> inMsgBuilder" where
  "NewInboundBuilder c = \<lparr>ib_codec = c, ib_clock = newClock\<rparr>"

definition ib_SetTime :: "time \<Rightarrow> inMsgBuilder \<Rightarrow> inMsgBuilder" where
  "ib_SetTime t b = b\<lparr>ib_clock := Clock_Set t (ib_clock b), ib_codec := codec_SetTime t (ib_codec b)\<rparr>"

text \<open>The composite literal \<open>&inboundMessage{op, fields, nodeID, expirationTime}\<close>; other fields are zero.\<close>

definition mk_inbound :: "Op \<Rightarrow> fields \<Rightarrow> Ids.NodeID \<Rightarrow> time option \<Rightarrow> inboundMessage" where
  "mk_inbound op values nodeID expirationTime =
     \<lparr>im_op = op, im_bytesSavedCompression = 0, im_fields = values, im_nodeID = nodeID,
      im_expirationTime = expirationTime, im_onFinishedHandling = None\<rparr>"

definition InboundGetStateSummaryFrontier :: "time \<Rightarrow> inMsgBuilder \<Rightarrow> ID \<Rightarrow> 32 word \<Rightarrow> int \<Rightarrow> Ids.NodeID \<Rightarrow> inboundMessage" where
  "InboundGetStateSummaryFrontier now b chainID requestID deadline nodeID =
     (let received = Clock_Time now (ib_clock b) in
      mk_inbound GetStateSummaryFrontier
       [(ChainID, V_bytes (ID_bytes chainID)),
        (RequestID, V_uint32 requestID),
        (Deadline, V_uint64 (word_of_int deadline))]
       nodeID (Some (received + deadline)))"

definition InboundStateSummaryFrontier :: "inMsgBuilder \<Rightarrow> ID \<Rightarrow> 32 word \<Rightarrow> byte list \<Rightarrow> Ids.NodeID \<Rightarrow> inboundMessage" where
  "InboundStateSummaryFrontier b chainID requestID summary nodeID =
     mk_inbound StateSummaryFrontier
       [(ChainID, V_bytes (ID_bytes chainID)),
        (RequestID, V_uint32 requestID),
        (SummaryBytes, V_bytes summary)]
       nodeID None"

definition InboundGetAcceptedStateSummary :: "time \<Rightarrow> inMsgBuilder \<Rightarrow> ID \<Rightarrow> 32 word \<Rightarrow> 64 word list \<Rightarrow> int \<Rightarrow> Ids.NodeID \<Rightarrow> inboundMessage" where
  "InboundGetAcceptedStateSummary now b chainID requestID heights deadline nodeID =
     (let received = Clock_Time now (ib_clock b) in
      mk_inbound GetAcceptedStateSummary
       [(ChainID, V_bytes (ID_bytes chainID)),
        (RequestID, V_uint32 requestID),
        (Deadline, V_uint64 (word_of_int deadline)),
        (SummaryHeights, V_uint64s heights)]
       nodeID (Some (received + deadline)))"

definition InboundAcceptedStateSummary :: "inMsgBuilder \<Rightarrow> ID \<Rightarrow> 32 word \<Rightarrow> ID list \<Rightarrow> Ids.NodeID \<Rightarrow> inboundMessage" where
  "InboundAcceptedStateSummary b chainID requestID summaryIDs nodeID =
     mk_inbound AcceptedStateSummary
       [(ChainID, V_bytes (ID_bytes chainID)),
        (RequestID, V_uint32 requestID),
        (SummaryIDs, V_bytess (encodeIDs summaryIDs))]
       nodeID None"

definition InboundGetAcceptedFrontier :: "time \<Rightarrow> inMsgBuilder \<Rightarrow> ID \<Rightarrow> 32 word \<Rightarrow> int \<Rightarrow> Ids.NodeID \<Rightarrow> inboundMessage" where
  "InboundGetAcceptedFrontier now b chainID requestID deadline nodeID =
     (let received = Clock_Time now (ib_clock b) in
      mk_inbound GetAcceptedFrontier
       [(ChainID, V_bytes (ID_bytes chainID)),
        (RequestID, V_uint32 requestID),
        (Deadline, V_uint64 (word_of_int deadline))]
       nodeID (Some (received + deadline)))"

definition InboundAcceptedFrontier :: "inMsgBuilder \<Rightarrow> ID \<Rightarrow> 32 word \<Rightarrow> ID list \<Rightarrow> Ids.NodeID \<Rightarrow> inboundMessage" where
  "InboundAcceptedFrontier b chainID requestID containerIDs nodeID =
     mk_inbound AcceptedFrontier
       [(ChainID, V_bytes (ID_bytes chainID)),
        (RequestID, V_uint32 requestID),
        (ContainerIDs, V_bytess (encodeIDs containerIDs))]
       nodeID None"

definition InboundGetAccepted :: "time \<Rightarrow> inMsgBuilder \<Rightarrow> ID \<Rightarrow> 32 word \<Rightarrow> int \<Rightarrow> ID list \<Rightarrow> Ids.NodeID \<Rightarrow> inboundMessage" where
  "InboundGetAccepted now b chainID requestID deadline containerIDs nodeID =
     (let received = Clock_Time now (ib_clock b) in
      mk_inbound GetAccepted
       [(ChainID, V_bytes (ID_bytes chainID)),
        (RequestID, V_uint32 requestID),
        (Deadline, V_uint64 (word_of_int deadline)),
        (ContainerIDs, V_bytess (encodeIDs containerIDs))]
       nodeID (Some (received + deadline)))"

definition InboundAccepted :: "inMsgBuilder \<Rightarrow> ID \<Rightarrow> 32 word \<Rightarrow> ID list \<Rightarrow> Ids.NodeID \<Rightarrow> inboundMessage" where
  "InboundAccepted b chainID requestID containerIDs nodeID =
     mk_inbound Accepted
       [(ChainID, V_bytes (ID_bytes chainID)),
        (RequestID, V_uint32 requestID),
        (ContainerIDs, V_bytess (encodeIDs containerIDs))]
       nodeID None"

definition InboundPushQuery :: "time \<Rightarrow> inMsgBuilder \<Rightarrow> ID \<Rightarrow> 32 word \<Rightarrow> int \<Rightarrow> ID \<Rightarrow> byte list \<Rightarrow> Ids.NodeID \<Rightarrow> inboundMessage" where
  "InboundPushQuery now b chainID requestID deadline containerID container nodeID =
     (let received = Clock_Time now (ib_clock b) in
      mk_inbound PushQuery
       [(ChainID, V_bytes (ID_bytes chainID)),
        (RequestID, V_uint32 requestID),
        (Deadline, V_uint64 (word_of_int deadline)),
        (ContainerID, V_bytes (ID_bytes containerID)),
        (ContainerBytes, V_bytes container)]
       nodeID (Some (received + deadline)))"

definition InboundPullQuery :: "time \<Rightarrow> inMsgBuilder \<Rightarrow> ID \<Rightarrow> 32 word \<Rightarrow> int \<Rightarrow> ID \<Rightarrow> Ids.NodeID \<Rightarrow> inboundMessage" where
  "InboundPullQuery now b chainID requestID deadline containerID nodeID =
     (let received = Clock_Time now (ib_clock b) in
      mk_inbound PullQuery
       [(ChainID, V_bytes (ID_bytes chainID)),
        (RequestID, V_uint32 requestID),
        (Deadline, V_uint64 (word_of_int deadline)),
        (ContainerID, V_bytes (ID_bytes containerID))]
       nodeID (Some (received + deadline)))"

definition InboundChits :: "inMsgBuilder \<Rightarrow> ID \<Rightarrow> 32 word \<Rightarrow> ID list \<Rightarrow> Ids.NodeID \<Rightarrow> inboundMessage" where
  "InboundChits b chainID requestID containerIDs nodeID =
     mk_inbound Chits
       [(ChainID, V_bytes (ID_bytes chainID)),
        (RequestID, V_uint32 requestID),
        (ContainerIDs, V_bytess (encodeIDs containerIDs))]
       nodeID None"

definition InboundChitsV2 :: "inMsgBuilder \<Rightarrow> ID \<Rightarrow> 32 word \<Rightarrow> ID list \<Rightarrow> ID \<Rightarrow> Ids.NodeID \<Rightarrow> inboundMessage" where
  "InboundChitsV2 b chainID requestID containerIDs containerID nodeID =
     mk_inbound ChitsV2
       [(ChainID, V_bytes (ID_bytes chainID)),
        (RequestID, V_uint32 requestID),
        (ContainerIDs, V_bytess (encodeIDs containerIDs)),
        (ContainerID, V_bytes (ID_bytes containerID))]
       nodeID None"

definition InboundAppRequest :: "time \<Rightarrow> inMsgBuilder \<Rightarrow> ID \<Rightarrow> 32 word \<Rightarrow> int \<Rightarrow> byte list \<Rightarrow> Ids.NodeID \<Rightarrow> inboundMessage" where
  "InboundAppRequest now b chainID requestID deadline msg nodeID =
     (let received = Clock_Time now (ib_clock b) in
      mk_inbound AppRequest
       [(ChainID, V_bytes (ID_bytes chainID)),
        (RequestID, V_uint32 requestID),
        (Deadline, V_uint64 (word_of_int deadline)),
        (AppBytes, V_bytes msg)]
       nodeID (Some (received + deadline)))"

definition InboundAppResponse :: "inMsgBuilder \<Rightarrow> ID \<Rightarrow> 32 word \<Rightarrow> byte list \<Rightarrow> Ids.NodeID \<Rightarrow> inboundMessage" where
  "InboundAppResponse b chainID requestID msg nodeID =
     mk_inbound AppResponse
       [(ChainID, V_bytes (ID_bytes chainID)),
        (RequestID, V_uint32 requestID),
        (AppBytes, V_bytes msg)]
       nodeID None"

definition InboundGet :: "time \<Rightarrow> inMsgBuilder \<Rightarrow> ID \<Rightarrow> 32 word \<Rightarrow> int \<Rightarrow> ID \<Rightarrow> Ids.NodeID \<Rightarrow> inboundMessage" where
  "InboundGet now b chainID requestID deadline containerID nodeID =
     (let received = Clock_Time now (ib_clock b) in
      mk_inbound Put
       [(ChainID, V_bytes (ID_bytes chainID)),
        (RequestID, V_uint32 requestID),
        (Deadline, V_uint64 (word_of_int deadline)),
        (ContainerID, V_bytes (ID_bytes containerID))]
       nodeID (Some (received + deadline)))"

definition InboundPut :: "inMsgBuilder \<Rightarrow> ID \<Rightarrow> 32 word \<Rightarrow> ID \<Rightarrow> byte list \<Rightarrow> Ids.NodeID \<Rightarrow> inboundMessage" where
  "InboundPut b chainID requestID containerID container nodeID =
     mk_inbound Put
       [(ChainID, V_bytes (ID_bytes chainID)),
        (RequestID, V_uint32 requestID),
        (ContainerID, V_bytes (ID_bytes containerID)),
        (ContainerBytes, V_bytes container)]
       nodeID None"

definition InboundAncestors :: "inMsgBuilder \<Rightarrow> ID \<Rightarrow> 32 word \<Rightarrow> byte list list \<Rightarrow> Ids.NodeID \<Rightarrow> inboundMessage" where
  "InboundAncestors b chainID requestID containers nodeID =
     mk_inbound Ancestors
       [(ChainID, V_bytes (ID_bytes chainID)),
        (RequestID, V_uint32 requestID),
        (MultiContainerBytes, V_bytess containers)]
       nodeID None"

section \<open>Internal messages\<close>

definition InternalFailedRequest :: "Op \<Rightarrow> Ids.NodeID \<Rightarrow> ID \<Rightarrow> 32 word \<Rightarrow> inboundMessage" where
  "InternalFailedRequest op nodeID chainID requestID =
     mk_inbound op [(ChainID, V_bytes (ID_bytes chainID)), (RequestID, V_uint32 requestID)] nodeID None"

definition InternalTimeout :: "Ids.NodeID \<Rightarrow> inboundMessage" where
  "InternalTimeout nodeID = mk_inbound Timeout [] nodeID None"

definition InternalConnected :: "Ids.NodeID \<Rightarrow> Application \<Rightarrow> inboundMessage" where
  "InternalConnected nodeID nodeVersion = mk_inbound Connected [(VersionStruct, V_version nodeVersion)] nodeID None"

definition InternalDisconnected :: "Ids.NodeID \<Rightarrow> inboundMessage" where
  "InternalDisconnected nodeID = mk_inbound Disconnected [] nodeID None"

definition InternalVMMessage :: "Ids.NodeID \<Rightarrow> 32 word \<Rightarrow> inboundMessage" where
  "InternalVMMessage nodeID notification = mk_inbound Notify [(VMMessage, V_uint32 notification)] nodeID None"

definition InternalGossipRequest :: "Ids.NodeID \<Rightarrow> inboundMessage" where
  "InternalGossipRequest nodeID = mk_inbound GossipRequest [] nodeID None"

section \<open>The creator\<close>

record creator =
  cr_out :: outMsgBuilder
  cr_in :: inMsgBuilder

definition DefaultMaxMessageSize :: int where
  "DefaultMaxMessageSize = 2 * 1024 * 1024"

text \<open>
  \<open>NewCreator\<close>: the registration of the codec's metrics is a parameter, \<open>False\<close> when it fails. Both
  builders share one codec; the model gives each a copy, which the callers keep in step through
  the codec that \<open>Pack\<close> returns.
\<close>

definition NewCreator :: "bool \<Rightarrow> bool \<Rightarrow> int \<Rightarrow> creator option" where
  "NewCreator registered compressionEnabled maxInboundMessageTimeout =
     (if \<not> registered then None
      else let codec = NewCodecWithMemoryPool DefaultMaxMessageSize maxInboundMessageTimeout
           in Some \<lparr>cr_out = NewOutboundBuilder codec compressionEnabled, cr_in = NewInboundBuilder codec\<rparr>)"

section \<open>All outbound calls\<close>

text \<open>A call of an outbound builder with its arguments; \<open>send\<close> dispatches to the builder.\<close>

datatype call =
    C_Version "32 word" "64 word" IPPort "byte list" "64 word" "byte list" "ID list"
  | C_PeerList "ClaimedIPPort list" bool
  | C_Ping
  | C_Pong byte
  | C_GetStateSummaryFrontier ID "32 word" int
  | C_StateSummaryFrontier ID "32 word" "byte list"
  | C_GetAcceptedStateSummary ID "32 word" int "64 word list"
  | C_AcceptedStateSummary ID "32 word" "ID list"
  | C_GetAcceptedFrontier ID "32 word" int
  | C_AcceptedFrontier ID "32 word" "ID list"
  | C_GetAccepted ID "32 word" int "ID list"
  | C_Accepted ID "32 word" "ID list"
  | C_GetAncestors ID "32 word" int ID
  | C_Ancestors ID "32 word" "byte list list"
  | C_Get ID "32 word" int ID
  | C_Put ID "32 word" ID "byte list"
  | C_PushQuery ID "32 word" int ID "byte list"
  | C_PullQuery ID "32 word" int ID
  | C_Chits ID "32 word" "ID list"
  | C_ChitsV2 ID "32 word" "ID list" ID
  | C_AppRequest ID "32 word" int "byte list"
  | C_AppResponse ID "32 word" "byte list"
  | C_AppGossip ID "byte list"

fun send :: "Lib \<Rightarrow> PackEnv \<Rightarrow> outMsgBuilder \<Rightarrow> call \<Rightarrow> out_result" where
  "send L env b (C_Version networkID myTime ip myVersion myVersionTime sig trackedSubnets) = out_Version L env b networkID myTime ip myVersion myVersionTime sig trackedSubnets"
| "send L env b (C_PeerList peers bypassThrottling) = out_PeerList L env b peers bypassThrottling"
| "send L env b C_Ping = out_Ping L env b "
| "send L env b (C_Pong uptimePercentage) = out_Pong L env b uptimePercentage"
| "send L env b (C_GetStateSummaryFrontier chainID requestID deadline) = out_GetStateSummaryFrontier L env b chainID requestID deadline"
| "send L env b (C_StateSummaryFrontier chainID requestID summary) = out_StateSummaryFrontier L env b chainID requestID summary"
| "send L env b (C_GetAcceptedStateSummary chainID requestID deadline heights) = out_GetAcceptedStateSummary L env b chainID requestID deadline heights"
| "send L env b (C_AcceptedStateSummary chainID requestID summaryIDs) = out_AcceptedStateSummary L env b chainID requestID summaryIDs"
| "send L env b (C_GetAcceptedFrontier chainID requestID deadline) = out_GetAcceptedFrontier L env b chainID requestID deadline"
| "send L env b (C_AcceptedFrontier chainID requestID containerIDs) = out_AcceptedFrontier L env b chainID requestID containerIDs"
| "send L env b (C_GetAccepted chainID requestID deadline containerIDs) = out_GetAccepted L env b chainID requestID deadline containerIDs"
| "send L env b (C_Accepted chainID requestID containerIDs) = out_Accepted L env b chainID requestID containerIDs"
| "send L env b (C_GetAncestors chainID requestID deadline containerID) = out_GetAncestors L env b chainID requestID deadline containerID"
| "send L env b (C_Ancestors chainID requestID containers) = out_Ancestors L env b chainID requestID containers"
| "send L env b (C_Get chainID requestID deadline containerID) = out_Get L env b chainID requestID deadline containerID"
| "send L env b (C_Put chainID requestID containerID container) = out_Put L env b chainID requestID containerID container"
| "send L env b (C_PushQuery chainID requestID deadline containerID container) = out_PushQuery L env b chainID requestID deadline containerID container"
| "send L env b (C_PullQuery chainID requestID deadline containerID) = out_PullQuery L env b chainID requestID deadline containerID"
| "send L env b (C_Chits chainID requestID containerIDs) = out_Chits L env b chainID requestID containerIDs"
| "send L env b (C_ChitsV2 chainID requestID containerIDs containerID) = out_ChitsV2 L env b chainID requestID containerIDs containerID"
| "send L env b (C_AppRequest chainID requestID deadline msg) = out_AppRequest L env b chainID requestID deadline msg"
| "send L env b (C_AppResponse chainID requestID msg) = out_AppResponse L env b chainID requestID msg"
| "send L env b (C_AppGossip chainID msg) = out_AppGossip L env b chainID msg"

fun call_op :: "call \<Rightarrow> Op" where
  "call_op (C_Version _ _ _ _ _ _ _) = Version"
| "call_op (C_PeerList _ _) = PeerList"
| "call_op C_Ping = Ping"
| "call_op (C_Pong _) = Pong"
| "call_op (C_GetStateSummaryFrontier _ _ _) = GetStateSummaryFrontier"
| "call_op (C_StateSummaryFrontier _ _ _) = StateSummaryFrontier"
| "call_op (C_GetAcceptedStateSummary _ _ _ _) = GetAcceptedStateSummary"
| "call_op (C_AcceptedStateSummary _ _ _) = AcceptedStateSummary"
| "call_op (C_GetAcceptedFrontier _ _ _) = GetAcceptedFrontier"
| "call_op (C_AcceptedFrontier _ _ _) = AcceptedFrontier"
| "call_op (C_GetAccepted _ _ _ _) = GetAccepted"
| "call_op (C_Accepted _ _ _) = Accepted"
| "call_op (C_GetAncestors _ _ _ _) = GetAncestors"
| "call_op (C_Ancestors _ _ _) = Ancestors"
| "call_op (C_Get _ _ _ _) = Get"
| "call_op (C_Put _ _ _ _) = Put"
| "call_op (C_PushQuery _ _ _ _ _) = PushQuery"
| "call_op (C_PullQuery _ _ _ _) = PullQuery"
| "call_op (C_Chits _ _ _) = Chits"
| "call_op (C_ChitsV2 _ _ _ _) = ChitsV2"
| "call_op (C_AppRequest _ _ _ _) = AppRequest"
| "call_op (C_AppResponse _ _ _) = AppResponse"
| "call_op (C_AppGossip _ _) = AppGossip"

fun call_fields :: "call \<Rightarrow> fields" where
  "call_fields (C_Version networkID myTime ip myVersion myVersionTime sig trackedSubnets) =
     [(NetworkID, V_uint32 networkID), (NodeID, V_uint32 0), (MyTime, V_uint64 myTime), (IP, V_ip ip), (VersionStr, V_string myVersion), (VersionTime, V_uint64 myVersionTime), (SigBytes, V_bytes sig), (TrackedSubnets, V_bytess (encodeIDs trackedSubnets))]"
| "call_fields (C_PeerList peers _) =
     [(Peers, V_claimed peers)]"
| "call_fields C_Ping =
     []"
| "call_fields (C_Pong uptimePercentage) =
     [(Uptime, V_uint8 uptimePercentage)]"
| "call_fields (C_GetStateSummaryFrontier chainID requestID deadline) =
     [(ChainID, V_bytes (ID_bytes chainID)), (RequestID, V_uint32 requestID), (Deadline, V_uint64 (word_of_int deadline))]"
| "call_fields (C_StateSummaryFrontier chainID requestID summary) =
     [(ChainID, V_bytes (ID_bytes chainID)), (RequestID, V_uint32 requestID), (SummaryBytes, V_bytes summary)]"
| "call_fields (C_GetAcceptedStateSummary chainID requestID deadline heights) =
     [(ChainID, V_bytes (ID_bytes chainID)), (RequestID, V_uint32 requestID), (Deadline, V_uint64 (word_of_int deadline)), (SummaryHeights, V_uint64s heights)]"
| "call_fields (C_AcceptedStateSummary chainID requestID summaryIDs) =
     [(ChainID, V_bytes (ID_bytes chainID)), (RequestID, V_uint32 requestID), (SummaryIDs, V_bytess (encodeIDs summaryIDs))]"
| "call_fields (C_GetAcceptedFrontier chainID requestID deadline) =
     [(ChainID, V_bytes (ID_bytes chainID)), (RequestID, V_uint32 requestID), (Deadline, V_uint64 (word_of_int deadline))]"
| "call_fields (C_AcceptedFrontier chainID requestID containerIDs) =
     [(ChainID, V_bytes (ID_bytes chainID)), (RequestID, V_uint32 requestID), (ContainerIDs, V_bytess (encodeIDs containerIDs))]"
| "call_fields (C_GetAccepted chainID requestID deadline containerIDs) =
     [(ChainID, V_bytes (ID_bytes chainID)), (RequestID, V_uint32 requestID), (Deadline, V_uint64 (word_of_int deadline)), (ContainerIDs, V_bytess (encodeIDs containerIDs))]"
| "call_fields (C_Accepted chainID requestID containerIDs) =
     [(ChainID, V_bytes (ID_bytes chainID)), (RequestID, V_uint32 requestID), (ContainerIDs, V_bytess (encodeIDs containerIDs))]"
| "call_fields (C_GetAncestors chainID requestID deadline containerID) =
     [(ChainID, V_bytes (ID_bytes chainID)), (RequestID, V_uint32 requestID), (Deadline, V_uint64 (word_of_int deadline)), (ContainerID, V_bytes (ID_bytes containerID))]"
| "call_fields (C_Ancestors chainID requestID containers) =
     [(ChainID, V_bytes (ID_bytes chainID)), (RequestID, V_uint32 requestID), (MultiContainerBytes, V_bytess containers)]"
| "call_fields (C_Get chainID requestID deadline containerID) =
     [(ChainID, V_bytes (ID_bytes chainID)), (RequestID, V_uint32 requestID), (Deadline, V_uint64 (word_of_int deadline)), (ContainerID, V_bytes (ID_bytes containerID))]"
| "call_fields (C_Put chainID requestID containerID container) =
     [(ChainID, V_bytes (ID_bytes chainID)), (RequestID, V_uint32 requestID), (ContainerID, V_bytes (ID_bytes containerID)), (ContainerBytes, V_bytes container)]"
| "call_fields (C_PushQuery chainID requestID deadline containerID container) =
     [(ChainID, V_bytes (ID_bytes chainID)), (RequestID, V_uint32 requestID), (Deadline, V_uint64 (word_of_int deadline)), (ContainerID, V_bytes (ID_bytes containerID)), (ContainerBytes, V_bytes container)]"
| "call_fields (C_PullQuery chainID requestID deadline containerID) =
     [(ChainID, V_bytes (ID_bytes chainID)), (RequestID, V_uint32 requestID), (Deadline, V_uint64 (word_of_int deadline)), (ContainerID, V_bytes (ID_bytes containerID))]"
| "call_fields (C_Chits chainID requestID containerIDs) =
     [(ChainID, V_bytes (ID_bytes chainID)), (RequestID, V_uint32 requestID), (ContainerIDs, V_bytess (encodeIDs containerIDs))]"
| "call_fields (C_ChitsV2 chainID requestID containerIDs containerID) =
     [(ChainID, V_bytes (ID_bytes chainID)), (RequestID, V_uint32 requestID), (ContainerIDs, V_bytess (encodeIDs containerIDs)), (ContainerID, V_bytes (ID_bytes containerID))]"
| "call_fields (C_AppRequest chainID requestID deadline msg) =
     [(ChainID, V_bytes (ID_bytes chainID)), (RequestID, V_uint32 requestID), (Deadline, V_uint64 (word_of_int deadline)), (AppBytes, V_bytes msg)]"
| "call_fields (C_AppResponse chainID requestID msg) =
     [(ChainID, V_bytes (ID_bytes chainID)), (RequestID, V_uint32 requestID), (AppBytes, V_bytes msg)]"
| "call_fields (C_AppGossip chainID msg) =
     [(ChainID, V_bytes (ID_bytes chainID)), (AppBytes, V_bytes msg)]"

end
