(* ===== verification/MessageProperties.thy ===== *)
theory MessageProperties
  imports MessageBuilders
begin

text \<open>
  The properties of the network message codec: what is sent is received, nothing a peer sends makes
  the parser panic, uncompressed messages have one encoding, parsed messages are well typed, deadlines
  are bounded, and the buffers of the packer stay within their limit.
\<close>

section \<open>The packer\<close>

text \<open>A sequence of values packed one after the other, as message and codec code do.\<close>

definition pack_values :: "(wire \<times> intf) list \<Rightarrow> unit pk" where
  "pack_values vs = pack_all (\<lambda>(w, v). try_pack w v) vs"

definition enc_values :: "(wire \<times> intf) list \<Rightarrow> byte list" where
  "enc_values vs = concat (map (\<lambda>(w, v). enc_as w v) vs)"

fun unpack_values :: "(byte list \<Rightarrow> bool) \<Rightarrow> wire list \<Rightarrow> intf list pk" where
  "unpack_values okc [] = retP []"
| "unpack_values okc (w # ws) = bindP (try_unpack okc w) (\<lambda>v. bindP (unpack_values okc ws) (\<lambda>vs. retP (v # vs)))"

lemma pack_values_writes: "list_all (\<lambda>(w, v). packable v) vs \<Longrightarrow> writes (pack_values vs)"
  unfolding pack_values_def by (rule pack_all_writes) (auto simp: list_all_iff try_writes)

lemma unpack_values_reads: "reads (unpack_values okc ws)"
proof (induction ws)
  case (Cons w ws)
  then show ?case by (simp add: reads_bind reads_ret try_fmt.unpack_reads)
qed (simp only: unpack_values.simps reads_ret)

lemma unpack_values_canon:
  "canon (unpack_values okc ws) (\<lambda>vs bs. length vs = length ws \<and> list_all (\<lambda>(w, v). ok_as okc w v) (zip ws vs)
     \<and> bs = enc_values (zip ws vs))"
proof (induction ws)
  case Nil
  show ?case by (auto simp: canon_def consumed_def enc_values_def)
next
  case (Cons w ws)
  have "canon (bindP (unpack_values okc ws) (\<lambda>vs. retP (v # vs)))
     (\<lambda>us bs. \<exists>vs. us = v # vs \<and> length vs = length ws \<and> list_all (\<lambda>(w, v). ok_as okc w v) (zip ws vs)
        \<and> bs = enc_values (zip ws vs))" for v
    by (rule canon_map [OF Cons]) blast
  then show ?case unfolding unpack_values.simps
    by (rule canon_mono [OF canon_bind [OF try_fmt.unpack_canon]]) (auto simp: enc_values_def)
qed

lemma pack_values_packs:
  "list_all (\<lambda>(w, v). ok_as okc w v) vs \<Longrightarrow> packs (pack_values vs) (enc_values vs)"
proof (induction vs)
  case Nil
  show ?case unfolding pack_values_def enc_values_def pack_all.simps using packs_ret by (simp only: list.map concat.simps)
next
  case (Cons wv vs)
  obtain w v where wv: "wv = (w, v)" by fastforce
  have "packs (try_pack w v) (enc_as w v)" using Cons.prems wv try_fmt.pack_enc by auto
  moreover have "packs (pack_values vs) (enc_values vs)" using Cons by simp
  ultimately have "packs (thenP (try_pack w v) (pack_values vs)) (enc_as w v @ enc_values vs)"
    by (rule packs_then)
  then show ?case by (simp add: wv pack_values_def enc_values_def)
qed

text \<open>
  C24. Packing respects the size limit and keeps errors. Whatever values are packed, of the expected
  types or not, as long as no claimed address lacks its certificate: nothing panics, the buffer never
  grows past the larger of its initial length and the packer's \<open>MaxSize\<close>, the offset stays
  inside the buffer, and once an error is recorded the offset no longer moves and an error remains.
\<close>

theorem packer_bounded:
  assumes "list_all (\<lambda>(w, v). packable v) vs" and "in_slice p"
  shows "\<exists>p'. pack_values vs p = Inr ((), p') \<and> in_slice p'
    \<and> len (pk_Bytes p') \<le> max (pk_MaxSize p) (len (pk_Bytes p))
    \<and> (Errored p \<longrightarrow> Errored p' \<and> pk_Offset p' = pk_Offset p)"
  using pack_values_writes [OF assms(1)] assms(2) unfolding writes_def by blast

definition example_packer :: Packer where
  "example_packer = \<lparr>pk_Err = None, pk_MaxSize = 6, pk_Bytes = [], pk_spare = [7, 7, 7], pk_grow = (\<lambda>n. 1),
     pk_Offset = 0\<rparr>"

theorem packer_bounded_witness:
  "\<exists>p'. pack_values [(W_int, V_uint32 5), (W_int, V_uint32 6)] example_packer = Inr ((), p')
     \<and> in_slice p' \<and> len (pk_Bytes p') \<le> 6"
  using packer_bounded [of "[(W_int, V_uint32 5), (W_int, V_uint32 6)]" example_packer]
  by (auto simp: example_packer_def in_slice_def)

text \<open>
  C23. Unpacking is total and exact. Whatever the bytes, unpacking values of any wire
  types never panics and never reads outside the buffer; and when it ends without error, packing the
  values that were read produces exactly the bytes that were consumed, so every byte string
  is the encoding of at most one sequence of values.
\<close>

theorem unpacker_exact:
  assumes "in_slice p"
  shows "\<exists>vs p'. unpack_values okc ws p = Inr (vs, p') \<and> in_slice p' \<and> pk_Bytes p' = pk_Bytes p
    \<and> (\<not> Errored p' \<longrightarrow>
        (\<exists>q. pack_values (zip ws vs) p = Inr ((), q) \<and> pk_Bytes q = pk_Bytes p \<and> pk_Offset q = pk_Offset p'))"
proof -
  obtain vs p' where u: "unpack_values okc ws p = Inr (vs, p')" "pk_Bytes p' = pk_Bytes p" "in_slice p'"
    using readsE [OF unpack_values_reads] assms by metis
  have "\<exists>q. pack_values (zip ws vs) p = Inr ((), q) \<and> pk_Bytes q = pk_Bytes p \<and> pk_Offset q = pk_Offset p'"
    if "\<not> Errored p'"
  proof -
    let ?bs = "enc_values (zip ws vs)"
    have c: "list_all (\<lambda>(w, v). ok_as okc w v) (zip ws vs)" "consumed p ?bs p'"
      using unpack_values_canon u(1) that unfolding canon_def by blast+
    have "has_room p (len ?bs)"
      using c(2) assms by (auto simp: consumed_def at_cursor_def has_room_def in_slice_def)
    then obtain q where "pack_values (zip ws vs) p = Inr ((), q)" "wrote ?bs p q"
      using pack_values_packs [OF c(1)] unfolding packs_def by blast
    then show ?thesis using wrote_consumed [OF _ c(2)] by blast
  qed
  then show ?thesis using u by blast
qed

theorem unpacker_exact_witness:
  "\<exists>vs p'. unpack_values (\<lambda>_. True) [W_byte] (example_packer\<lparr>pk_Bytes := [9]\<rparr>) = Inr (vs, p') \<and> in_slice p'"
proof -
  have "in_slice (example_packer\<lparr>pk_Bytes := [9]\<rparr>)" by (simp add: example_packer_def in_slice_def)
  from unpacker_exact [OF this, of "\<lambda>_. True" "[W_byte]"] show ?thesis by blast
qed

section \<open>Messages\<close>

lemma Decompress_Compress:
  assumes "gz_lossless L" "gz_write L msg = Some z" "len msg \<le> maxSize" "maxSize < MaxInt64"
  shows "Decompress L maxSize z = Inr msg"
proof -
  have "0 \<le> maxSize" using assms(3) by (simp add: len_def)
  with assms(4) have "int64 (maxSize + 1) = maxSize + 1" by (simp add: int64_nonneg)
  moreover have "length msg < nat (maxSize + 1)" using assms(3) by (simp add: len_def)
  ultimately show ?thesis
    using assms \<open>0 \<le> maxSize\<close> unfolding gz_lossless_def by (simp add: Decompress_def Let_def)
qed

text \<open>With the largest limit the addition overflows, and every payload decompresses to nothing.\<close>

lemma Decompress_overflow:
  assumes "gz_reset L z" "gz_close L 0 z"
  shows "Decompress L MaxInt64 z = Inr []"
  using assms by (simp add: Decompress_def int64_wraps len_def) (simp add: MaxInt64_def)

lemma expiration_ok:
  assumes "map_of messages op = Some fs" "list_all (ok_field okc vals) fs"
  shows "expiration c now (restrict vals fs) =
    Inr (case map_of (restrict vals fs) Deadline of
           Some (V_uint64 d) \<Rightarrow> Some (Clock_Time now (cd_clock c) + capDeadline (cd_maxMessageTimeout c) d)
         | _ \<Rightarrow> None)"
proof (cases "Deadline \<in> set fs")
  case True
  then have "ok_field okc vals Deadline" using assms(2) by (simp add: list_all_iff)
  then obtain d where "map_of vals Deadline = Some (V_uint64 d)"
    by (auto simp: ok_field_def split: option.splits intf.splits)
  moreover have "map_of (restrict vals fs) Deadline = Some (the (map_of vals Deadline))"
    using True messages_fields [OF assms(1)] by (intro map_of_is_SomeI) (auto simp: restrict_def comp_def)
  ultimately show ?thesis by (simp add: expiration_def)
next
  case False
  then have "map_of (restrict vals fs) Deadline = None"
    by (auto simp: restrict_def map_of_eq_None_iff)
  then show ?thesis by (simp add: expiration_def)
qed

text \<open>What a receiver makes of a message with the given values.\<close>

definition received :: "codec \<Rightarrow> time \<Rightarrow> Op \<Rightarrow> fields \<Rightarrow> int \<Rightarrow> Ids.NodeID \<Rightarrow> nat option \<Rightarrow> inboundMessage" where
  "received c now op vals saved nodeID h =
     \<lparr>im_op = op, im_bytesSavedCompression = saved, im_fields = vals, im_nodeID = nodeID,
      im_expirationTime = (case map_of vals Deadline of
           Some (V_uint64 d) \<Rightarrow> Some (Clock_Time now (cd_clock c) + capDeadline (cd_maxMessageTimeout c) d)
         | _ \<Rightarrow> None),
      im_onFinishedHandling = h\<rparr>"

lemma Parse_message_bytes:
  assumes L: "gz_lossless L" and c: "codec_ok c" and fs: "map_of messages op = Some fs"
    and ok: "list_all (ok_field (x509_ok L) vals) fs"
    and compr: "compress \<longrightarrow> Compressible op \<and> can_compress L c (payload vals fs) \<and> cd_maxSize c < MaxInt64"
  shows "\<exists>saved. Parse L c now (message_bytes L op vals fs compress) nodeID h
     = Inr (received c now op (restrict vals fs) saved nodeID h)"
proof (cases compress)
  case False
  let ?p = "advance (len (header op False)) (parse_packer (header op False @ payload vals fs))"
  have "Parse L c now (message_bytes L op vals fs compress) nodeID h = parse_fields L c now op fs nodeID h 0 ?p"
    using False by (simp add: message_bytes_def Parse_header [OF fs])
  then show ?thesis
    using parse_fields_exact [OF fs ok, of ?p "header op False"] expiration_ok [OF fs ok]
    by (auto simp: parse_packer_def advance_def received_def)
next
  case True
  then have C: "Compressible op" "can_compress L c (payload vals fs)" "cd_maxSize c < MaxInt64" using compr by auto
  then obtain z where z: "gz_write L (payload vals fs) = Some z" "len (payload vals fs) \<le> cd_maxSize c"
    by (auto simp: can_compress_def)
  let ?p = "advance 2 (parse_packer (header op True @ z))"
  let ?q = "?p\<lparr>pk_Bytes := [op_code op] @ payload vals fs, pk_Offset := 1\<rparr>"
  have "op \<in> set (cd_decompressTimeMetrics c)"
    using c C(1) compressible_external unfolding codec_ok_def by blast
  then have "decompressPayload L c op ?p = Inr (len (payload vals fs) - len z, ?q)"
    using C(1) Decompress_Compress [OF L z C(3)]
    by (simp add: decompressPayload_def parse_packer_def header_def advance_def)
  then have "Parse L c now (message_bytes L op vals fs compress) nodeID h
      = parse_fields L c now op fs nodeID h (len (payload vals fs) - len z) ?q"
    using True C z by (simp add: message_bytes_def Parse_header [OF fs])
  then show ?thesis
    using parse_fields_exact [OF fs ok, of ?q "[op_code op]"] expiration_ok [OF fs ok]
    by (auto simp: parse_packer_def advance_def received_def len_def)
qed

text \<open>
  C7. Round trip of network messages. Take any external operation, values of the right types for its
  fields, compression only where the operation allows it, and a payload that fits. Then \<open>Pack\<close>
  succeeds, whichever pooled buffer it is handed and whatever that buffer still contains, and \<open>Parse\<close>
  on the receiving side returns the same operation and exactly the fields of that operation with
  the same values. The gzip library is assumed lossless, and the receiver's limit on decompressed
  payloads to be less than \<open>MaxInt64\<close>, since the decompressor adds one to it.
\<close>

theorem message_roundtrip:
  assumes "gz_lossless L" "codec_ok c" "codec_ok c2" "map_of messages op = Some fs"
    "list_all (ok_field (x509_ok L) vals) fs" "len (payload vals fs) \<le> MaxInt32 - 2"
    "compress \<longrightarrow> Compressible op \<and> can_compress L c (payload vals fs) \<and> can_compress L c2 (payload vals fs)
       \<and> cd_maxSize c2 < MaxInt64"
  shows "\<exists>msg c' saved. Pack L env c op vals compress bypass = Inr (msg, c')
    \<and> Parse L c2 now (om_bytes msg) nodeID h = Inr (received c2 now op (restrict vals fs) saved nodeID h)"
proof -
  obtain msg where "Pack L env c op vals compress bypass = Inr (msg, snd (pool_Get (pe_pick env) c))"
    "om_bytes msg = message_bytes L op vals fs compress"
    using Pack_exact [OF assms(4-6,2)] assms(7) by blast
  moreover obtain saved where "Parse L c2 now (message_bytes L op vals fs compress) nodeID h
     = Inr (received c2 now op (restrict vals fs) saved nodeID h)"
    using Parse_message_bytes [OF assms(1,3,4,5)] assms(7) by blast
  ultimately show ?thesis by auto
qed

definition example_lib :: Lib where
  "example_lib = \<lparr>gz_write = (\<lambda>m. Some (31 # m)), gz_reset = (\<lambda>z. take 1 z = [31]),
     gz_read = (\<lambda>n z. Some (take n (drop 1 z))), gz_close = (\<lambda>n z. True), x509_ok = (\<lambda>b. b \<noteq> [])\<rparr>"

definition example_codec :: codec where
  "example_codec = NewCodecWithMemoryPool 1000 500"

definition example_pack_env :: PackEnv where
  "example_pack_env = \<lparr>pe_pick = None, pe_grow = (\<lambda>n. n)\<rparr>"

definition example_vals :: fields where
  "example_vals = [(AppBytes, V_bytes [1, 2, 3]), (ChainID, V_bytes (replicate 32 5))]"

lemma example_lossless: "gz_lossless example_lib"
  by (auto simp: gz_lossless_def example_lib_def)

lemma example_codec_ok: "codec_ok example_codec"
  unfolding example_codec_def by (rule new_codec_ok)

theorem message_roundtrip_witness:
  "\<exists>msg c' saved. Pack example_lib example_pack_env example_codec AppGossip example_vals True False = Inr (msg, c')
    \<and> Parse example_lib example_codec 10 (om_bytes msg) 3 None
      = Inr (received example_codec 10 AppGossip
          [(ChainID, V_bytes (replicate 32 5)), (AppBytes, V_bytes [1, 2, 3])] saved 3 None)"
proof -
  have p: "payload example_vals [ChainID, AppBytes] = replicate 32 5 @ [0, 0, 0, 3, 1, 2, 3]"
    by code_simp
  have "can_compress example_lib example_codec (payload example_vals [ChainID, AppBytes])"
    by (simp add: p can_compress_def example_lib_def example_codec_def NewCodecWithMemoryPool_def len_def)
  moreover have "cd_maxSize example_codec < MaxInt64"
    by (simp add: example_codec_def NewCodecWithMemoryPool_def MaxInt64_def)
  moreover have "restrict example_vals [ChainID, AppBytes] = [(ChainID, V_bytes (replicate 32 5)), (AppBytes, V_bytes [1, 2, 3])]"
    by (simp add: restrict_def example_vals_def)
  moreover have "list_all (ok_field (x509_ok example_lib) example_vals) [ChainID, AppBytes]"
    by (simp add: ok_field_def example_vals_def len_def HashLen_def ok_bytes_def)
  ultimately show ?thesis
    using message_roundtrip [OF example_lossless example_codec_ok example_codec_ok, of AppGossip "[ChainID, AppBytes]"
        example_vals True example_pack_env False 10 3 None]
    by (simp add: p messages_def Compressible.simps len_def MaxInt32_def)
qed

text \<open>A request with deadline \<open>2 ^ 64 - 1\<close>, which reads as minus one nanosecond.\<close>

definition example_request :: fields where
  "example_request = [(ChainID, V_bytes (replicate 32 5)), (RequestID, V_uint32 7), (Deadline, V_uint64 (- 1))]"

definition example_bytes :: "byte list" where
  "example_bytes = [6] @ replicate 32 5 @ [0, 0, 0, 7] @ replicate 8 255"

lemma example_parse:
  "\<exists>saved. Parse example_lib example_codec 10 example_bytes 3 None
     = Inr (received example_codec 10 GetAcceptedFrontier example_request saved 3 None)"
proof -
  have fs: "map_of messages GetAcceptedFrontier = Some [ChainID, RequestID, Deadline]" by (simp add: messages_def)
  have ok: "list_all (ok_field (x509_ok example_lib) example_request) [ChainID, RequestID, Deadline]"
    by (simp add: ok_field_def example_request_def len_def HashLen_def)
  have b: "message_bytes example_lib GetAcceptedFrontier example_request [ChainID, RequestID, Deadline] False = example_bytes"
    by code_simp
  have r: "restrict example_request [ChainID, RequestID, Deadline] = example_request"
    by (simp add: restrict_def example_request_def)
  show ?thesis
    using Parse_message_bytes [OF example_lossless example_codec_ok fs ok, of False 10 3 None]
    unfolding b r by simp
qed

section \<open>Hostile input\<close>

lemma parse_packer_slice: "in_slice (parse_packer bytes)"
  by (simp add: parse_packer_def in_slice_def)

text \<open>How a successful \<open>Parse\<close> came about.\<close>

lemma Parse_cases:
  obtains (bad_op) "Parse L c now bytes nodeID h = Inl errBadOp"
  | (op) b p op fs where "UnpackByte (parse_packer bytes) = Inr (b, p)" "op_of_byte b = Some op"
      "map_of messages op = Some fs"
      "Parse L c now bytes nodeID h =
        bindR (if Compressible op then lift_panic (UnpackBool p) else Inr (False, p)) (\<lambda>(compressed, p).
            case pk_Err p of Some e \<Rightarrow> Inl (errPacker e)
            | None \<Rightarrow>
              bindR (if compressed then decompressPayload L c op p else Inr (0, p)) (\<lambda>(bytesSaved, p).
              parse_fields L c now op fs nodeID h bytesSaved p))"
proof -
  obtain b p where u: "UnpackByte (parse_packer bytes) = Inr (b, p)"
    using readsE [OF byte_fmt.unpack_reads] by metis
  show ?thesis
  proof (cases "op_of_byte b")
    case None
    then show ?thesis using u by (intro bad_op) (simp add: Parse_def parse_packer_def)
  next
    case (Some op)
    show ?thesis
    proof (cases "map_of messages op")
      case None
      then show ?thesis using u Some by (intro bad_op) (simp add: Parse_def parse_packer_def)
    next
      case fs: (Some fs)
      show ?thesis by (rule that(2) [OF u Some fs]) (use u Some fs in \<open>simp add: Parse_def parse_packer_def\<close>)
    qed
  qed
qed

lemma header_read:
  assumes "UnpackByte (parse_packer bytes) = Inr (b, p)" "op_of_byte b = Some op"
    "(if Compressible op then lift_panic (UnpackBool p) else Inr (False, p)) = Inr (compressed, q)" "pk_Err q = None"
  shows "\<exists>rest. bytes = header op compressed @ rest \<and> q = advance (len (header op compressed)) (parse_packer bytes)
    \<and> (compressed \<longrightarrow> Compressible op)"
proof -
  have b: "be_bytes 1 (x :: byte) = [x]" for x by simp
  have q: "\<not> Errored q" using assms(4) by (simp add: Errored_def)
  have flag: "consumed p (if Compressible op then [if compressed then 1 else 0] else []) q \<and> (compressed \<longrightarrow> Compressible op)"
  proof (cases "Compressible op")
    case True
    then have "UnpackBool p = Inr (compressed, q)" using assms(3) by (cases "UnpackBool p") auto
    then have "consumed p [if compressed then 1 else 0] q"
      using bool_canon q unfolding canon_def b by blast
    then show ?thesis using True by simp
  next
    case False
    then show ?thesis using assms(3) q by (auto simp: consumed_def)
  qed
  then have "\<not> Errored p" by (simp add: consumed_def)
  then have "consumed (parse_packer bytes) [b] p"
    using byte_fmt.unpack_canon assms(1) unfolding canon_def b by blast
  then have all: "consumed (parse_packer bytes) (header op compressed) q"
    using consumed_trans flag op_of_byte_Some [OF assms(2)] unfolding header_def by fastforce
  then have "take (length (header op compressed)) bytes = header op compressed"
    by (auto simp: consumed_def at_cursor_def parse_packer_def header_def)
  then have "bytes = header op compressed @ drop (length (header op compressed)) bytes"
    by (metis append_take_drop_id)
  then show ?thesis using all flag by (auto simp: consumed_def)
qed

lemma restrict_self: "distinct (map fst vals) \<Longrightarrow> restrict vals (map fst vals) = vals"
proof -
  assume "distinct (map fst vals)"
  then have "map (\<lambda>f. (f, the (map_of vals f))) (map fst vals) = map (\<lambda>x. x) vals"
    unfolding map_map by (intro map_cong refl) (auto simp: comp_def)
  then show ?thesis by (simp add: restrict_def)
qed

lemma parse_fields_no_panic:
  assumes "map_of messages op = Some fs"
  shows "no_panic (parse_fields L c now op fs nodeID h saved p)"
proof -
  have w: "list_all (\<lambda>f. wire_of f \<noteq> None) fs" "distinct fs" using messages_fields [OF assms] by auto
  obtain vals q where f: "foldR (unpack_field (x509_ok L)) fs ([], p) = Inr (vals, q)"
    using unpack_fields_total [OF w(1)] by blast
  have "no_panic (expiration c now vals)" if "pk_Err q = None"
  proof -
    have ok: "map fst vals = fs" "list_all (ok_field (x509_ok L) vals) fs"
      using unpack_fields_canon [OF f _ w(2)] that by (auto simp: Errored_def)
    then have "restrict vals fs = vals" using w(2) restrict_self by metis
    then show ?thesis using expiration_ok [OF assms ok(2)] by simp
  qed
  then show ?thesis using f
    by (auto simp: parse_fields_def intro!: no_panic_bind split: option.splits)
qed

text \<open>
  C8. No input makes the parser panic. For every byte string whatsoever, \<open>Parse\<close> returns
  a message or an error: no slice goes out of bounds, no type assertion fails, no missing unpacker
  is called and no missing metric is observed.
\<close>

theorem parse_total:
  assumes "codec_ok c"
  shows "no_panic (Parse L c now bytes nodeID h)"
proof (cases rule: Parse_cases [of L c now bytes nodeID h])
  case bad_op
  then show ?thesis by simp
next
  case (op b p op fs)
  have flag: "no_panic (if Compressible op then lift_panic (UnpackBool p) else Inr (False, p))"
    using readsE [OF bool_fmt.unpack_reads, of p] by (metis lift_panic_simps(1) no_panic_simps(1))
  show ?thesis unfolding op(4)
  proof (rule no_panic_bind [OF flag], clarify)
    fix compressed q
    assume u: "(if Compressible op then lift_panic (UnpackBool p) else Inr (False, p)) = Inr (compressed, q)"
    have "no_panic (if compressed then decompressPayload L c op q else Inr (0, q))" if "pk_Err q = None"
    proof (cases compressed)
      case True
      then have C: "Compressible op" "length (pk_Bytes q) \<ge> 2"
        using header_read [OF op(1,2) u that] by (auto simp: parse_packer_def advance_def header_def)
      then have "op \<in> set (cd_decompressTimeMetrics c)"
        using assms compressible_external unfolding codec_ok_def by blast
      then show ?thesis using True C(2)
        by (auto simp: decompressPayload_def Let_def split: sum.splits)
    qed simp
    then show "no_panic (case pk_Err q of None \<Rightarrow> bindR (if compressed then decompressPayload L c op q else Inr (0, q))
         (\<lambda>(bytesSaved, p). parse_fields L c now op fs nodeID h bytesSaved p)
       | Some e \<Rightarrow> Inl (errPacker e))"
      by (auto intro!: no_panic_bind parse_fields_no_panic [OF op(3)] split: option.splits)
  qed
qed

theorem parse_total_witness: "no_panic (Parse example_lib example_codec 0 [14, 1, 9] 0 None)"
  using parse_total [OF example_codec_ok] .

lemma parse_fields_Inr:
  assumes fs: "map_of messages op = Some fs" and "parse_fields L c now op fs nodeID h saved p = Inr m"
  shows "map fst (im_fields m) = fs \<and> list_all (ok_field (x509_ok L) (im_fields m)) fs
    \<and> m = received c now op (im_fields m) saved nodeID h
    \<and> (\<exists>q. consumed p (payload (im_fields m) fs) q \<and> pk_Offset q = len (pk_Bytes q))"
proof -
  have w: "distinct fs" using messages_fields [OF fs] by simp
  obtain vals q t where f: "foldR (unpack_field (x509_ok L)) fs ([], p) = Inr (vals, q)" "pk_Err q = None"
    "pk_Offset q = len (pk_Bytes q)" "expiration c now vals = Inr t"
    "m = \<lparr>im_op = op, im_bytesSavedCompression = saved, im_fields = vals, im_nodeID = nodeID,
          im_expirationTime = t, im_onFinishedHandling = h\<rparr>"
    using assms(2) by (auto simp: parse_fields_def bindR_Inr split: option.splits if_splits)
  have ok: "map fst vals = fs" "list_all (ok_field (x509_ok L) vals) fs" "consumed p (payload vals fs) q"
    using unpack_fields_canon [OF f(1) _ w] f(2) by (auto simp: Errored_def)
  then have "restrict vals fs = vals" using w restrict_self by metis
  then have "expiration c now vals = Inr (im_expirationTime (received c now op vals saved nodeID h))"
    using expiration_ok [OF fs ok(2)] by (simp add: received_def)
  then show ?thesis using f ok by (auto simp: received_def)
qed

lemma Parse_Inr:
  assumes "Parse L c now bytes nodeID h = Inr m"
  shows "\<exists>fs compressed rest saved p. map_of messages (im_op m) = Some fs \<and> (compressed \<longrightarrow> Compressible (im_op m))
    \<and> bytes = header (im_op m) compressed @ rest
    \<and> parse_fields L c now (im_op m) fs nodeID h saved p = Inr m
    \<and> (\<not> compressed \<longrightarrow> p = advance (len (header (im_op m) False)) (parse_packer bytes))"
proof (cases rule: Parse_cases [of L c now bytes nodeID h])
  case bad_op
  then show ?thesis using assms by simp
next
  case (op b p op fs)
  obtain compressed q saved r where u:
      "(if Compressible op then lift_panic (UnpackBool p) else Inr (False, p)) = Inr (compressed, q)" "pk_Err q = None"
      "(if compressed then decompressPayload L c op q else Inr (0, q)) = Inr (saved, r)"
      "parse_fields L c now op fs nodeID h saved r = Inr m"
    using assms unfolding op(4) by (auto simp: bindR_Inr split: option.splits)
  have m: "im_op m = op" using parse_fields_Inr [OF op(3) u(4)] by (metis received_def inboundMessage.select_convs(1))
  obtain rest where "bytes = header op compressed @ rest" "q = advance (len (header op compressed)) (parse_packer bytes)"
    "compressed \<longrightarrow> Compressible op"
    using header_read [OF op(1,2) u(1,2)] by blast
  then show ?thesis using op(3) u(3,4) m
    by (intro exI [of _ fs] exI [of _ compressed] exI [of _ rest] exI [of _ saved] exI [of _ r]) auto
qed

section \<open>What a parsed message is\<close>

lemma ok_field_facts:
  assumes "ok_field okc vals f"
  shows "f \<in> {ContainerID, ChainID} \<Longrightarrow> \<exists>b. map_of vals f = Some (V_bytes b) \<and> len b = HashLen"
    "f \<in> {AppBytes, ContainerBytes} \<Longrightarrow> \<exists>b. map_of vals f = Some (V_bytes b)"
    "f \<in> {ContainerIDs, MultiContainerBytes} \<Longrightarrow> \<exists>b. map_of vals f = Some (V_bytess b)"
    "f = RequestID \<Longrightarrow> \<exists>r. map_of vals f = Some (V_uint32 r)"
  using assms by (auto simp: ok_field_def split: option.splits intf.splits)

lemma String_no_panic:
  assumes fs: "map_of messages (im_op m) = Some fs" and keys: "map fst (im_fields m) = fs"
    and ok: "list_all (ok_field okc (im_fields m)) fs"
  shows "\<exists>s. inMsg_String nodeStr m = Inr s"
proof -
  have F: "f \<in> set fs \<Longrightarrow> ok_field okc (im_fields m) f" for f using ok by (simp add: list_all_iff)
  have "map_of (im_fields m) RequestID = None \<or> (\<exists>r. map_of (im_fields m) RequestID = Some (V_uint32 r))"
    using ok_field_facts(4) [OF F] keys by (cases "RequestID \<in> set fs") (auto simp: map_of_eq_None_iff)
  then have R: "\<exists>s. (case im_Get m RequestID of None \<Rightarrow> Inr sb
      | Some x \<Rightarrow> bindR (as_uint32 m RequestID) (\<lambda>r. Inr (sb @ '', RequestID: '' @ show_nat (unat r)))) = Inr s" for sb
    by (auto simp: im_Get_def as_uint32_def)
  have A: "im_op m \<in> {GetAccepted, Accepted, Chits, AcceptedFrontier} \<Longrightarrow> \<exists>b. as_bytess m ContainerIDs = Inr b"
    using fs ok_field_facts(3) [OF F, of ContainerIDs] by (auto simp: messages_def as_bytess_def im_Get_def)
  have B: "im_op m \<in> {Get, GetAncestors, Put, PushQuery, PullQuery} \<Longrightarrow> \<exists>b. as_bytes m ContainerID = Inr b"
    using fs ok_field_facts(1) [OF F, of ContainerID] by (auto simp: messages_def as_bytes_def im_Get_def)
  have C: "im_op m = Ancestors \<Longrightarrow> \<exists>b. as_bytess m MultiContainerBytes = Inr b"
    using fs ok_field_facts(3) [OF F, of MultiContainerBytes] by (auto simp: messages_def as_bytess_def im_Get_def)
  have D: "im_op m \<in> {AppRequest, AppResponse, AppGossip} \<Longrightarrow> \<exists>b. as_bytes m AppBytes = Inr b"
    using fs ok_field_facts(2) [OF F, of AppBytes] by (auto simp: messages_def as_bytes_def im_Get_def)
  have E: "im_op m \<noteq> Notify" using fs by (auto simp: messages_def)
  obtain s where s: "(case im_Get m RequestID of None \<Rightarrow> Inr (''(Op: '' @ Op_String (im_op m) @ '', NodeID: '' @ nodeStr (im_nodeID m))
      | Some x \<Rightarrow> bindR (as_uint32 m RequestID) (\<lambda>r. Inr ((''(Op: '' @ Op_String (im_op m) @ '', NodeID: '' @ nodeStr (im_nodeID m))
          @ '', RequestID: '' @ show_nat (unat r)))) = Inr s"
    using R by blast
  consider "im_op m \<in> {GetAccepted, Accepted, Chits, AcceptedFrontier}" | "im_op m \<in> {Get, GetAncestors, Put, PushQuery, PullQuery}"
    | "im_op m = Ancestors" | "im_op m \<in> {AppRequest, AppResponse, AppGossip}"
    | "im_op m \<notin> {GetAccepted, Accepted, Chits, AcceptedFrontier, Get, GetAncestors, Put, PushQuery, PullQuery,
        Ancestors, AppRequest, AppResponse, AppGossip}"
    by blast
  then show ?thesis
    unfolding inMsg_String_def Let_def s bindR_simps
    by cases (use A B C D E in \<open>auto simp del: Op_String.simps\<close>)
qed

text \<open>
  C22. Parsed messages are well typed. When \<open>Parse\<close> accepts a byte string, the operation is an external
  one, the message holds exactly the fields of that operation, each with a value of the type
  and size its field prescribes (so the type assertions on fields that the handlers make, and
  those of the message's own \<open>String\<close>, cannot fail), and it has an expiration time exactly
  when it is a request.
\<close>

theorem parse_typed:
  assumes "Parse L c now bytes nodeID h = Inr m"
  shows "\<exists>fs. map_of messages (im_op m) = Some fs \<and> map fst (im_fields m) = fs
    \<and> list_all (ok_field (x509_ok L) (im_fields m)) fs
    \<and> (im_expirationTime m \<noteq> None \<longleftrightarrow> im_op m \<in> set ConsensusRequestOps)
    \<and> (\<exists>s. inMsg_String nodeStr m = Inr s)"
proof -
  obtain fs saved p where fs: "map_of messages (im_op m) = Some fs"
    and pf: "parse_fields L c now (im_op m) fs nodeID h saved p = Inr m"
    using Parse_Inr [OF assms] by blast
  have m: "map fst (im_fields m) = fs" "list_all (ok_field (x509_ok L) (im_fields m)) fs"
    "m = received c now (im_op m) (im_fields m) saved nodeID h"
    using parse_fields_Inr [OF fs pf] by blast+
  have "im_expirationTime m \<noteq> None \<longleftrightarrow> Deadline \<in> set fs"
  proof (cases "Deadline \<in> set fs")
    case True
    then have "ok_field (x509_ok L) (im_fields m) Deadline" using m(2) by (simp add: list_all_iff)
    then obtain d where "map_of (im_fields m) Deadline = Some (V_uint64 d)"
      by (auto simp: ok_field_def split: option.splits intf.splits)
    then show ?thesis using True by (subst m(3)) (simp add: received_def)
  next
    case False
    then have "map_of (im_fields m) Deadline = None" using m(1) by (auto simp: map_of_eq_None_iff)
    then show ?thesis using False by (subst m(3)) (simp add: received_def)
  qed
  then show ?thesis
    using m messages_request [OF fs] String_no_panic [OF fs m(1,2)] fs by blast
qed

theorem parse_typed_witness:
  "\<exists>m. Parse example_lib example_codec 10 example_bytes 3 None = Inr m \<and> im_expirationTime m \<noteq> None
     \<and> (\<exists>s. inMsg_String (\<lambda>_. ''node'') m = Inr s)"
proof -
  obtain saved where p: "Parse example_lib example_codec 10 example_bytes 3 None
     = Inr (received example_codec 10 GetAcceptedFrontier example_request saved 3 None)" (is "_ = Inr ?m")
    using example_parse by blast
  have "im_op ?m \<in> set ConsensusRequestOps" by (simp add: received_def ConsensusRequestOps_def)
  then show ?thesis using parse_typed [OF p, of "\<lambda>_. ''node''"] p by blast
qed

text \<open>
  Peers cannot extend their deadlines. The expiration time of a parsed message is at most the
  local time plus the configured maximum, whatever the 64 bits the peer sent (also those that
  read as a negative duration).
\<close>

theorem deadline_bounded:
  assumes "Parse L c now bytes nodeID h = Inr m" and "im_expirationTime m = Some t"
  shows "t \<le> Clock_Time now (cd_clock c) + cd_maxMessageTimeout c
    \<and> (\<exists>d. im_Get m Deadline = Some (V_uint64 d)
         \<and> t = Clock_Time now (cd_clock c) + min (sint d) (cd_maxMessageTimeout c))"
proof -
  obtain fs saved p where fs: "map_of messages (im_op m) = Some fs"
    and pf: "parse_fields L c now (im_op m) fs nodeID h saved p = Inr m"
    using Parse_Inr [OF assms(1)] by blast
  have "im_expirationTime (received c now (im_op m) (im_fields m) saved nodeID h) = Some t"
    using parse_fields_Inr [OF fs pf] assms(2) by metis
  then show ?thesis
    by (auto simp: received_def im_Get_def capDeadline_def Duration_def Let_def min_def
        split: option.splits intf.splits if_splits)
qed

theorem deadline_bounded_witness:
  "\<exists>m t. Parse example_lib example_codec 10 example_bytes 3 None = Inr m \<and> im_expirationTime m = Some t \<and> t \<le> 510"
proof -
  obtain saved where p: "Parse example_lib example_codec 10 example_bytes 3 None
     = Inr (received example_codec 10 GetAcceptedFrontier example_request saved 3 None)" (is "_ = Inr ?m")
    using example_parse by blast
  have c: "Clock_Time 10 (cd_clock example_codec) = 10" "cd_maxMessageTimeout example_codec = 500"
    by (simp_all add: example_codec_def NewCodecWithMemoryPool_def newClock_def Clock_Time_def)
  obtain t where "im_expirationTime ?m = Some t" by (simp add: received_def example_request_def)
  then show ?thesis using deadline_bounded [OF p] p c by fastforce
qed

text \<open>
  C9. Uncompressed messages have one encoding. If \<open>Parse\<close> accepts a byte string whose
  payload is not compressed, packing the parsed message gives back that very byte string: the
  parser accepts no trailing bytes, no alternative encodings of lengths or flags.
\<close>

theorem parse_canonical:
  assumes "Parse L c now bytes nodeID h = Inr m" and "codec_ok c"
    and "Compressible (im_op m) \<longrightarrow> take 1 (drop 1 bytes) = [0]" and "len bytes \<le> MaxInt32 - 2"
  shows "\<exists>msg c'. Pack L env c (im_op m) (im_fields m) False bypass = Inr (msg, c') \<and> om_bytes msg = bytes"
proof -
  obtain fs compressed rest saved p where fs: "map_of messages (im_op m) = Some fs"
    and C: "compressed \<longrightarrow> Compressible (im_op m)" and bytes: "bytes = header (im_op m) compressed @ rest"
    and pf: "parse_fields L c now (im_op m) fs nodeID h saved p = Inr m"
    and p: "\<not> compressed \<longrightarrow> p = advance (len (header (im_op m) False)) (parse_packer bytes)"
    using Parse_Inr [OF assms(1)] by blast
  have nc: "\<not> compressed" using C assms(3) bytes by (auto simp: header_def)
  obtain q where m: "list_all (ok_field (x509_ok L) (im_fields m)) fs"
    "consumed p (payload (im_fields m) fs) q" "pk_Offset q = len (pk_Bytes q)"
    using parse_fields_Inr [OF fs pf] by blast
  have "payload (im_fields m) fs = rest"
  proof -
    have bs: "pk_Bytes p = header (im_op m) False @ rest" "pk_Offset p = len (header (im_op m) False)"
      using p nc bytes by (simp_all add: parse_packer_def advance_def)
    have "q = advance (len (payload (im_fields m) fs)) p" using m(2) by (simp add: consumed_def)
    then have l: "length (payload (im_fields m) fs) = length rest" using m(3) bs by (simp add: len_def)
    then show ?thesis using m(2) bs by (auto simp: consumed_def at_cursor_def)
  qed
  then have "message_bytes L (im_op m) (im_fields m) fs False = bytes" "len (payload (im_fields m) fs) \<le> MaxInt32 - 2"
    using nc bytes assms(4) by (auto simp: message_bytes_def len_def)
  then show ?thesis using Pack_exact [OF fs m(1) _ assms(2), of False L env bypass] by auto
qed

theorem parse_canonical_witness:
  "\<exists>m msg c'. Parse example_lib example_codec 10 example_bytes 3 None = Inr m
     \<and> Pack example_lib example_pack_env example_codec (im_op m) (im_fields m) False True = Inr (msg, c')
     \<and> om_bytes msg = example_bytes"
proof -
  obtain saved where p: "Parse example_lib example_codec 10 example_bytes 3 None
     = Inr (received example_codec 10 GetAcceptedFrontier example_request saved 3 None)" (is "_ = Inr ?m")
    using example_parse by blast
  have "\<not> Compressible (im_op ?m)" "len example_bytes \<le> MaxInt32 - 2"
    by (simp_all add: received_def Compressible.simps example_bytes_def len_def MaxInt32_def)
  then show ?thesis using parse_canonical [OF p example_codec_ok] p by blast
qed

section \<open>Sending\<close>



text \<open>
  The remark in \<open>codec.Pack\<close> that the message is at least two bytes long when packing
  succeeded does not hold for every operation: a \<open>Ping\<close> has one byte, and compressing it is a slice out
  of bounds. The builders avoid this by asking \<open>Compressible\<close> first.
\<close>

theorem compress_ping_panics:
  "Pack L env c Ping vals True bypass = Inl (msg_panic SliceBounds)"
proof -
  have fs: "map_of messages Ping = Some []" by (simp add: messages_def)
  show ?thesis
    using Pack_uncompressed_bytes [OF fs, of "\<lambda>_. True" vals L env c True bypass]
    by (simp add: payload_def MaxInt32_def finish_pack_def header_def Compressible.simps)
qed

end
