(* ===== verification/MessageDelivery.thy ===== *)
theory MessageDelivery
  imports MessageProperties
begin

text \<open>
  The builders together with the codec: every message an outbound builder makes is received
  with the same contents, and the inbound builders, by which a node delivers messages to itself, agree
  with what the wire would have delivered, except \<open>InboundGet\<close>.
\<close>

section \<open>From the outbound builders to the parser\<close>

text \<open>
  Arguments a message can carry: slices are counted by 32 bits, strings by 16, addresses have 16
  bytes, certificates are ones the parser accepts.
\<close>

fun call_ok :: "(byte list \<Rightarrow> bool) \<Rightarrow> call \<Rightarrow> bool" where
  "call_ok okc (C_Version _ _ ip myVersion _ sig trackedSubnets) = (length (ip_IP ip) = 16 \<and> length myVersion < 2 ^ 16 \<and> length sig < 2 ^ 32 \<and> length trackedSubnets < 2 ^ 32)"
| "call_ok okc (C_PeerList peers _) = (ok_list (ok_claimed okc) peers)"
| "call_ok okc C_Ping = True"
| "call_ok okc (C_Pong _) = True"
| "call_ok okc (C_GetStateSummaryFrontier _ _ _) = True"
| "call_ok okc (C_StateSummaryFrontier _ _ summary) = (length summary < 2 ^ 32)"
| "call_ok okc (C_GetAcceptedStateSummary _ _ _ heights) = (length heights < 2 ^ 32)"
| "call_ok okc (C_AcceptedStateSummary _ _ summaryIDs) = (length summaryIDs < 2 ^ 32)"
| "call_ok okc (C_GetAcceptedFrontier _ _ _) = True"
| "call_ok okc (C_AcceptedFrontier _ _ containerIDs) = (length containerIDs < 2 ^ 32)"
| "call_ok okc (C_GetAccepted _ _ _ containerIDs) = (length containerIDs < 2 ^ 32)"
| "call_ok okc (C_Accepted _ _ containerIDs) = (length containerIDs < 2 ^ 32)"
| "call_ok okc (C_GetAncestors _ _ _ _) = True"
| "call_ok okc (C_Ancestors _ _ containers) = (ok_list ok_bytes containers)"
| "call_ok okc (C_Get _ _ _ _) = True"
| "call_ok okc (C_Put _ _ _ container) = (length container < 2 ^ 32)"
| "call_ok okc (C_PushQuery _ _ _ _ container) = (length container < 2 ^ 32)"
| "call_ok okc (C_PullQuery _ _ _ _) = True"
| "call_ok okc (C_Chits _ _ containerIDs) = (length containerIDs < 2 ^ 32)"
| "call_ok okc (C_ChitsV2 _ _ containerIDs _) = (length containerIDs < 2 ^ 32)"
| "call_ok okc (C_AppRequest _ _ _ msg) = (length msg < 2 ^ 32)"
| "call_ok okc (C_AppResponse _ _ msg) = (length msg < 2 ^ 32)"
| "call_ok okc (C_AppGossip _ msg) = (length msg < 2 ^ 32)"

lemma length_ID_bytes: "len (ID_bytes x) = HashLen"
  by (simp add: ID_bytes_def len_def HashLen_def)

lemma ok_encodeIDs: "ok_list (\<lambda>b. len b = HashLen) (encodeIDs ids) \<longleftrightarrow> length ids < 2 ^ 32"
  by (simp add: ok_list_def encodeIDs_def list_all_iff length_ID_bytes)

text \<open>The fields a builder supplies are those of its operation, in wire order.\<close>

lemma call_keys: "map_of messages (call_op call) = Some (map fst (call_fields call))"
  by (cases call) (simp_all add: messages_def)

lemma call_distinct: "distinct (map fst (call_fields call))"
  using messages_fields [OF call_keys] by simp

lemma call_fields_ok:
  assumes "call_ok okc call"
  shows "list_all (ok_field okc (call_fields call)) (map fst (call_fields call))"
  using assms
  by (cases call) (simp_all add: ok_field_def length_ID_bytes ok_encodeIDs ok_bytes_def ok_str_def ok_ip_def
      ok_list_def [of "\<lambda>_. True"] list_all_iff)

definition call_compress :: "outMsgBuilder \<Rightarrow> call \<Rightarrow> bool" where
  "call_compress b call = (ob_compress b \<and> Compressible (call_op call))"

fun call_bypass :: "call \<Rightarrow> bool" where
  "call_bypass (C_PeerList _ bypassThrottling) = bypassThrottling"
| "call_bypass (C_Version _ _ _ _ _ _ _) = True"
| "call_bypass _ = False"

lemmas out_defs = out_Version_def out_PeerList_def out_Ping_def out_Pong_def out_GetStateSummaryFrontier_def out_StateSummaryFrontier_def out_GetAcceptedStateSummary_def out_AcceptedStateSummary_def out_GetAcceptedFrontier_def out_AcceptedFrontier_def out_GetAccepted_def out_Accepted_def out_GetAncestors_def out_Ancestors_def out_Get_def out_Put_def out_PushQuery_def out_PullQuery_def out_Chits_def out_ChitsV2_def out_AppRequest_def out_AppResponse_def out_AppGossip_def

lemma send_Pack:
  "send L env b call = Pack L env (ob_c b) (call_op call) (call_fields call) (call_compress b call) (call_bypass call)"
  by (cases call) (simp_all add: out_defs call_compress_def Compressible.simps)

definition call_payload :: "call \<Rightarrow> byte list" where
  "call_payload call = payload (call_fields call) (map fst (call_fields call))"

text \<open>
  C10. Every message sent is received. Whichever outbound builder is called, with arguments a message can
  carry: the message is built, it goes out uncompressed unless compression is enabled and the
  operation allows it, and the peer's parser returns the operation of the builder with exactly
  the values the builder was given. The payload must fit, and the peer's limit on decompressed
  payloads must be less than \<open>MaxInt64\<close>, since its decompressor adds one to it.
\<close>

theorem send_received:
  assumes "gz_lossless L" "codec_ok (ob_c b)" "codec_ok c2" "call_ok (x509_ok L) call"
    "len (call_payload call) \<le> MaxInt32 - 2"
    "call_compress b call \<longrightarrow> can_compress L (ob_c b) (call_payload call) \<and> can_compress L c2 (call_payload call)
       \<and> cd_maxSize c2 < MaxInt64"
  shows "\<exists>msg c' saved. send L env b call = Inr (msg, c') \<and> om_refs msg = 1
    \<and> Parse L c2 now (om_bytes msg) nodeID h = Inr (received c2 now (call_op call) (call_fields call) saved nodeID h)"
proof -
  let ?fs = "map fst (call_fields call)"
  note ok = call_fields_ok [OF assms(4)]
  have C: "call_compress b call \<longrightarrow> Compressible (call_op call)" by (simp add: call_compress_def)
  obtain msg where "send L env b call = Inr (msg, snd (pool_Get (pe_pick env) (ob_c b)))" "om_refs msg = 1"
    "om_bytes msg = message_bytes L (call_op call) (call_fields call) ?fs (call_compress b call)"
    using Pack_exact [OF call_keys ok assms(5) [unfolded call_payload_def] assms(2)] assms(6) C
    unfolding send_Pack call_payload_def by blast
  moreover obtain saved where "Parse L c2 now (message_bytes L (call_op call) (call_fields call) ?fs (call_compress b call)) nodeID h
     = Inr (received c2 now (call_op call) (restrict (call_fields call) ?fs) saved nodeID h)"
    using Parse_message_bytes [OF assms(1,3) call_keys ok] assms(6) C unfolding call_payload_def by blast
  ultimately show ?thesis using restrict_self [OF call_distinct] by auto
qed

definition example_call :: call where
  "example_call = C_Chits 9 4 [1, 2]"

definition example_builder :: outMsgBuilder where
  "example_builder = NewOutboundBuilder example_codec True"

theorem send_received_witness:
  "\<exists>msg c' saved. send example_lib example_pack_env example_builder example_call = Inr (msg, c') \<and> om_refs msg = 1
    \<and> Parse example_lib example_codec 10 (om_bytes msg) 3 None
      = Inr (received example_codec 10 Chits (call_fields example_call) saved 3 None)"
proof -
  have p: "len (call_payload example_call) = 104"
    by code_simp
  have "call_ok (x509_ok example_lib) example_call" "\<not> call_compress example_builder example_call"
    "codec_ok (ob_c example_builder)"
    by (simp_all add: example_call_def call_compress_def Compressible.simps example_builder_def NewOutboundBuilder_def
        example_codec_ok)
  then show ?thesis
    using send_received [OF example_lossless _ example_codec_ok, of example_builder example_call example_pack_env 10 3 None] p
    by (simp add: MaxInt32_def example_call_def)
qed

section \<open>Self-delivery\<close>

text \<open>A message built locally with the operation and values of an outbound call.\<close>

definition self_delivered :: "call \<Rightarrow> Ids.NodeID \<Rightarrow> time option \<Rightarrow> inboundMessage" where
  "self_delivered call nodeID expirationTime = mk_inbound (call_op call) (call_fields call) nodeID expirationTime"

text \<open>
  Self-delivery agrees with the wire. Each inbound builder, \<open>InboundGet\<close> aside, makes the message
  with the operation and the values that the outbound builder of the same name sends; requests expire
  after their deadline, the other messages never.
\<close>

theorem self_delivery:
  "InboundGetStateSummaryFrontier now b chainID requestID deadline nodeID = self_delivered (C_GetStateSummaryFrontier chainID requestID deadline) nodeID (Some (Clock_Time now (ib_clock b) + deadline))
   \<and> InboundStateSummaryFrontier b chainID requestID summary nodeID = self_delivered (C_StateSummaryFrontier chainID requestID summary) nodeID None
   \<and> InboundGetAcceptedStateSummary now b chainID requestID heights deadline nodeID = self_delivered (C_GetAcceptedStateSummary chainID requestID deadline heights) nodeID (Some (Clock_Time now (ib_clock b) + deadline))
   \<and> InboundAcceptedStateSummary b chainID requestID summaryIDs nodeID = self_delivered (C_AcceptedStateSummary chainID requestID summaryIDs) nodeID None
   \<and> InboundGetAcceptedFrontier now b chainID requestID deadline nodeID = self_delivered (C_GetAcceptedFrontier chainID requestID deadline) nodeID (Some (Clock_Time now (ib_clock b) + deadline))
   \<and> InboundAcceptedFrontier b chainID requestID containerIDs nodeID = self_delivered (C_AcceptedFrontier chainID requestID containerIDs) nodeID None
   \<and> InboundGetAccepted now b chainID requestID deadline containerIDs nodeID = self_delivered (C_GetAccepted chainID requestID deadline containerIDs) nodeID (Some (Clock_Time now (ib_clock b) + deadline))
   \<and> InboundAccepted b chainID requestID containerIDs nodeID = self_delivered (C_Accepted chainID requestID containerIDs) nodeID None
   \<and> InboundPushQuery now b chainID requestID deadline containerID container nodeID = self_delivered (C_PushQuery chainID requestID deadline containerID container) nodeID (Some (Clock_Time now (ib_clock b) + deadline))
   \<and> InboundPullQuery now b chainID requestID deadline containerID nodeID = self_delivered (C_PullQuery chainID requestID deadline containerID) nodeID (Some (Clock_Time now (ib_clock b) + deadline))
   \<and> InboundChits b chainID requestID containerIDs nodeID = self_delivered (C_Chits chainID requestID containerIDs) nodeID None
   \<and> InboundChitsV2 b chainID requestID containerIDs containerID nodeID = self_delivered (C_ChitsV2 chainID requestID containerIDs containerID) nodeID None
   \<and> InboundAppRequest now b chainID requestID deadline msg nodeID = self_delivered (C_AppRequest chainID requestID deadline msg) nodeID (Some (Clock_Time now (ib_clock b) + deadline))
   \<and> InboundAppResponse b chainID requestID msg nodeID = self_delivered (C_AppResponse chainID requestID msg) nodeID None
   \<and> InboundPut b chainID requestID containerID container nodeID = self_delivered (C_Put chainID requestID containerID container) nodeID None
   \<and> InboundAncestors b chainID requestID containers nodeID = self_delivered (C_Ancestors chainID requestID containers) nodeID None"
proof -
  note defs = self_delivered_def Let_def InboundGetStateSummaryFrontier_def InboundStateSummaryFrontier_def InboundGetAcceptedStateSummary_def InboundAcceptedStateSummary_def InboundGetAcceptedFrontier_def InboundAcceptedFrontier_def InboundGetAccepted_def InboundAccepted_def InboundPushQuery_def InboundPullQuery_def InboundChits_def InboundChitsV2_def InboundAppRequest_def InboundAppResponse_def InboundPut_def InboundAncestors_def
  show ?thesis by (intro conjI; simp only: defs call_op.simps call_fields.simps)
qed

text \<open>
  \<open>InboundGet\<close> builds a \<open>Put\<close>: its operation is not \<open>Get\<close>, and the message lacks the container bytes that
  a \<open>Put\<close> carries; its fields are those of a \<open>Get\<close>.
\<close>

theorem inbound_get_is_put:
  "im_op (InboundGet now b chainID requestID deadline containerID nodeID) = Put
   \<and> im_Get (InboundGet now b chainID requestID deadline containerID nodeID) ContainerBytes = None
   \<and> im_fields (InboundGet now b chainID requestID deadline containerID nodeID)
       = call_fields (C_Get chainID requestID deadline containerID)"
  by (simp add: InboundGet_def Let_def mk_inbound_def im_Get_def)

end
