(* ===== verification/SafeMath.thy ===== *)
theory SafeMath
  imports Prelude
begin

text \<open>
  Package \<open>utils/math\<close> (\<open>src/utils/math/safe_math.go\<close>): the checked arithmetic on
  \<open>uint64\<close>. The operands are 64-bit words, so \<open>+\<close>, \<open>-\<close> and \<open>*\<close> wrap as in Go; the guards of the
  source decide when the wrapped result is returned. An error is \<open>Inl errOverflow\<close>.
\<close>

datatype math_error = errOverflow

definition MaxUint64 :: "64 word" where
  "MaxUint64 = - 1"

definition Max64 :: "64 word \<Rightarrow> 64 word list \<Rightarrow> 64 word" where
  "Max64 mx nums = foldl (\<lambda>mx num. if num > mx then num else mx) mx nums"

definition Min_int :: "int \<Rightarrow> int list \<Rightarrow> int" where
  "Min_int mn nums = foldl (\<lambda>mn num. if num < mn then num else mn) mn nums"

definition Min64 :: "64 word \<Rightarrow> 64 word list \<Rightarrow> 64 word" where
  "Min64 mn nums = foldl (\<lambda>mn num. if num < mn then num else mn) mn nums"

definition Add64 :: "64 word \<Rightarrow> 64 word \<Rightarrow> math_error + 64 word" where
  "Add64 a b = (if a > MaxUint64 - b then Inl errOverflow else Inr (a + b))"

definition Sub64 :: "64 word \<Rightarrow> 64 word \<Rightarrow> math_error + 64 word" where
  "Sub64 a b = (if a < b then Inl errOverflow else Inr (a - b))"

definition Mul64 :: "64 word \<Rightarrow> 64 word \<Rightarrow> math_error + 64 word" where
  "Mul64 a b = (if b \<noteq> 0 \<and> a > MaxUint64 div b then Inl errOverflow else Inr (a * b))"

definition Diff64 :: "64 word \<Rightarrow> 64 word \<Rightarrow> 64 word" where
  "Diff64 a b = Max64 a [b] - Min64 a [b]"

section \<open>The loops compute extrema\<close>

lemma foldl_max: "foldl (\<lambda>m x. if x > m then x else m) (a::'a::linorder) xs = Max (set (a # xs))"
proof (induction xs arbitrary: a)
  case (Cons x xs)
  have "Max (set (a # x # xs)) = Max (insert (max a x) (set xs))"
    by (cases "xs = []") (auto simp: max.assoc)
  then show ?case
    using Cons [of "if x > a then x else a"] by (auto simp: max_def not_less split: if_splits)
qed simp

lemma foldl_min: "foldl (\<lambda>m x. if x < m then x else m) (a::'a::linorder) xs = Min (set (a # xs))"
proof (induction xs arbitrary: a)
  case (Cons x xs)
  have "Min (set (a # x # xs)) = Min (insert (min a x) (set xs))"
    by (cases "xs = []") (auto simp: min.assoc)
  then show ?case
    using Cons [of "if x < a then x else a"] by (auto simp: min_def not_less split: if_splits)
qed simp

section \<open>The guards are exact\<close>

lemma unat_max64: "unat MaxUint64 = 2 ^ 64 - 1"
  by (simp add: MaxUint64_def unsigned_minus_1_eq_mask mask_eq_exp_minus_1)

lemma add_guard: "a > MaxUint64 - b \<longleftrightarrow> unat a + unat b \<ge> 2 ^ 64"
proof -
  have "b \<le> MaxUint64" by (simp add: MaxUint64_def)
  then have "unat (MaxUint64 - b) = 2 ^ 64 - 1 - unat b"
    by (simp add: unat_sub unat_max64)
  moreover have "unat b < 2 ^ 64" using unsigned_less [of b] by simp
  ultimately show ?thesis by (auto simp: word_less_nat_alt)
qed

lemma mul_guard: "b \<noteq> 0 \<and> a > MaxUint64 div b \<longleftrightarrow> unat a * unat b \<ge> 2 ^ 64"
proof (cases "b = 0")
  case False
  then have pos: "unat b > 0" by (simp add: unat_gt_0)
  have "a > MaxUint64 div b \<longleftrightarrow> unat a > (2 ^ 64 - 1) div unat b"
    by (simp add: word_less_nat_alt unat_div unat_max64)
  also have "\<dots> \<longleftrightarrow> unat a * unat b > 2 ^ 64 - 1"
    using pos by (metis div_less_iff_less_mult)
  finally show ?thesis using False by auto
qed simp

text \<open>
  C25. Checked arithmetic is exact: \<open>Max64\<close>, \<open>Min\<close> and \<open>Min64\<close> return the extrema of their arguments; \<open>Add64\<close>, \<open>Sub64\<close> and \<open>Mul64\<close> return the mathematical sum,
  difference and product when that number fits in 64 bits, and report \<open>errOverflow\<close> in every other
  case; the result is never a wrapped one. \<open>Diff64\<close> is the distance of its operands and never
  underflows.
\<close>

theorem safe_math_exact:
  "Max64 a nums = Max (set (a # nums)) \<and> Min64 a nums = Min (set (a # nums))
   \<and> Min_int i is = Min (set (i # is))
   \<and> Add64 a b = (if unat a + unat b < 2 ^ 64 then Inr (of_nat (unat a + unat b)) else Inl errOverflow)
   \<and> Sub64 a b = (if unat b \<le> unat a then Inr (of_nat (unat a - unat b)) else Inl errOverflow)
   \<and> Mul64 a b = (if unat a * unat b < 2 ^ 64 then Inr (of_nat (unat a * unat b)) else Inl errOverflow)
   \<and> unat (Diff64 a b) = (if unat a \<le> unat b then unat b - unat a else unat a - unat b)"
proof (intro conjI)
  show "Max64 a nums = Max (set (a # nums))" "Min64 a nums = Min (set (a # nums))"
    "Min_int i is = Min (set (i # is))"
    by (simp_all only: Max64_def Min64_def Min_int_def foldl_max foldl_min)
  show "Add64 a b = (if unat a + unat b < 2 ^ 64 then Inr (of_nat (unat a + unat b)) else Inl errOverflow)"
    by (simp add: Add64_def add_guard not_le)
  show "Sub64 a b = (if unat b \<le> unat a then Inr (of_nat (unat a - unat b)) else Inl errOverflow)"
    by (auto simp: Sub64_def word_less_nat_alt not_less of_nat_diff)
  show "Mul64 a b = (if unat a * unat b < 2 ^ 64 then Inr (of_nat (unat a * unat b)) else Inl errOverflow)"
    by (simp only: Mul64_def mul_guard) (simp add: not_le)
  show "unat (Diff64 a b) = (if unat a \<le> unat b then unat b - unat a else unat a - unat b)"
    by (auto simp: Diff64_def Max64_def Min64_def word_less_nat_alt not_less unat_sub word_le_nat_alt)
qed

end
