(* ===== verification/Polls.thy ===== *)
theory Polls
  imports Bags LinkedHashmap
begin

text \<open>
  Package \<open>snow/consensus/snowman/poll\<close>: the polls a node has open (\<open>early_term_no_traversal.go\<close>,
  \<open>no_early_term.go\<close>, \<open>set.go\<close>). A poll waits for the validators in a bag and collects their votes; a
  finished poll is handed to consensus once all older polls are finished.

  The two implementations of the interface \<open>Poll\<close> are the cases of a datatype. A poll is reached only
  through the set that created it, so its in-place updates are updates of the set's entry
  (\<open>lh_modify\<close>). The gauge \<open>numPolls\<close> is kept; the averager of durations and logging have no effect on the
  results.
\<close>

section \<open>A poll\<close>

record earlyTermNoTraversalPoll =
  et_votes :: Bag
  et_polled :: NodeIDBag
  et_alpha :: int

record noEarlyTermPoll =
  ne_votes :: Bag
  ne_polled :: NodeIDBag

definition et_New :: "int \<Rightarrow> NodeIDBag \<Rightarrow> earlyTermNoTraversalPoll" where
  "et_New alpha vdrs = \<lparr>et_votes = emptyBag, et_polled = vdrs, et_alpha = alpha\<rparr>"

definition et_Vote :: "NodeID \<Rightarrow> ID \<Rightarrow> earlyTermNoTraversalPoll \<Rightarrow> earlyTermNoTraversalPoll" where
  "et_Vote vdr vote p =
     (let count = nCount (et_polled p) vdr;
          p = p\<lparr>et_polled := nRemove (et_polled p) vdr\<rparr>
      in p\<lparr>et_votes := AddCount (et_votes p) vote count\<rparr>)"

definition et_Drop :: "NodeID \<Rightarrow> earlyTermNoTraversalPoll \<Rightarrow> earlyTermNoTraversalPoll" where
  "et_Drop vdr p = p\<lparr>et_polled := nRemove (et_polled p) vdr\<rparr>"

definition et_Finished :: "earlyTermNoTraversalPoll \<Rightarrow> bool" where
  "et_Finished p =
     (let remaining = nLen (et_polled p);
          received = Len (et_votes p);
          freq = snd (Mode (et_votes p))
      in remaining = 0 \<or> freq \<ge> et_alpha p \<or> received + remaining < et_alpha p)"

definition et_Result :: "earlyTermNoTraversalPoll \<Rightarrow> Bag" where
  "et_Result p = et_votes p"

definition ne_New :: "NodeIDBag \<Rightarrow> noEarlyTermPoll" where
  "ne_New vdrs = \<lparr>ne_votes = emptyBag, ne_polled = vdrs\<rparr>"

definition ne_Vote :: "NodeID \<Rightarrow> ID \<Rightarrow> noEarlyTermPoll \<Rightarrow> noEarlyTermPoll" where
  "ne_Vote vdr vote p =
     (let count = nCount (ne_polled p) vdr;
          p = p\<lparr>ne_polled := nRemove (ne_polled p) vdr\<rparr>
      in p\<lparr>ne_votes := AddCount (ne_votes p) vote count\<rparr>)"

definition ne_Drop :: "NodeID \<Rightarrow> noEarlyTermPoll \<Rightarrow> noEarlyTermPoll" where
  "ne_Drop vdr p = p\<lparr>ne_polled := nRemove (ne_polled p) vdr\<rparr>"

definition ne_Finished :: "noEarlyTermPoll \<Rightarrow> bool" where
  "ne_Finished p = (nLen (ne_polled p) = 0)"

definition ne_Result :: "noEarlyTermPoll \<Rightarrow> Bag" where
  "ne_Result p = ne_votes p"

text \<open>The interface \<open>Poll\<close> and the factories.\<close>

datatype Poll = EarlyTerm earlyTermNoTraversalPoll | NoEarlyTerm noEarlyTermPoll

datatype Factory = EarlyTermFactory int | NoEarlyTermFactory

fun Factory_New :: "Factory \<Rightarrow> NodeIDBag \<Rightarrow> Poll" where
  "Factory_New (EarlyTermFactory alpha) vdrs = EarlyTerm (et_New alpha vdrs)"
| "Factory_New NoEarlyTermFactory vdrs = NoEarlyTerm (ne_New vdrs)"

fun poll_Vote :: "NodeID \<Rightarrow> ID \<Rightarrow> Poll \<Rightarrow> Poll" where
  "poll_Vote vdr vote (EarlyTerm p) = EarlyTerm (et_Vote vdr vote p)"
| "poll_Vote vdr vote (NoEarlyTerm p) = NoEarlyTerm (ne_Vote vdr vote p)"

fun poll_Drop :: "NodeID \<Rightarrow> Poll \<Rightarrow> Poll" where
  "poll_Drop vdr (EarlyTerm p) = EarlyTerm (et_Drop vdr p)"
| "poll_Drop vdr (NoEarlyTerm p) = NoEarlyTerm (ne_Drop vdr p)"

fun poll_Finished :: "Poll \<Rightarrow> bool" where
  "poll_Finished (EarlyTerm p) = et_Finished p"
| "poll_Finished (NoEarlyTerm p) = ne_Finished p"

fun poll_Result :: "Poll \<Rightarrow> Bag" where
  "poll_Result (EarlyTerm p) = et_Result p"
| "poll_Result (NoEarlyTerm p) = ne_Result p"

section \<open>The set of open polls\<close>

record pollSet =
  ps_numPolls :: int
  ps_factory :: Factory
  ps_polls :: "(32 word, Poll) linkedHashmap"

definition NewPollSet :: "Factory \<Rightarrow> pollSet" where
  "NewPollSet factory = \<lparr>ps_numPolls = 0, ps_factory = factory, ps_polls = lh_New\<rparr>"

text \<open>A method call through the pointer stored under a key.\<close>

definition lh_modify :: "'k \<Rightarrow> ('v \<Rightarrow> 'v) \<Rightarrow> ('k, 'v) linkedHashmap \<Rightarrow> ('k, 'v) linkedHashmap" where
  "lh_modify key f lh =
     lh\<lparr>lh_entryList := map (\<lambda>(e, k, v). (e, k, if k = key then f v else v)) (lh_entryList lh)\<rparr>"

definition set_Add :: "32 word \<Rightarrow> NodeIDBag \<Rightarrow> pollSet \<Rightarrow> pollSet \<times> bool" where
  "set_Add requestID vdrs s =
     (case lh_get requestID (ps_polls s) of
        Some _ \<Rightarrow> (s, False)
      | None \<Rightarrow>
          (s\<lparr>ps_polls := lh_put requestID (Factory_New (ps_factory s) vdrs) (ps_polls s),
             ps_numPolls := ps_numPolls s + 1\<rparr>, True))"

text \<open>The loop of \<open>processFinishedPolls\<close>; \<open>None\<close> is running out of fuel or a nil dereference.\<close>

fun process_loop :: "nat \<Rightarrow> (32 word, Poll) iterator \<Rightarrow> pollSet \<Rightarrow> Bag list \<Rightarrow> (pollSet \<times> Bag list) option" where
  "process_loop 0 iter s results = None"
| "process_loop (Suc fuel) iter s results =
     (case iterator_Next (ps_polls s) iter of
        None \<Rightarrow> None
      | Some (iter, hasNext) \<Rightarrow>
          if \<not> hasNext then Some (s, results)
          else (case it_current iter of
             None \<Rightarrow> None
           | Some (key, p) \<Rightarrow>
               if \<not> poll_Finished p then Some (s, results)
               else process_loop fuel iter
                      (s\<lparr>ps_numPolls := ps_numPolls s - 1, ps_polls := lh_delete key (ps_polls s)\<rparr>)
                      (results @ [poll_Result p])))"

definition processFinishedPolls :: "pollSet \<Rightarrow> (pollSet \<times> Bag list) option" where
  "processFinishedPolls s = process_loop (Suc (lh_len (ps_polls s))) NewIterator s []"

definition set_Vote :: "32 word \<Rightarrow> NodeID \<Rightarrow> ID \<Rightarrow> pollSet \<Rightarrow> (pollSet \<times> Bag list) option" where
  "set_Vote requestID vdr vote s =
     (case lh_get requestID (ps_polls s) of
        None \<Rightarrow> Some (s, [])
      | Some p \<Rightarrow>
          let s = s\<lparr>ps_polls := lh_modify requestID (poll_Vote vdr vote) (ps_polls s)\<rparr> in
          if \<not> poll_Finished (poll_Vote vdr vote p) then Some (s, []) else processFinishedPolls s)"

definition set_Drop :: "32 word \<Rightarrow> NodeID \<Rightarrow> pollSet \<Rightarrow> (pollSet \<times> Bag list) option" where
  "set_Drop requestID vdr s =
     (case lh_get requestID (ps_polls s) of
        None \<Rightarrow> Some (s, [])
      | Some p \<Rightarrow>
          let s = s\<lparr>ps_polls := lh_modify requestID (poll_Drop vdr) (ps_polls s)\<rparr> in
          if \<not> poll_Finished (poll_Drop vdr p) then Some (s, []) else processFinishedPolls s)"

definition set_Len :: "pollSet \<Rightarrow> nat" where
  "set_Len s = lh_len (ps_polls s)"

section \<open>What a poll promises\<close>

lemma nLen_nRemove: "nLen (nRemove b v) = nLen b - nCount b v"
  by (simp add: nLen_def nRemove_def nCount_def Let_def)

text \<open>
  A poll is sound when its bags are, and no more votes can come in than were asked for. A response
  is a vote or, without an identifier, a timeout.
\<close>

definition poll_ok :: "('p \<Rightarrow> Bag) \<Rightarrow> ('p \<Rightarrow> NodeIDBag) \<Rightarrow> int \<Rightarrow> 'p \<Rightarrow> bool" where
  "poll_ok result waiting n p \<longleftrightarrow>
     bag_inv (result p) \<and> nbag_inv (waiting p) \<and> Len (result p) + nLen (waiting p) \<le> n"

definition poll_respond :: "(NodeID \<Rightarrow> ID \<Rightarrow> 'p \<Rightarrow> 'p) \<Rightarrow> (NodeID \<Rightarrow> 'p \<Rightarrow> 'p) \<Rightarrow> NodeID \<times> ID option \<Rightarrow> 'p \<Rightarrow> 'p" where
  "poll_respond vote drp r p = (case r of (v, Some x) \<Rightarrow> vote v x p | (v, None) \<Rightarrow> drp v p)"

text \<open>
  The contract of the interface \<open>Poll\<close>, with \<open>waiting\<close> the bag of validators that may still answer.
\<close>

locale poll_impl =
  fixes vote :: "NodeID \<Rightarrow> ID \<Rightarrow> 'p \<Rightarrow> 'p"
    and drp :: "NodeID \<Rightarrow> 'p \<Rightarrow> 'p"
    and fin :: "'p \<Rightarrow> bool"
    and result :: "'p \<Rightarrow> Bag"
    and waiting :: "'p \<Rightarrow> NodeIDBag"
  assumes result_vote: "result (vote v x p) = AddCount (result p) x (nCount (waiting p) v)"
    and waiting_vote: "waiting (vote v x p) = nRemove (waiting p) v"
    and result_drop: "result (drp v p) = result p"
    and waiting_drop: "waiting (drp v p) = nRemove (waiting p) v"
    and fin_all: "nLen (waiting p) = 0 \<Longrightarrow> fin p"
begin

abbreviation ok :: "int \<Rightarrow> 'p \<Rightarrow> bool" where
  "ok \<equiv> poll_ok result waiting"

abbreviation respond :: "NodeID \<times> ID option \<Rightarrow> 'p \<Rightarrow> 'p" where
  "respond \<equiv> poll_respond vote drp"

lemma ok_vote: "ok n p \<Longrightarrow> ok n (vote v x p)"
  by (auto simp: poll_ok_def result_vote waiting_vote bag_inv_AddCount nbag_inv_nRemove nLen_nRemove vote_bag.len_addc
      vdr_bag.cnt_nonneg)

lemma ok_drop: "ok n p \<Longrightarrow> ok n (drp v p)"
  using vdr_bag.cnt_nonneg [of "waiting p" v]
  by (auto simp: poll_ok_def result_drop waiting_drop nbag_inv_nRemove nLen_nRemove)

lemma ok_result: "ok n p \<Longrightarrow> bag_inv (result p) \<and> Len (result p) \<le> n"
  using vdr_bag.len_nonneg [of "waiting p"] by (auto simp: poll_ok_def)

lemma ok_respond: "ok n p \<Longrightarrow> ok n (respond r p)"
  by (auto simp: poll_respond_def ok_vote ok_drop split: prod.split option.split)

lemma ok_responds: "ok n p \<Longrightarrow> ok n (fold respond rs p)"
  by (induction rs arbitrary: p) (simp_all add: ok_respond)

lemma Count_respond: "ok n p \<Longrightarrow> Count (result p) y \<le> Count (result (respond r p)) y"
  by (auto simp: poll_respond_def result_vote result_drop poll_ok_def vote_bag.cnt_addc split: prod.split option.split)

lemma Count_responds: "ok n p \<Longrightarrow> Count (result p) y \<le> Count (result (fold respond rs p)) y"
proof (induction rs arbitrary: p)
  case (Cons r rs)
  show ?case
    using Count_respond [OF Cons.prems, of y r] Cons.IH [OF ok_respond [OF Cons.prems, of r]] by simp
qed simp

text \<open>A validator that answered, or timed out, has no further influence.\<close>

lemma nobody_left: "ok n p \<Longrightarrow> nLen (waiting p) = 0 \<Longrightarrow> result (fold respond rs p) = result p"
proof (induction rs arbitrary: p)
  case (Cons r rs)
  obtain v x where r: "r = (v, x)" by fastforce
  have w: "nbag_inv (waiting p)" using Cons.prems(1) by (simp add: poll_ok_def)
  have c: "nCount (waiting p) v = 0"
    using vdr_bag.cnt_le_len [OF w, of v] vdr_bag.cnt_nonneg [OF w, of v] Cons.prems(2) by simp
  have "result (respond r p) = result p" "waiting (respond r p) = nRemove (waiting p) v"
    using c by (auto simp: poll_respond_def r result_vote result_drop waiting_vote waiting_drop AddCount_def split: option.split)
  moreover have "nLen (nRemove (waiting p) v) = 0" using c Cons.prems(2) by (simp add: nLen_nRemove)
  ultimately show ?case using Cons.IH [OF ok_respond [OF Cons.prems(1), of r]] by simp
qed simp

end

interpretation et_poll: poll_impl et_Vote et_Drop et_Finished et_Result et_polled
  by unfold_locales (simp_all add: et_Vote_def et_Drop_def et_Finished_def et_Result_def Let_def)

interpretation ne_poll: poll_impl ne_Vote ne_Drop ne_Finished ne_Result ne_polled
  by unfold_locales (simp_all add: ne_Vote_def ne_Drop_def ne_Finished_def ne_Result_def Let_def)

fun poll_waiting :: "Poll \<Rightarrow> NodeIDBag" where
  "poll_waiting (EarlyTerm p) = et_polled p"
| "poll_waiting (NoEarlyTerm p) = ne_polled p"

interpretation poll: poll_impl poll_Vote poll_Drop poll_Finished poll_Result poll_waiting
proof
  fix v x p
  show "poll_Result (poll_Vote v x p) = AddCount (poll_Result p) x (nCount (poll_waiting p) v)"
    by (cases p) (simp_all add: et_poll.result_vote ne_poll.result_vote)
  show "poll_waiting (poll_Vote v x p) = nRemove (poll_waiting p) v"
    by (cases p) (simp_all add: et_poll.waiting_vote ne_poll.waiting_vote)
  show "poll_Result (poll_Drop v p) = poll_Result p"
    by (cases p) (simp_all add: et_poll.result_drop ne_poll.result_drop)
  show "poll_waiting (poll_Drop v p) = nRemove (poll_waiting p) v"
    by (cases p) (simp_all add: et_poll.waiting_drop ne_poll.waiting_drop)
  show "nLen (poll_waiting p) = 0 \<Longrightarrow> poll_Finished p"
    by (cases p) (simp_all add: et_poll.fin_all ne_poll.fin_all)
qed

lemma Factory_New_ok: "nbag_inv vdrs \<Longrightarrow> nLen vdrs \<le> n \<Longrightarrow> poll_ok poll_Result poll_waiting n (Factory_New f vdrs)"
  by (cases f) (simp_all add: poll_ok_def et_New_def ne_New_def et_Result_def ne_Result_def Len_eq)

text \<open>
  C34. Early termination does not change the outcome. When an early-terminating poll reports that it
  is finished, and alpha is more than half of the validators it asked, then whatever the remaining
  validators would still answer, in any order and number, the identifiers with at least alpha
  votes are the same as in the result handed out.
\<close>

theorem early_termination_sound:
  assumes "poll_ok et_Result et_polled n p" "et_Finished p" "n div 2 < et_alpha p"
  shows "et_alpha p \<le> Count (et_Result (fold (poll_respond et_Vote et_Drop) rs p)) y \<longleftrightarrow> et_alpha p \<le> Count (et_Result p) y"
proof -
  let ?q = "fold (poll_respond et_Vote et_Drop) rs p"
  have q: "bag_inv (et_Result ?q)" "Len (et_Result ?q) \<le> n"
    using et_poll.ok_result [OF et_poll.ok_responds [OF assms(1)]] by auto
  have p: "bag_inv (et_votes p)" "nbag_inv (et_polled p)" using assms(1) by (simp_all add: poll_ok_def et_Result_def)
  have mono: "Count (et_Result p) y \<le> Count (et_Result ?q) y" for y by (rule et_poll.Count_responds [OF assms(1)])
  consider (all) "nLen (et_polled p) = 0" | (majority) "et_alpha p \<le> snd (Mode (et_votes p))"
    | (never) "Len (et_votes p) + nLen (et_polled p) < et_alpha p"
    using assms(2) by (auto simp: et_Finished_def Let_def)
  then show ?thesis
  proof cases
    case all
    then show ?thesis using et_poll.nobody_left [OF assms(1)] by simp
  next
    case majority
    let ?x = "fst (Mode (et_votes p))"
    have x: "et_alpha p \<le> Count (et_Result p) ?x"
      using majority Mode_maximal(2) [OF p(1)] by (simp add: et_Result_def)
    show ?thesis
    proof
      assume y: "et_alpha p \<le> Count (et_Result ?q) y"
      have "?x = y"
        by (rule vote_bag.majority_unique [OF q assms(3) _ y]) (use x mono [of ?x] in linarith)
      then show "et_alpha p \<le> Count (et_Result p) y" using x by simp
    qed (use mono [of y] in linarith)
  next
    case never
    have "poll_ok et_Result et_polled (Len (et_votes p) + nLen (et_polled p)) p" using p by (simp add: poll_ok_def et_Result_def)
    then have "Count (et_Result ?q) y < et_alpha p"
      using et_poll.ok_result [OF et_poll.ok_responds, of _ p rs] vote_bag.cnt_le_len [OF q(1), of y] never by fastforce
    then show ?thesis using mono [of y] by linarith
  qed
qed

section \<open>The set of polls\<close>

lemma lh_modify_inv: "lh_inv lh \<Longrightarrow> lh_inv (lh_modify k f lh)"
  by (simp add: lh_inv_def lh_modify_def split_def o_def image_image)

lemma lh_modify_abs: "lh_abs (lh_modify k f lh) = map (\<lambda>(k', v). (k', if k' = k then f v else v)) (lh_abs lh)"
  by (simp add: lh_abs_def lh_modify_def split_def o_def)

abbreviation open_polls :: "pollSet \<Rightarrow> (32 word \<times> Poll) list" where
  "open_polls s \<equiv> lh_abs (ps_polls s)"

definition set_ok :: "int \<Rightarrow> pollSet \<Rightarrow> bool" where
  "set_ok n s \<longleftrightarrow> lh_inv (ps_polls s) \<and> ps_numPolls s = int (set_Len s) \<and> (\<forall>(k, p) \<in> set (open_polls s). poll_ok poll_Result poll_waiting n p)"

lemma set_Len_eq: "lh_inv (ps_polls s) \<Longrightarrow> set_Len s = length (open_polls s)"
  by (simp add: set_Len_def lh_len_eq)

lemma set_ok_New: "set_ok n (NewPollSet f)"
  by (simp add: set_ok_def NewPollSet_def set_Len_def lh_New_def lh_len_def lh_abs_def lh_inv_def)

lemma set_ok_Add:
  assumes "set_ok n s" "nbag_inv vdrs" "nLen vdrs \<le> n"
  shows "set_ok n (fst (set_Add r vdrs s))"
proof (cases "lh_get r (ps_polls s)")
  case None
  have inv: "lh_inv (ps_polls s)" using assms(1) by (simp add: set_ok_def)
  then have "r \<notin> fst ` set (open_polls s)" using None by (simp add: lh_get_eq map_of_eq_None_iff)
  then have a: "open_polls (fst (set_Add r vdrs s)) = open_polls s @ [(r, Factory_New (ps_factory s) vdrs)]"
    using None inv by (simp add: set_Add_def lh_put_ok without_absent)
  moreover have "lh_inv (ps_polls (fst (set_Add r vdrs s)))"
    using None inv by (simp add: set_Add_def lh_put_ok)
  ultimately show ?thesis using assms None inv
    by (auto simp: set_ok_def set_Len_eq Factory_New_ok) (simp add: set_Add_def)
qed (use assms in \<open>simp add: set_Add_def\<close>)

lemma set_ok_modify:
  assumes "set_ok n s" "\<And>p. poll_ok poll_Result poll_waiting n p \<Longrightarrow> poll_ok poll_Result poll_waiting n (f p)"
  shows "set_ok n (s\<lparr>ps_polls := lh_modify r f (ps_polls s)\<rparr>)"
  using assms by (auto simp: set_ok_def lh_modify_inv lh_modify_abs set_Len_eq)

text \<open>Deleting the element an iterator stands on.\<close>

lemma lh_delete_first:
  assumes "lh_inv lh" "lh_entryList lh = (e, k, v) # ys"
  shows "lh_entryList (lh_delete k lh) = ys"
proof -
  have "map_of (lh_entryMap lh) k = Some e" using assms by (auto simp: entryMap_Some)
  moreover have "list_Remove e ((e, k, v) # ys) = ys"
    using assms by (force simp: list_Remove_def lh_inv_def filter_id_conv)
  ultimately show ?thesis using assms(2) by (simp add: lh_delete_def)
qed

lemma iterator_Next_first:
  assumes "lh_inv lh" "lh_entryList lh = (e, kv) # ys" "it_before it ((e, kv) # ys)"
  shows "\<exists>it'. iterator_Next lh it = Some (it', True) \<and> it_current it' = Some kv \<and> it_before it' ys"
proof -
  have "element_after e (lh_entryList lh) = list_Front ys"
    using element_after_append [of "[]" e kv ys] assms(1,2) by (simp add: lh_inv_def)
  then show ?thesis using assms
    by (auto simp: iterator_Next_def it_before_def list_Front_def Let_def split: list.splits)
qed

abbreviation finished_prefix :: "(32 word \<times> Poll) list \<Rightarrow> (32 word \<times> Poll) list" where
  "finished_prefix \<equiv> takeWhile (\<lambda>(k, p). poll_Finished p)"

lemma process_loop_spec:
  assumes "lh_inv (ps_polls s)" "it_before it (lh_entryList (ps_polls s))" "length (lh_entryList (ps_polls s)) < m"
  shows "\<exists>s'. process_loop m it s res = Some (s', res @ map (poll_Result \<circ> snd) (finished_prefix (open_polls s)))
    \<and> lh_inv (ps_polls s') \<and> open_polls s' = dropWhile (\<lambda>(k, p). poll_Finished p) (open_polls s)
    \<and> ps_numPolls s' = ps_numPolls s - int (length (finished_prefix (open_polls s))) \<and> ps_factory s' = ps_factory s"
  using assms
proof (induction m arbitrary: s it res)
  case (Suc m)
  show ?case
  proof (cases "lh_entryList (ps_polls s)")
    case Nil
    then show ?thesis using Suc.prems by (simp add: it_before_def iterator_Next_def lh_abs_def)
  next
    case (Cons y ys)
    obtain e k p where y: "y = (e, k, p)" by (cases y) auto
    obtain it' where it': "iterator_Next (ps_polls s) it = Some (it', True)" "it_current it' = Some (k, p)" "it_before it' ys"
      using iterator_Next_first [OF Suc.prems(1)] Cons Suc.prems(2) y by metis
    have abs: "open_polls s = (k, p) # map snd ys" using Cons y by (simp add: lh_abs_def)
    show ?thesis
    proof (cases "poll_Finished p")
      case False
      then show ?thesis using it' abs Suc.prems(1) by (intro exI [of _ s]) simp
    next
      case True
      let ?s = "s\<lparr>ps_numPolls := ps_numPolls s - 1, ps_polls := lh_delete k (ps_polls s)\<rparr>"
      have ys: "lh_entryList (ps_polls ?s) = ys" using lh_delete_first Suc.prems(1) Cons y by simp
      then have abs': "open_polls ?s = map snd ys" by (simp add: lh_abs_def)
      have inv: "lh_inv (ps_polls ?s)" using Suc.prems(1) by (simp add: lh_delete_ok)
      obtain s' where s': "process_loop m it' ?s (res @ [poll_Result p])
            = Some (s', (res @ [poll_Result p]) @ map (poll_Result \<circ> snd) (finished_prefix (map snd ys)))"
          "lh_inv (ps_polls s')" "open_polls s' = dropWhile (\<lambda>(k, p). poll_Finished p) (map snd ys)"
          "ps_numPolls s' = ps_numPolls ?s - int (length (finished_prefix (map snd ys)))" "ps_factory s' = ps_factory ?s"
        using Suc.IH [OF inv, of it' "res @ [poll_Result p]"] it'(3) Suc.prems(3) Cons unfolding abs' ys by auto
      show ?thesis by (rule exI [of _ s']) (use s' it' abs True in simp)
    qed
  qed
qed simp

lemma process_spec:
  assumes "lh_inv (ps_polls s)"
  shows "\<exists>s'. processFinishedPolls s = Some (s', map (poll_Result \<circ> snd) (finished_prefix (open_polls s)))
    \<and> lh_inv (ps_polls s') \<and> open_polls s' = dropWhile (\<lambda>(k, p). poll_Finished p) (open_polls s)
    \<and> ps_numPolls s' = ps_numPolls s - int (length (finished_prefix (open_polls s))) \<and> ps_factory s' = ps_factory s"
proof (cases "lh_entryList (ps_polls s)")
  case Nil
  then show ?thesis using assms
    by (simp add: processFinishedPolls_def NewIterator_def iterator_Next_def list_Front_def lh_abs_def)
next
  case (Cons y ys)
  let ?it = "NewIterator\<lparr>it_initialized := True, it_next := list_Front (lh_entryList (ps_polls s))\<rparr>"
  have "iterator_Next (ps_polls s) NewIterator = iterator_Next (ps_polls s) ?it"
    using Cons by (simp add: iterator_Next_def NewIterator_def list_Front_def)
  then have "processFinishedPolls s = process_loop (Suc (lh_len (ps_polls s))) ?it s []"
    by (simp add: processFinishedPolls_def)
  moreover have "it_before ?it (lh_entryList (ps_polls s))" using Cons by (simp add: it_before_def NewIterator_def)
  moreover have "length (lh_entryList (ps_polls s)) < Suc (lh_len (ps_polls s))"
    using lh_len_eq [OF assms] by (simp add: lh_abs_def)
  ultimately show ?thesis using process_loop_spec [OF assms, of ?it _ "[]"] by (simp only: append_Nil)
qed

text \<open>The events a set of polls sees; the responses of one poll carry its request number.\<close>

datatype set_event = E_Add "32 word" NodeIDBag | E_Vote "32 word" NodeID ID | E_Drop "32 word" NodeID

fun set_step :: "set_event \<Rightarrow> pollSet \<Rightarrow> (pollSet \<times> Bag list) option" where
  "set_step (E_Add r vdrs) s = Some (fst (set_Add r vdrs s), [])"
| "set_step (E_Vote r vdr vote) s = set_Vote r vdr vote s"
| "set_step (E_Drop r vdr) s = set_Drop r vdr s"

fun set_run :: "set_event list \<Rightarrow> pollSet \<Rightarrow> (pollSet \<times> Bag list) option" where
  "set_run [] s = Some (s, [])"
| "set_run (e # es) s = (case set_step e s of None \<Rightarrow> None
     | Some (s, results) \<Rightarrow> map_option (\<lambda>(s', results'). (s', results @ results')) (set_run es s))"

fun event_ok :: "int \<Rightarrow> set_event \<Rightarrow> bool" where
  "event_ok n (E_Add r vdrs) = (nbag_inv vdrs \<and> nLen vdrs \<le> n)"
| "event_ok n _ = True"

text \<open>\<open>set_Vote\<close> and \<open>set_Drop\<close> apply a change to one poll and then hand out what is finished.\<close>

definition respond_with :: "32 word \<Rightarrow> (Poll \<Rightarrow> Poll) \<Rightarrow> pollSet \<Rightarrow> (pollSet \<times> Bag list) option" where
  "respond_with r f s =
     (case lh_get r (ps_polls s) of
        None \<Rightarrow> Some (s, [])
      | Some p \<Rightarrow>
          let s = s\<lparr>ps_polls := lh_modify r f (ps_polls s)\<rparr> in
          if \<not> poll_Finished (f p) then Some (s, []) else processFinishedPolls s)"

lemma set_responses:
  "set_Vote r v x = respond_with r (poll_Vote v x)" "set_Drop r v = respond_with r (poll_Drop v)"
  by (simp_all add: fun_eq_iff set_Vote_def set_Drop_def respond_with_def)

text \<open>The polls after the change, the finished ones among them having left from the front.\<close>

lemma respond_spec:
  fixes r :: "32 word"
  assumes "set_ok n s" "\<And>p. poll_ok poll_Result poll_waiting n p \<Longrightarrow> poll_ok poll_Result poll_waiting n (f p)"
  defines "changed \<equiv> map (\<lambda>(k, p). (k, if k = r then f p else p)) (open_polls s)"
  shows "\<exists>s' res. respond_with r f s = Some (s', res)
    \<and> set_ok n s' \<and> list_all (\<lambda>b. bag_inv b \<and> Len b \<le> n) res
    \<and> (\<exists>gone. changed = gone @ open_polls s' \<and> res = map (poll_Result \<circ> snd) gone)
    \<and> (\<forall>p. lh_get r (ps_polls s) = Some p \<longrightarrow>
         (if poll_Finished (f p) then open_polls s' = [] \<or> \<not> poll_Finished (snd (hd (open_polls s')))
          else open_polls s' = changed))"
proof (cases "lh_get r (ps_polls s)")
  case None
  then have "r \<notin> fst ` set (open_polls s)"
    using assms(1) by (simp add: set_ok_def lh_get_eq map_of_eq_None_iff)
  then have "changed = open_polls s" unfolding changed_def by (force intro: map_idI)
  then show ?thesis using None assms(1) by (simp add: respond_with_def)
next
  case (Some p)
  define s1 where "s1 = s\<lparr>ps_polls := lh_modify r f (ps_polls s)\<rparr>"
  have ok1: "set_ok n s1" unfolding s1_def by (rule set_ok_modify [OF assms(1,2)])
  then have inv: "lh_inv (ps_polls s1)" by (simp add: set_ok_def)
  have ch: "open_polls s1 = changed" by (simp add: s1_def changed_def lh_modify_abs)
  have step: "respond_with r f s = (if \<not> poll_Finished (f p) then Some (s1, []) else processFinishedPolls s1)"
    using Some by (simp add: respond_with_def s1_def)
  show ?thesis
  proof (cases "poll_Finished (f p)")
    case False
    then show ?thesis using ok1 ch Some step by (intro exI [of _ s1] exI [of _ "[]"]) simp
  next
    case True
    obtain s' where s': "processFinishedPolls s1 = Some (s', map (poll_Result \<circ> snd) (finished_prefix (open_polls s1)))"
      "lh_inv (ps_polls s')" "open_polls s' = dropWhile (\<lambda>(k, p). poll_Finished p) (open_polls s1)"
      "ps_numPolls s' = ps_numPolls s1 - int (length (finished_prefix (open_polls s1)))"
      using process_spec [OF inv] by blast
    have split: "open_polls s1 = finished_prefix (open_polls s1) @ open_polls s'" using s'(3) by simp
    have all: "\<forall>(k, p)\<in>set (open_polls s1). poll_ok poll_Result poll_waiting n p" using ok1 by (simp add: set_ok_def)
    have sub: "set (open_polls s1) = set (finished_prefix (open_polls s1)) \<union> set (open_polls s')"
      using arg_cong [OF split, of set] by (simp only: set_append)
    have "\<forall>(k, p)\<in>set (open_polls s'). poll_ok poll_Result poll_waiting n p" using all unfolding sub by blast
    moreover have "ps_numPolls s1 = int (length (open_polls s1))"
      using ok1 by (simp add: set_ok_def set_Len_eq [OF inv])
    then have "ps_numPolls s' = int (set_Len s')"
      using s'(4) arg_cong [OF split, of length] by (simp only: set_Len_eq [OF s'(2)] length_append)
    ultimately have "set_ok n s'" using s'(2) by (simp add: set_ok_def)
    moreover have "\<forall>(k, p)\<in>set (finished_prefix (open_polls s1)). bag_inv (poll_Result p) \<and> Len (poll_Result p) \<le> n"
      using all poll.ok_result unfolding sub by blast
    then have "list_all (\<lambda>b. bag_inv b \<and> Len b \<le> n) (map (poll_Result \<circ> snd) (finished_prefix (open_polls s1)))"
      by (simp only: list_all_iff list.set_map) force
    moreover have "open_polls s' = [] \<or> \<not> poll_Finished (snd (hd (open_polls s')))"
      using s'(3) hd_dropWhile [of "\<lambda>(k, p). poll_Finished p" "open_polls s1"] by (auto simp: split_def)
    ultimately show ?thesis using True Some s'(1) split ch step
      by (intro exI [of _ s'] exI [of _ "map (poll_Result \<circ> snd) (finished_prefix (open_polls s1))"] conjI) auto
  qed
qed

lemma set_step_ok:
  assumes "set_ok n s" "event_ok n e"
  shows "\<exists>s' res. set_step e s = Some (s', res) \<and> set_ok n s' \<and> list_all (\<lambda>b. bag_inv b \<and> Len b \<le> n) res"
proof (cases e)
  case (E_Add r vdrs)
  then show ?thesis using assms set_ok_Add by simp
next
  case (E_Vote r v x)
  show ?thesis using respond_spec [OF assms(1), where f = "poll_Vote v x" and r = r, OF poll.ok_vote] unfolding E_Vote set_step.simps set_responses by blast
next
  case (E_Drop r v)
  show ?thesis using respond_spec [OF assms(1), where f = "poll_Drop v" and r = r, OF poll.ok_drop] unfolding E_Drop set_step.simps set_responses by blast
qed

lemma set_run_ok:
  assumes "set_ok n s" "list_all (event_ok n) es"
  shows "\<exists>s' res. set_run es s = Some (s', res) \<and> set_ok n s' \<and> list_all (\<lambda>b. bag_inv b \<and> Len b \<le> n) res"
  using assms
proof (induction es arbitrary: s)
  case (Cons e es)
  obtain s1 r1 where 1: "set_step e s = Some (s1, r1)" "set_ok n s1" "list_all (\<lambda>b. bag_inv b \<and> Len b \<le> n) r1"
    using set_step_ok Cons.prems by force
  obtain s2 r2 where "set_run es s1 = Some (s2, r2)" "set_ok n s2" "list_all (\<lambda>b. bag_inv b \<and> Len b \<le> n) r2"
    using Cons.IH [OF 1(2)] Cons.prems(2) by auto
  then show ?case using 1 by simp
qed simp

text \<open>
  C35. The results of polls are what consensus expects. Starting from an empty set of polls, whatever
  polls are opened on samples of at most \<open>n\<close> validators and whatever responses arrive, for known or
  unknown requests, from validators that were asked or not, once or repeatedly: the set never fails,
  and every result it hands out is a consistent bag of at most \<open>n\<close> votes.
\<close>

theorem poll_results_bounded:
  assumes "list_all (event_ok n) es"
  shows "\<exists>s' results. set_run es (NewPollSet f) = Some (s', results)
    \<and> ps_numPolls s' = int (set_Len s') \<and> list_all (\<lambda>b. bag_inv b \<and> Len b \<le> n) results"
  using set_run_ok [OF set_ok_New assms, of f] by (auto simp: set_ok_def)

definition example_vdrs :: NodeIDBag where
  "example_vdrs = nAdd emptyNodeIDBag [1, 2, 2]"

lemma example_vdrs_ok: "nbag_inv example_vdrs \<and> nLen example_vdrs = 3"
proof -
  have "counts_ok (nbag_counts example_vdrs)" "nbag_counts example_vdrs = [(1, 1), (2, 2)]" "nbag_size example_vdrs = 3"
    by (simp_all add: example_vdrs_def nAdd_def nAddCount_def emptyNodeIDBag_def mget0_def counts_ok_def)
  then show ?thesis by (simp add: nbag_inv_def nLen_def)
qed

definition example_events :: "set_event list" where
  "example_events = [E_Add 7 example_vdrs, E_Vote 7 2 9]"

theorem poll_results_bounded_witness:
  "\<exists>s' results. set_run example_events (NewPollSet (EarlyTermFactory 2)) = Some (s', results)
     \<and> list_all (\<lambda>b. bag_inv b \<and> Len b \<le> 3) results"
  using poll_results_bounded [of 3 example_events "EarlyTermFactory 2"] example_vdrs_ok by (auto simp: example_events_def)

theorem early_termination_sound_witness:
  "2 \<le> Count (et_Result (fold (poll_respond et_Vote et_Drop) [(1, Some 4)] (et_Vote 2 9 (et_New 2 example_vdrs)))) 9
   \<longleftrightarrow> 2 \<le> Count (et_Result (et_Vote 2 9 (et_New 2 example_vdrs))) 9"
proof -
  let ?p = "et_Vote 2 9 (et_New 2 example_vdrs)"
  have "poll_ok et_Result et_polled 3 (et_New 2 example_vdrs)"
    using example_vdrs_ok by (simp add: poll_ok_def et_New_def et_Result_def Len_eq)
  then have "poll_ok et_Result et_polled 3 ?p" by (rule et_poll.ok_vote)
  moreover have "et_Finished ?p" "et_alpha ?p = 2"
    by code_simp+
  ultimately show ?thesis
    using early_termination_sound [of 3 ?p "[(1, Some 4)]" 9] by simp
qed

section \<open>Every poll ends\<close>

fun targets :: "set_event \<Rightarrow> (32 word \<times> NodeID) option" where
  "targets (E_Vote r v x) = Some (r, v)"
| "targets (E_Drop r v) = Some (r, v)"
| "targets (E_Add r vdrs) = None"

text \<open>Whoever an open poll waits for has a response among the events.\<close>

definition covered :: "set_event list \<Rightarrow> pollSet \<Rightarrow> bool" where
  "covered es s \<longleftrightarrow> (\<forall>(r, p) \<in> set (open_polls s). \<forall>v \<in> set (nList (poll_waiting p)). Some (r, v) \<in> targets ` set es)"

definition someone_waits :: "pollSet \<Rightarrow> bool" where
  "someone_waits s \<longleftrightarrow> open_polls s = [] \<or> (\<exists>(r, p) \<in> set (open_polls s). nLen (poll_waiting p) \<noteq> 0)"

lemma nLen_0_iff: "nbag_inv b \<Longrightarrow> nLen b = 0 \<longleftrightarrow> nList b = []"
proof -
  assume b: "nbag_inv b"
  then have "nLen b = sum_list (map snd (nbag_counts b))" "\<forall>(k, c)\<in>set (nbag_counts b). 0 < c"
    by (auto simp: nbag_inv_def nLen_def size_counts_mset counts_ok_def)
  then have "nbag_counts b \<noteq> [] \<Longrightarrow> 0 < nLen b"
  proof (cases "nbag_counts b")
    case (Cons x xs)
    moreover have "0 \<le> sum_list (map snd xs)" if "\<forall>(k, c)\<in>set xs. 0 < c"
      using that by (intro sum_list_nonneg) auto
    ultimately show ?thesis
      using \<open>nLen b = _\<close> \<open>\<forall>(k, c)\<in>set (nbag_counts b). 0 < c\<close> by (auto intro!: add_pos_nonneg)
  qed simp
  moreover have "nbag_counts b = [] \<Longrightarrow> nLen b = 0" using b by (simp add: nbag_inv_def nLen_def)
  ultimately show ?thesis by (cases "nbag_counts b = []") (auto simp: nList_def)
qed

lemma nList_nRemove: "set (nList (nRemove b v)) = set (nList b) - {v}"
  by (auto simp: nList_def nRemove_def Let_def delete_eq_filter)

lemma covered_step:
  assumes "covered (e # es) s" "targets e = Some (r, v)"
    "\<And>p. set (nList (poll_waiting (f p))) = set (nList (poll_waiting p)) - {v}"
    "map (\<lambda>(k, p). (k, if k = r then f p else p)) (open_polls s) = gone @ open_polls s'"
  shows "covered es s'"
  unfolding covered_def
proof (intro ballI, clarify)
  fix k q w
  assume kq: "(k, q) \<in> set (open_polls s')" and w: "w \<in> set (nList (poll_waiting q))"
  have "(k, q) \<in> set (map (\<lambda>(k, p). (k, if k = r then f p else p)) (open_polls s))"
    unfolding assms(4) using kq by simp
  then obtain p where p: "(k, p) \<in> set (open_polls s)" "q = (if k = r then f p else p)" by auto
  then have "w \<in> set (nList (poll_waiting p))" "k = r \<longrightarrow> w \<noteq> v" using w assms(3) by (auto split: if_splits)
  then have "Some (k, w) \<in> targets ` set (e # es)" "Some (k, w) \<noteq> targets e"
    using assms(1,2) p(1) by (auto simp: covered_def)
  then show "Some (k, w) \<in> targets ` set es" by auto
qed

lemma waits_step:
  assumes "set_ok n s" "set_ok n s'" "\<And>p. poll_waiting (f p) = nRemove (poll_waiting p) v"
    "someone_waits s" "map (\<lambda>(k, p). (k, if k = r then f p else p)) (open_polls s) = gone @ open_polls s'"
    "\<forall>p. lh_get r (ps_polls s) = Some p \<longrightarrow>
         (if poll_Finished (f p) then open_polls s' = [] \<or> \<not> poll_Finished (snd (hd (open_polls s')))
          else open_polls s' = map (\<lambda>(k, p). (k, if k = r then f p else p)) (open_polls s))"
    "lh_get r (ps_polls s) \<noteq> None"
  shows "someone_waits s'"
proof -
  obtain p where p: "lh_get r (ps_polls s) = Some p" using assms(7) by blast
  then have "(r, p) \<in> set (open_polls s)"
    using assms(1) by (auto simp: set_ok_def lh_get_eq dest: map_of_SomeD)
  then have rp: "(r, f p) \<in> set (map (\<lambda>(k, p). (k, if k = r then f p else p)) (open_polls s))" by force
  show ?thesis
  proof (cases "poll_Finished (f p)")
    case True
    then have hd: "open_polls s' = [] \<or> \<not> poll_Finished (snd (hd (open_polls s')))" using assms(6) p by simp
    show ?thesis
    proof (cases "open_polls s'")
      case (Cons x xs)
      then have "nLen (poll_waiting (snd x)) \<noteq> 0" using hd poll.fin_all by auto
      then show ?thesis unfolding someone_waits_def Cons by (auto simp: split_def)
    qed (simp add: someone_waits_def)
  next
    case False
    then have "open_polls s' = map (\<lambda>(k, p). (k, if k = r then f p else p)) (open_polls s)" using assms(6) p by simp
    then have "(r, f p) \<in> set (open_polls s')" "nLen (poll_waiting (f p)) \<noteq> 0"
      using rp False poll.fin_all by auto
    then show ?thesis unfolding someone_waits_def by blast
  qed
qed

lemma respond_event:
  assumes "targets e = Some (r, v)"
  obtains f where "set_step e = respond_with r f" "\<And>p. poll_waiting (f p) = nRemove (poll_waiting p) v"
    "\<And>p. poll_ok poll_Result poll_waiting n p \<Longrightarrow> poll_ok poll_Result poll_waiting n (f p)"
proof (cases e)
  case (E_Vote r' v' x)
  show ?thesis
    by (rule that [of "poll_Vote v x"])
       (use assms E_Vote poll.ok_vote in \<open>auto simp: fun_eq_iff set_responses poll.waiting_vote\<close>)
next
  case (E_Drop r' v')
  show ?thesis
    by (rule that [of "poll_Drop v"])
       (use assms E_Drop poll.ok_drop in \<open>auto simp: fun_eq_iff set_responses poll.waiting_drop\<close>)
qed (use assms in simp)

text \<open>
  C36. Every poll ends. Suppose each open poll waits for validators whose response (a vote or a
  timeout) is among the events to come, in any order, possibly mixed with duplicates and strays.
  Then after these events no poll is open, and each poll has handed out exactly one result.
\<close>

theorem polls_complete:
  assumes "set_ok n s" "someone_waits s" "covered es s" "list_all (\<lambda>e. targets e \<noteq> None) es"
  shows "\<exists>s' results. set_run es s = Some (s', results) \<and> set_Len s' = 0 \<and> length results = set_Len s"
  using assms
proof (induction es arbitrary: s)
  case Nil
  have "nLen (poll_waiting p) = 0" if "(r, p) \<in> set (open_polls s)" for r p
    using that Nil.prems(1,3) nLen_0_iff [of "poll_waiting p"] by (auto simp: covered_def set_ok_def poll_ok_def)
  then have "open_polls s = []" using Nil.prems(2) unfolding someone_waits_def by fastforce
  then show ?case using Nil.prems(1) by (simp add: set_ok_def set_Len_eq)
next
  case (Cons e es)
  obtain r v where t: "targets e = Some (r, v)" using Cons.prems(4) by auto
  obtain f where f: "set_step e = respond_with r f" "\<And>p. poll_waiting (f p) = nRemove (poll_waiting p) v"
    "\<And>p. poll_ok poll_Result poll_waiting n p \<Longrightarrow> poll_ok poll_Result poll_waiting n (f p)"
    using respond_event [OF t] by metis
  obtain s1 res gone where 1: "respond_with r f s = Some (s1, res)" "set_ok n s1"
    "map (\<lambda>(k, p). (k, if k = r then f p else p)) (open_polls s) = gone @ open_polls s1" "res = map (poll_Result \<circ> snd) gone"
    "\<forall>p. lh_get r (ps_polls s) = Some p \<longrightarrow>
         (if poll_Finished (f p) then open_polls s1 = [] \<or> \<not> poll_Finished (snd (hd (open_polls s1)))
          else open_polls s1 = map (\<lambda>(k, p). (k, if k = r then f p else p)) (open_polls s))"
    using respond_spec [OF Cons.prems(1), where f = f and r = r, OF f(3)] by blast
  have w: "someone_waits s1"
  proof (cases "lh_get r (ps_polls s)")
    case None
    then show ?thesis using 1(1) Cons.prems(2) by (simp add: respond_with_def)
  qed (use waits_step [OF Cons.prems(1) 1(2) f(2) Cons.prems(2) 1(3,5)] in simp)
  have c: "covered es s1" by (rule covered_step [OF Cons.prems(3) t _ 1(3)]) (simp add: f(2) nList_nRemove)
  obtain s2 res2 where 2: "set_run es s1 = Some (s2, res2)" "set_Len s2 = 0" "length res2 = set_Len s1"
    using Cons.IH [OF 1(2) w c] Cons.prems(4) by auto
  have "length (gone @ open_polls s1) = length (open_polls s)" unfolding 1(3) [symmetric] by simp
  then have "length (res @ res2) = set_Len s"
    using 1(2,4) 2(3) Cons.prems(1) by (simp add: set_ok_def set_Len_eq)
  then show ?case using 1(1) 2(1,2) f(1) by simp
qed

definition example_open :: pollSet where
  "example_open = fst (set_Add 7 example_vdrs (NewPollSet (EarlyTermFactory 2)))"

theorem polls_complete_witness:
  "\<exists>s' results. set_run [E_Drop 7 1, E_Vote 8 1 3, E_Vote 7 2 9] example_open = Some (s', results)
     \<and> set_Len s' = 0 \<and> length results = 1"
proof -
  have "set_ok 3 example_open" unfolding example_open_def
    by (rule set_ok_Add [OF set_ok_New]) (simp_all add: example_vdrs_ok)
  moreover have "open_polls example_open = [(7, EarlyTerm (et_New 2 example_vdrs))]" "set_Len example_open = 1"
    by (simp_all add: example_open_def set_Add_def NewPollSet_def lh_New_def lh_get_def lh_put_def lh_abs_def
        set_Len_def lh_len_def)
  moreover have "nList example_vdrs = [1, 2]"
    by (simp add: example_vdrs_def nAdd_def nAddCount_def emptyNodeIDBag_def mget0_def nList_def)
  ultimately show ?thesis
    using polls_complete [of 3 example_open "[E_Drop 7 1, E_Vote 8 1 3, E_Vote 7 2 9]"] example_vdrs_ok
    by (simp add: someone_waits_def covered_def et_New_def)
qed

end
