(* ===== verification/Requests.thy ===== *)
theory Requests
  imports Ids
begin

text \<open>
  The outstanding container requests of an engine: \<open>Requests\<close> of
  \<open>src/snow/engine/common/requests.go\<close>. The two nested maps are proved to implement one injective
  partial map from a pair of a validator and a request id to the requested container, under the two
  assumptions the comment of \<open>Add\<close> states.
\<close>

section \<open>Requests\<close>

record req =
  rq_vdr :: NodeID
  rq_id :: "32 word"

record Requests =
  reqsToID :: "(NodeID, (32 word, ID) gomap) gomap"
  idToReq :: "(ID, req) gomap"

definition NewRequests :: Requests where
  "NewRequests = \<lparr>reqsToID = [], idToReq = []\<rparr>"

definition Requests_Add :: "NodeID \<Rightarrow> 32 word \<Rightarrow> ID \<Rightarrow> Requests \<Rightarrow> Requests" where
  "Requests_Add vdr requestID containerID r =
     (let vdrReqs = (case map_of (reqsToID r) vdr of None \<Rightarrow> [] | Some m \<Rightarrow> m);
          r = r\<lparr>reqsToID := AList.update vdr (AList.update requestID containerID vdrReqs) (reqsToID r)\<rparr>
      in r\<lparr>idToReq := AList.update containerID \<lparr>rq_vdr = vdr, rq_id = requestID\<rparr> (idToReq r)\<rparr>)"

definition Requests_Remove :: "NodeID \<Rightarrow> 32 word \<Rightarrow> Requests \<Rightarrow> Requests \<times> ID option" where
  "Requests_Remove vdr requestID r =
     (case map_of (reqsToID r) vdr of
        None \<Rightarrow> (r, None)
      | Some vdrReqs \<Rightarrow>
          (case map_of vdrReqs requestID of
             None \<Rightarrow> (r, None)
           | Some containerID \<Rightarrow>
               let r = (if length vdrReqs = 1 then r\<lparr>reqsToID := AList.delete vdr (reqsToID r)\<rparr>
                        else r\<lparr>reqsToID := AList.update vdr (AList.delete requestID vdrReqs) (reqsToID r)\<rparr>)
               in (r\<lparr>idToReq := AList.delete containerID (idToReq r)\<rparr>, Some containerID)))"

definition Requests_RemoveAny :: "ID \<Rightarrow> Requests \<Rightarrow> Requests \<times> bool" where
  "Requests_RemoveAny containerID r =
     (case map_of (idToReq r) containerID of
        None \<Rightarrow> (r, False)
      | Some q \<Rightarrow> (fst (Requests_Remove (rq_vdr q) (rq_id q) r), True))"

definition Requests_Len :: "Requests \<Rightarrow> nat" where
  "Requests_Len r = length (idToReq r)"

definition Requests_Contains :: "ID \<Rightarrow> Requests \<Rightarrow> bool" where
  "Requests_Contains containerID r = (map_of (idToReq r) containerID \<noteq> None)"

section \<open>The map they implement\<close>

definition rq_abs :: "Requests \<Rightarrow> NodeID \<times> 32 word \<Rightarrow> ID option" where
  "rq_abs r = (\<lambda>(v, i). case map_of (reqsToID r) v of None \<Rightarrow> None | Some m \<Rightarrow> map_of m i)"

definition rq_inv :: "Requests \<Rightarrow> bool" where
  "rq_inv r \<longleftrightarrow> distinct (map fst (idToReq r)) \<and>
     (\<forall>v m. map_of (reqsToID r) v = Some m \<longrightarrow> distinct (map fst m) \<and> m \<noteq> []) \<and>
     (\<forall>c q. map_of (idToReq r) c = Some q \<longleftrightarrow> rq_abs r (rq_vdr q, rq_id q) = Some c)"

lemma rq_New [simp]: "rq_inv NewRequests" "rq_abs NewRequests = Map.empty"
  by (auto simp: rq_inv_def rq_abs_def NewRequests_def)

lemma rq_key: "rq_abs r k = Some c \<Longrightarrow> rq_inv r \<Longrightarrow> map_of (idToReq r) c = Some \<lparr>rq_vdr = fst k, rq_id = snd k\<rparr>"
  by (simp add: rq_inv_def)

lemma rq_inj: "rq_inv r \<Longrightarrow> inj_on (rq_abs r) (dom (rq_abs r))"
proof (rule inj_onI)
  fix k l assume "rq_inv r" and kl: "k \<in> dom (rq_abs r)" "l \<in> dom (rq_abs r)" "rq_abs r k = rq_abs r l"
  then obtain c where "rq_abs r k = Some c" "rq_abs r l = Some c" by auto
  from this [THEN rq_key, OF \<open>rq_inv r\<close>] show "k = l" by (simp add: prod_eq_iff)
qed

lemma rq_ran: "rq_inv r \<Longrightarrow> c \<in> ran (rq_abs r) \<longleftrightarrow> map_of (idToReq r) c \<noteq> None"
  by (auto simp: ran_def dest: rq_key) (auto simp: rq_inv_def)

lemma Requests_Add_abs: "rq_abs (Requests_Add v i c r) = (rq_abs r)((v, i) \<mapsto> c)"
  by (auto simp: fun_eq_iff rq_abs_def Requests_Add_def Let_def update_conv' split: option.splits)

lemma Requests_Add_inv:
  assumes "rq_inv r" and fresh: "rq_abs r (v, i) = None" and new: "c \<notin> ran (rq_abs r)"
  shows "rq_inv (Requests_Add v i c r)"
proof -
  have "map_of (idToReq (Requests_Add v i c r)) d = Some q \<longleftrightarrow>
      rq_abs (Requests_Add v i c r) (rq_vdr q, rq_id q) = Some d" for d q
  proof (cases "(rq_vdr q, rq_id q) = (v, i)")
    case True
    then have q: "q = \<lparr>rq_vdr = v, rq_id = i\<rparr>" by simp
    then have "map_of (idToReq r) d \<noteq> Some q" using fresh assms(1) by (simp add: rq_inv_def)
    then show ?thesis unfolding Requests_Add_abs by (auto simp: q Requests_Add_def Let_def update_conv')
  next
    case False
    then have "rq_abs (Requests_Add v i c r) (rq_vdr q, rq_id q) = rq_abs r (rq_vdr q, rq_id q)"
      unfolding Requests_Add_abs by (metis fun_upd_other)
    moreover have "rq_abs r (rq_vdr q, rq_id q) \<noteq> Some c" using new by (auto simp: ran_def)
    moreover have "q \<noteq> \<lparr>rq_vdr = v, rq_id = i\<rparr>" using False by auto
    ultimately show ?thesis using assms(1) by (auto simp: rq_inv_def Requests_Add_def Let_def update_conv')
  qed
  moreover have "distinct (map fst (idToReq (Requests_Add v i c r)))"
    using assms(1) by (simp add: rq_inv_def Requests_Add_def Let_def distinct_update)
  moreover have "distinct (map fst m) \<and> m \<noteq> []" if "map_of (reqsToID (Requests_Add v i c r)) w = Some m" for w m
    using that assms(1)
    by (auto simp: rq_inv_def Requests_Add_def Let_def update_conv' distinct_update update_nonempty
        split: if_splits option.splits)
  ultimately show ?thesis by (simp add: rq_inv_def)
qed

lemma Requests_Remove_none: "rq_abs r (v, i) = None \<Longrightarrow> Requests_Remove v i r = (r, None)"
  by (auto simp: rq_abs_def Requests_Remove_def split: option.splits)

lemma singleton_lookup: "length m = 1 \<Longrightarrow> map_of m i = Some c \<Longrightarrow> m = [(i, c)]"
  by (cases m) (auto split: if_splits)

lemma Requests_Remove_some:
  assumes inv: "rq_inv r" and c: "rq_abs r (v, i) = Some c"
  shows "snd (Requests_Remove v i r) = Some c" and "rq_abs (fst (Requests_Remove v i r)) = (rq_abs r)((v, i) := None)"
    and "idToReq (fst (Requests_Remove v i r)) = AList.delete c (idToReq r)"
    and "rq_inv (fst (Requests_Remove v i r))"
proof -
  obtain m where m: "map_of (reqsToID r) v = Some m" "map_of m i = Some c"
    using c by (auto simp: rq_abs_def split: option.splits)
  let ?r = "fst (Requests_Remove v i r)"
  have r: "reqsToID ?r = (if length m = 1 then AList.delete v (reqsToID r)
      else AList.update v (AList.delete i m) (reqsToID r))" "idToReq ?r = AList.delete c (idToReq r)"
    "snd (Requests_Remove v i r) = Some c"
    by (simp_all add: Requests_Remove_def m Let_def)
  have one: "m = [(i, c)]" if "length m = 1" using singleton_lookup [OF that m(2)] .
  have abs: "rq_abs ?r = (rq_abs r)((v, i) := None)"
  proof
    fix k show "rq_abs ?r k = ((rq_abs r)((v, i) := None)) k"
      using one m(1) by (cases k) (auto simp: rq_abs_def r update_conv' delete_conv')
  qed
  from r(2,3) abs show "snd (Requests_Remove v i r) = Some c" "rq_abs ?r = (rq_abs r)((v, i) := None)"
    "idToReq ?r = AList.delete c (idToReq r)" by simp_all
  have "map_of (idToReq ?r) d = Some q \<longleftrightarrow> rq_abs ?r (rq_vdr q, rq_id q) = Some d" for d q
  proof -
    have "map_of (idToReq r) d = Some q \<longleftrightarrow> rq_abs r (rq_vdr q, rq_id q) = Some d"
      using inv by (simp add: rq_inv_def)
    moreover have "rq_abs r (rq_vdr q, rq_id q) = Some c \<longleftrightarrow> (rq_vdr q, rq_id q) = (v, i)"
      using rq_key [OF c inv] rq_key [OF _ inv, of "(rq_vdr q, rq_id q)" c] c by auto
    ultimately show ?thesis by (auto simp: r(2) abs delete_conv' c)
  qed
  moreover have "distinct (map fst (idToReq ?r))" using inv by (simp add: rq_inv_def r(2) distinct_delete)
  moreover have "distinct (map fst k) \<and> k \<noteq> []" if k: "map_of (reqsToID ?r) w = Some k" for w k
  proof (cases "w = v")
    case False
    then show ?thesis using k inv by (auto simp: rq_inv_def r(1) update_conv' delete_conv' split: if_splits)
  next
    case True
    then have k: "length m \<noteq> 1" "k = AList.delete i m" using k by (auto simp: r(1) update_conv' delete_conv' split: if_splits)
    have dm: "distinct (map fst m)" using inv m(1) by (auto simp: rq_inv_def)
    have "k \<noteq> []"
    proof
      assume "k = []"
      then have "fst ` set m \<subseteq> {i}" by (auto simp: k(2) delete_eq_filter filter_empty_conv)
      then have "card (fst ` set m) \<le> 1" using card_mono [of "{i}"] by simp
      then show False using dm k(1) m(2) by (cases m) (auto simp: distinct_card distinct_map card_image)
    qed
    with dm show ?thesis by (simp add: k(2) distinct_delete)
  qed
  ultimately show "rq_inv ?r" by (simp add: rq_inv_def)
qed

lemma Requests_RemoveAny_spec:
  assumes "rq_inv r"
  shows "rq_inv (fst (Requests_RemoveAny c r))"
    and "rq_abs (fst (Requests_RemoveAny c r)) = (\<lambda>k. if rq_abs r k = Some c then None else rq_abs r k)"
    and "snd (Requests_RemoveAny c r) \<longleftrightarrow> c \<in> ran (rq_abs r)"
proof -
  have "rq_inv (fst (Requests_RemoveAny c r)) \<and>
      rq_abs (fst (Requests_RemoveAny c r)) = (\<lambda>k. if rq_abs r k = Some c then None else rq_abs r k) \<and>
      (snd (Requests_RemoveAny c r) \<longleftrightarrow> c \<in> ran (rq_abs r))"
  proof (cases "map_of (idToReq r) c")
    case None
    then have "rq_abs r k \<noteq> Some c" for k using rq_key [OF _ assms] by fastforce
    then show ?thesis using assms None rq_ran [OF assms] by (simp add: Requests_RemoveAny_def)
  next
    case (Some q)
    then have q: "rq_abs r (rq_vdr q, rq_id q) = Some c" using assms by (simp add: rq_inv_def)
    have "rq_abs r k = Some c \<longleftrightarrow> k = (rq_vdr q, rq_id q)" for k
      using q rq_key [OF _ assms, of k c] Some by (cases k) auto
    then show ?thesis
      using Requests_Remove_some [OF assms q] rq_ran [OF assms] Some
      by (auto simp: Requests_RemoveAny_def fun_eq_iff)
  qed
  then show "rq_inv (fst (Requests_RemoveAny c r))"
    "rq_abs (fst (Requests_RemoveAny c r)) = (\<lambda>k. if rq_abs r k = Some c then None else rq_abs r k)"
    "snd (Requests_RemoveAny c r) \<longleftrightarrow> c \<in> ran (rq_abs r)" by blast+
qed

lemma Requests_Len_eq: "rq_inv r \<Longrightarrow> Requests_Len r = card (dom (rq_abs r))"
proof -
  assume inv: "rq_inv r"
  have "card (dom (rq_abs r)) = card (rq_abs r ` dom (rq_abs r))" by (rule card_image [OF rq_inj [OF inv], symmetric])
  also have "rq_abs r ` dom (rq_abs r) = Some ` fst ` set (idToReq r)"
  proof -
    have "rq_abs r ` dom (rq_abs r) = Some ` ran (rq_abs r)" by (force simp: ran_def image_iff dom_def)
    moreover have "ran (rq_abs r) = fst ` set (idToReq r)" using rq_ran [OF inv] by (auto simp: map_of_eq_None_iff)
    ultimately show ?thesis by simp
  qed
  also have "card \<dots> = card (fst ` set (idToReq r))" by (simp add: card_image)
  also have "\<dots> = length (idToReq r)"
    using inv distinct_card [of "map fst (idToReq r)"] by (simp add: rq_inv_def)
  finally show ?thesis by (simp add: Requests_Len_def)
qed

text \<open>
  C37. The request table implements an injective partial map from a validator and a request id to the
  requested container: starting from any table that does, adding a request whose id is unused by the
  validator and whose container is not outstanding, removing a request by its id, removing the
  request of a container, counting and membership are the operations of that map, and they keep the
  two internal maps inverse to each other.
\<close>

theorem requests_refine:
  assumes "rq_inv r"
  shows "(rq_abs r (v, i) = None \<and> c \<notin> ran (rq_abs r) \<longrightarrow>
           rq_inv (Requests_Add v i c r) \<and> rq_abs (Requests_Add v i c r) = (rq_abs r)((v, i) \<mapsto> c)) \<and>
    (snd (Requests_Remove v i r) = rq_abs r (v, i) \<and> rq_inv (fst (Requests_Remove v i r)) \<and>
           rq_abs (fst (Requests_Remove v i r)) = (rq_abs r)((v, i) := None)) \<and>
    (snd (Requests_RemoveAny c r) = (c \<in> ran (rq_abs r)) \<and> rq_inv (fst (Requests_RemoveAny c r)) \<and>
           rq_abs (fst (Requests_RemoveAny c r)) = (\<lambda>k. if rq_abs r k = Some c then None else rq_abs r k)) \<and>
    (Requests_Contains c r = (c \<in> ran (rq_abs r)) \<and> Requests_Len r = card (dom (rq_abs r)))"
proof (intro conjI impI)
  show "snd (Requests_Remove v i r) = rq_abs r (v, i)" "rq_inv (fst (Requests_Remove v i r))"
      "rq_abs (fst (Requests_Remove v i r)) = (rq_abs r)((v, i) := None)"
    using Requests_Remove_none [of r v i] Requests_Remove_some [OF assms, of v i] assms
    by (cases "rq_abs r (v, i)", simp_all add: fun_eq_iff)+
qed (use Requests_Add_inv [OF assms] Requests_Add_abs Requests_RemoveAny_spec [OF assms] rq_ran [OF assms]
      Requests_Len_eq [OF assms] in \<open>simp_all add: Requests_Contains_def\<close>)

theorem requests_refine_witness:
  "rq_abs (fst (Requests_Remove 1 7 (Requests_Add 1 8 31 (Requests_Add 1 7 30 NewRequests)))) = [(1, 8) \<mapsto> 31]"
proof -
  have 1: "rq_inv (Requests_Add 1 7 30 NewRequests)" "rq_abs (Requests_Add 1 7 30 NewRequests) = [(1, 7) \<mapsto> 30]"
    using requests_refine [of NewRequests 1 7 30] by simp_all
  then have 2: "rq_inv (Requests_Add 1 8 31 (Requests_Add 1 7 30 NewRequests))"
      "rq_abs (Requests_Add 1 8 31 (Requests_Add 1 7 30 NewRequests)) = [(1, 7) \<mapsto> 30, (1, 8) \<mapsto> 31]"
    using requests_refine [OF 1(1), of 1 8 31] by simp_all
  then show ?thesis using requests_refine [OF 2(1), of 1 7 30] by (simp add: fun_eq_iff)
qed

end
