(* ===== verification/AncestorTree.thy ===== *)
theory AncestorTree
  imports Ids Forest "HOL-Library.Multiset"
begin

text \<open>
  The tree of blocks that failed verification: \<open>ancestorTree\<close> of
  \<open>src/snow/engine/snowman/ancestor_tree.go\<close>. It is proved to implement a parent map; the engine uses
  it through the laws of the locale \<open>parent_tree\<close>.

  An \<open>ids.Set\<close> of children is the list of its elements. The order in which \<open>range\<close> visits it is the
  argument \<open>rng\<close> of \<open>RemoveSubtree\<close>. The loops take fuel; \<open>None\<close> is running out of it.
\<close>

section \<open>ancestorTree\<close>

record ancestorTree =
  childToParent :: "(ID, ID) gomap"
  parentToChildren :: "(ID, ID list) gomap"

definition NewAncestorTree :: ancestorTree where
  "NewAncestorTree = \<lparr>childToParent = [], parentToChildren = []\<rparr>"

definition at_children :: "ancestorTree \<Rightarrow> ID \<Rightarrow> ID list" where
  "at_children p parentID = (case map_of (parentToChildren p) parentID of None \<Rightarrow> [] | Some s \<Rightarrow> s)"

definition at_Add :: "ID \<Rightarrow> ID \<Rightarrow> ancestorTree \<Rightarrow> ancestorTree" where
  "at_Add blkID parentID p =
     (let p = p\<lparr>childToParent := AList.update blkID parentID (childToParent p)\<rparr>;
          children = List.insert blkID (at_children p parentID)
      in p\<lparr>parentToChildren := AList.update parentID children (parentToChildren p)\<rparr>)"

fun at_root_loop :: "nat \<Rightarrow> ancestorTree \<Rightarrow> ID \<Rightarrow> ID option" where
  "at_root_loop 0 p blkID = None"
| "at_root_loop (Suc fuel) p blkID =
     (case map_of (childToParent p) blkID of None \<Rightarrow> Some blkID | Some parentID \<Rightarrow> at_root_loop fuel p parentID)"

definition at_GetRoot :: "ancestorTree \<Rightarrow> ID \<Rightarrow> ID option" where
  "at_GetRoot p blkID = at_root_loop (Suc (length (childToParent p))) p blkID"

definition at_Has :: "ancestorTree \<Rightarrow> ID \<Rightarrow> bool" where
  "at_Has p blkID = (map_of (childToParent p) blkID \<noteq> None)"

definition at_Remove :: "ID \<Rightarrow> ancestorTree \<Rightarrow> ancestorTree" where
  "at_Remove blkID p =
     (case map_of (childToParent p) blkID of
        None \<Rightarrow> p
      | Some parent \<Rightarrow>
          let p = p\<lparr>childToParent := AList.delete blkID (childToParent p)\<rparr>;
              children = removeAll blkID (at_children p parent)
          in if children = [] then p\<lparr>parentToChildren := AList.delete parent (parentToChildren p)\<rparr>
             else p\<lparr>parentToChildren := AList.update parent children (parentToChildren p)\<rparr>)"

definition at_Len :: "ancestorTree \<Rightarrow> nat" where
  "at_Len p = length (childToParent p)"

fun at_subtree_loop :: "nat \<Rightarrow> (ID list \<Rightarrow> ID list) \<Rightarrow> ID list \<Rightarrow> ancestorTree \<Rightarrow> ancestorTree option" where
  "at_subtree_loop fuel rng [] p = Some p"
| "at_subtree_loop 0 rng childrenList p = None"
| "at_subtree_loop (Suc fuel) rng childrenList p =
     (let childID = last childrenList;
          childrenList = butlast childrenList;
          p = at_Remove childID p
      in at_subtree_loop fuel rng (childrenList @ rng (at_children p childID)) p)"

definition at_RemoveSubtree :: "(ID list \<Rightarrow> ID list) \<Rightarrow> ID \<Rightarrow> ancestorTree \<Rightarrow> ancestorTree option" where
  "at_RemoveSubtree rng blkID p = at_subtree_loop (length (childToParent p) + 2) rng [blkID] p"

section \<open>The parent map\<close>

definition at_par :: "ancestorTree \<Rightarrow> ID \<Rightarrow> ID option" where
  "at_par p = map_of (childToParent p)"

definition at_inv :: "ancestorTree \<Rightarrow> bool" where
  "at_inv p \<longleftrightarrow> distinct (map fst (childToParent p)) \<and>
     (\<forall>i. distinct (at_children p i) \<and> set (at_children p i) = {c. at_par p c = Some i})"

definition acyclic_par :: "('a \<Rightarrow> 'a option) \<Rightarrow> bool" where
  "acyclic_par par \<longleftrightarrow> (\<exists>rank. forest par rank)"

definition perm_ok :: "('a list \<Rightarrow> 'a list) \<Rightarrow> bool" where
  "perm_ok rng \<longleftrightarrow> (\<forall>xs. mset (rng xs) = mset xs)"

lemma at_New [simp]: "at_inv NewAncestorTree" "at_par NewAncestorTree = Map.empty"
  by (auto simp: at_inv_def at_par_def at_children_def NewAncestorTree_def)

lemma at_Has_eq: "at_Has p i \<longleftrightarrow> i \<in> dom (at_par p)"
  by (auto simp: at_Has_def at_par_def)

lemma finite_at_par [simp]: "finite (dom (at_par p))"
  by (simp add: at_par_def finite_dom_map_of)

lemma at_Len_eq: "at_inv p \<Longrightarrow> at_Len p = card (dom (at_par p))"
  by (simp add: at_inv_def at_Len_def at_par_def dom_map_of_conv_image_fst distinct_card flip: set_map)

lemma at_children_upd [simp]:
  "at_children (p\<lparr>childToParent := m\<rparr>) i = at_children p i"
  "at_children (p\<lparr>parentToChildren := AList.update k s c\<rparr>) i =
     (if i = k then s else at_children (p\<lparr>parentToChildren := c\<rparr>) i)"
  "at_children (p\<lparr>parentToChildren := AList.delete k c\<rparr>) i =
     (if i = k then [] else at_children (p\<lparr>parentToChildren := c\<rparr>) i)"
  by (simp_all add: at_children_def update_conv' delete_conv')

lemma at_par_upd [simp]:
  "at_par (p\<lparr>childToParent := AList.update k v m\<rparr>) = (map_of m)(k \<mapsto> v)"
  "at_par (p\<lparr>childToParent := AList.delete k m\<rparr>) = (map_of m)(k := None)"
  "at_par (p\<lparr>parentToChildren := c\<rparr>) = at_par p"
  by (simp_all add: at_par_def update_conv' delete_conv')

text \<open>A block is added again only under the same parent: its id determines the parent.\<close>

lemma at_Add_spec:
  assumes "at_inv p" and "at_par p i = None \<or> at_par p i = Some q"
  shows "at_inv (at_Add i q p)" "at_par (at_Add i q p) = (at_par p)(i \<mapsto> q)"
proof -
  show par: "at_par (at_Add i q p) = (at_par p)(i \<mapsto> q)"
    by (simp add: at_Add_def Let_def) (simp add: at_par_def)
  have "at_children (at_Add i q p) j = (if j = q then List.insert i (at_children p q) else at_children p j)" for j
    by (simp add: at_Add_def Let_def)
  then show "at_inv (at_Add i q p)"
    unfolding at_inv_def par using assms
    by (auto simp: at_inv_def at_Add_def Let_def distinct_update)
qed

lemma at_Remove_spec:
  assumes "at_inv p"
  shows "at_inv (at_Remove i p)" "at_par (at_Remove i p) = (at_par p)(i := None)"
    "length (childToParent (at_Remove i p)) = length (childToParent p) - (if i \<in> dom (at_par p) then 1 else 0)"
proof -
  have dist: "distinct (map fst (childToParent p))"
    and ch: "distinct (at_children p j)" "set (at_children p j) = {c. at_par p c = Some j}" for j
    using assms by (auto simp: at_inv_def)
  have "at_inv (at_Remove i p) \<and> at_par (at_Remove i p) = (at_par p)(i := None) \<and>
    length (childToParent (at_Remove i p)) = length (childToParent p) - (if i \<in> dom (at_par p) then 1 else 0)"
  proof (cases "map_of (childToParent p) i")
    case None
    then show ?thesis using assms by (auto simp: at_Remove_def at_par_def fun_eq_iff)
  next
    case (Some q)
    let ?p = "at_Remove i p"
    have par: "at_par ?p = (at_par p)(i := None)"
      using Some by (simp add: at_Remove_def Let_def) (simp add: at_par_def)
    have c: "childToParent ?p = AList.delete i (childToParent p)"
      using Some by (simp add: at_Remove_def Let_def)
    have "at_children ?p j = (if j = q then removeAll i (at_children p q) else at_children p j)" for j
      using Some by (simp add: at_Remove_def Let_def)
    moreover have "at_par p i = Some q" using Some by (simp add: at_par_def)
    ultimately have "distinct (at_children ?p j) \<and> set (at_children ?p j) = {c. at_par ?p c = Some j}" for j
      unfolding par using ch [of j] by (auto simp: distinct_removeAll)
    then have "at_inv ?p" using dist by (simp add: at_inv_def c distinct_delete)
    moreover have "length (childToParent ?p) = length (childToParent p) - 1"
    proof -
      have "length (childToParent ?p) = card (set (map fst (AList.delete i (childToParent p))))"
        unfolding distinct_card [OF distinct_delete [OF dist]] by (simp add: c)
      also have "\<dots> = card (fst ` set (childToParent p) - {i})" by (simp add: delete_keys)
      also have "\<dots> = card (fst ` set (childToParent p)) - 1"
        using Some by (intro card_Diff_singleton) (force dest: map_of_SomeD)
      finally show ?thesis using distinct_card [OF dist] by simp
    qed
    ultimately show ?thesis using par Some by (auto simp: at_par_def)
  qed
  then show "at_inv (at_Remove i p)" "at_par (at_Remove i p) = (at_par p)(i := None)"
    "length (childToParent (at_Remove i p)) = length (childToParent p) - (if i \<in> dom (at_par p) then 1 else 0)" by blast+
qed

text \<open>Dropping a node \<open>c\<close> and continuing with its children.\<close>

lemma below_drop:
  "(\<Union>x\<in>insert c S. below par x) = insert c (\<Union>x\<in>S \<union> {d. (par(c := None)) d = Some c}. below (par(c := None)) x)"
  (is "?L = ?R")
proof
  show "?L \<subseteq> ?R"
  proof
    fix i assume "i \<in> ?L"
    then obtain x where "(i, x) \<in> (up par)\<^sup>*" and x: "x \<in> insert c S" by (auto simp: below_def)
    from this(1) show "i \<in> ?R"
    proof (induction rule: converse_rtrancl_induct)
      case base
      then show ?case using x by auto
    next
      case (step i j)
      then have ij: "par i = Some j" by (simp add: up_def)
      consider "i = c" | "i \<noteq> c" "j = c" | y where "i \<noteq> c" "y \<in> S \<union> {d. (par(c := None)) d = Some c}" "j \<in> below (par(c := None)) y"
        using step.IH by blast
      then show ?case
      proof cases
        case 3
        moreover have "i \<in> below (par(c := None)) j" using ij 3(1) by (intro below_parent) simp
        ultimately have "i \<in> below (par(c := None)) y" by (blast intro: below_trans)
        with 3(2) show ?thesis by blast
      qed (use ij in auto)
    qed
  qed
  have mono: "below (par(c := None)) x \<subseteq> below par x" for x
    by (rule below_mono) (simp split: if_splits)
  have "below (par(c := None)) d \<subseteq> below par c" if "(par(c := None)) d = Some c" for d
  proof -
    have "d \<in> below par c" using that by (intro below_parent) (simp split: if_splits)
    then show ?thesis using mono [of d] below_trans by fast
  qed
  then show "?R \<subseteq> ?L" using mono by blast
qed

lemma perm_ok_set: "perm_ok rng \<Longrightarrow> set (rng xs) = set xs" "perm_ok rng \<Longrightarrow> distinct (rng xs) \<longleftrightarrow> distinct xs"
  unfolding perm_ok_def by (metis mset_eq_setD, metis mset_eq_imp_distinct_iff)

lemma at_subtree_loop_spec:
  assumes "perm_ok rng" "at_inv p" "distinct xs" "set xs \<subseteq> dom (at_par p)"
    and "\<And>x q. x \<in> set xs \<Longrightarrow> at_par p x = Some q \<Longrightarrow> q \<notin> dom (at_par p)"
    and "length (childToParent p) \<le> fuel"
  shows "\<exists>p'. at_subtree_loop fuel rng xs p = Some p' \<and> at_inv p' \<and>
    at_par p' = at_par p |` (- (\<Union>x\<in>set xs. below (at_par p) x))"
  using assms
proof (induction fuel arbitrary: xs p)
  case 0
  then have "xs = []" by (auto simp: at_par_def)
  then show ?case using 0 by simp
next
  case (Suc fuel)
  show ?case
  proof (cases xs rule: rev_cases)
    case (snoc ys c)
    define p1 where "p1 = at_Remove c p"
    note R = at_Remove_spec [OF Suc.prems(2), of c, folded p1_def]
    have c: "c \<in> dom (at_par p)" "c \<notin> set ys" using Suc.prems(3,4) snoc by auto
    have ch: "set (rng (at_children p1 c)) = {d. at_par p1 d = Some c}" "distinct (rng (at_children p1 c))"
      using R(1) perm_ok_set [OF Suc.prems(1)] by (simp_all add: at_inv_def)
    have ys: "at_par p x \<noteq> Some c" if "x \<in> set ys" for x using Suc.prems(5) [of x c] that c(1) snoc by auto
    let ?xs = "ys @ rng (at_children p1 c)"
    have "\<exists>p'. at_subtree_loop fuel rng ?xs p1 = Some p' \<and> at_inv p' \<and>
        at_par p' = at_par p1 |` (- (\<Union>x\<in>set ?xs. below (at_par p1) x))"
    proof (rule Suc.IH [OF Suc.prems(1) R(1)])
      show "distinct ?xs" using Suc.prems(3) snoc ch ys by (auto simp: R(2))
      show "set ?xs \<subseteq> dom (at_par p1)" using Suc.prems(4) snoc ch(1) c(2) by (auto simp: R(2))
      show "q \<notin> dom (at_par p1)" if "x \<in> set ?xs" "at_par p1 x = Some q" for x q
        using that ch(1) Suc.prems(5) [of x q] snoc by (auto simp: R(2) split: if_splits)
      show "length (childToParent p1) \<le> fuel" using R(3) c(1) Suc.prems(6) by simp
    qed
    moreover have "at_subtree_loop (Suc fuel) rng xs p = at_subtree_loop fuel rng ?xs p1"
      unfolding snoc by (cases ys) (simp_all add: Let_def p1_def)
    moreover have "at_par p1 |` (- (\<Union>x\<in>set ?xs. below (at_par p1) x)) =
        at_par p |` (- (\<Union>x\<in>set xs. below (at_par p) x))"
    proof -
      have "(\<Union>x\<in>set xs. below (at_par p) x) = insert c (\<Union>x\<in>set ?xs. below (at_par p1) x)"
        using below_drop [of "at_par p" c "set ys"] snoc ch(1) by (simp add: R(2))
      then show ?thesis by (auto simp: R(2) restrict_map_def fun_eq_iff)
    qed
    ultimately show ?thesis by simp
  qed (use Suc.prems(2) in simp)
qed

lemma at_RemoveSubtree_spec:
  assumes "perm_ok rng" "at_inv p"
  shows "\<exists>p'. at_RemoveSubtree rng i p = Some p' \<and> at_inv p' \<and> at_par p' = at_par p |` (- below (at_par p) i)"
proof -
  define p1 where "p1 = at_Remove i p"
  note R = at_Remove_spec [OF assms(2), of i, folded p1_def]
  let ?xs = "rng (at_children p1 i)"
  have ch: "set ?xs = {d. at_par p1 d = Some i}" "distinct ?xs"
    using R(1) perm_ok_set [OF assms(1)] by (simp_all add: at_inv_def)
  have "\<exists>p'. at_subtree_loop (Suc (length (childToParent p))) rng ?xs p1 = Some p' \<and> at_inv p' \<and>
      at_par p' = at_par p1 |` (- (\<Union>x\<in>set ?xs. below (at_par p1) x))"
    using ch(1) R(3) by (intro at_subtree_loop_spec [OF assms(1) R(1) ch(2)]) (auto simp: R(2) split: if_splits)
  moreover have "below (at_par p) i = insert i (\<Union>x\<in>set ?xs. below (at_par p1) x)"
    using below_drop [of "at_par p" i "{}"] ch(1) by (simp add: R(2))
  ultimately show ?thesis
    by (auto simp: at_RemoveSubtree_def Let_def p1_def [symmetric] R(2) restrict_map_def fun_eq_iff)
qed

lemma at_root_loop_spec:
  assumes "forest (at_par p) rank" and "card {j \<in> dom (at_par p). i \<in> below (at_par p) j} < fuel"
  shows "\<exists>r. at_root_loop fuel p i = Some r \<and> at_par p r = None \<and> i \<in> below (at_par p) r"
  using assms(2)
proof (induction fuel arbitrary: i)
  case (Suc fuel)
  let ?par = "at_par p"
  let ?A = "\<lambda>i. {j \<in> dom ?par. i \<in> below ?par j}"
  show ?case
  proof (cases "?par i")
    case (Some q)
    have "q \<noteq> i" using forestD [OF assms(1) Some] by auto
    have "?A i = insert i (?A q)" using Some by (auto simp: below_sbelow [of i] sbelow_up [of i])
    moreover have "i \<notin> ?A q" using sbelow_irrefl [OF assms(1), of i] sbelow_up [of i ?par i] Some by auto
    ultimately have "card (?A i) = Suc (card (?A q))" by simp
    then obtain r where "at_root_loop fuel p q = Some r" "?par r = None" "q \<in> below ?par r"
      using Suc.IH [of q] Suc.prems by auto
    moreover have "i \<in> below ?par q" by (rule below_parent [of ?par, OF Some])
    ultimately show ?thesis using Some by (auto simp: at_par_def intro: below_trans)
  qed (simp add: at_par_def)
qed simp

lemma at_GetRoot_spec:
  assumes "acyclic_par (at_par p)"
  shows "\<exists>r. at_GetRoot p i = Some r \<and> at_par p r = None \<and> i \<in> below (at_par p) r"
proof -
  obtain rank where f: "forest (at_par p) rank" using assms by (auto simp: acyclic_par_def)
  have "card {j \<in> dom (at_par p). i \<in> below (at_par p) j} \<le> card (dom (at_par p))" by (rule card_mono) auto
  also have "\<dots> \<le> length (childToParent p)"
    unfolding at_par_def dom_map_of_conv_image_fst set_map [symmetric] by (metis card_length length_map)
  finally show ?thesis unfolding at_GetRoot_def by (intro at_root_loop_spec [OF f]) simp
qed

section \<open>The tree as the engine uses it\<close>

text \<open>
  The engine keeps in the tree blocks whose branch ends in a set \<open>A\<close> of blocks, the ones consensus
  knows. A tree is anchored in \<open>A\<close> when it is acyclic, has no block of \<open>A\<close> as an inner node, and every
  parent it names is in the tree or in \<open>A\<close>.
\<close>

definition anchored_par :: "'a set \<Rightarrow> ('a \<Rightarrow> 'a option) \<Rightarrow> bool" where
  "anchored_par A par \<longleftrightarrow> acyclic_par par \<and> dom par \<inter> A = {} \<and> ran par \<subseteq> dom par \<union> A"

locale parent_tree =
  fixes inv :: "'t \<Rightarrow> bool" and par :: "'t \<Rightarrow> 'i \<Rightarrow> 'i option"
    and add :: "'i \<Rightarrow> 'i \<Rightarrow> 't \<Rightarrow> 't" and has :: "'t \<Rightarrow> 'i \<Rightarrow> bool" and rem :: "'i \<Rightarrow> 't \<Rightarrow> 't"
    and root :: "'t \<Rightarrow> 'i \<Rightarrow> 'i option" and cut :: "('i list \<Rightarrow> 'i list) \<Rightarrow> 'i \<Rightarrow> 't \<Rightarrow> 't option"
  assumes inv_add: "inv t \<Longrightarrow> par t i = None \<or> par t i = Some p \<Longrightarrow> inv (add i p t) \<and> par (add i p t) = (par t)(i \<mapsto> p)"
    and has_eq: "has t i \<longleftrightarrow> i \<in> dom (par t)"
    and inv_rem: "inv t \<Longrightarrow> inv (rem i t) \<and> par (rem i t) = (par t)(i := None)"
    and inv_root: "acyclic_par (par t) \<Longrightarrow> \<exists>r. root t i = Some r \<and> par t r = None \<and> i \<in> below (par t) r"
    and inv_cut: "perm_ok rng \<Longrightarrow> inv t \<Longrightarrow> \<exists>t'. cut rng i t = Some t' \<and> inv t' \<and> par t' = par t |` (- below (par t) i)"
begin

lemma anchored_root:
  assumes "anchored_par A (par t)"
  obtains r where "root t i = Some r" "r = i \<or> i \<in> dom (par t) \<and> r \<in> A" "i \<in> dom (par t) \<longrightarrow> r \<in> A" "i \<in> below (par t) r"
proof -
  obtain r where r: "root t i = Some r" "par t r = None" "i \<in> below (par t) r"
    using inv_root [of t i] assms unfolding anchored_par_def by blast
  have "r \<in> A \<and> i \<in> dom (par t)" if "r \<noteq> i"
  proof -
    have "i \<in> sbelow (par t) r" using r(3) that by (simp add: below_sbelow)
    then obtain c where "par t c = Some r" by (auto simp: sbelow_down)
    then have "r \<in> A" using assms r(2) by (auto simp: anchored_par_def ran_def)
    with \<open>i \<in> sbelow (par t) r\<close> show ?thesis using sbelow_dom [of "par t" r] by blast
  qed
  with r that show thesis by (cases "r = i") auto
qed

lemma anchored_add:
  assumes "inv t" "anchored_par A (par t)" "i \<notin> A" "p \<in> dom (par t) \<union> A" "par t i = None \<or> par t i = Some p"
  shows "inv (add i p t)" "anchored_par A (par (add i p t))"
proof -
  note add = inv_add [OF assms(1,5)]
  then show "inv (add i p t)" by blast
  show "anchored_par A (par (add i p t))"
  proof (cases "par t i")
    case None
    obtain rank where f: "forest (par t) rank" using assms(2) by (auto simp: anchored_par_def acyclic_par_def)
    have leaf: "par t c \<noteq> Some i" for c using assms(2,3) None by (auto simp: anchored_par_def ran_def)
    have "p \<noteq> i" using assms(3,4) None by auto
    then have "forest (par (add i p t)) (rank(i := Suc (rank p)))"
      using f leaf add by (auto simp: forest_def)
    then show ?thesis using assms(2-4) add by (auto simp: anchored_par_def acyclic_par_def ran_def)
  next
    case (Some q)
    then have "par (add i p t) = par t" using assms(5) add by auto
    then show ?thesis using assms(2) by simp
  qed
qed

lemma anchored_rem:
  assumes "inv t" "anchored_par A (par t)"
  shows "inv (rem i t)" "anchored_par (insert i A) (par (rem i t))" "i \<notin> dom (par t) \<Longrightarrow> anchored_par A (par (rem i t))"
proof -
  note rem = inv_rem [OF assms(1), of i]
  then show "inv (rem i t)" by blast
  obtain rank where "forest (par t) rank" using assms(2) by (auto simp: anchored_par_def acyclic_par_def)
  then have "forest (par (rem i t)) rank" using rem by (simp add: forest_def)
  then show "anchored_par (insert i A) (par (rem i t))"
    using assms(2) rem by (auto simp: anchored_par_def acyclic_par_def ran_def)
  assume "i \<notin> dom (par t)"
  then have "par (rem i t) = par t" using rem by (auto simp: fun_eq_iff)
  then show "anchored_par A (par (rem i t))" using assms(2) by simp
qed

lemma anchored_cut:
  assumes "perm_ok rng" "inv t" "anchored_par A (par t)"
  obtains t' where "cut rng i t = Some t'" "inv t'" "anchored_par (A - {i}) (par t')" "par t' \<subseteq>\<^sub>m par t"
proof -
  obtain t' where t': "cut rng i t = Some t'" "inv t'" "par t' = par t |` (- below (par t) i)"
    using inv_cut [OF assms(1,2)] by blast
  obtain rank where "forest (par t) rank" using assms(3) by (auto simp: anchored_par_def acyclic_par_def)
  then have "forest (par t') rank" by (simp add: t'(3) forest_def restrict_map_def)
  moreover have "p \<in> dom (par t') \<union> (A - {i})" if "par t' c = Some p" for c p
  proof -
    have c: "par t c = Some p" "c \<notin> below (par t) i" using that t'(3) by (auto simp: restrict_map_def split: if_splits)
    then have "p \<notin> below (par t) i" using below_parent [of "par t" c p] below_trans by fast
    moreover have "p \<in> dom (par t) \<union> A" using assms(3) c(1) by (auto simp: anchored_par_def ran_def)
    ultimately show ?thesis using t'(3) by auto
  qed
  ultimately have "anchored_par (A - {i}) (par t')"
    using assms(3) t'(3) by (auto simp: anchored_par_def acyclic_par_def ran_def)
  moreover have "par t' \<subseteq>\<^sub>m par t" by (simp add: t'(3) map_le_def)
  ultimately show thesis using that t'(1,2) by blast
qed

end

lemma anchored_mono: "anchored_par A par \<Longrightarrow> A \<subseteq> B \<Longrightarrow> dom par \<inter> B = {} \<Longrightarrow> anchored_par B par"
  by (auto simp: anchored_par_def)

interpretation nvt: parent_tree at_inv at_par at_Add at_Has at_Remove at_GetRoot at_RemoveSubtree
proof
  show "at_inv t \<Longrightarrow> at_par t i = None \<or> at_par t i = Some p \<Longrightarrow>
      at_inv (at_Add i p t) \<and> at_par (at_Add i p t) = (at_par t)(i \<mapsto> p)" for t i p
    using at_Add_spec by blast
  show "at_inv t \<Longrightarrow> at_inv (at_Remove i t) \<and> at_par (at_Remove i t) = (at_par t)(i := None)" for t i
    using at_Remove_spec by blast
qed (rule at_Has_eq at_GetRoot_spec at_RemoveSubtree_spec, assumption?)+

text \<open>
  C38. The ancestor tree implements a parent map: \<open>Add\<close>, \<open>Remove\<close>, \<open>Has\<close> and \<open>Len\<close> are the operations
  of the map, \<open>RemoveSubtree\<close> ends in whatever order the children are visited and removes exactly the
  block and its descendants, and on an acyclic map \<open>GetRoot\<close> ends and returns the oldest ancestor.
\<close>

theorem ancestor_tree_refines:
  assumes "at_inv p" and "perm_ok rng"
  shows "(at_par p i \<in> {None, Some q} \<longrightarrow> at_inv (at_Add i q p) \<and> at_par (at_Add i q p) = (at_par p)(i \<mapsto> q)) \<and>
    (at_inv (at_Remove i p) \<and> at_par (at_Remove i p) = (at_par p)(i := None)) \<and>
    (\<exists>p'. at_RemoveSubtree rng i p = Some p' \<and> at_inv p' \<and> at_par p' = at_par p |` (- below (at_par p) i)) \<and>
    (at_Has p i \<longleftrightarrow> i \<in> dom (at_par p)) \<and> at_Len p = card (dom (at_par p)) \<and>
    (acyclic_par (at_par p) \<longrightarrow> (\<exists>r. at_GetRoot p i = Some r \<and> at_par p r = None \<and> i \<in> below (at_par p) r))"
  using at_Add_spec [OF assms(1)] nvt.inv_rem [OF assms(1)] nvt.inv_cut [OF assms(2,1)] at_Has_eq
    at_Len_eq [OF assms(1)] at_GetRoot_spec by simp

theorem ancestor_tree_refines_witness:
  "at_GetRoot (at_Add 3 2 (at_Add 2 1 NewAncestorTree)) 3 = Some 1 \<and>
   (\<exists>p'. at_RemoveSubtree rev 2 (at_Add 3 2 (at_Add 2 1 NewAncestorTree)) = Some p' \<and> at_Len p' = 0)"
proof -
  let ?p = "at_Add 3 2 (at_Add 2 1 NewAncestorTree)"
  have rev: "perm_ok rev" by (simp add: perm_ok_def)
  have 1: "at_inv (at_Add 2 1 NewAncestorTree)" "at_par (at_Add 2 1 NewAncestorTree) = [2 \<mapsto> 1]"
    using ancestor_tree_refines [OF at_New(1) rev, of 2 1] by simp_all
  have 2: "at_inv ?p" "at_par ?p = [2 \<mapsto> 1, 3 \<mapsto> 2]"
    using ancestor_tree_refines [OF 1(1) rev, of 3 2] 1(2) by simp_all
  have "forest (at_par ?p) (\<lambda>i. if i = 3 then 2 else if i = 2 then 1 else 0)" by (simp add: forest_def 2)
  then have "acyclic_par (at_par ?p)" unfolding acyclic_par_def by blast
  then obtain r where r: "at_GetRoot ?p 3 = Some r" "at_par ?p r = None" "3 \<in> below (at_par ?p) r"
    using ancestor_tree_refines [OF 2(1) rev, of 3 0] by blast
  have b: "3 \<in> below (at_par ?p) 2" "2 \<in> below (at_par ?p) 2" by (rule below_parent) (simp_all add: 2)
  have "r = 1" using r(2,3) by (auto simp: below_sbelow [of 3] below_sbelow [of 2] below_sbelow [of 1] sbelow_up 2 split: if_splits)
  moreover obtain p' where p': "at_RemoveSubtree rev 2 ?p = Some p'" "at_inv p'" "at_par p' = at_par ?p |` (- below (at_par ?p) 2)"
    using ancestor_tree_refines [OF 2(1) rev, of 2 0] by blast
  moreover have "at_par p' = Map.empty" using b by (auto simp: p'(3) 2 restrict_map_def fun_eq_iff)
  then have "at_Len p' = 0" using ancestor_tree_refines [OF p'(2) rev] by simp
  ultimately show ?thesis using r(1) by blast
qed

end
