(* ===== verification/Engine.thy ===== *)
theory Engine
  imports Snowman Polls Requests AncestorTree
begin

text \<open>
  The snowman engine: \<open>Transitive\<close> of \<open>src/snow/engine/snowman/transitive.go\<close> with its blocked events
  (\<open>src/snow/events/blocker.go\<close>, \<open>issuer.go\<close>, \<open>voter.go\<close>), \<open>memory_block.go\<close> and
  \<open>src/snow/engine/common/mixed_query.go\<close>. It drives the consensus instance of \<open>Snowman\<close> with the polls
  of \<open>Polls\<close>.

  Issuers and voters are objects that the blocker points to: they live in the store \<open>t_objs\<close>, and a
  pointer is an index into it. What the engine gets from the virtual machine, the network and the
  validator set while it handles one message is a value of \<open>VM\<close>; what it sends is appended to
  \<open>t_calls\<close>. \<open>t_samples\<close> and \<open>t_builds\<close> count the calls to \<open>Sample\<close> and \<open>BuildBlock\<close>, so that each call has
  its own outcome.

  The source keeps the first error of a callback in \<open>errs\<close> and returns it when the handler ends. A voter
  records the remaining results of its polls even after one failed, and so does the model; a panic in
  such a poll is the error \<open>PanicAfterFailedPoll\<close>. After that voter, issuers and voters return at once,
  and what is left of the handler (\<open>issuer.Abandon\<close> and the end of \<open>deliver\<close>) moves blocks between
  \<open>pending\<close> and the non-verified blocks and sends queries before it returns the error: nothing in it can
  fail, and the handler ends with \<open>errs\<close>. Here the handler stops at that error and gives \<open>Inl\<close>. Metrics
  and logging are left out. The recursion between \<open>Blocker.Fulfill\<close>, \<open>Blocker.Abandon\<close> and \<open>deliver\<close> and the
  loops take fuel; running out of it is the error \<open>EngineFuel\<close>.
\<close>

section \<open>State\<close>

record issuer =
  i_blk :: Block
  i_abandoned :: bool
  i_deps :: "ID list"

record voter =
  v_vdr :: NodeID
  v_requestID :: "32 word"
  v_response :: ID
  v_deps :: "ID list"

datatype Blockable = Issuer issuer | Voter voter

datatype Oracle = NotOracleBlock | ErrNotOracle | OptionsError | Options Block Block

datatype VMMessage = PendingTxs | StateSyncDone | StopVertex

datatype vm_call =
    SendGet NodeID "32 word" ID
  | SendChits NodeID "32 word" "ID list"
  | SendPullQuery "NodeID list" "32 word" ID
  | SendPushQuery "NodeID list" "32 word" ID "8 word list"
  | SendGossip ID "8 word list"
  | SetPreference ID
  | SetNormalOp

datatype engine_error =
    ErrConsensus ts_error
  | ErrSetPreference | ErrOptions | ErrLastAccepted | ErrGetLastAccepted | ErrSetState
  | PollSetPanic | SlicePanic | EngineFuel
  | PanicAfterFailedPoll ts_error ts_error

record VM =
  vm_env :: Env
  vm_status :: "ID \<Rightarrow> Status"
  vm_GetBlock :: "ID \<Rightarrow> Block option"
  vm_ParseBlock :: "8 word list \<Rightarrow> Block option"
  vm_BuildBlock :: "nat \<Rightarrow> Block option"
  vm_Verify :: "Block \<Rightarrow> bool"
  vm_Options :: "Block \<Rightarrow> Oracle"
  vm_SetPreference :: "ID \<Rightarrow> bool"
  vm_LastAccepted :: "ID option"
  vm_SetState :: bool
  vm_Sample :: "nat \<Rightarrow> int \<Rightarrow> NodeID list option"
  vm_isValidator :: bool
  vm_range :: "ID list \<Rightarrow> ID list"
  vm_depth :: "ID \<Rightarrow> nat"

text \<open>
  In \<open>vm_Verify\<close>, \<open>vm_SetPreference\<close> and \<open>vm_SetState\<close> the value \<open>True\<close> is a returned error. \<open>vm_depth\<close> bounds the
  number of ancestors of a block; it is only used as the fuel of the loops that walk to them.
\<close>

record Transitive =
  t_Params :: Parameters
  t_Consensus :: Topological
  t_RequestID :: "32 word"
  t_polls :: pollSet
  t_blkReqs :: Requests
  t_pending :: "(ID, Block) gomap"
  t_nonVerifieds :: ancestorTree
  t_blocked :: "(ID, nat list) gomap"
  t_objs :: "Blockable list"
  t_pendingBuildBlocks :: int
  t_calls :: "vm_call list"
  t_samples :: nat
  t_builds :: nat

text \<open>A consensus object before \<open>Initialize\<close>.\<close>

definition Topological0 :: "Parameters \<Rightarrow> Topological" where
  "Topological0 params =
     \<lparr>ts_Latency = NewLatency, ts_Polls = NewPolls, ts_HeightGauge = 0, ts_pollNumber = 0, ts_params = params,
      ts_head = 0, ts_height = 0, ts_blocks = [], ts_preferredIDs = {}, ts_tail = 0, ts_leaves = [],
      ts_kahnNodes = [], ts_status = (\<lambda>_. Unknown), ts_trace = []\<rparr>"

definition newTransitive :: "Parameters \<Rightarrow> Transitive" where
  "newTransitive params =
     \<lparr>t_Params = params, t_Consensus = Topological0 params, t_RequestID = 0,
      t_polls = NewPollSet (EarlyTermFactory (Alpha params)), t_blkReqs = NewRequests, t_pending = [],
      t_nonVerifieds = NewAncestorTree, t_blocked = [], t_objs = [], t_pendingBuildBlocks = 0,
      t_calls = [], t_samples = 0, t_builds = 0\<rparr>"

section \<open>Looking blocks up\<close>

definition t_GetBlock :: "VM \<Rightarrow> Transitive \<Rightarrow> ID \<Rightarrow> Block option" where
  "t_GetBlock vm t blkID = (case map_of (t_pending t) blkID of Some blk \<Rightarrow> Some blk | None \<Rightarrow> vm_GetBlock vm blkID)"

definition blk_Status :: "Transitive \<Rightarrow> Block \<Rightarrow> Status" where
  "blk_Status t blk = ts_status (t_Consensus t) (blk_ID blk)"

definition pendingContains :: "Transitive \<Rightarrow> ID \<Rightarrow> bool" where
  "pendingContains t blkID = (map_of (t_pending t) blkID \<noteq> None)"

text \<open>\<open>t.Consensus.Decided(blk) || t.Consensus.Processing(blkID)\<close>.\<close>

definition isIssued :: "Transitive \<Rightarrow> Block \<Rightarrow> ID \<Rightarrow> bool" where
  "isIssued t blk blkID = (ts_Decided (t_Consensus t) blk \<or> ts_Processing (t_Consensus t) blkID)"

definition wasIssued :: "Transitive \<Rightarrow> Block \<Rightarrow> bool" where
  "wasIssued t blk = (let blkID = blk_ID blk in isIssued t blk blkID \<or> pendingContains t blkID)"

definition removeFromPending :: "Block \<Rightarrow> Transitive \<Rightarrow> Transitive" where
  "removeFromPending blk t = t\<lparr>t_pending := AList.delete (blk_ID blk) (t_pending t)\<rparr>"

definition addToNonVerifieds :: "Block \<Rightarrow> Transitive \<Rightarrow> Transitive" where
  "addToNonVerifieds blk t =
     (let blkID = blk_ID blk in
      if isIssued t blk blkID then t
      else let parentID = blk_Parent blk in
        if at_Has (t_nonVerifieds t) parentID \<or> ts_Processing (t_Consensus t) parentID
        then t\<lparr>t_nonVerifieds := at_Add blkID parentID (t_nonVerifieds t)\<rparr>
        else t)"

definition t_RemoveAny :: "ID \<Rightarrow> Transitive \<Rightarrow> Transitive" where
  "t_RemoveAny blkID t = t\<lparr>t_blkReqs := fst (Requests_RemoveAny blkID (t_blkReqs t))\<rparr>"

definition t_call :: "vm_call \<Rightarrow> Transitive \<Rightarrow> Transitive" where
  "t_call c t = t\<lparr>t_calls := t_calls t @ [c]\<rparr>"

definition t_SetPreference :: "VM \<Rightarrow> ID \<Rightarrow> Transitive \<Rightarrow> engine_error + Transitive" where
  "t_SetPreference vm blkID t =
     (if vm_SetPreference vm blkID then Inl ErrSetPreference else Inr (t_call (SetPreference blkID) t))"

section \<open>Blocks in consensus\<close>

text \<open>
  The blocks consensus holds are \<open>memoryBlock\<close>s: \<open>Accept\<close> first removes the sub-tree of the block's parent
  from the non-verified blocks and \<open>Reject\<close> that of the block, then they decide the wrapped block.
  Consensus does not read that tree, so the removals follow the operation, in the order of the calls
  it made. \<open>failed\<close> is the call that failed, if any.
\<close>

fun memoryBlock_event :: "(ID list \<Rightarrow> ID list) \<Rightarrow> event \<Rightarrow> ancestorTree \<Rightarrow> engine_error + ancestorTree" where
  "memoryBlock_event rng (EvAccept b) tree =
     (case at_RemoveSubtree rng (blk_Parent b) tree of None \<Rightarrow> Inl EngineFuel | Some tree \<Rightarrow> Inr tree)"
| "memoryBlock_event rng (EvReject b) tree =
     (case at_RemoveSubtree rng (blk_ID b) tree of None \<Rightarrow> Inl EngineFuel | Some tree \<Rightarrow> Inr tree)"
| "memoryBlock_event rng (EvDecisionAccept i bytes) tree = Inr tree"
| "memoryBlock_event rng (EvConsensusAccept i bytes) tree = Inr tree"

definition memoryBlocks :: "VM \<Rightarrow> Topological \<Rightarrow> event list \<Rightarrow> Transitive \<Rightarrow> engine_error + Transitive" where
  "memoryBlocks vm ts failed t =
     bindR (foldR (memoryBlock_event (vm_range vm))
              (drop (length (ts_trace (t_Consensus t))) (ts_trace ts) @ failed) (t_nonVerifieds t))
       (\<lambda>tree. Inr (t\<lparr>t_Consensus := ts, t_nonVerifieds := tree\<rparr>))"

definition consensus_call :: "VM \<Rightarrow> (Topological \<Rightarrow> ts_error + Topological) \<Rightarrow> Transitive \<Rightarrow> engine_error + Transitive" where
  "consensus_call vm f t =
     (case f (t_Consensus t) of
        Inl e \<Rightarrow> Inl (ErrConsensus e)
      | Inr ts \<Rightarrow> memoryBlocks vm ts [] t)"

definition consensus_Add :: "VM \<Rightarrow> Block \<Rightarrow> Transitive \<Rightarrow> engine_error + Transitive" where
  "consensus_Add vm blk t = consensus_call vm (ts_Add (vm_env vm) blk) t"

definition consensus_RecordPoll :: "VM \<Rightarrow> Bag \<Rightarrow> Transitive \<Rightarrow> engine_error + Transitive" where
  "consensus_RecordPoll vm votes t = consensus_call vm (ts_RecordPoll (vm_env vm) votes) t"

section \<open>Queries\<close>

definition sendRequest :: "NodeID \<Rightarrow> ID \<Rightarrow> Transitive \<Rightarrow> Transitive" where
  "sendRequest nodeID blkID t =
     (if Requests_Contains blkID (t_blkReqs t) then t
      else
        let t = t\<lparr>t_RequestID := t_RequestID t + 1\<rparr>;
            t = t\<lparr>t_blkReqs := Requests_Add nodeID (t_RequestID t) blkID (t_blkReqs t)\<rparr>
        in t_call (SendGet nodeID (t_RequestID t) blkID) t)"

definition t_Sample :: "VM \<Rightarrow> Transitive \<Rightarrow> Transitive \<times> NodeID list option" where
  "t_Sample vm t = (t\<lparr>t_samples := Suc (t_samples t)\<rparr>, vm_Sample vm (t_samples t) (K (t_Params t)))"

definition pullQuery :: "VM \<Rightarrow> ID \<Rightarrow> Transitive \<Rightarrow> Transitive" where
  "pullQuery vm blkID t =
     (case t_Sample vm t of
        (t, None) \<Rightarrow> t
      | (t, Some vdrs) \<Rightarrow>
          let vdrBag = nAdd emptyNodeIDBag vdrs;
              t = t\<lparr>t_RequestID := t_RequestID t + 1\<rparr>;
              (polls, added) = set_Add (t_RequestID t) vdrBag (t_polls t);
              t = t\<lparr>t_polls := polls\<rparr>
          in if added then t_call (SendPullQuery (nList vdrBag) (t_RequestID t) blkID) t else t)"

text \<open>\<open>SendMixedQuery\<close>; slicing \<open>vdrs[numPushTo:]\<close> panics when \<open>numPushTo\<close> is negative.\<close>

definition SendMixedQuery :: "NodeID list \<Rightarrow> int \<Rightarrow> 32 word \<Rightarrow> ID \<Rightarrow> 8 word list \<Rightarrow> Transitive \<Rightarrow> engine_error + Transitive" where
  "SendMixedQuery vdrs numPushTo reqID containerID container t =
     (let numPushTo = (if numPushTo > int (length vdrs) then int (length vdrs) else numPushTo);
          t = (if numPushTo > 0 then t_call (SendPushQuery (take (nat numPushTo) vdrs) reqID containerID container) t else t);
          numPullTo = int (length vdrs) - numPushTo
      in if numPullTo > 0 then
           if numPushTo < 0 then Inl SlicePanic
           else Inr (t_call (SendPullQuery (drop (nat numPushTo) vdrs) reqID containerID) t)
         else Inr t)"

definition sendMixedQuery :: "VM \<Rightarrow> Block \<Rightarrow> Transitive \<Rightarrow> engine_error + Transitive" where
  "sendMixedQuery vm blk t =
     (case t_Sample vm t of
        (t, None) \<Rightarrow> Inr t
      | (t, Some vdrs) \<Rightarrow>
          let vdrBag = nAdd emptyNodeIDBag vdrs;
              t = t\<lparr>t_RequestID := t_RequestID t + 1\<rparr>;
              (polls, added) = set_Add (t_RequestID t) vdrBag (t_polls t);
              t = t\<lparr>t_polls := polls\<rparr>
          in if added then
               let numPushTo = (if vm_isValidator vm then MixedQueryNumPushVdr (t_Params t)
                                else MixedQueryNumPushNonVdr (t_Params t))
               in SendMixedQuery (nList vdrBag) numPushTo (t_RequestID t) (blk_ID blk) (blk_Bytes blk) t
             else Inr t)"

definition repoll :: "VM \<Rightarrow> Transitive \<Rightarrow> Transitive" where
  "repoll vm t =
     (let prefID = ts_Preference (t_Consensus t)
      in (pullQuery vm prefID ^^ nat (ConcurrentRepolls (t_Params t) - int (set_Len (t_polls t)))) t)"

section \<open>Voters\<close>

fun bubble_walk :: "nat \<Rightarrow> VM \<Rightarrow> Transitive \<Rightarrow> ID \<Rightarrow> Block \<Rightarrow> engine_error + ID option" where
  "bubble_walk 0 vm t blkID blk = Inl EngineFuel"
| "bubble_walk (Suc fuel) vm t blkID blk =
     (if Status_Fetched (blk_Status t blk) \<and> \<not> isIssued t blk blkID then
        let blkID = blk_Parent blk in
        (case t_GetBlock vm t blkID of
           None \<Rightarrow> Inr None
         | Some blk \<Rightarrow> bubble_walk fuel vm t blkID blk)
      else Inr (Some blkID))"

definition bubble_vote :: "VM \<Rightarrow> Transitive \<Rightarrow> Bag \<Rightarrow> ID \<Rightarrow> Bag \<Rightarrow> engine_error + Bag" where
  "bubble_vote vm t votes vote bubbledVotes =
     (let count = Count votes vote in
      case at_GetRoot (t_nonVerifieds t) vote of
        None \<Rightarrow> Inl EngineFuel
      | Some rootID \<Rightarrow>
          (case t_GetBlock vm t rootID of
             None \<Rightarrow> Inr bubbledVotes
           | Some blk \<Rightarrow>
               bindR (bubble_walk (Suc (vm_depth vm (blk_ID blk))) vm t (blk_ID blk) blk) (\<lambda>r.
                 case r of
                   None \<Rightarrow> Inr bubbledVotes
                 | Some blkID \<Rightarrow>
                     if ts_Processing (t_Consensus t) blkID then Inr (AddCount bubbledVotes blkID count)
                     else Inr bubbledVotes)))"

definition bubbleVotes :: "VM \<Rightarrow> Transitive \<Rightarrow> Bag \<Rightarrow> engine_error + Bag" where
  "bubbleVotes vm t votes = foldR (bubble_vote vm t votes) (BagList votes) emptyBag"

fun mapR :: "('a \<Rightarrow> 'e + 'b) \<Rightarrow> 'a list \<Rightarrow> 'e + 'b list" where
  "mapR f [] = Inr []"
| "mapR f (x # xs) = bindR (f x) (\<lambda>y. bindR (mapR f xs) (\<lambda>ys. Inr (y # ys)))"

text \<open>The state after an error that \<open>RecordPoll\<close> returned, with the failed call; the other errors are panics.\<close>

fun failed_call :: "ts_error \<Rightarrow> (Topological \<times> event list) option" where
  "failed_call (ErrDecisionAcceptor i ts) = Some (ts, [])"
| "failed_call (ErrConsensusAcceptor i ts) = Some (ts, [])"
| "failed_call (ErrBlockAccept b ts) = Some (ts, [EvAccept b])"
| "failed_call (ErrBlockReject b ts) = Some (ts, [EvReject b])"
| "failed_call _ = None"

text \<open>The loop over the results of the finished polls; \<open>errs\<close> is the first error.\<close>

fun recordPolls :: "VM \<Rightarrow> Bag list \<Rightarrow> ts_error option \<Rightarrow> Transitive \<Rightarrow> engine_error + ts_error option \<times> Transitive" where
  "recordPolls vm [] errs t = Inr (errs, t)"
| "recordPolls vm (result # results) errs t =
     (case consensus_RecordPoll vm result t of
        Inr t \<Rightarrow> recordPolls vm results errs t
      | Inl (ErrConsensus e) \<Rightarrow>
          (case failed_call e of
             None \<Rightarrow> Inl (case errs of None \<Rightarrow> ErrConsensus e | Some e0 \<Rightarrow> PanicAfterFailedPoll e0 e)
           | Some (ts, failed) \<Rightarrow>
               bindR (memoryBlocks vm ts failed t)
                 (recordPolls vm results (case errs of None \<Rightarrow> Some e | Some e0 \<Rightarrow> Some e0)))
      | Inl e \<Rightarrow> Inl e)"

definition voter_Update :: "VM \<Rightarrow> voter \<Rightarrow> Transitive \<Rightarrow> engine_error + Transitive" where
  "voter_Update vm v t =
     (if v_deps v \<noteq> [] then Inr t
      else
        case (if v_response v = 0 then set_Drop (v_requestID v) (v_vdr v) (t_polls t)
              else set_Vote (v_requestID v) (v_vdr v) (v_response v) (t_polls t)) of
          None \<Rightarrow> Inl PollSetPanic
        | Some (polls, results) \<Rightarrow>
            let t = t\<lparr>t_polls := polls\<rparr> in
            if results = [] then Inr t
            else
              bindR (mapR (bubbleVotes vm t) results) (\<lambda>results.
              bindR (recordPolls vm results None t) (\<lambda>(errs, t).
              case errs of
                Some e \<Rightarrow> Inl (ErrConsensus e)
              | None \<Rightarrow>
                  bindR (t_SetPreference vm (ts_Preference (t_Consensus t)) t) (\<lambda>t.
                  if ts_Finalized (t_Consensus t) then Inr t else Inr (repoll vm t)))))"

section \<open>Issuing blocks\<close>

text \<open>
  \<open>notify False\<close> and \<open>notify True\<close> stand for \<open>t.blocked.Fulfill\<close> and \<open>t.blocked.Abandon\<close>, which call back
  into \<open>deliver\<close>.
\<close>

type_synonym notifier = "bool \<Rightarrow> ID \<Rightarrow> Transitive \<Rightarrow> engine_error + Transitive"

definition deliver_option :: "VM \<Rightarrow> Block \<Rightarrow> Block list \<times> Block list \<times> Transitive \<Rightarrow>
    engine_error + Block list \<times> Block list \<times> Transitive" where
  "deliver_option vm blk = (\<lambda>(added, dropped, t).
     if vm_Verify vm blk then Inr (added, dropped @ [blk], addToNonVerifieds blk t)
     else
       let t = t\<lparr>t_nonVerifieds := at_Remove (blk_ID blk) (t_nonVerifieds t)\<rparr> in
       bindR (consensus_Add vm blk t) (\<lambda>t. Inr (added @ [blk], dropped, t)))"

definition deliver_options :: "VM \<Rightarrow> Block \<Rightarrow> Transitive \<Rightarrow> engine_error + Block list \<times> Block list \<times> Transitive" where
  "deliver_options vm blk t =
     (case vm_Options vm blk of
        NotOracleBlock \<Rightarrow> Inr ([], [], t)
      | ErrNotOracle \<Rightarrow> Inr ([], [], t)
      | OptionsError \<Rightarrow> Inl ErrOptions
      | Options b1 b2 \<Rightarrow> foldR (deliver_option vm) [b1, b2] ([], [], t))"

definition deliver_added :: "notifier \<Rightarrow> VM \<Rightarrow> Block \<Rightarrow> Transitive \<Rightarrow> engine_error + Transitive" where
  "deliver_added notify vm blk t =
     bindR (if IsPreferred (t_Consensus t) blk then sendMixedQuery vm blk t else Inr t) (\<lambda>t.
     bindR (notify False (blk_ID blk) (removeFromPending blk t)) (\<lambda>t.
     Inr (t_RemoveAny (blk_ID blk) t)))"

definition deliver_dropped :: "notifier \<Rightarrow> Block \<Rightarrow> Transitive \<Rightarrow> engine_error + Transitive" where
  "deliver_dropped notify blk t =
     bindR (notify True (blk_ID blk) (removeFromPending blk t)) (\<lambda>t. Inr (t_RemoveAny (blk_ID blk) t))"

definition deliver :: "notifier \<Rightarrow> VM \<Rightarrow> Block \<Rightarrow> Transitive \<Rightarrow> engine_error + Transitive" where
  "deliver notify vm blk t =
     (let blkID = blk_ID blk in
      if isIssued t blk blkID then Inr t
      else
        let t = removeFromPending blk t;
            parentID = blk_Parent blk
        in
        if (case t_GetBlock vm t parentID of
              None \<Rightarrow> True
            | Some parent \<Rightarrow> \<not> (blk_Status t parent = Accepted \<or> ts_Processing (t_Consensus t) parentID))
        then notify True blkID t
        else if vm_Verify vm blk then notify True blkID (addToNonVerifieds blk t)
        else
          let t = t\<lparr>t_nonVerifieds := at_Remove blkID (t_nonVerifieds t)\<rparr> in
          bindR (consensus_Add vm blk t) (\<lambda>t.
          bindR (deliver_options vm blk t) (\<lambda>(added, dropped, t).
          bindR (t_SetPreference vm (ts_Preference (t_Consensus t)) t) (\<lambda>t.
          bindR (if IsPreferred (t_Consensus t) blk then sendMixedQuery vm blk t else Inr t) (\<lambda>t.
          bindR (notify False blkID t) (\<lambda>t.
          bindR (foldR (deliver_added notify vm) added t) (\<lambda>t.
          bindR (foldR (deliver_dropped notify) dropped t) (\<lambda>t.
          Inr (repoll vm t)))))))))"

definition issuer_Update :: "notifier \<Rightarrow> VM \<Rightarrow> issuer \<Rightarrow> Transitive \<Rightarrow> engine_error + Transitive" where
  "issuer_Update notify vm i t =
     (if i_abandoned i \<or> i_deps i \<noteq> [] then Inr t else deliver notify vm (i_blk i) t)"

text \<open>The methods of an object in the store.\<close>

definition set_obj :: "nat \<Rightarrow> Blockable \<Rightarrow> Transitive \<Rightarrow> Transitive" where
  "set_obj p obj t = t\<lparr>t_objs := (t_objs t)[p := obj]\<rparr>"

fun abandon_obj :: "Blockable \<Rightarrow> Blockable" where
  "abandon_obj (Issuer i) = Issuer (i\<lparr>i_abandoned := True\<rparr>)"
| "abandon_obj (Voter v) = Voter v"

definition obj_Fulfill :: "notifier \<Rightarrow> VM \<Rightarrow> ID \<Rightarrow> nat \<Rightarrow> Transitive \<Rightarrow> engine_error + Transitive" where
  "obj_Fulfill notify vm depID p t =
     (case t_objs t ! p of
        Issuer i \<Rightarrow>
          let i = i\<lparr>i_deps := removeAll depID (i_deps i)\<rparr> in issuer_Update notify vm i (set_obj p (Issuer i) t)
      | Voter v \<Rightarrow>
          let v = v\<lparr>v_deps := removeAll depID (v_deps v)\<rparr> in voter_Update vm v (set_obj p (Voter v) t))"

definition obj_Abandon :: "notifier \<Rightarrow> VM \<Rightarrow> ID \<Rightarrow> nat \<Rightarrow> Transitive \<Rightarrow> engine_error + Transitive" where
  "obj_Abandon notify vm depID p t =
     (case t_objs t ! p of
        Issuer i \<Rightarrow>
          bindR (if i_abandoned i then Inr t
                 else notify True (blk_ID (i_blk i)) (addToNonVerifieds (i_blk i) (removeFromPending (i_blk i) t)))
            (\<lambda>t. Inr (set_obj p (abandon_obj (t_objs t ! p)) t))
      | Voter v \<Rightarrow> obj_Fulfill notify vm depID p t)"

section \<open>Blocker\<close>

definition blocking :: "Transitive \<Rightarrow> ID \<Rightarrow> nat list" where
  "blocking t depID = (case map_of (t_blocked t) depID of None \<Rightarrow> [] | Some ps \<Rightarrow> ps)"

fun Blocker_notify :: "nat \<Rightarrow> VM \<Rightarrow> notifier" where
  "Blocker_notify 0 vm abandon depID t = Inl EngineFuel"
| "Blocker_notify (Suc fuel) vm abandon depID t =
     foldR (if abandon then obj_Abandon (Blocker_notify fuel vm) vm depID else obj_Fulfill (Blocker_notify fuel vm) vm depID)
       (blocking t depID) (t\<lparr>t_blocked := AList.delete depID (t_blocked t)\<rparr>)"

text \<open>Each nested call removes a key of the map; one unit of fuel per key, and one more, is enough.\<close>

definition t_notify :: "VM \<Rightarrow> notifier" where
  "t_notify vm abandon depID t = Blocker_notify (Suc (length (t_blocked t))) vm abandon depID t"

definition Blocker_Fulfill :: "VM \<Rightarrow> ID \<Rightarrow> Transitive \<Rightarrow> engine_error + Transitive" where
  "Blocker_Fulfill vm depID t = t_notify vm False depID t"

definition Blocker_Abandon :: "VM \<Rightarrow> ID \<Rightarrow> Transitive \<Rightarrow> engine_error + Transitive" where
  "Blocker_Abandon vm depID t = t_notify vm True depID t"

fun Blockable_Dependencies :: "Blockable \<Rightarrow> ID list" where
  "Blockable_Dependencies (Issuer i) = i_deps i"
| "Blockable_Dependencies (Voter v) = v_deps v"

fun Blockable_Update :: "VM \<Rightarrow> Blockable \<Rightarrow> Transitive \<Rightarrow> engine_error + Transitive" where
  "Blockable_Update vm (Issuer i) t = issuer_Update (t_notify vm) vm i t"
| "Blockable_Update vm (Voter v) t = voter_Update vm v t"

definition Blocker_Register :: "VM \<Rightarrow> Blockable \<Rightarrow> Transitive \<Rightarrow> engine_error + Transitive" where
  "Blocker_Register vm obj t =
     (let p = length (t_objs t);
          t = t\<lparr>t_objs := t_objs t @ [obj]\<rparr>;
          t = fold (\<lambda>pendingID t. t\<lparr>t_blocked := AList.update pendingID (blocking t pendingID @ [p]) (t_blocked t)\<rparr>)
                (Blockable_Dependencies obj) t
      in Blockable_Update vm obj t)"

definition t_deliver :: "VM \<Rightarrow> Block \<Rightarrow> Transitive \<Rightarrow> engine_error + Transitive" where
  "t_deliver vm blk t = deliver (t_notify vm) vm blk t"

section \<open>Issuing branches\<close>

definition issue :: "VM \<Rightarrow> Block \<Rightarrow> Transitive \<Rightarrow> engine_error + Transitive" where
  "issue vm blk t =
     (let blkID = blk_ID blk;
          t = t\<lparr>t_pending := AList.update blkID blk (t_pending t)\<rparr>;
          t = t_RemoveAny blkID t;
          parentID = blk_Parent blk;
          deps = (case t_GetBlock vm t parentID of
                    None \<Rightarrow> [parentID]
                  | Some parent \<Rightarrow> if isIssued t parent parentID then [] else [parentID])
      in Blocker_Register vm (Issuer \<lparr>i_blk = blk, i_abandoned = False, i_deps = deps\<rparr>) t)"

fun issueFrom_loop :: "nat \<Rightarrow> VM \<Rightarrow> NodeID \<Rightarrow> ID \<Rightarrow> Block \<Rightarrow> Transitive \<Rightarrow> engine_error + bool \<times> Transitive" where
  "issueFrom_loop 0 vm nodeID blkID blk t = Inl EngineFuel"
| "issueFrom_loop (Suc fuel) vm nodeID blkID blk t =
     (if \<not> wasIssued t blk then
        bindR (issue vm blk t) (\<lambda>t.
          let blkID = blk_Parent blk in
          case t_GetBlock vm t blkID of
            None \<Rightarrow> Inr (False, sendRequest nodeID blkID t)
          | Some blk \<Rightarrow>
              if \<not> Status_Fetched (blk_Status t blk) then Inr (False, sendRequest nodeID blkID t)
              else issueFrom_loop fuel vm nodeID blkID blk t)
      else
        let t = t_RemoveAny blkID t;
            issued = isIssued t blk blkID
        in bindR (if issued then Blocker_Abandon vm blkID t else Inr t) (\<lambda>t. Inr (issued, t)))"

definition issueFrom :: "VM \<Rightarrow> NodeID \<Rightarrow> Block \<Rightarrow> Transitive \<Rightarrow> engine_error + bool \<times> Transitive" where
  "issueFrom vm nodeID blk t = issueFrom_loop (Suc (vm_depth vm (blk_ID blk))) vm nodeID (blk_ID blk) blk t"

definition issueFromByID :: "VM \<Rightarrow> NodeID \<Rightarrow> ID \<Rightarrow> Transitive \<Rightarrow> engine_error + bool \<times> Transitive" where
  "issueFromByID vm nodeID blkID t =
     (case t_GetBlock vm t blkID of
        None \<Rightarrow> Inr (False, sendRequest nodeID blkID t)
      | Some blk \<Rightarrow> issueFrom vm nodeID blk t)"

fun issueWithAncestors_loop :: "nat \<Rightarrow> VM \<Rightarrow> ID \<Rightarrow> Block \<Rightarrow> Transitive \<Rightarrow> engine_error + (ID \<times> Block option) \<times> Transitive" where
  "issueWithAncestors_loop 0 vm blkID blk t = Inl EngineFuel"
| "issueWithAncestors_loop (Suc fuel) vm blkID blk t =
     (if Status_Fetched (blk_Status t blk) \<and> \<not> wasIssued t blk then
        bindR (issue vm blk t) (\<lambda>t.
          let blkID = blk_Parent blk in
          case t_GetBlock vm t blkID of
            None \<Rightarrow> Inr ((blkID, None), t)
          | Some blk \<Rightarrow> issueWithAncestors_loop fuel vm blkID blk t)
      else Inr ((blkID, Some blk), t))"

definition issueWithAncestors :: "VM \<Rightarrow> Block \<Rightarrow> Transitive \<Rightarrow> engine_error + bool \<times> Transitive" where
  "issueWithAncestors vm blk t =
     bindR (issueWithAncestors_loop (Suc (vm_depth vm (blk_ID blk))) vm (blk_ID blk) blk t) (\<lambda>((blkID, last), t).
       if (case last of None \<Rightarrow> False | Some blk \<Rightarrow> blk_Status t blk \<noteq> Unknown \<and> isIssued t blk blkID)
       then Inr (True, t)
       else if Requests_Contains blkID (t_blkReqs t) then Inr (False, t)
       else bindR (Blocker_Abandon vm blkID t) (\<lambda>t. Inr (False, t)))"

fun buildBlocks_loop :: "nat \<Rightarrow> VM \<Rightarrow> Transitive \<Rightarrow> engine_error + Transitive" where
  "buildBlocks_loop 0 vm t =
     (if t_pendingBuildBlocks t > 0 \<and> NumProcessing (t_Consensus t) < OptimalProcessing (t_Params t) then Inl EngineFuel
      else Inr t)"
| "buildBlocks_loop (Suc fuel) vm t =
     (if t_pendingBuildBlocks t > 0 \<and> NumProcessing (t_Consensus t) < OptimalProcessing (t_Params t) then
        let t = t\<lparr>t_pendingBuildBlocks := t_pendingBuildBlocks t - 1, t_builds := Suc (t_builds t)\<rparr> in
        (case vm_BuildBlock vm (t_builds t) of
           None \<Rightarrow> Inr t
         | Some blk \<Rightarrow> bindR (issueWithAncestors vm blk t) (\<lambda>(added, t). buildBlocks_loop fuel vm t))
      else Inr t)"

definition buildBlocks :: "VM \<Rightarrow> Transitive \<Rightarrow> engine_error + Transitive" where
  "buildBlocks vm t = buildBlocks_loop (nat (t_pendingBuildBlocks t)) vm t"

section \<open>Handlers\<close>

definition GetFailed :: "VM \<Rightarrow> NodeID \<Rightarrow> 32 word \<Rightarrow> Transitive \<Rightarrow> engine_error + Transitive" where
  "GetFailed vm nodeID requestID t =
     (case Requests_Remove nodeID requestID (t_blkReqs t) of
        (reqs, None) \<Rightarrow> Inr (t\<lparr>t_blkReqs := reqs\<rparr>)
      | (reqs, Some blkID) \<Rightarrow> bindR (Blocker_Abandon vm blkID (t\<lparr>t_blkReqs := reqs\<rparr>)) (buildBlocks vm))"

definition Put :: "VM \<Rightarrow> NodeID \<Rightarrow> 32 word \<Rightarrow> 8 word list \<Rightarrow> Transitive \<Rightarrow> engine_error + Transitive" where
  "Put vm nodeID requestID blkBytes t =
     (case vm_ParseBlock vm blkBytes of
        None \<Rightarrow> GetFailed vm nodeID requestID t
      | Some blk \<Rightarrow> bindR (issueFrom vm nodeID blk t) (\<lambda>(added, t). buildBlocks vm t))"

definition PullQuery :: "VM \<Rightarrow> NodeID \<Rightarrow> 32 word \<Rightarrow> ID \<Rightarrow> Transitive \<Rightarrow> engine_error + Transitive" where
  "PullQuery vm nodeID requestID blkID t =
     (let t = t_call (SendChits nodeID requestID [ts_Preference (t_Consensus t)]) t in
      bindR (issueFromByID vm nodeID blkID t) (\<lambda>(added, t). buildBlocks vm t))"

definition PushQuery :: "VM \<Rightarrow> NodeID \<Rightarrow> 32 word \<Rightarrow> 8 word list \<Rightarrow> Transitive \<Rightarrow> engine_error + Transitive" where
  "PushQuery vm nodeID requestID blkBytes t =
     (let t = t_call (SendChits nodeID requestID [ts_Preference (t_Consensus t)]) t in
      case vm_ParseBlock vm blkBytes of
        None \<Rightarrow> Inr t
      | Some blk \<Rightarrow> bindR (issueFrom vm nodeID blk t) (\<lambda>(added, t). buildBlocks vm t))"

definition QueryFailed :: "VM \<Rightarrow> NodeID \<Rightarrow> 32 word \<Rightarrow> Transitive \<Rightarrow> engine_error + Transitive" where
  "QueryFailed vm vdr requestID t =
     bindR (Blocker_Register vm (Voter \<lparr>v_vdr = vdr, v_requestID = requestID, v_response = 0, v_deps = []\<rparr>) t)
       (buildBlocks vm)"

definition Chits :: "VM \<Rightarrow> NodeID \<Rightarrow> 32 word \<Rightarrow> ID list \<Rightarrow> Transitive \<Rightarrow> engine_error + Transitive" where
  "Chits vm nodeID requestID votes t =
     (case votes of
        [blkID] \<Rightarrow>
          bindR (issueFromByID vm nodeID blkID t) (\<lambda>(added, t).
          bindR (Blocker_Register vm (Voter \<lparr>v_vdr = nodeID, v_requestID = requestID, v_response = blkID,
                   v_deps = (if added then [] else [blkID])\<rparr>) t)
            (buildBlocks vm))
      | _ \<Rightarrow> QueryFailed vm nodeID requestID t)"

definition ChitsV2 :: "VM \<Rightarrow> NodeID \<Rightarrow> 32 word \<Rightarrow> ID list \<Rightarrow> ID \<Rightarrow> Transitive \<Rightarrow> engine_error + Transitive" where
  "ChitsV2 vm vdr requestID votes vote t = Chits vm vdr requestID [vote] t"

definition Gossip :: "VM \<Rightarrow> Transitive \<Rightarrow> engine_error + Transitive" where
  "Gossip vm t =
     (case vm_LastAccepted vm of
        None \<Rightarrow> Inl ErrLastAccepted
      | Some blkID \<Rightarrow>
          (case t_GetBlock vm t blkID of
             None \<Rightarrow> Inr t
           | Some blk \<Rightarrow> Inr (t_call (SendGossip blkID (blk_Bytes blk)) t)))"

definition t_Notify :: "VM \<Rightarrow> VMMessage \<Rightarrow> Transitive \<Rightarrow> engine_error + Transitive" where
  "t_Notify vm msg t =
     (if msg \<noteq> PendingTxs then Inr t
      else buildBlocks vm (t\<lparr>t_pendingBuildBlocks := t_pendingBuildBlocks t + 1\<rparr>))"

definition Start :: "VM \<Rightarrow> 32 word \<Rightarrow> Transitive \<Rightarrow> engine_error + Transitive" where
  "Start vm startReqID t =
     (let t = t\<lparr>t_RequestID := startReqID\<rparr> in
      case vm_LastAccepted vm of
        None \<Rightarrow> Inl ErrLastAccepted
      | Some lastAcceptedID \<Rightarrow>
          (case t_GetBlock vm t lastAcceptedID of
             None \<Rightarrow> Inl ErrGetLastAccepted
           | Some lastAccepted \<Rightarrow>
               (case ts_Initialize (vm_status vm) (t_Params t) lastAcceptedID (blk_Height lastAccepted) of
                  Inl e \<Rightarrow> Inl (ErrConsensus e)
                | Inr ts \<Rightarrow>
                    let t = t\<lparr>t_Consensus := ts\<rparr> in
                    bindR (case vm_Options vm lastAccepted of
                             NotOracleBlock \<Rightarrow> t_SetPreference vm lastAcceptedID t
                           | ErrNotOracle \<Rightarrow> t_SetPreference vm lastAcceptedID t
                           | OptionsError \<Rightarrow> Inl ErrOptions
                           | Options b1 b2 \<Rightarrow> foldR (t_deliver vm) [b1, b2] t) (\<lambda>t.
                    if vm_SetState vm then Inl ErrSetState else Inr (t_call SetNormalOp t)))))"

text \<open>The messages the engine handles.\<close>

datatype engine_msg =
    M_Put NodeID "32 word" "8 word list"
  | M_GetFailed NodeID "32 word"
  | M_PullQuery NodeID "32 word" ID
  | M_PushQuery NodeID "32 word" "8 word list"
  | M_Chits NodeID "32 word" "ID list"
  | M_ChitsV2 NodeID "32 word" "ID list" ID
  | M_QueryFailed NodeID "32 word"
  | M_Notify VMMessage
  | M_Gossip

fun handle :: "VM \<Rightarrow> engine_msg \<Rightarrow> Transitive \<Rightarrow> engine_error + Transitive" where
  "handle vm (M_Put nodeID requestID blkBytes) t = Put vm nodeID requestID blkBytes t"
| "handle vm (M_GetFailed nodeID requestID) t = GetFailed vm nodeID requestID t"
| "handle vm (M_PullQuery nodeID requestID blkID) t = PullQuery vm nodeID requestID blkID t"
| "handle vm (M_PushQuery nodeID requestID blkBytes) t = PushQuery vm nodeID requestID blkBytes t"
| "handle vm (M_Chits nodeID requestID votes) t = Chits vm nodeID requestID votes t"
| "handle vm (M_ChitsV2 nodeID requestID votes vote) t = ChitsV2 vm nodeID requestID votes vote t"
| "handle vm (M_QueryFailed nodeID requestID) t = QueryFailed vm nodeID requestID t"
| "handle vm (M_Notify msg) t = t_Notify vm msg t"
| "handle vm M_Gossip t = Gossip vm t"

end
