(* ===== verification/EngineConsensus.thy ===== *)
theory EngineConsensus
  imports Engine SnowmanProperties
begin

text \<open>
  The engine's view of consensus: the blocks consensus holds and the tree of non-verified blocks
  stay consistent with each other when the engine adds a block or records a poll.

  \<open>U\<close> is the set of all blocks, as a map from ids: an id determines its block.
\<close>

section \<open>Invariants\<close>

definition universe_ok :: "(ID \<Rightarrow> Block option) \<Rightarrow> bool" where
  "universe_ok U \<longleftrightarrow> (\<forall>i b. U i = Some b \<longrightarrow> blk_ID b = i)"

lemma universe_okD: "universe_ok U \<Longrightarrow> U i = Some b \<Longrightarrow> blk_ID b = i"
  unfolding universe_ok_def by blast

text \<open>The block is higher than its parent.\<close>

definition rises :: "(ID \<Rightarrow> Block option) \<Rightarrow> Block \<Rightarrow> bool" where
  "rises U b \<longleftrightarrow> (\<forall>p. U (blk_Parent b) = Some p \<longrightarrow> blk_Height p < blk_Height b)"

definition parents_ok :: "(ID \<Rightarrow> Block option) \<Rightarrow> (ID \<Rightarrow> ID option) \<Rightarrow> bool" where
  "parents_ok U par \<longleftrightarrow> (\<forall>i p. par i = Some p \<longrightarrow> (\<exists>b. U i = Some b \<and> blk_Parent b = p))"

text \<open>Every block has been fetched, and the parent of a decided block is decided.\<close>

definition status_closed :: "(ID \<Rightarrow> Block option) \<Rightarrow> (ID \<Rightarrow> Status) \<Rightarrow> bool" where
  "status_closed U st \<longleftrightarrow> (\<forall>i b. U i = Some b \<longrightarrow> st i \<noteq> Unknown \<and>
     (\<forall>p. U (blk_Parent b) = Some p \<longrightarrow> Status_Decided (st i) \<longrightarrow> Status_Decided (st (blk_Parent b))))"

text \<open>The undecided blocks consensus holds are blocks of \<open>U\<close>, above the last accepted height and their parents.\<close>

definition tree_in :: "(ID \<Rightarrow> Block option) \<Rightarrow> Topological \<Rightarrow> bool" where
  "tree_in U ts \<longleftrightarrow> (\<forall>i n b. map_of (ts_blocks ts) i = Some n \<longrightarrow> i \<noteq> ts_head ts \<longrightarrow> sn_blk n = Some b \<longrightarrow>
     U i = Some b \<and> ts_height ts < blk_Height b \<and> rises U b)"

definition cons_ok :: "(ID \<Rightarrow> Block option) \<Rightarrow> ID \<Rightarrow> Topological \<Rightarrow> ancestorTree \<Rightarrow> bool" where
  "cons_ok U root ts nv \<longleftrightarrow> ts_reachable root ts \<and> tree_in U ts \<and> status_closed U (ts_status ts) \<and>
     at_inv nv \<and> anchored_par (block_ids ts) (at_par nv) \<and> parents_ok U (at_par nv)"

lemma parents_ok_tree: "tree_in U ts \<Longrightarrow> parents_ok U (par_of ts)"
  by (auto simp: tree_in_def parents_ok_def par_of_def split: if_splits option.splits)

lemma cons_okD:
  assumes "cons_ok U root ts nv"
  shows "ts_reachable root ts" "parents_ok U (par_of ts)" "status_closed U (ts_status ts)"
    "at_inv nv" "anchored_par (block_ids ts) (at_par nv)" "parents_ok U (at_par nv)" "blocks_ok ts" "prefs_ok ts" "tree_in U ts"
  using assms ts_reachable_inv parents_ok_tree by (auto simp: cons_ok_def)

lemma sbelow_height:
  assumes rise: "\<And>k j c. i \<in> below par k \<Longrightarrow> par k = Some j \<Longrightarrow> U k = Some c \<Longrightarrow> rises U c"
    and "parents_ok U par" "i \<in> sbelow par p" "U i = Some b" "U p = Some q"
  shows "blk_Height q < blk_Height b"
proof -
  have "(i, p) \<in> (up par)\<^sup>+" using assms(3) by (simp add: sbelow_def)
  then show ?thesis using assms(4) rise
  proof (induction arbitrary: b rule: converse_trancl_induct)
    case (base i)
    have par: "par i = Some p" using base.hyps by (simp add: up_def)
    then have "blk_Parent b = p" using assms(2) base.prems(1) by (fastforce simp: parents_ok_def)
    then show ?case using base.prems(2) [OF below_refl par base.prems(1)] assms(5) by (simp add: rises_def)
  next
    case (step i j)
    have par: "par i = Some j" using step.hyps(1) by (simp add: up_def)
    then have j: "blk_Parent b = j" using assms(2) step.prems(1) by (fastforce simp: parents_ok_def)
    obtain k where "(j, k) \<in> up par" using tranclD [OF step.hyps(2)] by blast
    then have "par j = Some k" by (simp add: up_def)
    then obtain c where c: "U j = Some c" using assms(2) by (auto simp: parents_ok_def)
    then have "blk_Height c < blk_Height b" using step.prems(2) [OF below_refl par step.prems(1)] j by (simp add: rises_def)
    moreover have "rises U d" if "j \<in> below par k" "par k = Some l" "U k = Some d" for k l d
      using step.prems(2) [OF below_trans [OF below_parent [of par, OF par] that(1)] that(2,3)] .
    ultimately show ?case using step.IH [OF c] by (meson less_trans)
  qed
qed

lemma rises_tree: "tree_in U ts \<Longrightarrow> par_of ts i = Some p \<Longrightarrow> U i = Some b \<Longrightarrow> rises U b"
  by (auto simp: tree_in_def par_of_def split: if_splits option.splits)

lemma parents_ok_le: "parents_ok U par \<Longrightarrow> par' \<subseteq>\<^sub>m par \<Longrightarrow> parents_ok U par'"
  by (auto simp: parents_ok_def map_le_def dom_def)

lemma parents_okD: "parents_ok U par \<Longrightarrow> par i = Some p \<Longrightarrow> U i = Some b \<Longrightarrow> blk_Parent b = p"
  unfolding parents_ok_def by (metis option.inject)

lemma status_closedD:
  assumes "status_closed U st" "U i = Some b"
  shows "st i \<noteq> Unknown" "U (blk_Parent b) = Some p \<Longrightarrow> Status_Decided (st i) \<Longrightarrow> Status_Decided (st (blk_Parent b))"
  using assms unfolding status_closed_def by blast+

lemma Status_fetched: "Status_Fetched s \<longleftrightarrow> s \<noteq> Unknown"
  by (cases s) auto

lemma not_issued:
  assumes "blocks_ok ts" "\<not> ts_Decided ts b" "\<not> ts_Processing ts (blk_ID b)"
  shows "blk_ID b \<notin> block_ids ts" "\<not> Status_Decided (ts_status ts (blk_ID b))"
proof -
  show u: "\<not> Status_Decided (ts_status ts (blk_ID b))" using assms(2) by (auto simp: ts_Decided_def)
  then have "blk_ID b \<noteq> ts_head ts" using blocks_okD(4) [OF assms(1)] by auto
  then show "blk_ID b \<notin> block_ids ts" using assms(3) by (simp add: ts_Processing_def block_ids_iff)
qed

lemma Processing_iff: "ts_Processing ts i \<longleftrightarrow> i \<in> block_ids ts \<and> i \<noteq> ts_head ts"
  by (auto simp: ts_Processing_def block_ids_iff)

section \<open>Decisions and the non-verified blocks\<close>

fun gone :: "event \<Rightarrow> ID set" where
  "gone (EvAccept b) = {blk_Parent b}"
| "gone (EvReject b) = {blk_ID b}"
| "gone _ = {}"

lemma memoryBlock_events:
  assumes "perm_ok rng" "at_inv nv" "anchored_par A (at_par nv)"
  shows "\<exists>nv'. foldR (memoryBlock_event rng) evs nv = Inr nv' \<and> at_inv nv' \<and>
    anchored_par (A - \<Union>(gone ` set evs)) (at_par nv') \<and> at_par nv' \<subseteq>\<^sub>m at_par nv"
  using assms(2,3)
proof (induction evs arbitrary: nv A)
  case (Cons e evs)
  have "\<exists>nv1. memoryBlock_event rng e nv = Inr nv1 \<and> at_inv nv1 \<and> anchored_par (A - gone e) (at_par nv1) \<and> at_par nv1 \<subseteq>\<^sub>m at_par nv"
  proof (cases e)
    case (EvAccept b)
    obtain nv1 where "at_RemoveSubtree rng (blk_Parent b) nv = Some nv1" "at_inv nv1"
        "anchored_par (A - {blk_Parent b}) (at_par nv1)" "at_par nv1 \<subseteq>\<^sub>m at_par nv"
      by (rule nvt.anchored_cut [OF assms(1) Cons.prems])
    then show ?thesis using EvAccept by simp
  next
    case (EvReject b)
    obtain nv1 where "at_RemoveSubtree rng (blk_ID b) nv = Some nv1" "at_inv nv1"
        "anchored_par (A - {blk_ID b}) (at_par nv1)" "at_par nv1 \<subseteq>\<^sub>m at_par nv"
      by (rule nvt.anchored_cut [OF assms(1) Cons.prems])
    then show ?thesis using EvReject by simp
  qed (use Cons.prems in simp_all)
  then obtain nv1 where nv1: "memoryBlock_event rng e nv = Inr nv1" "at_inv nv1" "anchored_par (A - gone e) (at_par nv1)"
    "at_par nv1 \<subseteq>\<^sub>m at_par nv" by blast
  have A: "A - gone e - \<Union>(gone ` set evs) = A - \<Union>(gone ` set (e # evs))" by auto
  obtain nv2 where "foldR (memoryBlock_event rng) evs nv1 = Inr nv2" "at_inv nv2"
      "anchored_par (A - \<Union>(gone ` set (e # evs))) (at_par nv2)" "at_par nv2 \<subseteq>\<^sub>m at_par nv1"
    using Cons.IH [OF nv1(2,3)] unfolding A by blast
  then show ?case using nv1(1) map_le_trans [OF _ nv1(4)] by simp
qed simp

lemma anchored_between:
  assumes "anchored_par (A - X) par'" "par' \<subseteq>\<^sub>m par" "anchored_par A par" "A - X \<subseteq> B" "B \<subseteq> A"
  shows "anchored_par B par'"
proof (rule anchored_mono [OF assms(1,4)])
  have "dom par' \<subseteq> dom par" using assms(2) by (rule map_le_implies_dom_le)
  then show "dom par' \<inter> B = {}" using assms(3,5) by (auto simp: anchored_par_def)
qed

lemma status_closed_mono:
  assumes "status_closed U st" and dec: "\<And>i. Status_Decided (st i) \<Longrightarrow> Status_Decided (st' i)"
    and new: "\<And>i. st' i \<noteq> st i \<Longrightarrow> Status_Decided (st' i)"
    and par: "\<And>i b p. U i = Some b \<Longrightarrow> U (blk_Parent b) = Some p \<Longrightarrow> Status_Decided (st' i) \<Longrightarrow> \<not> Status_Decided (st i) \<Longrightarrow>
      Status_Decided (st' (blk_Parent b))"
  shows "status_closed U st'"
  unfolding status_closed_def
proof (intro allI impI conjI)
  fix i b assume b: "U i = Some b"
  then have "st i \<noteq> Unknown" using assms(1) by (simp add: status_closed_def)
  then show "st' i \<noteq> Unknown" using new [of i] by (metis Status_Decided.simps(3))
  fix p assume "U (blk_Parent b) = Some p" "Status_Decided (st' i)"
  then show "Status_Decided (st' (blk_Parent b))" using par [OF b] dec b assms(1) by (auto simp: status_closed_def)
qed

lemma evolve_view:
  assumes "evolve env ts t" and ok: "blocks_ok ts" and U: "tree_in U ts" "status_closed U (ts_status ts)"
  shows "tree_in U t \<and> status_closed U (ts_status t) \<and>
    (\<exists>ev. ts_trace t = ts_trace ts @ ev \<and> block_ids ts - \<Union>(gone ` set ev) \<subseteq> block_ids t \<and> block_ids t \<subseteq> block_ids ts)"
  using assms(1)
proof induction
  case ev_refl
  then show ?case using U by simp
next
  case (ev_quiet t t')
  have "par_of t' = par_of t" "block_ids t' = block_ids t" "ts_trace t' = ts_trace t" "ts_status t' = ts_status t"
    using ev_quiet.hyps(3) same_shape_par_of [of t t'] same_shape_block_ids [of t t'] by (auto simp: only_blocks_def)
  moreover have "tree_in U t'"
    unfolding tree_in_def
  proof (intro allI impI)
    fix i n' b assume n': "map_of (ts_blocks t') i = Some n'" "i \<noteq> ts_head t'" "sn_blk n' = Some b"
    have sh: "same_shape t t'" "ts_head t' = ts_head t" "ts_height t' = ts_height t"
      using ev_quiet.hyps(3) by (auto simp: only_blocks_def)
    have "i \<in> block_ids t" using n'(1) same_shape_block_ids [OF sh(1)] by (auto simp: block_ids_iff)
    then obtain n where n: "map_of (ts_blocks t) i = Some n" by (auto simp: block_ids_iff)
    then have "sn_blk n = Some b" using sh(1) n'(1,3) by (fastforce simp: same_shape_def)
    then show "U i = Some b \<and> ts_height t' < blk_Height b \<and> rises U b" using ev_quiet.IH n n'(2) sh(2,3) by (auto simp: tree_in_def)
  qed
  ultimately show ?case using ev_quiet.IH by simp
next
  case (ev_accept t n c child rs)
  note t = evolve_tree0(1) [OF ev_accept.hyps(1) ok]
  have c: "blk_Parent child = ts_head t" "blk_ID child = c" "par_of t c = Some (ts_head t)"
    by (rule blocks_ok_child [OF t ev_accept.hyps(2,3)], assumption)+
  let ?t = "accepted_state env child rs t"
  note acc = blocks_ok_accepted [OF t ev_accept.hyps(2,3,5,6), of env]
  have ids: "blk_ID ` snd ` set rs = block_ids t - {ts_head t} - below (par_of t) c"
    unfolding ev_accept.hyps(5) [symmetric] image_image using ev_accept.hyps(6) by (intro image_cong) auto
  have st: "ts_status ?t i = (if i \<in> block_ids t - {ts_head t} - below (par_of t) c then Rejected
      else if i = c then Accepted else ts_status t i)" for i
    unfolding ids [symmetric] by (simp add: accepted_state_def c(2) image_comp)
  have hd: "ts_status t (ts_head t) = Accepted" by (rule blocks_okD(4) [OF t])
  have IH: "parents_ok U (par_of t)" "status_closed U (ts_status t)" "tree_in U t"
    using ev_accept.IH parents_ok_tree by blast+
  have "status_closed U (ts_status ?t)"
  proof (rule status_closed_mono [OF IH(2)])
    fix i b p assume b: "U i = Some b" "U (blk_Parent b) = Some p" and i: "Status_Decided (ts_status ?t i)"
      "\<not> Status_Decided (ts_status t i)"
    have "i = c \<or> i \<in> block_ids t - {ts_head t} - below (par_of t) c" using i by (auto simp: st split: if_splits)
    then have "i \<in> dom (par_of t)" using c(3) dom_par_of [OF t] by auto
    then obtain q where q: "par_of t i = Some q" by blast
    then have bq: "blk_Parent b = q" using IH(1) b(1) by (fastforce simp: parents_ok_def)
    show "Status_Decided (ts_status ?t (blk_Parent b))"
    proof (cases "q = ts_head t")
      case False
      have "i \<noteq> c" using q c(3) False by auto
      then have "i \<notin> below (par_of t) c" using \<open>i = c \<or> _\<close> by blast
      then have "q \<notin> below (par_of t) c" using below_parent [of "par_of t", OF q] below_trans by fast
      then show ?thesis using False par_of_in [OF t q] by (simp add: st bq)
    qed (use hd c(3) in \<open>auto simp: st bq\<close>)
  qed (auto simp: st)
  moreover have "tree_in U ?t"
    unfolding tree_in_def
  proof (intro allI impI)
    fix i m b assume m: "map_of (ts_blocks ?t) i = Some m" "i \<noteq> ts_head ?t" "sn_blk m = Some b"
    obtain cn where cn: "map_of (ts_blocks t) c = Some cn" "sn_blk cn = Some child" "c \<noteq> ts_head t"
      by (rule blocks_ok_child [OF t ev_accept.hyps(2,3)])
    then have Uc: "U c = Some child" using IH(3) by (auto simp: tree_in_def)
    have "i \<in> below (par_of t) c" using m(1) unfolding acc(3) [symmetric] by (auto simp: block_ids_iff)
    then have i: "i \<in> sbelow (par_of t) c" using m(2) acc(4) by (simp add: below_sbelow)
    then have "i \<noteq> ts_head t" using sbelow_dom [of "par_of t" c] dom_par_of [OF t] by blast
    moreover have "map_of (ts_blocks t) i = Some m"
      using m(1) \<open>i \<in> below (par_of t) c\<close> by (simp add: accepted_state_def c(2) map_of_filter_keys)
    ultimately have Ui: "U i = Some b" "rises U b" using IH(3) m(3) by (auto simp: tree_in_def)
    have "ts_height ?t = blk_Height child" by (simp add: accepted_state_def accept_state_def Let_def)
    then show "U i = Some b \<and> ts_height ?t < blk_Height b \<and> rises U b"
      using Ui sbelow_height [OF rises_tree [OF IH(3)] IH(1) i Ui(1) Uc] by simp
  qed
  moreover obtain ev where ev: "ts_trace t = ts_trace ts @ ev" "block_ids ts - \<Union>(gone ` set ev) \<subseteq> block_ids t"
    "block_ids t \<subseteq> block_ids ts" using ev_accept.IH by blast
  moreover let ?new = "[EvDecisionAccept c (blk_Bytes child), EvConsensusAccept c (blk_Bytes child), EvAccept child] @ map (EvReject \<circ> snd) rs"
  have "ts_trace ?t = ts_trace ts @ (ev @ ?new)" using ev(1) by (simp add: accepted_state_def c(2))
  moreover have "\<Union>(gone ` set ?new) = insert (ts_head t) (block_ids t - {ts_head t} - below (par_of t) c)"
    unfolding ids [symmetric] by (auto simp: c(1) image_image)
  then have "block_ids ts - \<Union>(gone ` set (ev @ ?new)) \<subseteq> block_ids ?t" using ev(2) unfolding acc(3) by auto
  moreover have "block_ids ?t \<subseteq> block_ids ts"
  proof -
    have "c \<in> block_ids t" using dom_par_of [OF t] c(3) by blast
    then have "below (par_of t) c \<subseteq> block_ids t" by (auto intro: below_in_blocks [OF t])
    then show ?thesis using ev(3) unfolding acc(3) by (rule subset_trans)
  qed
  ultimately show ?case by (intro conjI exI [of _ "ev @ ?new"])
qed

section \<open>The two operations\<close>

lemma consensus_RecordPoll_ok:
  assumes ok: "cons_ok U root (t_Consensus t) (t_nonVerifieds t)"
    and env: "env_ok (vm_env vm)" "perm_ok (vm_range vm)"
    and vs: "bag_inv vs" "Len vs \<le> K (ts_params (t_Consensus t))"
  shows "case consensus_RecordPoll vm vs t of
      Inl e \<Rightarrow> (\<exists>e'. e = ErrConsensus e' \<and> env_error e' \<and> \<not> reliable (vm_env vm))
    | Inr t' \<Rightarrow> (\<exists>ts nv. t' = t\<lparr>t_Consensus := ts, t_nonVerifieds := nv\<rparr> \<and> cons_ok U root ts nv \<and>
        ts_params ts = ts_params (t_Consensus t) \<and> ts_RecordPoll (vm_env vm) vs (t_Consensus t) = Inr ts)"
proof -
  let ?ts = "t_Consensus t" and ?nv = "t_nonVerifieds t"
  note inv = cons_okD [OF ok]
  from ts_RecordPoll_spec [OF inv(7) env(1) inv(8) vs] consider
      (err) e where "ts_RecordPoll (vm_env vm) vs ?ts = Inl e" "env_error e"
    | (res) ts where "ts_RecordPoll (vm_env vm) vs ?ts = Inr ts" "poll_rel (vm_env vm) ?ts ts" by blast
  then show ?thesis
  proof cases
    case err
    then have "\<not> reliable (vm_env vm)" using no_env_error_RecordPoll [of "vm_env vm" vs ?ts] by auto
    with err show ?thesis by (simp add: consensus_RecordPoll_def consensus_call_def)
  next
    case (res ts)
    obtain N L u q y S where
      ev: "evolve (vm_env vm) (?ts\<lparr>ts_pollNumber := ts_pollNumber ?ts + 1, ts_kahnNodes := N, ts_leaves := L\<rparr>) u"
      and ts: "ts = u\<lparr>ts_Polls := q, ts_tail := y, ts_preferredIDs := S\<rparr>"
      using res(2) by (auto simp: poll_rel_def)
    let ?t0 = "?ts\<lparr>ts_pollNumber := ts_pollNumber ?ts + 1, ts_kahnNodes := N, ts_leaves := L\<rparr>"
    have t0: "blocks_ok ?t0" "tree_in U ?t0" "status_closed U (ts_status ?t0)"
      using inv(3,7,9) by (simp_all add: tree_in_def)
    from evolve_view [OF ev t0] obtain evs where V: "tree_in U ts" "status_closed U (ts_status ts)"
      "ts_trace ts = ts_trace ?ts @ evs" "block_ids ?ts - \<Union>(gone ` set evs) \<subseteq> block_ids ts" "block_ids ts \<subseteq> block_ids ?ts"
      by (auto simp: ts tree_in_def)
    obtain nv where nv: "foldR (memoryBlock_event (vm_range vm)) evs ?nv = Inr nv" "at_inv nv"
      "anchored_par (block_ids ?ts - \<Union>(gone ` set evs)) (at_par nv)" "at_par nv \<subseteq>\<^sub>m at_par ?nv"
      using memoryBlock_events [OF env(2) inv(4,5)] by blast
    have "anchored_par (block_ids ts) (at_par nv)" by (rule anchored_between [OF nv(3,4) inv(5) V(4,5)])
    moreover have "ts_reachable root ts" by (rule ts_poll [OF inv(1) env(1) vs res(1)])
    ultimately have "cons_ok U root ts nv" using V(1,2) nv(2) parents_ok_le [OF inv(6) nv(4)] by (simp add: cons_ok_def)
    moreover have "ts_params ts = ts_params ?ts" using evolve_tree [OF ev t0(1)] by (simp add: ts)
    ultimately show ?thesis using res(1) nv(1) V(3) by (auto simp: consensus_RecordPoll_def consensus_call_def memoryBlocks_def)
  qed
qed

lemma consensus_Add_ok:
  assumes ok: "cons_ok U root (t_Consensus t) (t_nonVerifieds t)" and env: "perm_ok (vm_range vm)"
    and blk: "U (blk_ID blk) = Some blk" "\<not> isIssued t blk (blk_ID blk)" "rises U blk"
    and par: "blk_Parent blk \<in> block_ids (t_Consensus t) \<or> Status_Decided (ts_status (t_Consensus t) (blk_Parent blk))"
  defines "t1 \<equiv> t\<lparr>t_nonVerifieds := at_Remove (blk_ID blk) (t_nonVerifieds t)\<rparr>"
  shows "case consensus_Add vm blk t1 of
      Inl e \<Rightarrow> (\<exists>e'. e = ErrConsensus e' \<and> env_error e')
    | Inr t' \<Rightarrow> (\<exists>ts nv. t' = t\<lparr>t_Consensus := ts, t_nonVerifieds := nv\<rparr> \<and> cons_ok U root ts nv \<and>
        ts_params ts = ts_params (t_Consensus t) \<and> ts_height ts = ts_height (t_Consensus t) \<and>
        (blk_ID blk \<in> block_ids ts \<or> Status_Decided (ts_status ts (blk_ID blk))) \<and>
        (\<forall>i. i \<noteq> blk_ID blk \<longrightarrow> ts_status ts i = ts_status (t_Consensus t) i \<and> (i \<in> block_ids ts \<longleftrightarrow> i \<in> block_ids (t_Consensus t))))"
proof -
  let ?ts = "t_Consensus t" and ?nv = "t_nonVerifieds t" and ?i = "blk_ID blk"
  note inv = cons_okD [OF ok]
  have un: "\<not> ts_Decided ?ts blk" "\<not> ts_Processing ?ts ?i" using blk(2) by (auto simp: isIssued_def)
  have new: "?i \<notin> block_ids ?ts" "\<not> Status_Decided (ts_status ?ts ?i)" by (rule not_issued [OF inv(7) un])+
  note rem = nvt.anchored_rem(1,2) [OF inv(4,5), of ?i]
  have nv1: "parents_ok U (at_par (at_Remove ?i ?nv))"
    using inv(6) nvt.inv_rem [OF inv(4), of ?i] by (auto simp: parents_ok_def)
  show ?thesis
  proof (cases "ts_Add (vm_env vm) blk ?ts")
    case (Inl e)
    then have "env_error e" using un by (auto simp: ts_Add_def Let_def blk_Reject_def split: if_splits option.splits)
    then show ?thesis using Inl by (simp add: consensus_Add_def consensus_call_def t1_def)
  next
    case (Inr ts)
    have reach: "ts_reachable root ts" by (rule ts_add [OF inv(1) Inr])
    have hgt: "ts_height ts = ts_height ?ts" "ts_params ts = ts_params ?ts"
      using Inr un by (auto simp: ts_Add_def Let_def blk_Reject_def Latency_Rejected_def split: if_splits option.splits)
    have "\<exists>nv. foldR (memoryBlock_event (vm_range vm)) (drop (length (ts_trace ?ts)) (ts_trace ts)) (at_Remove ?i ?nv) = Inr nv \<and>
        cons_ok U root ts nv \<and> (?i \<in> block_ids ts \<or> Status_Decided (ts_status ts ?i)) \<and>
        (\<forall>i. i \<noteq> ?i \<longrightarrow> ts_status ts i = ts_status ?ts i \<and> (i \<in> block_ids ts \<longleftrightarrow> i \<in> block_ids ?ts))"
    proof (cases "blk_Parent blk \<in> block_ids ?ts")
      case True
      note A = ts_Add_inserted [OF inv(7) Inr True]
      have "ts_height ?ts < blk_Height blk"
        using un(1) new(2) inv(3) blk(1) by (cases "ts_status ?ts ?i") (auto simp: ts_Decided_def status_closed_def)
      moreover have "sn_blk (AddChild (ts_params ?ts) blk n) = sn_blk n" for n by (simp add: AddChild_def Let_def split: option.split)
      ultimately have "tree_in U ts"
        using Inr un True inv(9) blk(1,3)
        by (auto simp: ts_Add_def Let_def block_ids_iff tree_in_def update_conv' split: if_splits)
      then have "cons_ok U root ts (at_Remove ?i ?nv)"
        using reach inv(3) rem nv1 by (simp add: cons_ok_def A(3,9))
      then show ?thesis by (simp add: A(3,9,10))
    next
      case False
      note A = ts_Add_rejected [OF inv(7) Inr False]
      have st: "ts_status ts = (ts_status ?ts)(?i := Rejected)" using A(1) by (simp add: same_tree_def)
      have t: "tree_in U ts" using inv(9) A(1) hgt(1) by (auto simp: tree_in_def same_tree_def)
      have "status_closed U (ts_status ts)"
      proof (rule status_closed_mono [OF inv(3)])
        fix i b p assume "U i = Some b" "Status_Decided (ts_status ts i)" "\<not> Status_Decided (ts_status ?ts i)"
        then have "b = blk" using blk(1) by (auto simp: st split: if_splits)
        then show "Status_Decided (ts_status ts (blk_Parent b))" using par False by (auto simp: st)
      qed (auto simp: st)
      moreover obtain nv where nv: "foldR (memoryBlock_event (vm_range vm)) [EvReject blk] (at_Remove ?i ?nv) = Inr nv" "at_inv nv"
        "anchored_par (insert ?i (block_ids ?ts) - \<Union>(gone ` set [EvReject blk])) (at_par nv)" "at_par nv \<subseteq>\<^sub>m at_par (at_Remove ?i ?nv)"
        using memoryBlock_events [OF env rem] by blast
      moreover have "insert ?i (block_ids ?ts) - \<Union>(gone ` set [EvReject blk]) = block_ids ?ts" using new(1) by auto
      ultimately have "cons_ok U root ts nv"
        using reach t parents_ok_le [OF nv1 nv(4)] by (simp add: cons_ok_def A(9))
      then show ?thesis using nv(1) by (simp add: A(4,9) st)
    qed
    then obtain nv where nv:
      "foldR (memoryBlock_event (vm_range vm)) (drop (length (ts_trace ?ts)) (ts_trace ts)) (at_Remove ?i ?nv) = Inr nv"
      "cons_ok U root ts nv" "?i \<in> block_ids ts \<or> Status_Decided (ts_status ts ?i)"
      "\<forall>i. i \<noteq> ?i \<longrightarrow> ts_status ts i = ts_status ?ts i \<and> (i \<in> block_ids ts \<longleftrightarrow> i \<in> block_ids ?ts)" by blast
    then have "consensus_Add vm blk t1 = Inr (t\<lparr>t_Consensus := ts, t_nonVerifieds := nv\<rparr>)"
      using Inr by (simp add: consensus_Add_def consensus_call_def memoryBlocks_def t1_def)
    then show ?thesis using nv(2-4) hgt by (simp only: sum.case) blast
  qed
qed

end
