(* ===== verification/EngineVotes.thy ===== *)
theory EngineVotes
  imports EngineConsensus
begin

text \<open>
  Bubbling votes (\<open>voter.bubbleVotes\<close>): the loops end, the result is a bag of at most as many votes, and
  a vote counts for the nearest ancestor of its block that is processing.
\<close>

section \<open>What the engine assumes of its environment\<close>

text \<open>
  The virtual machine serves blocks of \<open>U\<close>, returns from \<open>GetBlock\<close> the block that was asked for, gives
  an oracle block two different children, and verifies only blocks that are higher than their parents
  (\<open>src/vms/platformvm/blocks/executor/verifier.go\<close>, \<open>verifyCommonBlock\<close>); nothing is assumed of the
  height a block claims before that. A block's id is the hash of its bytes, which contain the id of its
  parent, so no block is its own ancestor: \<open>vm_depth\<close> grows from a parent to its children. A sample of
  the validators has the requested size (\<open>validators.Set.Sample\<close>). The order in which a set or a map is
  visited is some permutation.
\<close>

definition vm_ok :: "(ID \<Rightarrow> Block option) \<Rightarrow> VM \<Rightarrow> bool" where
  "vm_ok U vm \<longleftrightarrow> universe_ok U \<and> env_ok (vm_env vm) \<and> perm_ok (vm_range vm) \<and>
     (\<forall>i b. vm_GetBlock vm i = Some b \<longrightarrow> U i = Some b) \<and>
     (\<forall>bytes b. vm_ParseBlock vm bytes = Some b \<longrightarrow> U (blk_ID b) = Some b) \<and>
     (\<forall>k b. vm_BuildBlock vm k = Some b \<longrightarrow> U (blk_ID b) = Some b) \<and>
     (\<forall>b b1 b2. vm_Options vm b = Options b1 b2 \<longrightarrow> U (blk_ID b1) = Some b1 \<and> U (blk_ID b2) = Some b2 \<and>
        blk_Parent b1 = blk_ID b \<and> blk_Parent b2 = blk_ID b \<and> blk_ID b1 \<noteq> blk_ID b2) \<and>
     (\<forall>k n vdrs. vm_Sample vm k n = Some vdrs \<longrightarrow> int (length vdrs) = n) \<and>
     (\<forall>b. U (blk_ID b) = Some b \<longrightarrow> \<not> vm_Verify vm b \<longrightarrow> rises U b) \<and>
     (\<forall>i b p. U i = Some b \<longrightarrow> U (blk_Parent b) = Some p \<longrightarrow> vm_depth vm (blk_Parent b) < vm_depth vm i)"

lemma vm_okD:
  assumes "vm_ok U vm"
  shows "universe_ok U" "env_ok (vm_env vm)" "perm_ok (vm_range vm)" "vm_GetBlock vm i = Some b \<Longrightarrow> U i = Some b"
    "vm_ParseBlock vm bytes = Some b \<Longrightarrow> U (blk_ID b) = Some b" "vm_BuildBlock vm k = Some b \<Longrightarrow> U (blk_ID b) = Some b"
    "vm_Sample vm k n = Some vdrs \<Longrightarrow> int (length vdrs) = n"
    "U (blk_ID b) = Some b \<Longrightarrow> \<not> vm_Verify vm b \<Longrightarrow> rises U b"
    "U i = Some b \<Longrightarrow> U (blk_Parent b) = Some p \<Longrightarrow> vm_depth vm (blk_Parent b) < vm_depth vm i"
  using assms unfolding vm_ok_def by blast+

lemma vm_ok_Options:
  assumes "vm_ok U vm" "vm_Options vm b = Options b1 b2"
  shows "U (blk_ID b1) = Some b1" "U (blk_ID b2) = Some b2" "blk_Parent b1 = blk_ID b" "blk_Parent b2 = blk_ID b"
    "blk_ID b1 \<noteq> blk_ID b2"
  using assms unfolding vm_ok_def by blast+

definition pending_ok :: "(ID \<Rightarrow> Block option) \<Rightarrow> Transitive \<Rightarrow> bool" where
  "pending_ok U t \<longleftrightarrow> (\<forall>i b. map_of (t_pending t) i = Some b \<longrightarrow> U i = Some b)"

lemma GetBlock_U: "vm_ok U vm \<Longrightarrow> pending_ok U t \<Longrightarrow> t_GetBlock vm t i = Some b \<Longrightarrow> U i = Some b \<and> blk_ID b = i"
  by (auto simp: t_GetBlock_def pending_ok_def vm_ok_def universe_ok_def split: option.splits)

section \<open>Ancestors\<close>

definition parU :: "(ID \<Rightarrow> Block option) \<Rightarrow> ID \<Rightarrow> ID option" where
  "parU U i = map_option blk_Parent (U i)"

lemma parents_parU: "parents_ok U (parU U)"
  by (auto simp: parents_ok_def parU_def)

lemma parents_le_parU: "parents_ok U par \<Longrightarrow> par i = Some p \<Longrightarrow> parU U i = Some p"
  by (force simp: parents_ok_def parU_def)

lemma forest_parU:
  assumes "vm_ok U vm"
  shows "forest (parU U) (\<lambda>i. case U i of None \<Rightarrow> 0 | Some b \<Rightarrow> Suc (vm_depth vm i))"
  using vm_okD(9) [OF assms] by (fastforce simp: forest_def parU_def split: option.splits)

text \<open>The nearest processing ancestor of a block, or the block itself.\<close>

definition nearest :: "(ID \<Rightarrow> Block option) \<Rightarrow> Topological \<Rightarrow> ID \<Rightarrow> ID \<Rightarrow> bool" where
  "nearest U ts i j \<longleftrightarrow> ts_Processing ts j \<and> i \<in> below (parU U) j \<and>
     (\<forall>k. i \<in> below (parU U) k \<longrightarrow> k \<in> sbelow (parU U) j \<longrightarrow> \<not> ts_Processing ts k)"

lemma Processing_U:
  assumes "blocks_ok ts" "tree_in U ts" "ts_Processing ts i"
  obtains b where "U i = Some b" "ts_height ts < blk_Height b" "\<not> Status_Decided (ts_status ts i)"
proof -
  obtain n where n: "map_of (ts_blocks ts) i = Some n" "i \<noteq> ts_head ts"
    using assms(3) by (auto simp: Processing_iff block_ids_iff)
  obtain b where "sn_blk n = Some b" "\<not> Status_Decided (ts_status ts i)"
    by (rule blocks_ok_block [OF assms(1) n])
  with n assms(2) show thesis by (intro that) (auto simp: tree_in_def)
qed

lemma decided_up:
  assumes "status_closed U st" "k \<in> below (parU U) j" "U j \<noteq> None" "Status_Decided (st k)"
  shows "Status_Decided (st j)"
proof -
  have "(k, j) \<in> (up (parU U))\<^sup>*" using assms(2) by (simp add: below_def)
  then show ?thesis using assms(4)
  proof (induction rule: converse_rtrancl_induct)
    case (step i k)
    obtain b where b: "U i = Some b" "blk_Parent b = k" using step.hyps(1) by (auto simp: up_def parU_def)
    have "U k \<noteq> None"
      using step.hyps(2) assms(3) by (cases rule: converse_rtranclE) (auto simp: up_def parU_def)
    then have "Status_Decided (st k)" using assms(1) b step.prems by (auto simp: status_closed_def)
    then show ?case by (rule step.IH)
  qed
qed

text \<open>Heights grow along the ancestors of a block.\<close>

definition climbs :: "(ID \<Rightarrow> Block option) \<Rightarrow> ID \<Rightarrow> bool" where
  "climbs U i \<longleftrightarrow> (\<forall>k b. i \<in> below (parU U) k \<longrightarrow> U k = Some b \<longrightarrow> rises U b)"

lemma climbs_up: "climbs U i \<Longrightarrow> i \<in> below (parU U) k \<Longrightarrow> climbs U k"
  unfolding climbs_def using below_trans by fast

text \<open>Nothing above a decided block is processing.\<close>

lemma Decided_above:
  assumes "climbs U (blk_ID b)" "blocks_ok ts" "tree_in U ts" "status_closed U (ts_status ts)"
    and "ts_Decided ts b" "U (blk_ID b) = Some b" "blk_ID b \<in> below (parU U) j"
  shows "\<not> ts_Processing ts j"
proof
  assume "ts_Processing ts j"
  then obtain c where c: "U j = Some c" "ts_height ts < blk_Height c" "\<not> Status_Decided (ts_status ts j)"
    by (rule Processing_U [OF assms(2,3)])
  then have "\<not> Status_Decided (ts_status ts (blk_ID b))" using decided_up [OF assms(4,7)] by auto
  then have "blk_Height b \<le> ts_height ts" using assms(5) by (auto simp: ts_Decided_def)
  moreover have "blk_Height c \<le> blk_Height b"
  proof (cases "blk_ID b = j")
    case False
    then have "blk_ID b \<in> sbelow (parU U) j" using assms(7) by (simp add: below_sbelow)
    then show ?thesis using sbelow_height [OF _ parents_parU _ assms(6) c(1)] assms(1) unfolding climbs_def by (simp add: less_imp_le)
  qed (use assms(6) c(1) in simp)
  ultimately show False using c(2) by simp
qed

lemma nearest_step:
  assumes "parU U i = Some p" "\<not> ts_Processing ts i"
  shows "nearest U ts i j \<longleftrightarrow> nearest U ts p j"
proof -
  have ij: "i \<in> below (parU U) k \<longleftrightarrow> i = k \<or> p \<in> below (parU U) k" for k
    using assms(1) by (simp add: below_sbelow [of i] sbelow_up [of i])
  show ?thesis
  proof (cases "j = i")
    case True
    then show ?thesis
      using assms ij [of i] ij [of p] by (auto simp: nearest_def below_sbelow [of i _ i])
  next
    case False
    then show ?thesis using assms(2) ij by (auto simp: nearest_def)
  qed
qed

section \<open>The credited block\<close>

definition credit :: "VM \<Rightarrow> Transitive \<Rightarrow> ID \<Rightarrow> engine_error + ID option" where
  "credit vm t vote =
     (case at_GetRoot (t_nonVerifieds t) vote of
        None \<Rightarrow> Inl EngineFuel
      | Some rootID \<Rightarrow>
          (case t_GetBlock vm t rootID of
             None \<Rightarrow> Inr None
           | Some blk \<Rightarrow>
               bindR (bubble_walk (Suc (vm_depth vm (blk_ID blk))) vm t (blk_ID blk) blk) (\<lambda>r.
                 case r of
                   None \<Rightarrow> Inr None
                 | Some blkID \<Rightarrow> Inr (if ts_Processing (t_Consensus t) blkID then Some blkID else None))))"

lemma bubble_vote_credit:
  "bubble_vote vm t votes vote b =
     bindR (credit vm t vote) (\<lambda>r. Inr (case r of None \<Rightarrow> b | Some j \<Rightarrow> AddCount b j (Count votes vote)))"
  by (auto simp: bubble_vote_def credit_def Let_def bindR_def split: option.splits sum.splits)

lemma bubble_walk_spec:
  assumes vm: "vm_ok U vm" and pend: "pending_ok U t" and cons: "cons_ok U root (t_Consensus t) nv"
    and i: "U i = Some b" and fuel: "vm_depth vm i < fuel"
  shows "\<exists>r. bubble_walk fuel vm t i b = Inr r \<and>
    (climbs U i \<and> (\<forall>k c. i \<in> below (parU U) k \<longrightarrow> U k = Some c \<longrightarrow> t_GetBlock vm t k = Some c) \<longrightarrow>
     (\<forall>j. r = Some j \<and> ts_Processing (t_Consensus t) j \<longleftrightarrow> nearest U (t_Consensus t) i j))"
  using i fuel
proof (induction fuel arbitrary: i b)
  case (Suc fuel)
  let ?ts = "t_Consensus t"
  note inv = cons_okD [OF cons] and un = vm_okD(1) [OF vm]
  have bi: "blk_ID b = i" using un Suc.prems(1) by (simp add: universe_ok_def)
  have fetched: "Status_Fetched (blk_Status t b)"
    using inv(3) Suc.prems(1) bi by (auto simp: blk_Status_def Status_fetched status_closed_def)
  show ?case
  proof (cases "isIssued t b i")
    case True
    have "nearest U ?ts i j \<longleftrightarrow> i = j \<and> ts_Processing ?ts j" if "climbs U i" for j
    proof (cases "ts_Processing ?ts i")
      case True
      have "k \<notin> sbelow (parU U) i" if "i \<in> below (parU U) k" for k
        using sbelow_trans(1) [OF that, of i] sbelow_irrefl [OF forest_parU [OF vm], of i] by blast
      with True show ?thesis by (auto simp: nearest_def below_sbelow [of i])
    next
      case False
      then have "ts_Decided ?ts b" using \<open>isIssued t b i\<close> by (simp add: isIssued_def)
      then show ?thesis using Decided_above [OF _ inv(7,9,3)] that bi Suc.prems(1) False by (auto simp: nearest_def)
    qed
    then show ?thesis using True by auto
  next
    case False
    then have np: "\<not> ts_Processing ?ts i" by (simp add: isIssued_def)
    have pi: "parU U i = Some (blk_Parent b)" using Suc.prems(1) by (simp add: parU_def)
    note step = nearest_step [of U, OF pi np]
    show ?thesis
    proof (cases "t_GetBlock vm t (blk_Parent b)")
      case None
      have "\<not> nearest U ?ts (blk_Parent b) j" if "\<forall>k c. i \<in> below (parU U) k \<longrightarrow> U k = Some c \<longrightarrow> t_GetBlock vm t k = Some c" for j
      proof -
        have "U (blk_Parent b) = None" using that below_parent [of "parU U", OF pi] None by force
        then show ?thesis
          using inv(7,9) by (auto simp: nearest_def parU_def below_root [of "parU U"] elim: Processing_U)
      qed
      then show ?thesis using False fetched None by (simp add: step)
    next
      case (Some c)
      note c = GetBlock_U [OF vm pend Some]
      have "vm_depth vm (blk_Parent b) < fuel"
        using vm_okD(9) [OF vm Suc.prems(1)] Suc.prems(2) c by fastforce
      with Suc.IH [of "blk_Parent b" c] c obtain r where r: "bubble_walk fuel vm t (blk_Parent b) c = Inr r"
        "climbs U (blk_Parent b) \<and> (\<forall>k c. blk_Parent b \<in> below (parU U) k \<longrightarrow> U k = Some c \<longrightarrow> t_GetBlock vm t k = Some c) \<longrightarrow>
          (\<forall>j. r = Some j \<and> ts_Processing ?ts j \<longleftrightarrow> nearest U ?ts (blk_Parent b) j)" by blast
      have "blk_Parent b \<in> below (parU U) k \<Longrightarrow> i \<in> below (parU U) k" for k
        using below_trans [OF below_parent [of "parU U", OF pi]] .
      moreover have "climbs U i \<Longrightarrow> climbs U (blk_Parent b)"
        using climbs_up below_parent [of "parU U", OF pi] by blast
      ultimately show ?thesis using r False fetched Some by (simp add: step)
    qed
  qed
qed simp

lemma credit_spec:
  assumes vm: "vm_ok U vm" and pend: "pending_ok U t" and cons: "cons_ok U root (t_Consensus t) (t_nonVerifieds t)"
  shows "\<exists>r. credit vm t v = Inr r \<and> (\<forall>j. r = Some j \<longrightarrow> ts_Processing (t_Consensus t) j) \<and>
    (climbs U v \<and> (\<forall>k c. v \<in> below (parU U) k \<longrightarrow> U k = Some c \<longrightarrow> t_GetBlock vm t k = Some c) \<longrightarrow>
     (\<forall>j. r = Some j \<longleftrightarrow> nearest U (t_Consensus t) v j))"
proof -
  let ?ts = "t_Consensus t" and ?par = "at_par (t_nonVerifieds t)"
  note inv = cons_okD [OF cons] and un = vm_okD(1) [OF vm]
  obtain r where r: "at_GetRoot (t_nonVerifieds t) v = Some r" "v \<in> dom ?par \<longrightarrow> r \<in> block_ids ?ts" "v \<in> below ?par r"
    by (rule nvt.anchored_root [OF inv(5)])
  have le: "v \<in> below (parU U) r" using below_mono [of ?par "parU U" r] parents_le_parU [OF inv(6)] r(3) by blast
  have near: "nearest U ?ts v j \<longleftrightarrow> nearest U ?ts r j" for j
  proof -
    have "(v, r) \<in> (up ?par)\<^sup>*" using r(3) by (simp add: below_def)
    then show ?thesis
    proof (induction rule: converse_rtrancl_induct)
      case (step x y)
      then have xy: "?par x = Some y" by (simp add: up_def)
      then have "\<not> ts_Processing ?ts x" using inv(5) by (auto simp: Processing_iff anchored_par_def)
      from nearest_step [OF parents_le_parU [OF inv(6) xy] this] step.IH show ?case by simp
    qed simp
  qed
  show ?thesis
  proof (cases "t_GetBlock vm t r")
    case None
    have "\<not> nearest U ?ts r j" if "\<forall>k c. v \<in> below (parU U) k \<longrightarrow> U k = Some c \<longrightarrow> t_GetBlock vm t k = Some c" for j
    proof -
      have "U r = None" using that le None by force
      then show ?thesis
        using inv(7,9) by (auto simp: nearest_def parU_def below_root [of "parU U"] elim: Processing_U)
    qed
    then show ?thesis using r(1) None near by (simp add: credit_def)
  next
    case (Some b)
    note b = GetBlock_U [OF vm pend Some]
    obtain q where q: "bubble_walk (Suc (vm_depth vm (blk_ID b))) vm t r b = Inr q"
      "climbs U r \<and> (\<forall>k c. r \<in> below (parU U) k \<longrightarrow> U k = Some c \<longrightarrow> t_GetBlock vm t k = Some c) \<longrightarrow>
         (\<forall>j. q = Some j \<and> ts_Processing ?ts j \<longleftrightarrow> nearest U ?ts r j)"
      using bubble_walk_spec [OF vm pend cons conjunct1 [OF b], of "Suc (vm_depth vm (blk_ID b))"] b by auto
    have "credit vm t v = Inr (case q of None \<Rightarrow> None | Some j \<Rightarrow> if ts_Processing ?ts j then Some j else None)"
      using r(1) Some b q(1) by (simp add: credit_def del: bubble_walk.simps split: option.split)
    moreover have "r \<in> below (parU U) k \<Longrightarrow> v \<in> below (parU U) k" for k using below_trans [OF le] .
    then have "\<forall>j. nearest U ?ts v j \<longleftrightarrow> q = Some j \<and> ts_Processing ?ts j"
      if "climbs U v" "\<forall>k c. v \<in> below (parU U) k \<longrightarrow> U k = Some c \<longrightarrow> t_GetBlock vm t k = Some c"
      using q(2) that climbs_up [OF that(1) le] unfolding near by blast
    ultimately show ?thesis by (cases q) auto
  qed
qed

section \<open>The bag of bubbled votes\<close>

lemma sum_BagList: "bag_inv b \<Longrightarrow> sum_list (map (Count b) (BagList b)) = Len b"
proof -
  assume b: "bag_inv b"
  have d: "distinct (BagList b)" using bag_inv_counts_ok [OF b] by (simp add: BagList_def counts_ok_def)
  have "Len b = (\<Sum>c\<in>set (BagList b). Count b c)"
    by (rule vote_bag.len_sum [OF b]) (auto simp: BagList_def Count_def mget0_notin)
  then show ?thesis using sum_list_distinct_conv_sum_set [OF d, of "Count b"] by simp
qed

lemma bubbleVotes_spec:
  assumes vm: "vm_ok U vm" and pend: "pending_ok U t" and cons: "cons_ok U root (t_Consensus t) (t_nonVerifieds t)"
    and votes: "bag_inv votes"
  shows "\<exists>b. bubbleVotes vm t votes = Inr b \<and> bag_inv b \<and> Len b \<le> Len votes \<and>
    (\<forall>j. Count b j = (\<Sum>v\<leftarrow>BagList votes. if credit vm t v = Inr (Some j) then Count votes v else 0))"
proof -
  have "\<exists>b. foldR (bubble_vote vm t votes) vs b0 = Inr b \<and> bag_inv b \<and> Len b \<le> Len b0 + sum_list (map (Count votes) vs) \<and>
    (\<forall>j. Count b j = Count b0 j + (\<Sum>v\<leftarrow>vs. if credit vm t v = Inr (Some j) then Count votes v else 0))"
    if "bag_inv b0" for vs b0
    using that
  proof (induction vs arbitrary: b0)
    case (Cons v vs)
    obtain r where r: "credit vm t v = Inr r" using credit_spec [OF vm pend cons] by blast
    let ?b = "case r of None \<Rightarrow> b0 | Some j \<Rightarrow> AddCount b0 j (Count votes v)"
    have nn: "0 \<le> Count votes v" by (rule Count_nonneg [OF votes])
    have b: "bag_inv ?b" "Len ?b \<le> Len b0 + Count votes v"
      "Count ?b j = Count b0 j + (if r = Some j then Count votes v else 0)" for j
      using Cons.prems nn by (auto simp: bag_inv_AddCount vote_bag.len_addc vote_bag.cnt_addc split: option.splits)
    from Cons.IH [OF b(1)] obtain b' where "foldR (bubble_vote vm t votes) vs ?b = Inr b'" "bag_inv b'"
      "Len b' \<le> Len ?b + sum_list (map (Count votes) vs)"
      "\<forall>j. Count b' j = Count ?b j + (\<Sum>v\<leftarrow>vs. if credit vm t v = Inr (Some j) then Count votes v else 0)" by blast
    moreover have "foldR (bubble_vote vm t votes) (v # vs) b0 = foldR (bubble_vote vm t votes) vs ?b"
      by (simp add: bubble_vote_credit [of vm t votes v] r)
    ultimately show ?case using b(2,3) r by (intro exI [of _ b']) auto
  qed simp
  from this [of emptyBag "BagList votes"] show ?thesis
    by (simp add: bubbleVotes_def sum_BagList [OF votes]) (simp add: Len_def Count_def emptyBag_def)
qed

end
