(* ===== verification/EngineSafety.thy ===== *)
theory EngineSafety
  imports EngineVotes
begin

text \<open>
  The invariant of the engine and that every step keeps it: an operation either succeeds in a state
  with the invariant or fails with an error that the virtual machine or an acceptor returned, or in a
  poll that a voter recorded after such an error. The
  rules on \<open>res\<close> reason about a fallible operation by the property of its result.
\<close>

section \<open>Results\<close>

fun engine_env_error :: "engine_error \<Rightarrow> bool" where
  "engine_env_error (ErrConsensus e) = env_error e"
| "engine_env_error PollSetPanic = False"
| "engine_env_error SlicePanic = False"
| "engine_env_error EngineFuel = False"
| "engine_env_error (PanicAfterFailedPoll e p) = False"
| "engine_env_error _ = True"

text \<open>A poll that was recorded after another one of the same voter had failed with \<open>e\<close>.\<close>

fun after_failed_poll :: "engine_error \<Rightarrow> bool" where
  "after_failed_poll (PanicAfterFailedPoll e p) = env_error e"
| "after_failed_poll _ = False"

text \<open>\<open>F\<close> tells whether calls of consensus to its environment may fail.\<close>

definition res :: "bool \<Rightarrow> ('a \<Rightarrow> bool) \<Rightarrow> engine_error + 'a \<Rightarrow> bool" where
  "res F Q r \<longleftrightarrow> (case r of Inl e \<Rightarrow> engine_env_error e \<or> F \<and> after_failed_poll e | Inr x \<Rightarrow> Q x)"

lemma res_simps [simp]: "res F Q (Inl e) = (engine_env_error e \<or> F \<and> after_failed_poll e)" "res F Q (Inr x) = Q x"
  by (simp_all add: res_def)

lemma res_bind: "res F P r \<Longrightarrow> (\<And>x. P x \<Longrightarrow> res F Q (f x)) \<Longrightarrow> res F Q (bindR r f)"
  by (cases r) simp_all

lemma res_mono: "res F P r \<Longrightarrow> (\<And>x. P x \<Longrightarrow> Q x) \<Longrightarrow> res F Q r"
  by (cases r) simp_all

lemma res_foldR: "P s \<Longrightarrow> (\<And>x s. x \<in> set xs \<Longrightarrow> P s \<Longrightarrow> res F P (f x s)) \<Longrightarrow> res F P (foldR f xs s)"
  by (induction xs arbitrary: s) (auto intro: res_bind)

lemma res_if: "(b \<Longrightarrow> res F Q x) \<Longrightarrow> (\<not> b \<Longrightarrow> res F Q y) \<Longrightarrow> res F Q (if b then x else y)"
  by simp

definition fallible :: "VM \<Rightarrow> bool" where
  "fallible vm \<longleftrightarrow> \<not> reliable (vm_env vm)"

section \<open>The invariant\<close>

definition blocked_ok :: "(ID \<Rightarrow> Block option) \<Rightarrow> Transitive \<Rightarrow> bool" where
  "blocked_ok U t \<longleftrightarrow> (\<forall>i. Issuer i \<in> set (t_objs t) \<longrightarrow> U (blk_ID (i_blk i)) = Some (i_blk i)) \<and>
     distinct (map fst (t_blocked t)) \<and>
     (\<forall>k ps p. map_of (t_blocked t) k = Some ps \<longrightarrow> p \<in> set ps \<longrightarrow> p < length (t_objs t))"

definition params_ok :: "Transitive \<Rightarrow> bool" where
  "params_ok t \<longleftrightarrow> ts_params (t_Consensus t) = t_Params t \<and>
     0 \<le> MixedQueryNumPushVdr (t_Params t) \<and> 0 \<le> MixedQueryNumPushNonVdr (t_Params t)"

definition engine_core :: "(ID \<Rightarrow> Block option) \<Rightarrow> ID \<Rightarrow> Transitive \<Rightarrow> bool" where
  "engine_core U root t \<longleftrightarrow> cons_ok U root (t_Consensus t) (t_nonVerifieds t) \<and> params_ok t \<and>
     set_ok (K (t_Params t)) (t_polls t) \<and> pending_ok U t \<and> blocked_ok U t"

text \<open>The virtual machine was last told the preference of consensus.\<close>

fun pref_call :: "vm_call \<Rightarrow> ID option \<Rightarrow> ID option" where
  "pref_call (SetPreference i) r = Some i"
| "pref_call _ r = r"

definition last_pref :: "vm_call list \<Rightarrow> ID option" where
  "last_pref cs = fold pref_call cs None"

lemma last_pref_snoc [simp]: "last_pref (cs @ [c]) = pref_call c (last_pref cs)"
  by (simp add: last_pref_def)

definition synced :: "Transitive \<Rightarrow> bool" where
  "synced t \<longleftrightarrow> last_pref (t_calls t) = Some (ts_Preference (t_Consensus t))"

definition engine_ok :: "(ID \<Rightarrow> Block option) \<Rightarrow> ID \<Rightarrow> bool \<Rightarrow> Transitive \<Rightarrow> bool" where
  "engine_ok U root S t \<longleftrightarrow> engine_core U root t \<and> (S \<longrightarrow> synced t)"

lemma engine_coreD:
  assumes "engine_core U root t"
  shows "cons_ok U root (t_Consensus t) (t_nonVerifieds t)" "params_ok t" "set_ok (K (t_Params t)) (t_polls t)"
    "pending_ok U t" "blocked_ok U t"
  using assms by (auto simp: engine_core_def)

text \<open>Fields the invariant does not depend on.\<close>

lemma engine_core_upd [simp]:
  "engine_core U root (t\<lparr>t_calls := a\<rparr>) = engine_core U root t"
  "engine_core U root (t\<lparr>t_samples := b\<rparr>) = engine_core U root t"
  "engine_core U root (t\<lparr>t_builds := b\<rparr>) = engine_core U root t"
  "engine_core U root (t\<lparr>t_RequestID := c\<rparr>) = engine_core U root t"
  "engine_core U root (t\<lparr>t_blkReqs := d\<rparr>) = engine_core U root t"
  "engine_core U root (t\<lparr>t_pendingBuildBlocks := e\<rparr>) = engine_core U root t"
  by (simp_all add: engine_core_def params_ok_def pending_ok_def blocked_ok_def)

lemma synced_upd [simp]:
  "synced (t\<lparr>t_samples := b\<rparr>) = synced t" "synced (t\<lparr>t_builds := b\<rparr>) = synced t"
  "synced (t\<lparr>t_RequestID := c\<rparr>) = synced t" "synced (t\<lparr>t_blkReqs := d\<rparr>) = synced t"
  "synced (t\<lparr>t_pendingBuildBlocks := e\<rparr>) = synced t" "synced (t\<lparr>t_polls := p\<rparr>) = synced t"
  "synced (t\<lparr>t_pending := q\<rparr>) = synced t" "synced (t\<lparr>t_nonVerifieds := v\<rparr>) = synced t"
  "synced (t\<lparr>t_objs := os\<rparr>) = synced t" "synced (t\<lparr>t_blocked := bl\<rparr>) = synced t"
  by (simp_all add: synced_def)

text \<open>
  The states during a notification: the invariant, at most \<open>N\<close> blocked ids, at least \<open>M\<close> objects in the
  store, and \<open>B\<close> blocks to build.
\<close>

definition inside :: "(ID \<Rightarrow> Block option) \<Rightarrow> ID \<Rightarrow> bool \<Rightarrow> nat \<Rightarrow> nat \<Rightarrow> int \<Rightarrow> Transitive \<Rightarrow> bool" where
  "inside U root S N M B t \<longleftrightarrow> engine_ok U root S t \<and> length (t_blocked t) \<le> N \<and> M \<le> length (t_objs t) \<and>
     t_pendingBuildBlocks t = B"

definition sized :: "nat \<Rightarrow> nat \<Rightarrow> int \<Rightarrow> Transitive \<Rightarrow> bool" where
  "sized N M B t \<longleftrightarrow> length (t_blocked t) \<le> N \<and> M \<le> length (t_objs t) \<and> t_pendingBuildBlocks t = B"

lemma inside_iff: "inside U root S N M B t \<longleftrightarrow> engine_core U root t \<and> (S \<longrightarrow> synced t) \<and> sized N M B t"
  by (auto simp: inside_def engine_ok_def sized_def)

lemma inside_mono: "inside U root S N M B t \<Longrightarrow> N \<le> N' \<Longrightarrow> M' \<le> M \<Longrightarrow> inside U root S N' M' B t"
  by (auto simp: inside_def)

lemma sized_upd [simp]:
  "sized N M B (t\<lparr>t_calls := a\<rparr>) = sized N M B t" "sized N M B (t\<lparr>t_samples := b\<rparr>) = sized N M B t"
  "sized N M B (t\<lparr>t_RequestID := c\<rparr>) = sized N M B t" "sized N M B (t\<lparr>t_blkReqs := d\<rparr>) = sized N M B t"
  "sized N M B (t\<lparr>t_polls := p\<rparr>) = sized N M B t" "sized N M B (t\<lparr>t_pending := q\<rparr>) = sized N M B t"
  "sized N M B (t\<lparr>t_nonVerifieds := v\<rparr>) = sized N M B t" "sized N M B (t\<lparr>t_Consensus := ts\<rparr>) = sized N M B t"
  by (simp_all add: sized_def)

section \<open>Small steps\<close>

lemma core_polls: "engine_core U root t \<Longrightarrow> set_ok (K (t_Params t)) ps \<Longrightarrow> engine_core U root (t\<lparr>t_polls := ps\<rparr>)"
  by (simp add: engine_core_def params_ok_def pending_ok_def blocked_ok_def)

lemma core_pending: "engine_core U root t \<Longrightarrow> pending_ok U (t\<lparr>t_pending := q\<rparr>) \<Longrightarrow> engine_core U root (t\<lparr>t_pending := q\<rparr>)"
  by (simp add: engine_core_def params_ok_def blocked_ok_def)

lemma core_blocked:
  "engine_core U root t \<Longrightarrow> blocked_ok U (t\<lparr>t_objs := os, t_blocked := bl\<rparr>) \<Longrightarrow>
   engine_core U root (t\<lparr>t_objs := os, t_blocked := bl\<rparr>)"
  by (simp add: engine_core_def params_ok_def pending_ok_def)

lemma core_consensus:
  "engine_core U root t \<Longrightarrow> cons_ok U root ts nv \<Longrightarrow> ts_params ts = ts_params (t_Consensus t) \<Longrightarrow>
   engine_core U root (t\<lparr>t_Consensus := ts, t_nonVerifieds := nv\<rparr>)"
  by (simp add: engine_core_def params_ok_def pending_ok_def blocked_ok_def)

lemma core_removeFromPending: "engine_core U root t \<Longrightarrow> engine_core U root (removeFromPending b t)"
  unfolding removeFromPending_def
  by (rule core_pending, assumption) (auto simp: engine_core_def pending_ok_def delete_conv' split: if_splits)

lemma frame_removeFromPending [simp]:
  "synced (removeFromPending b t) = synced t" "sized N M B (removeFromPending b t) = sized N M B t"
  "t_Consensus (removeFromPending b t) = t_Consensus t" "t_nonVerifieds (removeFromPending b t) = t_nonVerifieds t"
  by (simp_all add: removeFromPending_def)

lemma core_addToNonVerifieds:
  assumes "engine_core U root t" "U (blk_ID b) = Some b"
  shows "engine_core U root (addToNonVerifieds b t)"
proof (cases "\<not> isIssued t b (blk_ID b) \<and> (at_Has (t_nonVerifieds t) (blk_Parent b) \<or> ts_Processing (t_Consensus t) (blk_Parent b))")
  case True
  let ?nv = "t_nonVerifieds t"
  note inv = cons_okD [OF engine_coreD(1) [OF assms(1)]]
  have new: "blk_ID b \<notin> block_ids (t_Consensus t)" using not_issued(1) [OF inv(7)] True by (simp add: isIssued_def)
  have par: "blk_Parent b \<in> dom (at_par ?nv) \<union> block_ids (t_Consensus t)"
    using True by (auto simp: at_Has_eq Processing_iff)
  have same: "at_par ?nv (blk_ID b) = None \<or> at_par ?nv (blk_ID b) = Some (blk_Parent b)"
    using inv(6) assms(2) by (cases "at_par ?nv (blk_ID b)") (fastforce simp: parents_ok_def)+
  note add = nvt.anchored_add [OF inv(4,5) new par same] and eq = nvt.inv_add [OF inv(4) same]
  have "parents_ok U (at_par (at_Add (blk_ID b) (blk_Parent b) ?nv))"
    using inv(6) assms(2) eq by (auto simp: parents_ok_def)
  then have "cons_ok U root (t_Consensus t) (at_Add (blk_ID b) (blk_Parent b) ?nv)"
    using engine_coreD(1) [OF assms(1)] add by (simp add: cons_ok_def)
  from core_consensus [OF assms(1) this] show ?thesis using True by (auto simp: addToNonVerifieds_def Let_def)
qed (use assms(1) in \<open>auto simp: addToNonVerifieds_def Let_def\<close>)

lemma frame_addToNonVerifieds [simp]:
  "synced (addToNonVerifieds b t) = synced t" "sized N M B (addToNonVerifieds b t) = sized N M B t"
  "t_Consensus (addToNonVerifieds b t) = t_Consensus t"
  by (simp_all add: addToNonVerifieds_def Let_def)

lemma core_RemoveAny [simp]:
  "engine_core U root (t_RemoveAny i t) = engine_core U root t" "synced (t_RemoveAny i t) = synced t"
  "sized N M B (t_RemoveAny i t) = sized N M B t"
  by (simp_all add: t_RemoveAny_def)

lemma core_call [simp]:
  "engine_core U root (t_call c t) = engine_core U root t" "sized N M B (t_call c t) = sized N M B t"
  by (simp_all add: t_call_def)

lemma synced_call [simp]: "\<forall>i. c \<noteq> SetPreference i \<Longrightarrow> synced (t_call c t) = synced t"
  by (cases c) (simp_all add: t_call_def synced_def)

lemma inside_removeFromPending: "inside U root S N M B t \<Longrightarrow> inside U root S N M B (removeFromPending b t)"
  by (simp add: inside_iff core_removeFromPending)

lemma inside_addToNonVerifieds:
  "inside U root S N M B t \<Longrightarrow> U (blk_ID b) = Some b \<Longrightarrow> inside U root S N M B (addToNonVerifieds b t)"
  by (simp add: inside_iff core_addToNonVerifieds)

lemma inside_sendRequest: "inside U root S N M B t \<Longrightarrow> inside U root S N M B (sendRequest nodeID i t)"
  by (simp add: inside_iff sendRequest_def Let_def)

section \<open>Queries\<close>

lemma sample_bag: "nbag_inv (nAdd emptyNodeIDBag vdrs) \<and> nLen (nAdd emptyNodeIDBag vdrs) = int (length vdrs)"
proof -
  have "nbag_inv b \<Longrightarrow> nbag_inv (nAdd b vdrs) \<and> nLen (nAdd b vdrs) = nLen b + int (length vdrs)" for b
    by (induction vdrs arbitrary: b) (auto simp: nAdd_def vdr_bag.inv_addc vdr_bag.len_addc)
  from this [of emptyNodeIDBag] show ?thesis using vdr_bag.inv_empty by (simp add: nLen_def emptyNodeIDBag_def)
qed

lemma query_polls:
  assumes "vm_ok U vm" "engine_core U root t" "vm_Sample vm n (K (t_Params t)) = Some vdrs"
  shows "set_ok (K (t_Params t)) (fst (set_Add r (nAdd emptyNodeIDBag vdrs) (t_polls t)))"
  using vm_okD(7) [OF assms(1,3)] sample_bag [of vdrs]
  by (intro set_ok_Add [OF engine_coreD(3) [OF assms(2)]]) simp_all

lemma inside_pullQuery:
  assumes "vm_ok U vm" "inside U root S N M B t"
  shows "inside U root S N M B (pullQuery vm i t)"
proof (cases "vm_Sample vm (t_samples t) (K (t_Params t))")
  case (Some vdrs)
  let ?r = "t_RequestID t + 1" and ?bag = "nAdd emptyNodeIDBag vdrs"
  obtain ps added where ps: "set_Add ?r ?bag (t_polls t) = (ps, added)" by fastforce
  have "set_ok (K (t_Params t)) ps"
    using query_polls [OF assms(1) _ Some, of root ?r] assms(2) ps by (simp add: inside_iff)
  then have "engine_core U root (t\<lparr>t_samples := Suc (t_samples t), t_RequestID := ?r, t_polls := ps\<rparr>)"
    using assms(2) core_polls [of U root "t\<lparr>t_samples := Suc (t_samples t), t_RequestID := ?r\<rparr>"] by (simp add: inside_iff)
  then show ?thesis using assms(2) Some ps by (simp add: pullQuery_def t_Sample_def inside_iff Let_def)
qed (use assms(2) in \<open>simp add: pullQuery_def t_Sample_def inside_iff\<close>)

lemma inside_repoll: "vm_ok U vm \<Longrightarrow> inside U root S N M B t \<Longrightarrow> inside U root S N M B (repoll vm t)"
proof -
  assume "vm_ok U vm" "inside U root S N M B t"
  then have "inside U root S N M B ((pullQuery vm i ^^ n) t)" for i n by (induction n) (auto intro: inside_pullQuery)
  then show ?thesis by (simp add: repoll_def Let_def)
qed

lemma inside_sendMixedQuery:
  assumes "vm_ok U vm" "inside U root S N M B t"
  shows "res (fallible vm) (inside U root S N M B) (sendMixedQuery vm b t)"
proof (cases "vm_Sample vm (t_samples t) (K (t_Params t))")
  case (Some vdrs)
  let ?r = "t_RequestID t + 1" and ?bag = "nAdd emptyNodeIDBag vdrs"
  obtain ps added where ps: "set_Add ?r ?bag (t_polls t) = (ps, added)" by fastforce
  have "set_ok (K (t_Params t)) ps"
    using query_polls [OF assms(1) _ Some, of root ?r] assms(2) ps by (simp add: inside_iff)
  then have "engine_core U root (t\<lparr>t_samples := Suc (t_samples t), t_RequestID := ?r, t_polls := ps\<rparr>)"
    using assms(2) core_polls [of U root "t\<lparr>t_samples := Suc (t_samples t), t_RequestID := ?r\<rparr>"] by (simp add: inside_iff)
  moreover have "0 \<le> MixedQueryNumPushVdr (t_Params t)" "0 \<le> MixedQueryNumPushNonVdr (t_Params t)"
    using assms(2) by (auto simp: inside_iff engine_core_def params_ok_def)
  ultimately show ?thesis using assms(2) Some ps
    by (simp add: sendMixedQuery_def t_Sample_def inside_iff Let_def SendMixedQuery_def)
qed (use assms(2) in \<open>simp add: sendMixedQuery_def t_Sample_def inside_iff\<close>)

section \<open>Votes\<close>

lemma mapR_ok: "(\<And>x. x \<in> set xs \<Longrightarrow> \<exists>y. f x = Inr y \<and> P y) \<Longrightarrow> \<exists>ys. mapR f xs = Inr ys \<and> list_all P ys"
proof (induction xs)
  case (Cons x xs)
  then obtain y ys where "f x = Inr y" "P y" "mapR f xs = Inr ys" "list_all P ys" by (meson list.set_intros)
  then show ?case by simp
qed simp

lemma inside_SetPreference:
  "engine_core U root t \<Longrightarrow> sized N M B t \<Longrightarrow> res (fallible vm) (inside U root S N M B) (t_SetPreference vm (ts_Preference (t_Consensus t)) t)"
  by (simp add: t_SetPreference_def inside_iff t_call_def synced_def)

lemma env_error_failed: "env_error e \<longleftrightarrow> failed_call e \<noteq> None"
  by (cases e) (simp_all add: env_error_def)

lemma memoryBlocks_ok:
  assumes "perm_ok (vm_range vm)" "at_inv (t_nonVerifieds t)" "anchored_par A (at_par (t_nonVerifieds t))"
  shows "\<exists>t'. memoryBlocks vm ts failed t = Inr t' \<and> at_inv (t_nonVerifieds t') \<and> (\<exists>A. anchored_par A (at_par (t_nonVerifieds t')))"
proof -
  obtain nv where nv: "foldR (memoryBlock_event (vm_range vm)) (drop (length (ts_trace (t_Consensus t))) (ts_trace ts) @ failed)
      (t_nonVerifieds t) = Inr nv" "at_inv nv" "\<exists>A. anchored_par A (at_par nv)"
    using memoryBlock_events [OF assms] by blast
  then show ?thesis by (intro exI [of _ "t\<lparr>t_Consensus := ts, t_nonVerifieds := nv\<rparr>"]) (simp add: memoryBlocks_def)
qed

text \<open>After a failed poll the remaining ones are recorded; only a panic hides its error.\<close>

lemma recordPolls_failed:
  assumes "perm_ok (vm_range vm)" "at_inv (t_nonVerifieds t)" "anchored_par A (at_par (t_nonVerifieds t))"
  shows "(\<exists>p. recordPolls vm rs (Some e) t = Inl (PanicAfterFailedPoll e p)) \<or> (\<exists>t'. recordPolls vm rs (Some e) t = Inr (Some e, t'))"
  using assms(2,3)
proof (induction rs arbitrary: t A)
  case (Cons r rs)
  let ?r = "ts_RecordPoll (vm_env vm) r (t_Consensus t)"
  note mem = memoryBlocks_ok [OF assms(1) Cons.prems]
  show ?case
  proof (cases ?r)
    case (Inr ts)
    obtain t' A' where "memoryBlocks vm ts [] t = Inr t'" "at_inv (t_nonVerifieds t')" "anchored_par A' (at_par (t_nonVerifieds t'))"
      using mem [of ts "[]"] by blast
    then show ?thesis using Cons.IH [of t' A'] Inr by (simp add: consensus_RecordPoll_def consensus_call_def)
  next
    case (Inl e')
    show ?thesis
    proof (cases "failed_call e'")
      case (Some x)
      obtain ts failed where x: "x = (ts, failed)" by fastforce
      obtain t' A' where "memoryBlocks vm ts failed t = Inr t'" "at_inv (t_nonVerifieds t')" "anchored_par A' (at_par (t_nonVerifieds t'))"
        using mem [of ts failed] by blast
      then show ?thesis using Cons.IH [of t' A'] Inl Some x by (simp add: consensus_RecordPoll_def consensus_call_def)
    qed (use Inl in \<open>simp add: consensus_RecordPoll_def consensus_call_def\<close>)
  qed
qed simp

lemma core_recordPolls:
  assumes vm: "vm_ok U vm" and "engine_core U root t" "sized N M B t" "t_Params t = prm"
    and "\<And>b. b \<in> set rs \<Longrightarrow> bag_inv b \<and> Len b \<le> K prm"
  shows "res (fallible vm) (\<lambda>(errs, t). case errs of Some e \<Rightarrow> env_error e
      | None \<Rightarrow> engine_core U root t \<and> sized N M B t \<and> t_Params t = prm) (recordPolls vm rs None t)"
  using assms(2-)
proof (induction rs arbitrary: t)
  case (Cons r rs)
  note cons = engine_coreD(1) [OF Cons.prems(1)]
  have "ts_params (t_Consensus t) = prm" using engine_coreD(2) [OF Cons.prems(1)] Cons.prems(3) by (simp add: params_ok_def)
  then have r: "bag_inv r" "Len r \<le> K (ts_params (t_Consensus t))" using Cons.prems(4) [of r] by simp_all
  note poll = consensus_RecordPoll_ok [OF cons vm_okD(2,3) [OF vm] r]
  show ?case
  proof (cases "consensus_RecordPoll vm r t")
    case (Inl e)
    then obtain e' where e': "e = ErrConsensus e'" "env_error e'" "fallible vm" using poll by (auto simp: fallible_def)
    then obtain ts failed where f: "failed_call e' = Some (ts, failed)" by (auto simp: env_error_failed)
    obtain t' A where t': "memoryBlocks vm ts failed t = Inr t'" "at_inv (t_nonVerifieds t')" "anchored_par A (at_par (t_nonVerifieds t'))"
      using memoryBlocks_ok [OF vm_okD(3) [OF vm] cons_okD(4,5) [OF cons]] by blast
    show ?thesis
      using recordPolls_failed [OF vm_okD(3) [OF vm] t'(2,3), of rs e'] Inl e' f t'(1) by auto
  next
    case (Inr t')
    then obtain ts nv where ts: "t' = t\<lparr>t_Consensus := ts, t_nonVerifieds := nv\<rparr>" "cons_ok U root ts nv"
      "ts_params ts = ts_params (t_Consensus t)" using poll by auto
    then show ?thesis
      using Cons.IH [of t'] Cons.prems core_consensus [OF Cons.prems(1) ts(2,3)] Inr by simp
  qed
qed simp

lemma inside_voter_Update:
  assumes vm: "vm_ok U vm" and t: "inside U root S N M B t"
  shows "res (fallible vm) (inside U root S N M B) (voter_Update vm v t)"
proof (cases "v_deps v = []")
  case True
  let ?prm = "t_Params t"
  have core: "engine_core U root t" "S \<longrightarrow> synced t" "sized N M B t" using t by (auto simp: inside_iff)
  obtain ps rs where ps: "(if v_response v = 0 then set_Drop (v_requestID v) (v_vdr v) (t_polls t)
      else set_Vote (v_requestID v) (v_vdr v) (v_response v) (t_polls t)) = Some (ps, rs)"
      "set_ok (K ?prm) ps" "list_all (\<lambda>b. bag_inv b \<and> Len b \<le> K ?prm) rs"
    using set_step_ok [OF engine_coreD(3) [OF core(1)], of "E_Drop (v_requestID v) (v_vdr v)"]
      set_step_ok [OF engine_coreD(3) [OF core(1)], of "E_Vote (v_requestID v) (v_vdr v) (v_response v)"]
    by (cases "v_response v = 0") auto
  define t1 where "t1 = t\<lparr>t_polls := ps\<rparr>"
  have t1: "engine_core U root t1" "S \<longrightarrow> synced t1" "sized N M B t1" "t_Params t1 = ?prm"
    using core core_polls [OF core(1) ps(2)] by (simp_all add: t1_def)
  have "\<exists>ys. mapR (bubbleVotes vm t1) rs = Inr ys \<and> list_all (\<lambda>b. bag_inv b \<and> Len b \<le> K ?prm) ys"
  proof (rule mapR_ok)
    fix b assume "b \<in> set rs"
    then have b: "bag_inv b" "Len b \<le> K ?prm" using ps(3) by (auto simp: list_all_iff)
    show "\<exists>y. bubbleVotes vm t1 b = Inr y \<and> bag_inv y \<and> Len y \<le> K ?prm"
      using bubbleVotes_spec [OF vm engine_coreD(4,1) [OF t1(1)] b(1)] b(2) by force
  qed
  then obtain ys where ys: "mapR (bubbleVotes vm t1) rs = Inr ys" "\<And>b. b \<in> set ys \<Longrightarrow> bag_inv b \<and> Len b \<le> K ?prm"
    by (auto simp: list_all_iff)
  have "res (fallible vm) (inside U root S N M B)
      (bindR (recordPolls vm ys None t1) (\<lambda>(errs, t). case errs of Some e \<Rightarrow> Inl (ErrConsensus e)
       | None \<Rightarrow> bindR (t_SetPreference vm (ts_Preference (t_Consensus t)) t) (\<lambda>t.
         if ts_Finalized (t_Consensus t) then Inr t else Inr (repoll vm t))))"
  proof (rule res_bind [OF core_recordPolls [OF vm t1(1,3,4) ys(2)]], assumption, clarify)
    fix errs s assume e: "case errs of Some e \<Rightarrow> env_error e | None \<Rightarrow> engine_core U root s \<and> sized N M B s \<and> t_Params s = ?prm"
    show "res (fallible vm) (inside U root S N M B) (case errs of Some e \<Rightarrow> Inl (ErrConsensus e)
       | None \<Rightarrow> bindR (t_SetPreference vm (ts_Preference (t_Consensus s)) s) (\<lambda>t.
         if ts_Finalized (t_Consensus t) then Inr t else Inr (repoll vm t)))"
    proof (cases errs)
      case None
      have "res (fallible vm) (inside U root S N M B) (bindR (t_SetPreference vm (ts_Preference (t_Consensus s)) s)
          (\<lambda>t. if ts_Finalized (t_Consensus t) then Inr t else Inr (repoll vm t)))"
        using e None by (intro res_bind [OF inside_SetPreference]) (auto intro: inside_repoll [OF vm])
      then show ?thesis using None by simp
    qed (use e in simp)
  qed
  moreover have "inside U root S N M B t1" using t1 by (simp add: inside_iff)
  ultimately show ?thesis using True ps(1) ys(1) unfolding voter_Update_def t1_def by (simp add: Let_def)
qed (use t in \<open>simp add: voter_Update_def\<close>)

section \<open>Delivering blocks\<close>

text \<open>The options of block \<open>i\<close> that can still be delivered; \<open>V\<close> are the blocks that verify.\<close>

definition opts_ok :: "(Block \<Rightarrow> bool) \<Rightarrow> (ID \<Rightarrow> Block option) \<Rightarrow> ID \<Rightarrow> Block list \<Rightarrow> Topological \<Rightarrow> bool" where
  "opts_ok V U i opts ts \<longleftrightarrow> (i \<in> block_ids ts \<or> Status_Decided (ts_status ts i)) \<and> distinct (map blk_ID opts) \<and>
     (\<forall>b\<in>set opts. U (blk_ID b) = Some b \<and> blk_Parent b = i \<and> blk_ID b \<noteq> i \<and> (V b \<longrightarrow> \<not> ts_Decided ts b) \<and> blk_ID b \<notin> block_ids ts)"

lemma opts_okD:
  assumes "opts_ok V U i opts ts"
  shows "i \<in> block_ids ts \<or> Status_Decided (ts_status ts i)" "distinct (map blk_ID opts)"
    "b \<in> set opts \<Longrightarrow> U (blk_ID b) = Some b" "b \<in> set opts \<Longrightarrow> blk_Parent b = i" "b \<in> set opts \<Longrightarrow> blk_ID b \<noteq> i"
    "b \<in> set opts \<Longrightarrow> V b \<Longrightarrow> \<not> ts_Decided ts b" "b \<in> set opts \<Longrightarrow> blk_ID b \<notin> block_ids ts"
  using assms unfolding opts_ok_def by blast+

lemma opts_ok_change:
  assumes "ts_height ts = ts_height ts0"
    and same: "\<forall>k. k \<noteq> j \<longrightarrow> ts_status ts k = ts_status ts0 k \<and> (k \<in> block_ids ts \<longleftrightarrow> k \<in> block_ids ts0)"
    and "i \<in> block_ids ts \<or> Status_Decided (ts_status ts i)" and "distinct (map blk_ID opts)"
    and old: "\<And>b. b \<in> set opts \<Longrightarrow> U (blk_ID b) = Some b \<and> blk_Parent b = i \<and> blk_ID b \<noteq> i \<and> blk_ID b \<noteq> j \<and>
      (V b \<longrightarrow> \<not> ts_Decided ts0 b) \<and> blk_ID b \<notin> block_ids ts0"
  shows "opts_ok V U i opts ts"
proof -
  have "ts_Decided ts b = ts_Decided ts0 b" if "b \<in> set opts" for b
  proof -
    have "ts_status ts (blk_ID b) = ts_status ts0 (blk_ID b)" using same old [OF that] by blast
    then show ?thesis by (simp add: ts_Decided_def assms(1))
  qed
  then show ?thesis using assms unfolding opts_ok_def by blast
qed

lemma opts_fresh:
  assumes vm: "vm_ok U vm" and cons: "cons_ok U root ts nv" and blk: "U (blk_ID blk) = Some blk"
    and un: "\<not> ts_Decided ts blk" "\<not> ts_Processing ts (blk_ID blk)"
    and b: "U (blk_ID b) = Some b" "blk_Parent b = blk_ID blk"
  shows "blk_ID b \<noteq> blk_ID blk" "\<not> vm_Verify vm b \<Longrightarrow> \<not> ts_Decided ts b" "blk_ID b \<notin> block_ids ts"
proof -
  note inv = cons_okD [OF cons]
  have Up: "U (blk_Parent b) = Some blk" using b(2) blk by simp
  have d: "vm_depth vm (blk_ID blk) < vm_depth vm (blk_ID b)" using vm_okD(9) [OF vm b(1) Up] b(2) by simp
  then show "blk_ID b \<noteq> blk_ID blk"
    by auto
  have new: "blk_ID blk \<notin> block_ids ts" "\<not> Status_Decided (ts_status ts (blk_ID blk))" using not_issued [OF inv(7) un] by blast+
  have "ts_status ts (blk_ID blk) \<noteq> Unknown" by (rule status_closedD(1) [OF inv(3) blk])
  with new(2) have "ts_status ts (blk_ID blk) = Processing" by (cases "ts_status ts (blk_ID blk)") auto
  with un(1) have "ts_height ts < blk_Height blk" by (simp add: ts_Decided_def)
  then have hb: "ts_height ts < blk_Height b" if "\<not> vm_Verify vm b"
    using vm_okD(8) [OF vm b(1) that] Up by (auto simp: rises_def intro: less_trans)
  have ub: "\<not> Status_Decided (ts_status ts (blk_ID b))" using status_closedD(2) [OF inv(3) b(1) Up] new(2) b(2) by auto
  with hb show "\<not> vm_Verify vm b \<Longrightarrow> \<not> ts_Decided ts b" by (simp add: ts_Decided_def not_le)
  show "blk_ID b \<notin> block_ids ts"
  proof
    assume in_tree: "blk_ID b \<in> block_ids ts"
    have "blk_ID b \<noteq> ts_head ts" using blocks_okD(4) [OF inv(7)] ub by auto
    then obtain q where q: "par_of ts (blk_ID b) = Some q" using dom_par_of [OF inv(7)] in_tree by blast
    then have "q = blk_ID blk" using parents_okD [OF inv(2) q b(1)] b(2) by simp
    then show False using par_of_in [OF inv(7) q] new(1) by simp
  qed
qed

lemma deliver_option_ok:
  assumes vm: "vm_ok U vm" and t: "engine_core U root t" "sized N M B t" and o: "opts_ok (\<lambda>b. \<not> vm_Verify vm b) U i (b # opts) (t_Consensus t)"
    and l: "\<forall>b\<in>set added \<union> set dropped. U (blk_ID b) = Some b"
  shows "res (fallible vm) (\<lambda>(added, dropped, t). engine_core U root t \<and> sized N M B t \<and> opts_ok (\<lambda>b. \<not> vm_Verify vm b) U i opts (t_Consensus t) \<and>
      (\<forall>b\<in>set added \<union> set dropped. U (blk_ID b) = Some b)) (deliver_option vm b (added, dropped, t))"
proof (cases "vm_Verify vm b")
  case True
  have b: "U (blk_ID b) = Some b" using opts_okD(3) [OF o] by simp
  have "opts_ok (\<lambda>b. \<not> vm_Verify vm b) U i opts (t_Consensus t)" using o unfolding opts_ok_def by simp
  then show ?thesis using True t l b core_addToNonVerifieds [OF t(1) b] by (simp add: deliver_option_def)
next
  case False
  have b: "U (blk_ID b) = Some b" "blk_Parent b = i" "blk_ID b \<noteq> i" "\<not> isIssued t b (blk_ID b)"
    using opts_okD(3-7) [OF o, of b] False by (simp_all add: isIssued_def Processing_iff)
  note i = opts_okD(1) [OF o]
  note add = consensus_Add_ok [OF engine_coreD(1) [OF t(1)] vm_okD(3) [OF vm] b(1,4) vm_okD(8) [OF vm b(1) False] i [folded b(2)]]
  have opts: "opts_ok (\<lambda>b. \<not> vm_Verify vm b) U i opts ts"
    if "ts_height ts = ts_height (t_Consensus t)" "\<forall>j. j \<noteq> blk_ID b \<longrightarrow> ts_status ts j = ts_status (t_Consensus t) j \<and>
        (j \<in> block_ids ts \<longleftrightarrow> j \<in> block_ids (t_Consensus t))" for ts
  proof (rule opts_ok_change [OF that])
    show "i \<in> block_ids ts \<or> Status_Decided (ts_status ts i)" using b(3) i that(2) by (metis (no_types))
    show "distinct (map blk_ID opts)" using opts_okD(2) [OF o] by simp
    show "U (blk_ID c) = Some c \<and> blk_Parent c = i \<and> blk_ID c \<noteq> i \<and> blk_ID c \<noteq> blk_ID b \<and>
        (\<not> vm_Verify vm c \<longrightarrow> \<not> ts_Decided (t_Consensus t) c) \<and> blk_ID c \<notin> block_ids (t_Consensus t)" if "c \<in> set opts" for c
    proof -
      have "blk_ID c \<noteq> blk_ID b" using opts_okD(2) [OF o] imageI [OF that, of blk_ID] by auto
      then show ?thesis using opts_okD(3-7) [OF o, of c] that by simp
    qed
  qed
  show ?thesis
  proof (cases "consensus_Add vm b (t\<lparr>t_nonVerifieds := at_Remove (blk_ID b) (t_nonVerifieds t)\<rparr>)")
    case (Inl e)
    then show ?thesis using add False by (auto simp: deliver_option_def Let_def)
  next
    case (Inr t')
    then obtain ts nv where ts: "t' = t\<lparr>t_Consensus := ts, t_nonVerifieds := nv\<rparr>" "cons_ok U root ts nv"
      "ts_params ts = ts_params (t_Consensus t)" "ts_height ts = ts_height (t_Consensus t)"
      "\<forall>j. j \<noteq> blk_ID b \<longrightarrow> ts_status ts j = ts_status (t_Consensus t) j \<and> (j \<in> block_ids ts \<longleftrightarrow> j \<in> block_ids (t_Consensus t))"
      using add by auto
    then show ?thesis using Inr False t l b(1) core_consensus [OF t(1) ts(2,3)] opts [OF ts(4,5)]
      by (simp add: deliver_option_def Let_def)
  qed
qed

lemma deliver_options_ok:
  assumes vm: "vm_ok U vm" and t: "engine_core U root t" "sized N M B t"
    and o: "\<And>b1 b2. vm_Options vm blk = Options b1 b2 \<Longrightarrow> opts_ok (\<lambda>b. \<not> vm_Verify vm b) U (blk_ID blk) [b1, b2] (t_Consensus t)"
  shows "res (fallible vm) (\<lambda>(added, dropped, t). engine_core U root t \<and> sized N M B t \<and>
      (\<forall>b\<in>set added \<union> set dropped. U (blk_ID b) = Some b)) (deliver_options vm blk t)"
proof (cases "vm_Options vm blk")
  case (Options b1 b2)
  show ?thesis
    unfolding deliver_options_def Options Oracle.case foldR.simps
  proof (rule res_bind [OF deliver_option_ok [OF vm t o [OF Options]]], simp, clarify, rule res_bind)
    fix added dropped t assume "opts_ok (\<lambda>b. \<not> vm_Verify vm b) U (blk_ID blk) [b2] (t_Consensus t)" "engine_core U root t" "sized N M B t"
      "\<forall>b\<in>set added \<union> set dropped. U (blk_ID b) = Some b"
    then show "res (fallible vm) (\<lambda>(added, dropped, t). engine_core U root t \<and> sized N M B t \<and> opts_ok (\<lambda>b. \<not> vm_Verify vm b) U (blk_ID blk) [] (t_Consensus t) \<and>
        (\<forall>b\<in>set added \<union> set dropped. U (blk_ID b) = Some b)) (deliver_option vm b2 (added, dropped, t))"
      by (intro deliver_option_ok [OF vm])
  qed auto
qed (use t in \<open>simp_all add: deliver_options_def\<close>)

definition notifier_ok :: "bool \<Rightarrow> (ID \<Rightarrow> Block option) \<Rightarrow> ID \<Rightarrow> bool \<Rightarrow> nat \<Rightarrow> nat \<Rightarrow> int \<Rightarrow> notifier \<Rightarrow> bool" where
  "notifier_ok F U root S N M B notify \<longleftrightarrow>
     (\<forall>ab i t. inside U root S N M B t \<longrightarrow> res F (inside U root S N M B) (notify ab i t))"

lemma inside_deliver:
  assumes vm: "vm_ok U vm" and nt: "notifier_ok (fallible vm) U root S N M B notify" and t: "inside U root S N M B t" and blk: "U (blk_ID blk) = Some blk"
  shows "res (fallible vm) (inside U root S N M B) (deliver notify vm blk t)"
proof -
  let ?i = "blk_ID blk" and ?t = "removeFromPending blk t" and ?p = "blk_Parent blk"
  define orphan where "orphan \<longleftrightarrow> (case t_GetBlock vm ?t ?p of None \<Rightarrow> True
      | Some parent \<Rightarrow> \<not> (blk_Status ?t parent = Accepted \<or> ts_Processing (t_Consensus ?t) ?p))"
  have nt': "inside U root S N M B s \<Longrightarrow> res (fallible vm) (inside U root S N M B) (notify ab j s)" for ab j s
    using nt by (simp add: notifier_ok_def)
  have t1: "inside U root S N M B ?t" by (rule inside_removeFromPending [OF t])
  then have core: "engine_core U root ?t" "sized N M B ?t" by (auto simp: inside_iff)
  let ?rest = "\<lambda>t. bindR (deliver_options vm blk t) (\<lambda>(added, dropped, t).
          bindR (t_SetPreference vm (ts_Preference (t_Consensus t)) t) (\<lambda>t.
          bindR (if IsPreferred (t_Consensus t) blk then sendMixedQuery vm blk t else Inr t) (\<lambda>t.
          bindR (notify False ?i t) (\<lambda>t.
          bindR (foldR (deliver_added notify vm) added t) (\<lambda>t.
          bindR (foldR (deliver_dropped notify) dropped t) (\<lambda>t.
          Inr (repoll vm t)))))))"
  have query: "res (fallible vm) (inside U root S N M B) (if IsPreferred (t_Consensus s) b then sendMixedQuery vm b s else Inr s)"
    if "inside U root S N M B s" for s b using that inside_sendMixedQuery [OF vm that] by simp
  have added: "res (fallible vm) (inside U root S N M B) (deliver_added notify vm b s)" if "inside U root S N M B s" for b s
    unfolding deliver_added_def
    by (rule res_bind [OF query [OF that]], rule res_bind [OF nt' [OF inside_removeFromPending]], assumption)
      (simp add: inside_iff)
  have dropped: "res (fallible vm) (inside U root S N M B) (deliver_dropped notify b s)" if "inside U root S N M B s" for b s
    unfolding deliver_dropped_def
    by (rule res_bind [OF nt' [OF inside_removeFromPending [OF that]]]) (simp add: inside_iff)
  have rest: "res (fallible vm) (inside U root S N M B) (?rest s)" if s: "engine_core U root s" "sized N M B s"
      "\<And>b1 b2. vm_Options vm blk = Options b1 b2 \<Longrightarrow> opts_ok (\<lambda>b. \<not> vm_Verify vm b) U ?i [b1, b2] (t_Consensus s)" for s
    by (rule res_bind [OF deliver_options_ok [OF vm s]], assumption, clarify, rule res_bind [OF inside_SetPreference], assumption+,
        rule res_bind [OF query], assumption, rule res_bind [OF nt'], assumption,
        rule res_bind [OF res_foldR [where P = "inside U root S N M B"]], assumption, rule added, assumption,
        rule res_bind [OF res_foldR [where P = "inside U root S N M B"]], assumption, rule dropped, assumption)
      (simp add: inside_repoll [OF vm])
  have issue: "res (fallible vm) (inside U root S N M B) (bindR (consensus_Add vm blk (?t\<lparr>t_nonVerifieds := at_Remove ?i (t_nonVerifieds ?t)\<rparr>)) ?rest)"
    if un: "\<not> isIssued t blk ?i" and no: "\<not> orphan" and ver: "\<not> vm_Verify vm blk"
  proof -
    have un': "\<not> isIssued ?t blk ?i" "\<not> ts_Decided (t_Consensus ?t) blk" "\<not> ts_Processing (t_Consensus ?t) ?i"
      using un by (auto simp: isIssued_def)
    obtain q where q: "t_GetBlock vm ?t ?p = Some q" "blk_Status ?t q = Accepted \<or> ts_Processing (t_Consensus ?t) ?p"
      using no by (auto simp: orphan_def split: option.splits)
    have "blk_ID q = ?p" using GetBlock_U [OF vm engine_coreD(4) [OF core(1)] q(1)] by simp
    then have par: "?p \<in> block_ids (t_Consensus ?t) \<or> Status_Decided (ts_status (t_Consensus ?t) ?p)"
      using q(2) by (auto simp: blk_Status_def Processing_iff)
    note add = consensus_Add_ok [OF engine_coreD(1) [OF core(1)] vm_okD(3) [OF vm] blk un'(1) vm_okD(8) [OF vm blk ver] par]
    note fresh = opts_fresh [OF vm engine_coreD(1) [OF core(1)] blk un'(2,3)]
    show ?thesis
    proof (rule res_bind [where P = "\<lambda>s. engine_core U root s \<and> sized N M B s \<and>
        (\<forall>b1 b2. vm_Options vm blk = Options b1 b2 \<longrightarrow> opts_ok (\<lambda>b. \<not> vm_Verify vm b) U ?i [b1, b2] (t_Consensus s))"])
      have "opts_ok (\<lambda>b. \<not> vm_Verify vm b) U ?i [b1, b2] ts"
        if "vm_Options vm blk = Options b1 b2" "ts_height ts = ts_height (t_Consensus ?t)"
          "?i \<in> block_ids ts \<or> Status_Decided (ts_status ts ?i)"
          "\<forall>j. j \<noteq> ?i \<longrightarrow> ts_status ts j = ts_status (t_Consensus ?t) j \<and> (j \<in> block_ids ts \<longleftrightarrow> j \<in> block_ids (t_Consensus ?t))" for b1 b2 ts
        using vm_ok_Options [OF vm that(1)] fresh [of b1] fresh [of b2]
        by (intro opts_ok_change [OF that(2,4,3)]) auto
      then show "res (fallible vm) (\<lambda>s. engine_core U root s \<and> sized N M B s \<and>
          (\<forall>b1 b2. vm_Options vm blk = Options b1 b2 \<longrightarrow> opts_ok (\<lambda>b. \<not> vm_Verify vm b) U ?i [b1, b2] (t_Consensus s)))
          (consensus_Add vm blk (?t\<lparr>t_nonVerifieds := at_Remove ?i (t_nonVerifieds ?t)\<rparr>))"
        using add core by (auto simp: res_def core_consensus split: sum.splits)
    qed (use rest in blast)
  qed
  show ?thesis
    unfolding deliver_def Let_def orphan_def [symmetric]
    using t issue nt' [OF t1] nt' [OF inside_addToNonVerifieds [OF t1 blk]] by simp
qed

end
