(* ===== verification/EngineRun.thy ===== *)
theory EngineRun
  imports EngineSafety
begin

text \<open>
  The invariant through notifications, which call each other through the blocker, and through the
  handlers; the states an engine reaches.
\<close>

section \<open>Notifications\<close>

lemma inside_objs:
  assumes "inside U root S N M B t" "length os = length (t_objs t)"
    and "\<And>i. Issuer i \<in> set os \<Longrightarrow> U (blk_ID (i_blk i)) = Some (i_blk i)"
  shows "inside U root S N M B (t\<lparr>t_objs := os\<rparr>)"
proof -
  have "blocked_ok U (t\<lparr>t_objs := os, t_blocked := t_blocked t\<rparr>)"
    using assms by (auto simp: inside_iff engine_core_def blocked_ok_def)
  then have "engine_core U root (t\<lparr>t_objs := os, t_blocked := t_blocked t\<rparr>)"
    using assms(1) by (intro core_blocked) (simp_all add: inside_iff)
  then show ?thesis using assms(1,2) by (simp add: inside_iff sized_def)
qed

lemma issuer_U: "inside U root S N M B t \<Longrightarrow> Issuer i \<in> set (t_objs t) \<Longrightarrow> U (blk_ID (i_blk i)) = Some (i_blk i)"
  by (simp add: inside_iff engine_core_def blocked_ok_def)

lemma inside_set_obj:
  assumes "inside U root S N M B t" "\<And>i. obj = Issuer i \<Longrightarrow> U (blk_ID (i_blk i)) = Some (i_blk i)"
  shows "inside U root S N M B (set_obj p obj t)"
  unfolding set_obj_def
  using assms issuer_U [OF assms(1)] set_update_subset_insert [of "t_objs t" p obj] by (intro inside_objs) auto

lemma inside_obj_Fulfill:
  assumes vm: "vm_ok U vm" and nt: "notifier_ok (fallible vm) U root S N M B notify" and t: "inside U root S N M B t" and p: "p < M"
  shows "res (fallible vm) (inside U root S N M B) (obj_Fulfill notify vm k p t)"
proof (cases "t_objs t ! p")
  case (Issuer i)
  have "p < length (t_objs t)" using t p by (simp add: inside_def)
  then have i: "U (blk_ID (i_blk i)) = Some (i_blk i)" using issuer_U [OF t, of i] nth_mem [of p "t_objs t"] Issuer by simp
  let ?i = "i\<lparr>i_deps := removeAll k (i_deps i)\<rparr>"
  have s: "inside U root S N M B (set_obj p (Issuer ?i) t)" by (rule inside_set_obj [OF t]) (use i in simp)
  have "res (fallible vm) (inside U root S N M B) (issuer_Update notify vm ?i (set_obj p (Issuer ?i) t))"
    unfolding issuer_Update_def using s inside_deliver [OF vm nt s i] by (intro res_if) simp_all
  then show ?thesis by (simp add: obj_Fulfill_def Issuer Let_def)
next
  case (Voter v)
  have "inside U root S N M B (set_obj p (Voter (v\<lparr>v_deps := removeAll k (v_deps v)\<rparr>)) t)"
    by (rule inside_set_obj [OF t]) simp
  from inside_voter_Update [OF vm this] show ?thesis by (simp add: obj_Fulfill_def Voter Let_def)
qed

lemma inside_obj_Abandon:
  assumes vm: "vm_ok U vm" and nt: "notifier_ok (fallible vm) U root S N M B notify" and t: "inside U root S N M B t" and p: "p < M"
  shows "res (fallible vm) (inside U root S N M B) (obj_Abandon notify vm k p t)"
proof (cases "t_objs t ! p")
  case (Issuer i)
  have "p < length (t_objs t)" using t p by (simp add: inside_def)
  then have i: "U (blk_ID (i_blk i)) = Some (i_blk i)" using issuer_U [OF t, of i] nth_mem [of p "t_objs t"] Issuer by simp
  show ?thesis
    unfolding obj_Abandon_def Issuer Blockable.case
  proof (rule res_bind [where P = "inside U root S N M B"])
    have "inside U root S N M B (addToNonVerifieds (i_blk i) (removeFromPending (i_blk i) t))"
      by (rule inside_addToNonVerifieds [OF inside_removeFromPending [OF t] i])
    then show "res (fallible vm) (inside U root S N M B) (if i_abandoned i then Inr t
        else notify True (blk_ID (i_blk i)) (addToNonVerifieds (i_blk i) (removeFromPending (i_blk i) t)))"
      using nt t by (simp add: notifier_ok_def)
    fix s assume s: "inside U root S N M B s"
    have "p < length (t_objs s)" using s p by (simp add: inside_def)
    then have m: "t_objs s ! p \<in> set (t_objs s)" by simp
    have "U (blk_ID (i_blk j)) = Some (i_blk j)" if j: "abandon_obj (t_objs s ! p) = Issuer j" for j
    proof (cases "t_objs s ! p")
      case (Issuer i')
      then have "i_blk j = i_blk i'" using j by auto
      then show ?thesis using issuer_U [OF s, of i'] m Issuer by simp
    qed (use j in simp)
    then show "res (fallible vm) (inside U root S N M B) (Inr (set_obj p (abandon_obj (t_objs s ! p)) s))"
      by (simp add: inside_set_obj [OF s])
  qed
next
  case (Voter v)
  then show ?thesis using inside_obj_Fulfill [OF vm nt t p] by (simp add: obj_Abandon_def)
qed

lemma length_delete:
  assumes "distinct (map fst m)" "map_of m k \<noteq> None"
  shows "length (AList.delete k m) < length m"
proof -
  obtain v where "(k, v) \<in> set m" using assms(2) map_of_SomeD by fastforce
  then show ?thesis unfolding delete_eq_filter by (rule length_filter_less) simp
qed

lemma inside_unblock:
  assumes "inside U root S N M B t"
  shows "inside U root S N M B (t\<lparr>t_blocked := AList.delete k (t_blocked t)\<rparr>)"
proof -
  have "blocked_ok U (t\<lparr>t_objs := t_objs t, t_blocked := AList.delete k (t_blocked t)\<rparr>)"
    using assms by (auto simp: inside_iff engine_core_def blocked_ok_def distinct_delete delete_conv' split: if_splits)
  then have "engine_core U root (t\<lparr>t_objs := t_objs t, t_blocked := AList.delete k (t_blocked t)\<rparr>)"
    using assms by (intro core_blocked) (simp_all add: inside_iff)
  moreover have "length (AList.delete k (t_blocked t)) \<le> length (t_blocked t)" by (rule length_delete_le)
  ultimately show ?thesis using assms by (simp add: inside_iff sized_def)
qed

theorem notify_ok:
  assumes "vm_ok U vm" "N < fuel"
  shows "notifier_ok (fallible vm) U root S N M B (Blocker_notify fuel vm)"
  using assms(2)
proof (induction fuel arbitrary: N M)
  case (Suc fuel)
  show ?case
    unfolding notifier_ok_def
  proof (intro allI impI)
    fix ab k t assume t: "inside U root S N M B t"
    let ?t = "t\<lparr>t_blocked := AList.delete k (t_blocked t)\<rparr>" and ?M = "length (t_objs t)" and ?N = "length (AList.delete k (t_blocked t))"
    have t1: "inside U root S N M B ?t" by (rule inside_unblock [OF t])
    show "res (fallible vm) (inside U root S N M B) (Blocker_notify (Suc fuel) vm ab k t)"
    proof (cases "map_of (t_blocked t) k")
      case None
      then show ?thesis using t1 by (simp add: blocking_def)
    next
      case (Some ps)
      have "distinct (map fst (t_blocked t))" using t by (simp add: inside_iff engine_core_def blocked_ok_def)
      then have "?N < length (t_blocked t)" using Some by (intro length_delete) auto
      then have "?N < fuel" using t Suc.prems by (simp add: inside_def)
      note nt = Suc.IH [OF this, of ?M]
      have ps: "p < ?M" if "p \<in> set ps" for p
        using that Some t unfolding inside_iff engine_core_def blocked_ok_def by blast
      have t2: "inside U root S ?N ?M B ?t" using t1 by (simp add: inside_def)
      have "res (fallible vm) (inside U root S ?N ?M B) (Blocker_notify (Suc fuel) vm ab k t)"
        using t2 Some ps inside_obj_Fulfill [OF assms(1) nt] inside_obj_Abandon [OF assms(1) nt]
        by (auto simp: blocking_def intro!: res_foldR)
      moreover have "?N \<le> N" "M \<le> ?M" using t1 t by (simp_all add: inside_def)
      ultimately show ?thesis by (blast intro: res_mono inside_mono)
    qed
  qed
qed simp

lemma t_notify_ok: "vm_ok U vm \<Longrightarrow> notifier_ok (fallible vm) U root S N M B (t_notify vm)"
  unfolding notifier_ok_def
proof (intro allI impI)
  fix ab k t assume "vm_ok U vm" and t: "inside U root S N M B t"
  let ?n = "length (t_blocked t)"
  have "inside U root S ?n M B t" using t by (simp add: inside_def)
  then have "res (fallible vm) (inside U root S ?n M B) (t_notify vm ab k t)"
    using notify_ok [OF \<open>vm_ok U vm\<close> lessI, of root S ?n M B] by (simp add: t_notify_def notifier_ok_def del: Blocker_notify.simps)
  moreover have "?n \<le> N" using t by (simp add: inside_def)
  ultimately show "res (fallible vm) (inside U root S N M B) (t_notify vm ab k t)" by (blast intro: res_mono inside_mono)
qed

section \<open>Issuing\<close>

text \<open>The states between notifications: the invariant and the number of blocks to build.\<close>

definition between :: "(ID \<Rightarrow> Block option) \<Rightarrow> ID \<Rightarrow> bool \<Rightarrow> int \<Rightarrow> Transitive \<Rightarrow> bool" where
  "between U root S B t \<longleftrightarrow> engine_ok U root S t \<and> t_pendingBuildBlocks t = B"

lemma between_inside: "between U root S B t \<Longrightarrow> inside U root S (length (t_blocked t)) 0 B t"
  by (simp add: between_def inside_def)

lemma inside_between: "inside U root S N M B t \<Longrightarrow> between U root S B t"
  by (simp add: between_def inside_def)

lemmas res_between = res_mono [OF _ inside_between]

lemma between_sendRequest: "between U root S B t \<Longrightarrow> between U root S B (sendRequest n i t)"
  by (blast intro: inside_between inside_sendRequest between_inside)

lemma between_notify:
  assumes "vm_ok U vm" "between U root S B t"
  shows "res (fallible vm) (between U root S B) (t_notify vm ab k t)"
  using t_notify_ok [OF assms(1)] between_inside [OF assms(2)] unfolding notifier_ok_def by (intro res_between) blast

lemma between_deliver:
  assumes "vm_ok U vm" "between U root S B t" "U (blk_ID b) = Some b"
  shows "res (fallible vm) (between U root S B) (deliver (t_notify vm) vm b t)"
  by (rule res_between [OF inside_deliver [OF assms(1) t_notify_ok [OF assms(1)] between_inside [OF assms(2)] assms(3)]])

lemma between_blkReqs [simp]: "between U root S B (t\<lparr>t_blkReqs := r\<rparr>) = between U root S B t"
  by (simp add: between_def engine_ok_def)

lemma between_RemoveAny [simp]: "between U root S B (t_RemoveAny i t) = between U root S B t"
  by (simp add: t_RemoveAny_def)

lemma between_Register:
  assumes vm: "vm_ok U vm" and t: "between U root S B t" and obj: "\<And>i. obj = Issuer i \<Longrightarrow> U (blk_ID (i_blk i)) = Some (i_blk i)"
  shows "res (fallible vm) (between U root S B) (Blocker_Register vm obj t)"
proof -
  let ?t0 = "t\<lparr>t_objs := t_objs t @ [obj]\<rparr>" and ?p = "length (t_objs t)"
  let ?reg = "\<lambda>k t. t\<lparr>t_blocked := AList.update k (blocking t k @ [?p]) (t_blocked t)\<rparr>"
  have core: "engine_core U root t" "S \<longrightarrow> synced t" "t_pendingBuildBlocks t = B" using t by (auto simp: between_def engine_ok_def)
  have "blocked_ok U (t\<lparr>t_objs := t_objs t @ [obj], t_blocked := t_blocked t\<rparr>)"
    using engine_coreD(5) [OF core(1)] obj unfolding blocked_ok_def by (auto simp: less_Suc_eq)
  from core_blocked [OF core(1) this] have t0: "engine_core U root ?t0" by simp
  define P where "P s \<longleftrightarrow> engine_core U root s \<and> t_objs s = t_objs ?t0 \<and> (S \<longrightarrow> synced s) \<and> t_pendingBuildBlocks s = B" for s
  have reg: "P (?reg k s)" if s: "P s" for s k
  proof -
    have c: "engine_core U root s" using s by (simp add: P_def)
    have "blocked_ok U (s\<lparr>t_objs := t_objs s, t_blocked := AList.update k (blocking s k @ [?p]) (t_blocked s)\<rparr>)"
      using engine_coreD(5) [OF c] s unfolding blocked_ok_def P_def
      by (auto simp: distinct_update update_conv' blocking_def split: if_splits option.splits)
    from core_blocked [OF c this] have "engine_core U root (?reg k s)" by simp
    then show ?thesis using s by (simp add: P_def)
  qed
  have "P s \<Longrightarrow> P (fold ?reg ks s)" for ks s
    by (induction ks arbitrary: s) (simp_all add: reg)
  moreover have "P ?t0" using t0 core(2,3) by (simp add: P_def)
  ultimately have "P (fold ?reg (Blockable_Dependencies obj) ?t0)" by blast
  then have t1: "between U root S B (fold ?reg (Blockable_Dependencies obj) ?t0)"
    by (simp add: P_def between_def engine_ok_def)
  have "res (fallible vm) (between U root S B) (Blockable_Update vm obj (fold ?reg (Blockable_Dependencies obj) ?t0))"
  proof (cases obj)
    case (Issuer i)
    have "res (fallible vm) (between U root S B) (issuer_Update (t_notify vm) vm i (fold ?reg (i_deps i) ?t0))"
      unfolding issuer_Update_def
      using t1 between_deliver [OF vm t1, of "i_blk i"] obj [OF Issuer] Issuer by (intro res_if) simp_all
    then show ?thesis using Issuer by simp
  next
    case (Voter v)
    then show ?thesis using res_between [OF inside_voter_Update [OF vm between_inside [OF t1], of v]] by simp
  qed
  then show ?thesis by (simp add: Blocker_Register_def Let_def)
qed

lemma between_issue:
  assumes vm: "vm_ok U vm" and t: "between U root S B t" and b: "U (blk_ID b) = Some b"
  shows "res (fallible vm) (between U root S B) (issue vm b t)"
proof -
  let ?t = "t\<lparr>t_pending := AList.update (blk_ID b) b (t_pending t)\<rparr>"
  have "pending_ok U ?t" using t b by (auto simp: between_def engine_ok_def engine_core_def pending_ok_def update_conv')
  then have "between U root S B ?t" using t core_pending [of U root t] by (simp add: between_def engine_ok_def)
  then show ?thesis unfolding issue_def Let_def by (intro between_Register [OF vm]) (auto simp: b)
qed

lemma GetBlock_between: "vm_ok U vm \<Longrightarrow> between U root S B t \<Longrightarrow> t_GetBlock vm t i = Some b \<Longrightarrow> U i = Some b \<and> blk_ID b = i"
  by (rule GetBlock_U) (auto simp: between_def engine_ok_def engine_core_def)

lemma between_issueFrom_loop:
  assumes vm: "vm_ok U vm" and "between U root S B t" "U i = Some b" "vm_depth vm i < fuel"
  shows "res (fallible vm) (\<lambda>(issued, t). between U root S B t) (issueFrom_loop fuel vm nodeID i b t)"
  using assms(2-)
proof (induction fuel arbitrary: i b t)
  case (Suc fuel)
  have bi: "blk_ID b = i" by (rule universe_okD [OF vm_okD(1) [OF vm] Suc.prems(2)])
  show ?case
  proof (cases "wasIssued t b")
    case False
    have "res (fallible vm) (\<lambda>(issued, t). between U root S B t)
        (bindR (issue vm b t) (\<lambda>t. let blkID = blk_Parent b in case t_GetBlock vm t blkID of
            None \<Rightarrow> Inr (False, sendRequest nodeID blkID t)
          | Some blk \<Rightarrow> if \<not> Status_Fetched (blk_Status t blk) then Inr (False, sendRequest nodeID blkID t)
              else issueFrom_loop fuel vm nodeID blkID blk t))"
    proof (rule res_bind [OF between_issue [OF vm Suc.prems(1)]])
      fix s assume s: "between U root S B s"
      show "res (fallible vm) (\<lambda>(issued, t). between U root S B t) (let blkID = blk_Parent b in case t_GetBlock vm s blkID of
            None \<Rightarrow> Inr (False, sendRequest nodeID blkID s)
          | Some blk \<Rightarrow> if \<not> Status_Fetched (blk_Status s blk) then Inr (False, sendRequest nodeID blkID s)
              else issueFrom_loop fuel vm nodeID blkID blk s)"
      proof (cases "t_GetBlock vm s (blk_Parent b)")
        case (Some c)
        have c: "U (blk_Parent b) = Some c" using GetBlock_between [OF vm s Some] by blast
        have "vm_depth vm (blk_Parent b) < fuel" using vm_okD(9) [OF vm Suc.prems(2) c] Suc.prems(3) by simp
        then show ?thesis using Suc.IH [OF s c] s Some by (simp add: Let_def between_sendRequest)
      qed (use s in \<open>simp add: between_sendRequest\<close>)
    qed (use Suc.prems(2) bi in simp)
    then show ?thesis using False by simp
  next
    case True
    have s: "between U root S B (t_RemoveAny i t)" using Suc.prems(1) by simp
    have "res (fallible vm) (between U root S B) (if isIssued (t_RemoveAny i t) b i then Blocker_Abandon vm i (t_RemoveAny i t) else Inr (t_RemoveAny i t))"
      using between_notify [OF vm s] s by (simp add: Blocker_Abandon_def)
    then have "res (fallible vm) (\<lambda>(issued, t). between U root S B t)
        (bindR (if isIssued (t_RemoveAny i t) b i then Blocker_Abandon vm i (t_RemoveAny i t) else Inr (t_RemoveAny i t))
          (\<lambda>s. Inr (isIssued (t_RemoveAny i t) b i, s)))" by (rule res_bind) simp
    then show ?thesis using True by (simp only: issueFrom_loop.simps Let_def) simp
  qed
qed simp

lemma between_issueFrom:
  "vm_ok U vm \<Longrightarrow> between U root S B t \<Longrightarrow> U (blk_ID b) = Some b \<Longrightarrow>
   res (fallible vm) (\<lambda>(issued, t). between U root S B t) (issueFrom vm nodeID b t)"
  unfolding issueFrom_def by (intro between_issueFrom_loop) auto

lemma between_issueFromByID:
  assumes "vm_ok U vm" "between U root S B t"
  shows "res (fallible vm) (\<lambda>(issued, t). between U root S B t) (issueFromByID vm nodeID i t)"
proof (cases "t_GetBlock vm t i")
  case (Some b)
  then show ?thesis
    using GetBlock_between [OF assms Some] between_issueFrom [OF assms, of b] by (auto simp: issueFromByID_def)
qed (use assms in \<open>simp add: issueFromByID_def between_sendRequest\<close>)

lemma between_issueWithAncestors_loop:
  assumes vm: "vm_ok U vm" and "between U root S B t" "U i = Some b" "vm_depth vm i < fuel"
  shows "res (fallible vm) (\<lambda>(r, t). between U root S B t) (issueWithAncestors_loop fuel vm i b t)"
  using assms(2-)
proof (induction fuel arbitrary: i b t)
  case (Suc fuel)
  have bi: "blk_ID b = i" by (rule universe_okD [OF vm_okD(1) [OF vm] Suc.prems(2)])
  have "res (fallible vm) (\<lambda>(r, t). between U root S B t)
      (bindR (issue vm b t) (\<lambda>t. let blkID = blk_Parent b in case t_GetBlock vm t blkID of
          None \<Rightarrow> Inr ((blkID, None), t)
        | Some blk \<Rightarrow> issueWithAncestors_loop fuel vm blkID blk t))"
  proof (rule res_bind [OF between_issue [OF vm Suc.prems(1)]])
    fix s assume s: "between U root S B s"
    show "res (fallible vm) (\<lambda>(r, t). between U root S B t) (let blkID = blk_Parent b in case t_GetBlock vm s blkID of
        None \<Rightarrow> Inr ((blkID, None), s) | Some blk \<Rightarrow> issueWithAncestors_loop fuel vm blkID blk s)"
    proof (cases "t_GetBlock vm s (blk_Parent b)")
      case (Some c)
      have c: "U (blk_Parent b) = Some c" using GetBlock_between [OF vm s Some] by blast
      have "vm_depth vm (blk_Parent b) < fuel" using vm_okD(9) [OF vm Suc.prems(2) c] Suc.prems(3) by simp
      then show ?thesis using Suc.IH [OF s c] Some by (simp add: Let_def)
    qed (use s in simp)
  qed (use Suc.prems(2) bi in simp)
  then show ?case using Suc.prems(1) by simp
qed simp

lemma between_issueWithAncestors:
  assumes vm: "vm_ok U vm" and "between U root S B t" "U (blk_ID b) = Some b"
  shows "res (fallible vm) (\<lambda>(added, t). between U root S B t) (issueWithAncestors vm b t)"
  unfolding issueWithAncestors_def
proof (rule res_bind [OF between_issueWithAncestors_loop [OF assms lessI]], clarify)
  fix i last s assume s: "between U root S B s"
  have "res (fallible vm) (\<lambda>(added, t). between U root S B t) (bindR (Blocker_Abandon vm i s) (\<lambda>t. Inr (False, t)))"
    by (rule res_bind [OF between_notify [OF vm s, of True i, folded Blocker_Abandon_def]]) simp
  then show "res (fallible vm) (\<lambda>(added, t). between U root S B t)
      (if case last of None \<Rightarrow> False | Some blk \<Rightarrow> blk_Status s blk \<noteq> Unknown \<and> isIssued s blk i then Inr (True, s)
       else if Requests_Contains i (t_blkReqs s) then Inr (False, s)
       else bindR (Blocker_Abandon vm i s) (\<lambda>t. Inr (False, t)))"
    using s by (intro res_if) simp_all
qed

lemma engine_ok_buildBlocks_loop:
  assumes vm: "vm_ok U vm" and "engine_ok U root S t" "t_pendingBuildBlocks t \<le> int fuel"
  shows "res (fallible vm) (engine_ok U root S) (buildBlocks_loop fuel vm t)"
  using assms(2-)
proof (induction fuel arbitrary: t)
  case (Suc fuel)
  show ?case
  proof (cases "t_pendingBuildBlocks t > 0 \<and> NumProcessing (t_Consensus t) < OptimalProcessing (t_Params t)")
    case True
    let ?t = "t\<lparr>t_pendingBuildBlocks := t_pendingBuildBlocks t - 1, t_builds := Suc (t_builds t)\<rparr>"
    have t: "between U root S (t_pendingBuildBlocks t - 1) ?t" using Suc.prems(1) by (simp add: between_def engine_ok_def)
    show ?thesis
    proof (cases "vm_BuildBlock vm (t_builds ?t)")
      case (Some b)
      have b: "U (blk_ID b) = Some b" by (rule vm_okD(6) [OF vm Some])
      have "res (fallible vm) (engine_ok U root S) (bindR (issueWithAncestors vm b ?t) (\<lambda>(added, t). buildBlocks_loop fuel vm t))"
      proof (rule res_bind [OF between_issueWithAncestors [OF vm t b]], clarify)
        fix s assume "between U root S (t_pendingBuildBlocks t - 1) s"
        then show "res (fallible vm) (engine_ok U root S) (buildBlocks_loop fuel vm s)"
          using Suc.IH [of s] Suc.prems(2) by (simp add: between_def)
      qed
      then show ?thesis using True Some by (simp add: Let_def)
    qed (use True t in \<open>simp add: between_def Let_def\<close>)
  qed (use Suc.prems(1) in auto)
qed auto

lemma engine_ok_buildBlocks: "vm_ok U vm \<Longrightarrow> engine_ok U root S t \<Longrightarrow> res (fallible vm) (engine_ok U root S) (buildBlocks vm t)"
  unfolding buildBlocks_def by (rule engine_ok_buildBlocks_loop) auto

lemma between_buildBlocks: "vm_ok U vm \<Longrightarrow> between U root S B t \<Longrightarrow> res (fallible vm) (engine_ok U root S) (buildBlocks vm t)"
  by (simp add: between_def engine_ok_buildBlocks)

section \<open>Handlers\<close>

lemma engine_ok_between: "engine_ok U root S t \<Longrightarrow> between U root S (t_pendingBuildBlocks t) t"
  by (simp add: between_def)

lemma engine_ok_call: "\<forall>i. c \<noteq> SetPreference i \<Longrightarrow> engine_ok U root S t \<Longrightarrow> engine_ok U root S (t_call c t)"
  by (simp add: engine_ok_def)

lemma then_buildBlocks:
  assumes vm: "vm_ok U vm" and r: "res (fallible vm) (\<lambda>(b, t). between U root S B t) r"
  shows "res (fallible vm) (engine_ok U root S) (bindR r (\<lambda>(b, t). buildBlocks vm t))"
  by (rule res_bind [OF r]) (auto intro: between_buildBlocks [OF vm])

lemma GetFailed_ok:
  assumes vm: "vm_ok U vm" and t: "engine_ok U root S t"
  shows "res (fallible vm) (engine_ok U root S) (GetFailed vm nodeID r t)"
proof -
  obtain reqs o' where q: "Requests_Remove nodeID r (t_blkReqs t) = (reqs, o')" by fastforce
  have t1: "between U root S (t_pendingBuildBlocks t) (t\<lparr>t_blkReqs := reqs\<rparr>)" using engine_ok_between [OF t] by simp
  show ?thesis
  proof (cases o')
    case (Some k)
    show ?thesis
      unfolding GetFailed_def q Some prod.case option.case Blocker_Abandon_def
      by (rule res_bind [OF between_notify [OF vm t1]]) (rule between_buildBlocks [OF vm])
  qed (use q t1 in \<open>simp add: GetFailed_def between_def\<close>)
qed

lemma QueryFailed_ok:
  assumes vm: "vm_ok U vm" and t: "engine_ok U root S t"
  shows "res (fallible vm) (engine_ok U root S) (QueryFailed vm nodeID r t)"
  unfolding QueryFailed_def
  by (rule res_bind [OF between_Register [OF vm engine_ok_between [OF t]]]) (auto intro: between_buildBlocks [OF vm])

lemma Chits_ok:
  assumes vm: "vm_ok U vm" and t: "engine_ok U root S t"
  shows "res (fallible vm) (engine_ok U root S) (Chits vm nodeID r votes t)"
proof (cases "\<exists>i. votes = [i]")
  case True
  then obtain i where i: "votes = [i]" by blast
  show ?thesis
    unfolding Chits_def i list.case
  proof (rule res_bind [OF between_issueFromByID [OF vm engine_ok_between [OF t]]], clarify)
    fix added s assume s: "between U root S (t_pendingBuildBlocks t) s"
    show "res (fallible vm) (engine_ok U root S) (bindR (Blocker_Register vm (Voter \<lparr>v_vdr = nodeID, v_requestID = r, v_response = i,
        v_deps = (if added then [] else [i])\<rparr>) s) (buildBlocks vm))"
      by (rule res_bind [OF between_Register [OF vm s]]) (auto intro: between_buildBlocks [OF vm])
  qed
next
  case False
  then show ?thesis using QueryFailed_ok [OF assms] by (auto simp: Chits_def split: list.split)
qed

lemma Put_ok:
  assumes vm: "vm_ok U vm" and t: "engine_ok U root S t"
  shows "res (fallible vm) (engine_ok U root S) (Put vm nodeID r bytes t)"
proof (cases "vm_ParseBlock vm bytes")
  case (Some b)
  then show ?thesis
    using then_buildBlocks [OF vm between_issueFrom [OF vm engine_ok_between [OF t] vm_okD(5) [OF vm Some]]]
    by (simp add: Put_def)
qed (simp add: Put_def GetFailed_ok [OF assms])

lemma PullQuery_ok:
  assumes vm: "vm_ok U vm" and t: "engine_ok U root S t"
  shows "res (fallible vm) (engine_ok U root S) (PullQuery vm nodeID r i t)"
proof -
  have "engine_ok U root S (t_call (SendChits nodeID r [ts_Preference (t_Consensus t)]) t)" by (rule engine_ok_call [OF _ t]) simp
  from then_buildBlocks [OF vm between_issueFromByID [OF vm engine_ok_between [OF this]]] show ?thesis
    by (simp add: PullQuery_def Let_def)
qed

lemma PushQuery_ok:
  assumes vm: "vm_ok U vm" and t: "engine_ok U root S t"
  shows "res (fallible vm) (engine_ok U root S) (PushQuery vm nodeID r bytes t)"
proof -
  let ?t = "t_call (SendChits nodeID r [ts_Preference (t_Consensus t)]) t"
  have t1: "engine_ok U root S ?t" by (rule engine_ok_call [OF _ t]) simp
  show ?thesis
  proof (cases "vm_ParseBlock vm bytes")
    case (Some b)
    then show ?thesis
      using then_buildBlocks [OF vm between_issueFrom [OF vm engine_ok_between [OF t1] vm_okD(5) [OF vm Some]]]
      by (simp add: PushQuery_def Let_def)
  qed (use t1 in \<open>simp add: PushQuery_def Let_def\<close>)
qed

lemma Gossip_ok: "engine_ok U root S t \<Longrightarrow> res (fallible vm) (engine_ok U root S) (Gossip vm t)"
  by (auto simp: Gossip_def engine_ok_call split: option.split)

lemma Notify_ok:
  assumes vm: "vm_ok U vm" and t: "engine_ok U root S t"
  shows "res (fallible vm) (engine_ok U root S) (t_Notify vm m t)"
  using t engine_ok_buildBlocks [OF vm] by (simp add: t_Notify_def engine_ok_def)

lemmas handler_ok = Put_ok GetFailed_ok PullQuery_ok PushQuery_ok Chits_ok QueryFailed_ok Notify_ok

lemma handle_ok: "vm_ok U vm \<Longrightarrow> engine_ok U root S t \<Longrightarrow> res (fallible vm) (engine_ok U root S) (handle vm m t)"
  by (cases m) (simp_all add: handler_ok Gossip_ok ChitsV2_def)

section \<open>Starting\<close>

text \<open>
  What is assumed of the state of the virtual machine when the engine starts: its last accepted
  block is accepted, its blocks have been fetched and the parent of a decided block is decided.
\<close>

definition start_ok :: "(ID \<Rightarrow> Block option) \<Rightarrow> VM \<Rightarrow> bool" where
  "start_ok U vm \<longleftrightarrow> status_closed U (vm_status vm) \<and> (\<forall>i. vm_LastAccepted vm = Some i \<longrightarrow> vm_status vm i = Accepted)"

text \<open>Whether the block with the given id has no options.\<close>

definition not_oracle :: "VM \<Rightarrow> ID \<Rightarrow> bool" where
  "not_oracle vm i \<longleftrightarrow> (\<forall>b b1 b2. vm_GetBlock vm i = Some b \<longrightarrow> vm_Options vm b \<noteq> Options b1 b2)"

fun start_error :: "Parameters \<Rightarrow> engine_error \<Rightarrow> bool" where
  "start_error params (ErrConsensus e) = (env_error e \<or> (\<exists>p. e = ErrParams p \<and> Verify params = Some p))"
| "start_error params e = (engine_env_error e \<or> after_failed_poll e)"

lemma start_error_env: "engine_env_error e \<or> F \<and> after_failed_poll e \<Longrightarrow> start_error params e"
  by (cases e) auto

lemma newTransitive_params: "t_Params (newTransitive params) = params"
  by (simp add: newTransitive_def)

lemma Start_core:
  assumes vm: "vm_ok U vm" "start_ok U vm" and prm: "0 \<le> MixedQueryNumPushVdr params" "0 \<le> MixedQueryNumPushNonVdr params"
    and i: "vm_LastAccepted vm = Some i" and ts: "ts_Initialize (vm_status vm) params i h = Inr ts"
  shows "engine_core U i ((newTransitive params)\<lparr>t_RequestID := r, t_Consensus := ts\<rparr>)"
proof -
  have st: "vm_status vm i = Accepted" using vm(2) i by (simp add: start_ok_def)
  have f: "ts_params ts = params" "ts_head ts = i" "ts_status ts = vm_status vm" "block_ids ts = {i}"
    using ts by (auto simp: ts_Initialize_def block_ids_def split: option.splits)
  have "tree_in U ts" using ts by (auto simp: ts_Initialize_def tree_in_def split: option.splits if_splits)
  then have "cons_ok U i ts NewAncestorTree"
    using ts_init [OF ts st] vm(2) f
    by (auto simp: cons_ok_def start_ok_def anchored_par_def acyclic_par_def forest_def parents_ok_def)
  then show ?thesis using prm f
    by (simp add: engine_core_def newTransitive_def params_ok_def set_ok_New pending_ok_def blocked_ok_def)
qed

lemma Start_ok:
  assumes vm: "vm_ok U vm" "start_ok U vm" and prm: "0 \<le> MixedQueryNumPushVdr params" "0 \<le> MixedQueryNumPushNonVdr params"
  shows "case Start vm r (newTransitive params) of
      Inl e \<Rightarrow> start_error params e
    | Inr t \<Rightarrow> (\<exists>root. vm_LastAccepted vm = Some root \<and> engine_ok U root (not_oracle vm root) t)"
proof (cases "vm_LastAccepted vm")
  case (Some i)
  let ?t = "(newTransitive params)\<lparr>t_RequestID := r\<rparr>"
  show ?thesis
  proof (cases "t_GetBlock vm ?t i")
    case (Some b)
    show ?thesis
    proof (cases "ts_Initialize (vm_status vm) params i (blk_Height b)")
      case (Inl e)
      then have "\<exists>p. e = ErrParams p \<and> Verify params = Some p" by (auto simp: ts_Initialize_def split: option.splits)
      then show ?thesis using Inl Some \<open>vm_LastAccepted vm = Some i\<close>
        by (auto simp: Start_def Let_def newTransitive_def)
    next
      case (Inr ts)
      let ?s = "?t\<lparr>t_Consensus := ts\<rparr>"
      let ?deliv = "case vm_Options vm b of
          NotOracleBlock \<Rightarrow> t_SetPreference vm i ?s | ErrNotOracle \<Rightarrow> t_SetPreference vm i ?s
        | OptionsError \<Rightarrow> Inl ErrOptions | Options b1 b2 \<Rightarrow> foldR (t_deliver vm) [b1, b2] ?s"
      have core: "engine_core U i ?s" by (rule Start_core [OF assms \<open>vm_LastAccepted vm = Some i\<close> Inr])
      have pref: "ts_Preference ts = i" using Inr by (auto simp: ts_Initialize_def ts_Preference_def split: option.splits)
      have b: "vm_GetBlock vm i = Some b" using Some by (simp add: t_GetBlock_def newTransitive_def)
      have "res (fallible vm) (engine_ok U i (not_oracle vm i)) ?deliv"
      proof (cases "vm_Options vm b")
        case (Options b1 b2)
        have "\<not> not_oracle vm i" using b Options by (auto simp: not_oracle_def)
        then have s: "between U i (not_oracle vm i) 0 ?s" using core by (simp add: between_def engine_ok_def newTransitive_def)
        have "res (fallible vm) (between U i (not_oracle vm i) 0) (foldR (t_deliver vm) [b1, b2] ?s)"
          using s vm_ok_Options(1,2) [OF vm(1) Options] between_deliver [OF vm(1)]
          by (intro res_foldR) (auto simp: t_deliver_def)
        then show ?thesis using Options by (auto simp: between_def intro: res_mono)
      qed (use core pref in \<open>simp_all add: t_SetPreference_def engine_ok_def t_call_def synced_def\<close>)
      then have "res (fallible vm) (engine_ok U i (not_oracle vm i)) (bindR ?deliv (\<lambda>t. if vm_SetState vm then Inl ErrSetState else Inr (t_call SetNormalOp t)))"
        by (rule res_bind) (simp add: engine_ok_call)
      moreover have "Start vm r (newTransitive params) = bindR ?deliv (\<lambda>t. if vm_SetState vm then Inl ErrSetState else Inr (t_call SetNormalOp t))"
        using Some Inr \<open>vm_LastAccepted vm = Some i\<close> by (simp add: Start_def Let_def newTransitive_params)
      ultimately show ?thesis using \<open>vm_LastAccepted vm = Some i\<close> by (auto simp: res_def intro: start_error_env split: sum.splits)
    qed
  qed (use \<open>vm_LastAccepted vm = Some i\<close> in \<open>simp add: Start_def Let_def\<close>)
qed (simp add: Start_def Let_def)

section \<open>Reachable states\<close>

text \<open>
  A run of the engine: it starts, then handles messages one by one; each time the environment answers
  in its own way.
\<close>

inductive engine_reachable :: "(ID \<Rightarrow> Block option) \<Rightarrow> Parameters \<Rightarrow> ID \<Rightarrow> bool \<Rightarrow> Transitive \<Rightarrow> bool" for U params where
  er_start: "vm_ok U vm \<Longrightarrow> start_ok U vm \<Longrightarrow> vm_LastAccepted vm = Some root \<Longrightarrow> Start vm r (newTransitive params) = Inr t \<Longrightarrow>
    engine_reachable U params root (not_oracle vm root) t"
| er_step: "engine_reachable U params root S t \<Longrightarrow> vm_ok U vm \<Longrightarrow> handle vm m t = Inr t' \<Longrightarrow> engine_reachable U params root S t'"

lemma engine_reachable_ok:
  assumes "0 \<le> MixedQueryNumPushVdr params" "0 \<le> MixedQueryNumPushNonVdr params" "engine_reachable U params root S t"
  shows "engine_ok U root S t"
  using assms(3)
proof induction
  case (er_start vm root r t)
  then show ?case using Start_ok [OF er_start(1,2) assms(1,2), of r] by auto
next
  case (er_step root S t vm m t')
  then show ?case using handle_ok [OF er_step.hyps(2) er_step.IH, of m] by (simp add: res_def)
qed

end
