(* ===== verification/EngineProperties.thy ===== *)
theory EngineProperties
  imports EngineRun
begin

text \<open>
  The properties of the engine and of its composition with consensus and the polls, with a run that
  they are applied to.
\<close>

section \<open>An example run\<close>

text \<open>
  Blocks 10 to 14: 10 is the last accepted one, 11 and 14 are its children, 12 and 13 the children of
  11. The virtual machine serves the blocks in \<open>known\<close> and parses the one-byte encoding of any.
\<close>

definition ex_blocks :: "(ID \<times> Block) list" where
  "ex_blocks = map (\<lambda>(i, p :: 8 word, h). (ucast i, \<lparr>blk_ID = ucast i, blk_Parent = ucast p, blk_Height = h, blk_Bytes = [i]\<rparr>))
     [(10, 0, 0), (11, 10, 1), (12, 11, 2), (13, 11, 2), (14, 10, 1)]"

definition ex_U :: "ID \<Rightarrow> Block option" where
  "ex_U = map_of ex_blocks"

definition ex_params :: Parameters where
  "ex_params = \<lparr>K = 1, Alpha = 1, BetaVirtuous = 1, BetaRogue = 1, ConcurrentRepolls = 1,
     OptimalProcessing = 1, MaxOutstandingItems = 1, MaxItemProcessingTime = 1, MixedQueryNumPushVdr = 1,
     MixedQueryNumPushNonVdr = 0\<rparr>"

definition ex_vm :: "ID list \<Rightarrow> VM" where
  "ex_vm known = \<lparr>vm_env = example_env, vm_status = example_status,
     vm_GetBlock = (\<lambda>i. if i \<in> set known then ex_U i else None),
     vm_ParseBlock = (\<lambda>bytes. case bytes of [x] \<Rightarrow> ex_U (ucast x) | _ \<Rightarrow> None),
     vm_BuildBlock = (\<lambda>_. None), vm_Verify = (\<lambda>_. False), vm_Options = (\<lambda>_. NotOracleBlock),
     vm_SetPreference = (\<lambda>_. False), vm_LastAccepted = Some 10, vm_SetState = False,
     vm_Sample = (\<lambda>_ n. if 0 \<le> n then Some (replicate (nat n) 1) else None), vm_isValidator = True,
     vm_range = (\<lambda>xs. xs), vm_depth = (\<lambda>i. if i \<in> {12, 13} then 2 else if i \<in> {11, 14} then 1 else 0)\<rparr>"

definition ex_run :: "(ID list \<times> engine_msg) list \<Rightarrow> engine_error + Transitive" where
  "ex_run ms = bindR (Start (ex_vm [10]) 0 (newTransitive ex_params)) (foldR (\<lambda>(known, m). handle (ex_vm known) m) ms)"

lemma ex_U_simps: "ex_U i = Some b \<longleftrightarrow>
    i = 10 \<and> b = \<lparr>blk_ID = 10, blk_Parent = 0, blk_Height = 0, blk_Bytes = [10]\<rparr> \<or>
    i = 11 \<and> b = \<lparr>blk_ID = 11, blk_Parent = 10, blk_Height = 1, blk_Bytes = [11]\<rparr> \<or>
    i = 12 \<and> b = \<lparr>blk_ID = 12, blk_Parent = 11, blk_Height = 2, blk_Bytes = [12]\<rparr> \<or>
    i = 13 \<and> b = \<lparr>blk_ID = 13, blk_Parent = 11, blk_Height = 2, blk_Bytes = [13]\<rparr> \<or>
    i = 14 \<and> b = \<lparr>blk_ID = 14, blk_Parent = 10, blk_Height = 1, blk_Bytes = [14]\<rparr>"
  by (auto simp: ex_U_def ex_blocks_def split: if_splits)

lemma ex_universe: "universe_ok ex_U"
  unfolding universe_ok_def by (auto simp: ex_U_simps)

lemma ex_rises: "ex_U i = Some b \<Longrightarrow> rises ex_U b"
  unfolding rises_def by (auto simp: ex_U_simps)

lemma ex_vm_ok: "vm_ok ex_U (ex_vm known)"
proof -
  have "ex_U i = Some b \<Longrightarrow> blk_ID b = i" for i b using universe_okD [OF ex_universe] .
  moreover have "vm_depth (ex_vm known) (blk_Parent b) < vm_depth (ex_vm known) i"
    if "ex_U i = Some b" "ex_U (blk_Parent b) = Some p" for i b p
    using that by (auto simp: ex_U_simps ex_vm_def)
  ultimately show ?thesis
    unfolding vm_ok_def using ex_universe ex_rises
    by (auto simp: ex_vm_def perm_ok_def split: list.splits if_splits)
qed

text \<open>The same machine when some blocks do not verify.\<close>

definition ex_vm_without :: "ID list \<Rightarrow> ID list \<Rightarrow> VM" where
  "ex_vm_without bad known = (ex_vm known)\<lparr>vm_Verify := (\<lambda>b. blk_ID b \<in> set bad)\<rparr>"

lemma ex_vm_without_ok: "vm_ok ex_U (ex_vm_without bad known)"
  using ex_vm_ok [of known] ex_rises by (auto simp: vm_ok_def ex_vm_without_def)

lemma ex_start_ok: "start_ok ex_U (ex_vm known)"
  by (auto simp: start_ok_def ex_vm_def status_closed_def example_status_def ex_U_simps)

lemma ex_not_oracle: "not_oracle (ex_vm known) i"
  by (simp add: not_oracle_def ex_vm_def)

lemma ex_last: "vm_LastAccepted (ex_vm known) = Some 10"
  by (simp add: ex_vm_def)

lemma ex_run_reachable:
  assumes "\<not> isl (ex_run ms)"
  shows "engine_reachable ex_U ex_params 10 True (projr (ex_run ms))"
proof -
  obtain t0 where t0: "Start (ex_vm [10]) 0 (newTransitive ex_params) = Inr t0"
      "foldR (\<lambda>(known, m). handle (ex_vm known) m) ms t0 = Inr (projr (ex_run ms))"
    using assms by (cases "Start (ex_vm [10]) 0 (newTransitive ex_params)") (auto simp: ex_run_def sum.expand)
  have "engine_reachable ex_U ex_params 10 True t0"
    using er_start [OF ex_vm_ok ex_start_ok ex_last t0(1)] by (simp only: ex_not_oracle)
  then show ?thesis using t0(2) by (rule_tac foldR_inv) (auto intro: er_step [OF _ ex_vm_ok])
qed

definition leak_run :: "(ID list \<times> engine_msg) list" where
  "leak_run = [([10], M_Put 1 0 [12]), ([10], M_Put 1 0 [13]), ([10], M_Put 1 0 [14]), ([10], M_Chits 1 2 [12]),
     ([10, 11, 12, 13, 14], M_Put 1 1 [11])]"

definition ex_state :: Transitive where
  "ex_state = projr (ex_run [([10], M_Put 1 0 [14])])"

lemma ex_state_reachable: "engine_reachable ex_U ex_params 10 True ex_state"
  unfolding ex_state_def by (rule ex_run_reachable) code_simp

lemma ex_params_ok: "0 \<le> MixedQueryNumPushVdr ex_params" "0 \<le> MixedQueryNumPushNonVdr ex_params"
  by (simp_all add: ex_params_def)

section \<open>Properties\<close>

text \<open>
  C3. The engine never fails by itself. In every state reached from a successful start, whatever message
  is handled and whatever the virtual machine, the sampler and the acceptors answer, the handler either
  succeeds and the invariant of the engine holds again, or it returns an error that one of them
  returned: no panic, no duplicate \<open>Add\<close>, no dereference of a missing block, and every loop and the
  recursion between \<open>deliver\<close> and the blocked events end. There is one exception: a voter goes on
  recording the results of its other polls after \<open>RecordPoll\<close> returned an error that consensus got from
  an acceptor, \<open>Accept\<close> or \<open>Reject\<close>, and nothing is claimed of those polls; it cannot arise when none of
  these calls fails.
\<close>

theorem engine_no_panic:
  assumes "0 \<le> MixedQueryNumPushVdr params" "0 \<le> MixedQueryNumPushNonVdr params"
    and "engine_reachable U params root S t" and "vm_ok U vm"
  shows "case handle vm m t of
      Inl e \<Rightarrow> engine_env_error e \<or>
        (\<exists>failed panic. e = PanicAfterFailedPoll failed panic \<and> env_error failed) \<and> \<not> reliable (vm_env vm)
    | Inr t' \<Rightarrow> engine_ok U root S t'"
proof -
  have "after_failed_poll e \<longleftrightarrow> (\<exists>failed panic. e = PanicAfterFailedPoll failed panic \<and> env_error failed)" for e
    by (cases e) auto
  then show ?thesis
    using handle_ok [OF assms(4) engine_reachable_ok [OF assms(1-3)], of m]
    by (auto simp: res_def fallible_def split: sum.splits)
qed

theorem engine_no_panic_witness:
  "case handle (ex_vm [10, 14]) (M_Chits 1 1 [14]) ex_state of
     Inl e \<Rightarrow> False | Inr t \<Rightarrow> ts_head (t_Consensus t) = 14 \<and> engine_ok ex_U 10 True t"
proof -
  have "\<not> isl (handle (ex_vm [10, 14]) (M_Chits 1 1 [14]) ex_state)"
    "ts_head (t_Consensus (projr (handle (ex_vm [10, 14]) (M_Chits 1 1 [14]) ex_state))) = 14"
    unfolding ex_state_def by code_simp+
  with engine_no_panic [OF ex_params_ok ex_state_reachable ex_vm_ok, of "[10, 14]" "M_Chits 1 1 [14]"]
  show ?thesis by (auto split: sum.splits)
qed

text \<open>
  C11. The composition of the engine, the polls and consensus is safe: in every state of a running
  engine the accepted blocks form a chain from the block it started with to the last accepted one, no
  block is decided twice or both ways, every undecided block consensus holds is a block the virtual
  machine served and is higher than its parent and than the last accepted block, and no open poll can hand more than \<open>K\<close>
  votes to consensus.
\<close>

theorem engine_decisions:
  assumes "0 \<le> MixedQueryNumPushVdr params" "0 \<le> MixedQueryNumPushNonVdr params"
    and "engine_reachable U params root S t"
  shows "let ts = t_Consensus t; acc = accepted_blocks (ts_trace ts); rej = rejected_blocks (ts_trace ts) in
    tip root acc = Some (ts_head ts) \<and> distinct (root # map blk_ID (acc @ rej)) \<and> tree_in U ts \<and>
    set_ok (K (ts_params ts)) (t_polls t)"
proof -
  have core: "engine_core U root t" using engine_reachable_ok [OF assms] by (simp add: engine_ok_def)
  note inv = cons_okD [OF engine_coreD(1) [OF core]]
  have "history_ok root (t_Consensus t)" using ts_reachable_inv [OF inv(1)] by blast
  moreover have "ts_params (t_Consensus t) = t_Params t" using engine_coreD(2) [OF core] by (simp add: params_ok_def)
  ultimately show ?thesis using inv(9) engine_coreD(3) [OF core] by (simp add: history_ok_def Let_def)
qed

theorem engine_decisions_witness:
  "let ts = t_Consensus (projr (ex_run leak_run)) in
   map blk_ID (accepted_blocks (ts_trace ts)) = [11, 12] \<and> tip 10 (accepted_blocks (ts_trace ts)) = Some (ts_head ts)"
proof -
  have r: "engine_reachable ex_U ex_params 10 True (projr (ex_run leak_run))" by (rule ex_run_reachable) code_simp
  have "map blk_ID (accepted_blocks (ts_trace (t_Consensus (projr (ex_run leak_run))))) = [11, 12]" by code_simp
  with engine_decisions [OF ex_params_ok r] show ?thesis by (simp add: Let_def)
qed

text \<open>
  C12. The virtual machine builds on the right block: unless the engine started on an oracle block, the
  last preference it was told is the preference of consensus, after the start and after every handled
  message.
\<close>

theorem engine_preference_synced:
  assumes "0 \<le> MixedQueryNumPushVdr params" "0 \<le> MixedQueryNumPushNonVdr params"
    and "engine_reachable U params root True t"
  shows "last_pref (t_calls t) = Some (ts_Preference (t_Consensus t))"
  using engine_reachable_ok [OF assms] by (simp add: engine_ok_def synced_def)

theorem engine_preference_synced_witness:
  "last_pref (t_calls ex_state) = Some (ts_Preference (t_Consensus ex_state)) \<and> ts_Preference (t_Consensus ex_state) = 14"
  using engine_preference_synced [OF ex_params_ok ex_state_reachable] unfolding ex_state_def by (rule conjI) code_simp

text \<open>
  C4. Votes count for the nearest processing ancestor. When the virtual machine serves the ancestors of
  the voted blocks and heights grow along them, bubbling a poll's votes through the non-verified and the pending blocks gives
  each block exactly the votes for the blocks whose nearest processing ancestor it is.
\<close>

theorem votes_bubble_to_nearest:
  assumes "0 \<le> MixedQueryNumPushVdr params" "0 \<le> MixedQueryNumPushNonVdr params"
    and "engine_reachable U params root S t" and "vm_ok U vm" and "bag_inv votes"
    and heights: "\<And>v. v \<in> set (BagList votes) \<Longrightarrow> climbs U v"
    and served: "\<And>v k b. v \<in> set (BagList votes) \<Longrightarrow> v \<in> below (parU U) k \<Longrightarrow> U k = Some b \<Longrightarrow> t_GetBlock vm t k = Some b"
  shows "\<exists>b. bubbleVotes vm t votes = Inr b \<and> bag_inv b \<and> Len b \<le> Len votes \<and>
    (\<forall>j. Count b j = (\<Sum>v\<leftarrow>BagList votes. if nearest U (t_Consensus t) v j then Count votes v else 0))"
proof -
  have core: "engine_core U root t" using engine_reachable_ok [OF assms(1-3)] by (simp add: engine_ok_def)
  have "credit vm t v = Inr (Some j) \<longleftrightarrow> nearest U (t_Consensus t) v j" if "v \<in> set (BagList votes)" for v j
    using credit_spec [OF assms(4) engine_coreD(4,1) [OF core], of v] heights [OF that] served [OF that] by auto
  then have "(\<Sum>v\<leftarrow>BagList votes. if credit vm t v = Inr (Some j) then Count votes v else 0) =
      (\<Sum>v\<leftarrow>BagList votes. if nearest U (t_Consensus t) v j then Count votes v else 0)" for j
    by (intro arg_cong [of _ _ sum_list] map_cong) auto
  with bubbleVotes_spec [OF assms(4) engine_coreD(4,1) [OF core] assms(5)] show ?thesis by simp
qed

theorem votes_bubble_to_nearest_witness:
  "\<exists>b. bubbleVotes (ex_vm [10, 11, 12, 13, 14]) ex_state (AddCount emptyBag 14 1) = Inr b \<and> bag_inv b \<and> Count b 14 = 1"
proof -
  let ?vm = "ex_vm [10, 11, 12, 13, 14]" and ?vs = "AddCount emptyBag 14 1"
  have b: "bag_inv ?vs" by (simp add: bag_inv_AddCount)
  have "t_pending ex_state = []" unfolding ex_state_def by code_simp
  then have "t_GetBlock ?vm ex_state k = Some c" if "ex_U k = Some c" for k c
    using that by (auto simp: t_GetBlock_def ex_vm_def ex_U_simps)
  moreover have "climbs ex_U v" for v using ex_rises by (auto simp: climbs_def)
  ultimately have "\<exists>c. bubbleVotes ?vm ex_state ?vs = Inr c \<and> bag_inv c"
    using votes_bubble_to_nearest [OF ex_params_ok ex_state_reachable ex_vm_ok b] by blast
  then
  obtain c where c: "bubbleVotes ?vm ex_state ?vs = Inr c" "bag_inv c" by blast
  have "Count (projr (bubbleVotes ?vm ex_state ?vs)) 14 = 1" unfolding ex_state_def by code_simp
  with c show ?thesis by simp
qed

text \<open>
  C13. The tree of non-verified blocks hangs off consensus: for a block in the tree, \<open>GetRoot\<close> ends at a block
  consensus holds, and no block of the tree is itself in consensus; for every other block it returns
  the block.
\<close>

theorem nonverified_anchored:
  assumes "0 \<le> MixedQueryNumPushVdr params" "0 \<le> MixedQueryNumPushNonVdr params"
    and "engine_reachable U params root S t"
  shows "\<exists>r. at_GetRoot (t_nonVerifieds t) i = Some r \<and>
    (if at_Has (t_nonVerifieds t) i then r \<in> block_ids (t_Consensus t) \<and> i \<notin> block_ids (t_Consensus t) else r = i)"
proof -
  have core: "engine_core U root t" using engine_reachable_ok [OF assms] by (simp add: engine_ok_def)
  note a = cons_okD(5) [OF engine_coreD(1) [OF core]]
  obtain r where "at_GetRoot (t_nonVerifieds t) i = Some r"
      "r = i \<or> i \<in> dom (at_par (t_nonVerifieds t)) \<and> r \<in> block_ids (t_Consensus t)"
      "i \<in> dom (at_par (t_nonVerifieds t)) \<longrightarrow> r \<in> block_ids (t_Consensus t)"
    by (rule nvt.anchored_root [OF a])
  then show ?thesis using a by (auto simp: at_Has_eq anchored_par_def)
qed

text \<open>Block 12, a child of the processing block 11, does not verify.\<close>

definition ex_nonverified :: Transitive where
  "ex_nonverified = projr (handle (ex_vm_without [12] [10, 11]) (M_Put 1 0 [12]) (projr (ex_run [([10], M_Put 1 0 [11])])))"

lemma ex_nonverified_reachable: "engine_reachable ex_U ex_params 10 True ex_nonverified"
proof -
  have "engine_reachable ex_U ex_params 10 True (projr (ex_run [([10], M_Put 1 0 [11])]))"
    by (rule ex_run_reachable) code_simp
  moreover have "\<not> isl (handle (ex_vm_without [12] [10, 11]) (M_Put 1 0 [12]) (projr (ex_run [([10], M_Put 1 0 [11])])))"
    by code_simp
  then have "handle (ex_vm_without [12] [10, 11]) (M_Put 1 0 [12]) (projr (ex_run [([10], M_Put 1 0 [11])])) = Inr ex_nonverified"
    unfolding ex_nonverified_def by (simp add: sum.expand)
  ultimately show ?thesis by (rule er_step [OF _ ex_vm_without_ok])
qed

theorem nonverified_anchored_witness:
  "at_GetRoot (t_nonVerifieds ex_nonverified) 12 = Some 11 \<and> 11 \<in> block_ids (t_Consensus ex_nonverified) \<and>
   12 \<notin> block_ids (t_Consensus ex_nonverified)"
proof -
  have "at_Has (t_nonVerifieds ex_nonverified) 12" "at_GetRoot (t_nonVerifieds ex_nonverified) 12 = Some 11"
    unfolding ex_nonverified_def by code_simp+
  with nonverified_anchored [OF ex_params_ok ex_nonverified_reachable, of 12] show ?thesis by simp
qed

text \<open>
  A pending block can be forgotten. In the run below blocks 12 and 13 wait for their parent 11 and a
  vote waits for 12; issuing 11 delivers 12, the vote accepts 11 and 12, and then \<open>deliver\<close> returns for
  block 13, now at a decided height, before it removes it from \<open>pending\<close>. The engine ends with nothing blocked, and block
  13 is still pending although no event is left that would deliver or abandon it.
\<close>

lemma pending_block_leaks:
  "case ex_run leak_run of Inl e \<Rightarrow> False
   | Inr t \<Rightarrow> map fst (t_pending t) = [13] \<and> t_blocked t = [] \<and> ts_head (t_Consensus t) = 12"
  by code_simp

section \<open>Corner cases\<close>

text \<open>
  After a failed poll the voter goes on with the next result. In the run below 11 and 14 are children
  of 10, and 12 and 13 of 11; the older poll accepts 14 and rejects 11 and 12, but \<open>Reject\<close> of 13 returns
  an error when 11 has left the tree already. The younger poll then votes for 12 and the walk to its
  parent dereferences a missing block.
\<close>

definition failing_vm :: VM where
  "failing_vm = (ex_vm [10, 11, 12, 13, 14])\<lparr>vm_env := example_env\<lparr>env_Reject := (\<lambda>i. i = 13)\<rparr>\<rparr>"

definition failing_run :: "(ID list \<times> engine_msg) list" where
  "failing_run = [([10], M_Put 1 0 [11]), ([10, 11], M_Put 1 0 [12]), ([10, 11, 12], M_Put 1 0 [13]),
     ([10, 11, 12, 13], M_Put 1 0 [14]), ([10, 11, 12, 13, 14], M_Chits 1 2 [12])]"

lemma poll_after_failure_panics:
  "case bindR (ex_run failing_run) (handle failing_vm (M_Chits 1 1 [14])) of
     Inl (PanicAfterFailedPoll (ErrBlockReject b ts) NilDeref) \<Rightarrow> blk_ID b = 13 | _ \<Rightarrow> False"
  by code_simp

text \<open>
  When the engine starts on an oracle block and both options fail to verify, \<open>deliver\<close> returns before
  it sets a preference, and the virtual machine is never told one.
\<close>

definition ex_oracle_vm :: VM where
  "ex_oracle_vm = (ex_vm [10])\<lparr>vm_Verify := (\<lambda>_. True),
     vm_Options := (\<lambda>_. Options (the (ex_U 11)) (the (ex_U 14)))\<rparr>"

lemma start_without_preference:
  "case Start ex_oracle_vm 0 (newTransitive ex_params) of Inl e \<Rightarrow> False | Inr t \<Rightarrow> last_pref (t_calls t) = None"
  by code_simp

text \<open>
  \<open>Parameters.Verify\<close> accepts a negative number of push queries, with which \<open>SendMixedQuery\<close> panics as soon
  as a validator is sampled.
\<close>

lemma negative_push_panics:
  "Verify (ex_params\<lparr>MixedQueryNumPushVdr := -1\<rparr>) = None \<and>
   SendMixedQuery [v] (-1) req i bytes t = Inl SlicePanic"
  by (simp add: ex_params_def Verify_def SendMixedQuery_def signed_divide_int_def)

end
