(* ===== verification/Database.thy ===== *)
theory Database
  imports Prelude "HOL-Library.List_Lexorder" "HOL-Library.Sublist"
begin

text \<open>
  The key-value database interface (\<open>database/database.go\<close>, \<open>batch.go\<close>, \<open>iterator.go\<close>), the contract its
  implementations keep, and the in-memory database (\<open>database/memdb/db.go\<close>).
\<close>

section \<open>The interface\<close>

type_synonym bytes = "8 word list"

datatype db_error =
    ErrClosed | ErrNotFound | DBNilPanic | errWrongSize | errNotBool | errBadHashLen | errMarshal | errUnmarshal

text \<open>
  A value of the Go interface is a table of methods. \<open>'s\<close> is the state of the database, \<open>'b\<close> that of its
  batches and \<open>'i\<close> that of its iterators. Strings and byte slices are lists of bytes, a \<open>nil\<close> key or value is
  the empty one, except for the results of an iterator and the bounds of \<open>Compact\<close>, where it is \<open>None\<close>.
\<close>

record ('s, 'b, 'i) Database =
  dHas :: "bytes \<Rightarrow> 's \<Rightarrow> db_error + bool"
  dGet :: "bytes \<Rightarrow> 's \<Rightarrow> db_error + bytes"
  dPut :: "bytes \<Rightarrow> bytes \<Rightarrow> 's \<Rightarrow> db_error + 's"
  dDelete :: "bytes \<Rightarrow> 's \<Rightarrow> db_error + 's"
  dNewBatch :: "'s \<Rightarrow> db_error + 'b"
  dNewIteratorWithStartAndPrefix :: "bytes \<Rightarrow> bytes \<Rightarrow> 's \<Rightarrow> 'i"
  dCompact :: "bytes option \<Rightarrow> bytes option \<Rightarrow> 's \<Rightarrow> db_error + 's"
  dClose :: "'s \<Rightarrow> db_error + 's"
  dHealthCheck :: "'s \<Rightarrow> db_error option"
  bPut :: "bytes \<Rightarrow> bytes \<Rightarrow> 'b \<Rightarrow> db_error + 'b"
  bDelete :: "bytes \<Rightarrow> 'b \<Rightarrow> db_error + 'b"
  bSize :: "'b \<Rightarrow> nat"
  bWrite :: "'b \<Rightarrow> 's \<Rightarrow> db_error + 's"
  bReset :: "'b \<Rightarrow> 'b"
  iNext :: "'s \<Rightarrow> 'i \<Rightarrow> bool \<times> 'i"
  iError :: "'i \<Rightarrow> db_error option"
  iKey :: "'i \<Rightarrow> bytes option"
  iValue :: "'i \<Rightarrow> bytes option"
  iRelease :: "'i \<Rightarrow> 'i"

text \<open>The three other constructors of iterators, which every implementation defines in the same way.\<close>

definition dNewIterator :: "('s, 'b, 'i) Database \<Rightarrow> 's \<Rightarrow> 'i" where
  "dNewIterator D s = dNewIteratorWithStartAndPrefix D [] [] s"

definition dNewIteratorWithStart :: "('s, 'b, 'i) Database \<Rightarrow> bytes \<Rightarrow> 's \<Rightarrow> 'i" where
  "dNewIteratorWithStart D start s = dNewIteratorWithStartAndPrefix D start [] s"

definition dNewIteratorWithPrefix :: "('s, 'b, 'i) Database \<Rightarrow> bytes \<Rightarrow> 's \<Rightarrow> 'i" where
  "dNewIteratorWithPrefix D pre s = dNewIteratorWithStartAndPrefix D [] pre s"

section \<open>Writes\<close>

text \<open>An entry of a batch: \<open>kv_value\<close> is meaningless when \<open>kv_delete\<close> is set.\<close>

record keyValue =
  kv_key :: bytes
  kv_value :: bytes
  kv_delete :: bool

definition kv_write :: "keyValue \<Rightarrow> bytes \<times> bytes option" where
  "kv_write kv = (kv_key kv, if kv_delete kv then None else Some (kv_value kv))"

definition apply_writes :: "(bytes \<times> bytes option) list \<Rightarrow> (bytes \<rightharpoonup> bytes) \<Rightarrow> (bytes \<rightharpoonup> bytes)" where
  "apply_writes ws m = fold (\<lambda>(k, v) m. m(k := v)) ws m"

lemma apply_writes_simps [simp]:
  "apply_writes [] m = m"
  "apply_writes ((k, v) # ws) m = apply_writes ws (m(k := v))"
  "apply_writes (ws @ vs) m = apply_writes vs (apply_writes ws m)"
  by (simp_all add: apply_writes_def)

lemma apply_writes_other: "k \<notin> fst ` set ws \<Longrightarrow> apply_writes ws m k = m k"
  by (induction ws arbitrary: m) auto

text \<open>Writes to distinct keys in any order have the same effect.\<close>

lemma apply_writes_distinct:
  "distinct (map fst ws) \<Longrightarrow> apply_writes ws m k = (case map_of ws k of None \<Rightarrow> m k | Some v \<Rightarrow> v)"
proof (induction ws arbitrary: m)
  case (Cons w ws)
  obtain k0 v0 where w: "w = (k0, v0)" by (cases w)
  show ?case
  proof (cases "k = k0")
    case True
    then have "map_of ws k = None" "k \<notin> fst ` set ws" using Cons.prems w by (auto simp: map_of_eq_None_iff)
    then show ?thesis using True w by (simp add: apply_writes_other)
  next
    case False
    then show ?thesis using Cons w by (simp split: option.split)
  qed
qed simp

section \<open>Sorted ranges\<close>

definition in_range :: "bytes \<Rightarrow> bytes \<Rightarrow> bytes \<Rightarrow> bool" where
  "in_range start pre k \<longleftrightarrow> prefix pre k \<and> start \<le> k"

text \<open>The pairs of a finite map in a range, by increasing key: what an iterator has to visit.\<close>

definition range_list :: "bytes \<Rightarrow> bytes \<Rightarrow> (bytes \<rightharpoonup> bytes) \<Rightarrow> (bytes \<times> bytes) list" where
  "range_list start pre m = map (\<lambda>k. (k, the (m k))) (sorted_list_of_set {k \<in> dom m. in_range start pre k})"

definition sorted_keys :: "('k::linorder \<times> 'v) list \<Rightarrow> bool" where
  "sorted_keys xs \<longleftrightarrow> sorted_wrt (<) (map fst xs)"

lemma sorted_keys_Cons [simp]: "sorted_keys ((k, v) # xs) \<longleftrightarrow> (\<forall>y\<in>set xs. k < fst y) \<and> sorted_keys xs"
  by (auto simp: sorted_keys_def)

lemma sorted_keys_Nil [simp]: "sorted_keys []"
  by (simp add: sorted_keys_def)

lemma sorted_keys_distinct: "sorted_keys xs \<Longrightarrow> distinct (map fst xs)"
  by (simp add: sorted_keys_def strict_sorted_iff)

text \<open>A list of pairs with increasing keys is determined by the map it stands for.\<close>

lemma pairs_by_key: "distinct (map fst xs) \<Longrightarrow> map (\<lambda>k. (k, the (map_of xs k))) (map fst xs) = xs"
  by (auto simp: o_def intro!: map_idI)

lemma sorted_keys_unique:
  assumes "sorted_keys xs" "sorted_keys ys" "map_of xs = map_of ys"
  shows "xs = ys"
proof -
  have "set (map fst xs) = set (map fst ys)"
    using assms(3) dom_map_of_conv_image_fst [of xs] dom_map_of_conv_image_fst [of ys] by simp
  then have "map fst xs = map fst ys"
    using assms(1,2) by (auto simp: sorted_keys_def strict_sorted_iff intro: sorted_distinct_set_unique)
  then show ?thesis
    using pairs_by_key [OF sorted_keys_distinct [OF assms(1)]] pairs_by_key [OF sorted_keys_distinct [OF assms(2)]]
      assms(3) by metis
qed

lemma range_list_eq:
  assumes "sorted_keys xs" and "map_of xs = m |` {k. in_range start pre k}"
  shows "range_list start pre m = xs"
proof -
  have d: "{k \<in> dom m. in_range start pre k} = set (map fst xs)"
    using assms(2) dom_map_of_conv_image_fst [of xs] by (auto simp: dom_def restrict_map_def split: if_splits)
  have "sorted_list_of_set (set (map fst xs)) = map fst xs"
    using assms(1) by (simp only: sorted_keys_def sorted_list_of_set.idem_if_sorted_distinct strict_sorted_iff)
  moreover have "the (m k) = the (map_of xs k)" if "k \<in> set (map fst xs)" for k
    using that d assms(2) by (auto simp: restrict_map_def)
  ultimately have "range_list start pre m = map (\<lambda>k. (k, the (map_of xs k))) (map fst xs)"
    unfolding range_list_def d by (auto intro: map_cong)
  then show ?thesis using pairs_by_key [OF sorted_keys_distinct [OF assms(1)]] by simp
qed

lemma range_list_sorted: "finite (dom m) \<Longrightarrow> sorted_keys (range_list start pre m)"
  by (simp add: range_list_def sorted_keys_def o_def strict_sorted_iff)

lemma range_list_map:
  assumes "finite (dom m)"
  shows "map_of (range_list start pre m) = m |` {k. in_range start pre k}"
proof
  fix k
  have "k \<in> set (sorted_list_of_set {k \<in> dom m. in_range start pre k}) \<longleftrightarrow> k \<in> dom m \<and> in_range start pre k"
    using assms by simp
  then show "map_of (range_list start pre m) k = (m |` {k. in_range start pre k}) k"
    by (auto simp: range_list_def map_of_map_restrict restrict_map_def)
qed

section \<open>The contract of a database\<close>

text \<open>
  What an iterator returns: the pairs of the list in order, then \<open>false\<close>; each call may see another state, as
  long as the database is open.
\<close>

fun yields :: "('s, 'b, 'i) Database \<Rightarrow> ('s \<Rightarrow> bool) \<Rightarrow> 'i \<Rightarrow> (bytes \<times> bytes) list \<Rightarrow> bool" where
  "yields D opened it [] \<longleftrightarrow>
     (\<forall>s. opened s \<longrightarrow> (\<exists>it'. iNext D s it = (False, it') \<and> iKey D it' = None \<and> iValue D it' = None \<and> iError D it' = None))"
| "yields D opened it (x # xs) \<longleftrightarrow>
     (\<forall>s. opened s \<longrightarrow> (\<exists>it'. iNext D s it = (True, it') \<and> iKey D it' = Some (fst x) \<and> iValue D it' = Some (snd x) \<and>
        yields D opened it' xs))"

text \<open>
  A database stands for a finite map while it is open (\<open>\<alpha> s = Some m\<close>) and for nothing once it is closed, a batch
  for the writes it holds (\<open>\<beta>\<close>).
\<close>

locale kv_database =
  fixes D :: "('s, 'b, 'i) Database"
    and ok :: "'s \<Rightarrow> bool"
    and \<alpha> :: "'s \<Rightarrow> (bytes \<rightharpoonup> bytes) option"
    and \<beta> :: "'b \<Rightarrow> (bytes \<times> bytes option) list"
  assumes finite_dom: "ok s \<Longrightarrow> \<alpha> s = Some m \<Longrightarrow> finite (dom m)"
    and Has_law: "ok s \<Longrightarrow> dHas D k s = (case \<alpha> s of None \<Rightarrow> Inl ErrClosed | Some m \<Rightarrow> Inr (m k \<noteq> None))"
    and Get_law: "ok s \<Longrightarrow> dGet D k s = (case \<alpha> s of None \<Rightarrow> Inl ErrClosed
      | Some m \<Rightarrow> (case m k of None \<Rightarrow> Inl ErrNotFound | Some v \<Rightarrow> Inr v))"
    and Put_closed: "ok s \<Longrightarrow> \<alpha> s = None \<Longrightarrow> dPut D k v s = Inl ErrClosed"
    and Put_law: "ok s \<Longrightarrow> \<alpha> s = Some m \<Longrightarrow> \<exists>s'. dPut D k v s = Inr s' \<and> ok s' \<and> \<alpha> s' = Some (m(k \<mapsto> v))"
    and Delete_closed: "ok s \<Longrightarrow> \<alpha> s = None \<Longrightarrow> dDelete D k s = Inl ErrClosed"
    and Delete_law: "ok s \<Longrightarrow> \<alpha> s = Some m \<Longrightarrow> \<exists>s'. dDelete D k s = Inr s' \<and> ok s' \<and> \<alpha> s' = Some (m(k := None))"
    and NewBatch_law: "ok s \<Longrightarrow> \<alpha> s = Some m \<Longrightarrow> \<exists>b. dNewBatch D s = Inr b \<and> \<beta> b = []"
    and bPut_law: "\<exists>b'. bPut D k v b = Inr b' \<and> \<beta> b' = \<beta> b @ [(k, Some v)]"
    and bDelete_law: "\<exists>b'. bDelete D k b = Inr b' \<and> \<beta> b' = \<beta> b @ [(k, None)]"
    and bReset_law: "\<beta> (bReset D b) = []"
    and bWrite_closed: "ok s \<Longrightarrow> \<alpha> s = None \<Longrightarrow> bWrite D b s = Inl ErrClosed"
    and bWrite_law: "ok s \<Longrightarrow> \<alpha> s = Some m \<Longrightarrow>
      \<exists>s'. bWrite D b s = Inr s' \<and> ok s' \<and> \<alpha> s' = Some (apply_writes (\<beta> b) m)"
    and NewIterator_law: "ok s \<Longrightarrow> \<alpha> s = Some m \<Longrightarrow>
      yields D (\<lambda>s. ok s \<and> \<alpha> s \<noteq> None) (dNewIteratorWithStartAndPrefix D start pre s) (range_list start pre m)"
    and NewIterator_closed: "ok s \<Longrightarrow> \<alpha> s = None \<Longrightarrow>
      \<exists>it. iNext D s (dNewIteratorWithStartAndPrefix D start pre s) = (False, it) \<and> iError D it = Some ErrClosed"
    and Next_closed: "ok s \<Longrightarrow> \<alpha> s = None \<Longrightarrow> fst (iNext D s it) = False"
    and Compact_law: "ok s \<Longrightarrow> \<alpha> s = Some m \<Longrightarrow> \<exists>s'. dCompact D start' limit s = Inr s' \<and> ok s' \<and> \<alpha> s' = Some m"
    and Compact_closed: "ok s \<Longrightarrow> \<alpha> s = None \<Longrightarrow> dCompact D start' limit s = Inl ErrClosed"
    and Close_law: "ok s \<Longrightarrow> \<alpha> s = Some m \<Longrightarrow> \<exists>s'. dClose D s = Inr s' \<and> ok s' \<and> \<alpha> s' = None"
    and Close_closed: "ok s \<Longrightarrow> \<alpha> s = None \<Longrightarrow> dClose D s = Inl ErrClosed"
    and HealthCheck_law: "ok s \<Longrightarrow> dHealthCheck D s = (if \<alpha> s = None then Some ErrClosed else None)"

section \<open>memdb\<close>

text \<open>A closed database has a \<open>nil\<close> map.\<close>

record memDatabase =
  md_db :: "(bytes, bytes) gomap option"

record memdb_batch =
  mb_writes :: "keyValue list"
  mb_size :: nat

record memdb_iterator =
  mi_initialized :: bool
  mi_keys :: "bytes list"
  mi_values :: "bytes list"
  mi_err :: "db_error option"

definition memdb_New :: memDatabase where
  "memdb_New = \<lparr>md_db = Some []\<rparr>"

definition memdb_Close :: "memDatabase \<Rightarrow> db_error + memDatabase" where
  "memdb_Close db = (case md_db db of None \<Rightarrow> Inl ErrClosed | Some _ \<Rightarrow> Inr (db\<lparr>md_db := None\<rparr>))"

definition memdb_isClosed :: "memDatabase \<Rightarrow> bool" where
  "memdb_isClosed db = (md_db db = None)"

definition memdb_Has :: "bytes \<Rightarrow> memDatabase \<Rightarrow> db_error + bool" where
  "memdb_Has key db = (case md_db db of None \<Rightarrow> Inl ErrClosed | Some m \<Rightarrow> Inr (map_of m key \<noteq> None))"

definition memdb_Get :: "bytes \<Rightarrow> memDatabase \<Rightarrow> db_error + bytes" where
  "memdb_Get key db =
     (case md_db db of
        None \<Rightarrow> Inl ErrClosed
      | Some m \<Rightarrow> (case map_of m key of Some entry \<Rightarrow> Inr entry | None \<Rightarrow> Inl ErrNotFound))"

definition memdb_Put :: "bytes \<Rightarrow> bytes \<Rightarrow> memDatabase \<Rightarrow> db_error + memDatabase" where
  "memdb_Put key v db =
     (case md_db db of None \<Rightarrow> Inl ErrClosed | Some m \<Rightarrow> Inr (db\<lparr>md_db := Some (AList.update key v m)\<rparr>))"

definition memdb_Delete :: "bytes \<Rightarrow> memDatabase \<Rightarrow> db_error + memDatabase" where
  "memdb_Delete key db =
     (case md_db db of None \<Rightarrow> Inl ErrClosed | Some m \<Rightarrow> Inr (db\<lparr>md_db := Some (AList.delete key m)\<rparr>))"

definition memdb_NewBatch :: "memDatabase \<Rightarrow> db_error + memdb_batch" where
  "memdb_NewBatch db = Inr \<lparr>mb_writes = [], mb_size = 0\<rparr>"

text \<open>On a closed database the iterator is a \<open>nodb.Iterator\<close> with the error: it never moves and has no key.\<close>

definition nodb_Iterator :: "db_error \<Rightarrow> memdb_iterator" where
  "nodb_Iterator e = \<lparr>mi_initialized = False, mi_keys = [], mi_values = [], mi_err = Some e\<rparr>"

definition memdb_NewIteratorWithStartAndPrefix :: "bytes \<Rightarrow> bytes \<Rightarrow> memDatabase \<Rightarrow> memdb_iterator" where
  "memdb_NewIteratorWithStartAndPrefix start pre db =
     (case md_db db of
        None \<Rightarrow> nodb_Iterator ErrClosed
      | Some m \<Rightarrow>
          let keys = sort (filter (\<lambda>key. prefix pre key \<and> start \<le> key) (map fst m));
              values = map (\<lambda>key. the (map_of m key)) keys
          in \<lparr>mi_initialized = False, mi_keys = keys, mi_values = values, mi_err = None\<rparr>)"

definition memdb_Compact :: "bytes option \<Rightarrow> bytes option \<Rightarrow> memDatabase \<Rightarrow> db_error + memDatabase" where
  "memdb_Compact start limit db = (if md_db db = None then Inl ErrClosed else Inr db)"

definition memdb_HealthCheck :: "memDatabase \<Rightarrow> db_error option" where
  "memdb_HealthCheck db = (if memdb_isClosed db then Some ErrClosed else None)"

definition memdb_batch_Put :: "bytes \<Rightarrow> bytes \<Rightarrow> memdb_batch \<Rightarrow> db_error + memdb_batch" where
  "memdb_batch_Put key v b =
     Inr (b\<lparr>mb_writes := mb_writes b @ [\<lparr>kv_key = key, kv_value = v, kv_delete = False\<rparr>],
            mb_size := mb_size b + (length key + length v)\<rparr>)"

definition memdb_batch_Delete :: "bytes \<Rightarrow> memdb_batch \<Rightarrow> db_error + memdb_batch" where
  "memdb_batch_Delete key b =
     Inr (b\<lparr>mb_writes := mb_writes b @ [\<lparr>kv_key = key, kv_value = [], kv_delete = True\<rparr>],
            mb_size := mb_size b + length key\<rparr>)"

definition memdb_batch_Size :: "memdb_batch \<Rightarrow> nat" where
  "memdb_batch_Size b = mb_size b"

definition memdb_batch_Write :: "memdb_batch \<Rightarrow> memDatabase \<Rightarrow> db_error + memDatabase" where
  "memdb_batch_Write b db =
     (case md_db db of
        None \<Rightarrow> Inl ErrClosed
      | Some m \<Rightarrow> Inr (db\<lparr>md_db := Some (fold (\<lambda>kv m. if kv_delete kv then AList.delete (kv_key kv) m
                                                else AList.update (kv_key kv) (kv_value kv) m) (mb_writes b) m)\<rparr>))"

definition memdb_batch_Reset :: "memdb_batch \<Rightarrow> memdb_batch" where
  "memdb_batch_Reset b = b\<lparr>mb_writes := [], mb_size := 0\<rparr>"

text \<open>\<open>Replay\<close> writes into any \<open>KeyValueWriterDeleter\<close>, given by its two methods.\<close>

definition replay_one :: "(bytes \<Rightarrow> bytes \<Rightarrow> 'w \<Rightarrow> db_error + 'w) \<Rightarrow> (bytes \<Rightarrow> 'w \<Rightarrow> db_error + 'w) \<Rightarrow> keyValue \<Rightarrow> 'w \<Rightarrow> db_error + 'w" where
  "replay_one put del kv w = (if kv_delete kv then del (kv_key kv) w else put (kv_key kv) (kv_value kv) w)"

definition memdb_batch_Replay :: "(bytes \<Rightarrow> bytes \<Rightarrow> 'w \<Rightarrow> db_error + 'w) \<Rightarrow> (bytes \<Rightarrow> 'w \<Rightarrow> db_error + 'w) \<Rightarrow>
    memdb_batch \<Rightarrow> 'w \<Rightarrow> db_error + 'w" where
  "memdb_batch_Replay put del b w = foldR (replay_one put del) (mb_writes b) w"

definition memdb_iterator_Next :: "memDatabase \<Rightarrow> memdb_iterator \<Rightarrow> bool \<times> memdb_iterator" where
  "memdb_iterator_Next db it =
     (if memdb_isClosed db then (False, it\<lparr>mi_keys := [], mi_values := [], mi_err := Some ErrClosed\<rparr>)
      else if \<not> mi_initialized it then
        let it = it\<lparr>mi_initialized := True\<rparr> in (mi_keys it \<noteq> [], it)
      else
        let it = (if mi_keys it \<noteq> [] then it\<lparr>mi_keys := tl (mi_keys it), mi_values := tl (mi_values it)\<rparr> else it)
        in (mi_keys it \<noteq> [], it))"

definition memdb_iterator_Error :: "memdb_iterator \<Rightarrow> db_error option" where
  "memdb_iterator_Error it = mi_err it"

definition memdb_iterator_Key :: "memdb_iterator \<Rightarrow> bytes option" where
  "memdb_iterator_Key it = (case mi_keys it of [] \<Rightarrow> None | k # ks \<Rightarrow> Some k)"

definition memdb_iterator_Value :: "memdb_iterator \<Rightarrow> bytes option" where
  "memdb_iterator_Value it = (case mi_values it of [] \<Rightarrow> None | v # vs \<Rightarrow> Some v)"

definition memdb_iterator_Release :: "memdb_iterator \<Rightarrow> memdb_iterator" where
  "memdb_iterator_Release it = it\<lparr>mi_keys := [], mi_values := []\<rparr>"

definition memdb :: "(memDatabase, memdb_batch, memdb_iterator) Database" where
  "memdb = \<lparr>dHas = memdb_Has, dGet = memdb_Get, dPut = memdb_Put, dDelete = memdb_Delete, dNewBatch = memdb_NewBatch,
     dNewIteratorWithStartAndPrefix = memdb_NewIteratorWithStartAndPrefix, dCompact = memdb_Compact,
     dClose = memdb_Close, dHealthCheck = memdb_HealthCheck, bPut = memdb_batch_Put, bDelete = memdb_batch_Delete,
     bSize = memdb_batch_Size, bWrite = memdb_batch_Write, bReset = memdb_batch_Reset, iNext = memdb_iterator_Next,
     iError = memdb_iterator_Error, iKey = memdb_iterator_Key, iValue = memdb_iterator_Value,
     iRelease = memdb_iterator_Release\<rparr>"

section \<open>memdb keeps the contract\<close>

definition memdb_ok :: "memDatabase \<Rightarrow> bool" where
  "memdb_ok db = (case md_db db of None \<Rightarrow> True | Some m \<Rightarrow> distinct (map fst m))"

definition memdb_view :: "memDatabase \<Rightarrow> (bytes \<rightharpoonup> bytes) option" where
  "memdb_view db = map_option map_of (md_db db)"

definition memdb_writes :: "memdb_batch \<Rightarrow> (bytes \<times> bytes option) list" where
  "memdb_writes b = map kv_write (mb_writes b)"

lemmas memdb_defs = memdb_def memdb_Has_def memdb_Get_def memdb_Put_def memdb_Delete_def memdb_NewBatch_def
  memdb_Compact_def memdb_Close_def memdb_HealthCheck_def memdb_isClosed_def memdb_batch_Put_def
  memdb_batch_Delete_def memdb_batch_Reset_def memdb_iterator_Error_def memdb_iterator_Key_def
  memdb_iterator_Value_def memdb_view_def memdb_ok_def memdb_writes_def kv_write_def

lemma memdb_write_fold:
  assumes "distinct (map fst m)"
  shows "distinct (map fst (fold (\<lambda>kv m. if kv_delete kv then AList.delete (kv_key kv) m
      else AList.update (kv_key kv) (kv_value kv) m) ws m)) \<and>
    map_of (fold (\<lambda>kv m. if kv_delete kv then AList.delete (kv_key kv) m
      else AList.update (kv_key kv) (kv_value kv) m) ws m) = apply_writes (map kv_write ws) (map_of m)"
  using assms
  by (induction ws arbitrary: m)
    (simp_all add: kv_write_def distinct_update distinct_delete update_conv' delete_conv')

text \<open>The iterator at a point of its list: \<open>i\<close> is about to return the pairs of \<open>xs\<close>.\<close>

lemma memdb_yields_rest:
  "mi_initialized it \<Longrightarrow> mi_err it = None \<Longrightarrow> mi_keys it = k # map fst xs \<Longrightarrow> mi_values it = v # map snd xs \<Longrightarrow>
   yields memdb (\<lambda>s. memdb_ok s \<and> memdb_view s \<noteq> None) it xs"
  by (induction xs arbitrary: it k v)
    (auto simp: memdb_defs memdb_iterator_Next_def Let_def)

lemma memdb_yields:
  assumes "\<not> mi_initialized it" "mi_err it = None" "mi_keys it = map fst xs" "mi_values it = map snd xs"
  shows "yields memdb (\<lambda>s. memdb_ok s \<and> memdb_view s \<noteq> None) it xs"
proof (cases xs)
  case (Cons x ys)
  then have "yields memdb (\<lambda>s. memdb_ok s \<and> memdb_view s \<noteq> None) (it\<lparr>mi_initialized := True\<rparr>) ys"
    using assms by (intro memdb_yields_rest) auto
  then show ?thesis using assms Cons by (auto simp: memdb_defs memdb_iterator_Next_def Let_def)
qed (use assms in \<open>auto simp: memdb_defs memdb_iterator_Next_def Let_def\<close>)

text \<open>Sorting the keys of a map that lie in a range gives the range list.\<close>

lemma sorted_range_keys:
  fixes m :: "(bytes \<times> 'v) list" and start pre :: bytes
  assumes "distinct (map fst m)"
  defines "ks \<equiv> sort (filter (\<lambda>k. prefix pre k \<and> start \<le> k) (map fst m))"
  shows "sorted_keys (map (\<lambda>k. (k, f k)) ks)"
    and "map_of (map (\<lambda>k. (k, the (map_of m k))) ks) = map_of m |` {k. in_range start pre k}"
proof -
  show "sorted_keys (map (\<lambda>k. (k, f k)) ks)"
    using assms(1) by (simp add: ks_def sorted_keys_def o_def strict_sorted_iff)
  show "map_of (map (\<lambda>k. (k, the (map_of m k))) ks) = map_of m |` {k. in_range start pre k}"
  proof
    fix k
    have "k \<in> set ks \<longleftrightarrow> k \<in> dom (map_of m) \<and> in_range start pre k"
      by (auto simp: ks_def in_range_def dom_map_of_conv_image_fst)
    then show "map_of (map (\<lambda>k. (k, the (map_of m k))) ks) k = (map_of m |` {k. in_range start pre k}) k"
      by (auto simp: map_of_map_keys restrict_map_def o_def map_of_map_restrict)
  qed
qed

lemma memdb_iterator_yields:
  assumes "memdb_ok s" "memdb_view s = Some m"
  shows "yields memdb (\<lambda>s. memdb_ok s \<and> memdb_view s \<noteq> None)
    (dNewIteratorWithStartAndPrefix memdb start pre s) (range_list start pre m)"
proof -
  obtain l where l: "md_db s = Some l" "distinct (map fst l)" "m = map_of l"
    using assms by (auto simp: memdb_view_def memdb_ok_def)
  let ?ks = "sort (filter (\<lambda>k. prefix pre k \<and> start \<le> k) (map fst l))"
  have "range_list start pre m = map (\<lambda>k. (k, the (map_of l k))) ?ks"
    unfolding l(3) by (rule range_list_eq [OF sorted_range_keys [OF l(2)]])
  then show ?thesis
    by (intro memdb_yields)
      (simp_all add: memdb_def memdb_NewIteratorWithStartAndPrefix_def l(1) Let_def o_def)
qed

interpretation mem: kv_database memdb memdb_ok memdb_view memdb_writes
proof (unfold_locales, goal_cases)
  case (13 s m b)
  then show ?case
    using memdb_write_fold by (auto simp: memdb_defs memdb_batch_Write_def)
next
  case (14 s m start pre)
  then show ?case by (rule memdb_iterator_yields)
qed (auto simp: memdb_defs memdb_batch_Write_def memdb_NewIteratorWithStartAndPrefix_def nodb_Iterator_def
  memdb_iterator_Next_def finite_dom_map_of update_conv' delete_conv' distinct_update distinct_delete split: option.splits)

text \<open>Replaying writes into a database that keeps the contract has the effect of writing them as a batch.\<close>

context kv_database
begin

lemma replay_law:
  assumes "ok s" "\<alpha> s = Some m"
  shows "\<exists>s'. foldR (replay_one (dPut D) (dDelete D)) ws s = Inr s' \<and> ok s' \<and> \<alpha> s' = Some (apply_writes (map kv_write ws) m)"
  using assms
proof (induction ws arbitrary: s m)
  case (Cons w ws)
  obtain s' where "replay_one (dPut D) (dDelete D) w s = Inr s'" "ok s'" "\<alpha> s' = Some (apply_writes [kv_write w] m)"
    using Put_law [OF Cons.prems, of "kv_key w" "kv_value w"] Delete_law [OF Cons.prems, of "kv_key w"]
    by (cases "kv_delete w") (auto simp: replay_one_def kv_write_def)
  moreover have "apply_writes (map kv_write (w # ws)) m = apply_writes (map kv_write ws) (apply_writes [kv_write w] m)"
    by (cases "kv_write w") simp
  ultimately show ?case using Cons.IH by auto
qed simp

end

end
