(* ===== verification/VersionDB.thy ===== *)
theory VersionDB
  imports Database
begin

text \<open>
  The versioned database (\<open>database/versiondb/db.go\<close>): writes are buffered in memory over an underlying
  database, and committed or aborted together. The underlying database is any value of the interface.
\<close>

section \<open>Model\<close>

record valueDelete =
  vd_value :: bytes
  vd_delete :: bool

text \<open>
  \<open>v_db\<close> is the state of the underlying database, \<open>v_nil\<close> says that the pointer to it has been cleared; the
  underlying database itself lives on. A closed database has a \<open>nil\<close> map.
\<close>

record ('s, 'b) versionDatabase =
  v_mem :: "(bytes, valueDelete) gomap option"
  v_db :: 's
  v_nil :: bool
  v_batch :: "'b option"

definition iterativeDeleteThreshold :: nat where
  "iterativeDeleteThreshold = 512"

definition versiondb_New :: "('s, 'b, 'i) Database \<Rightarrow> 's \<Rightarrow> db_error + ('s, 'b) versionDatabase" where
  "versiondb_New D db = bindR (dNewBatch D db) (\<lambda>b. Inr \<lparr>v_mem = Some [], v_db = db, v_nil = False, v_batch = Some b\<rparr>)"

definition versiondb_Has :: "('s, 'b, 'i) Database \<Rightarrow> bytes \<Rightarrow> ('s, 'b) versionDatabase \<Rightarrow> db_error + bool" where
  "versiondb_Has D key db =
     (case v_mem db of
        None \<Rightarrow> Inl ErrClosed
      | Some mem \<Rightarrow> (case map_of mem key of Some val \<Rightarrow> Inr (\<not> vd_delete val) | None \<Rightarrow> dHas D key (v_db db)))"

definition versiondb_Get :: "('s, 'b, 'i) Database \<Rightarrow> bytes \<Rightarrow> ('s, 'b) versionDatabase \<Rightarrow> db_error + bytes" where
  "versiondb_Get D key db =
     (case v_mem db of
        None \<Rightarrow> Inl ErrClosed
      | Some mem \<Rightarrow>
          (case map_of mem key of
             Some val \<Rightarrow> if vd_delete val then Inl ErrNotFound else Inr (vd_value val)
           | None \<Rightarrow> dGet D key (v_db db)))"

definition versiondb_Put :: "bytes \<Rightarrow> bytes \<Rightarrow> ('s, 'b) versionDatabase \<Rightarrow> db_error + ('s, 'b) versionDatabase" where
  "versiondb_Put key v db =
     (case v_mem db of
        None \<Rightarrow> Inl ErrClosed
      | Some mem \<Rightarrow> Inr (db\<lparr>v_mem := Some (AList.update key \<lparr>vd_value = v, vd_delete = False\<rparr> mem)\<rparr>))"

definition versiondb_Delete :: "bytes \<Rightarrow> ('s, 'b) versionDatabase \<Rightarrow> db_error + ('s, 'b) versionDatabase" where
  "versiondb_Delete key db =
     (case v_mem db of
        None \<Rightarrow> Inl ErrClosed
      | Some mem \<Rightarrow> Inr (db\<lparr>v_mem := Some (AList.update key \<lparr>vd_value = [], vd_delete = True\<rparr> mem)\<rparr>))"

definition versiondb_NewBatch :: "('s, 'b) versionDatabase \<Rightarrow> db_error + memdb_batch" where
  "versiondb_NewBatch db = Inr \<lparr>mb_writes = [], mb_size = 0\<rparr>"

definition versiondb_Compact :: "('s, 'b, 'i) Database \<Rightarrow> bytes option \<Rightarrow> bytes option \<Rightarrow> ('s, 'b) versionDatabase \<Rightarrow>
    db_error + ('s, 'b) versionDatabase" where
  "versiondb_Compact D start limit db =
     (if v_mem db = None then Inl ErrClosed
      else bindR (dCompact D start limit (v_db db)) (\<lambda>s. Inr (db\<lparr>v_db := s\<rparr>)))"

definition versiondb_SetDatabase :: "('s, 'b, 'i) Database \<Rightarrow> 's \<Rightarrow> ('s, 'b) versionDatabase \<Rightarrow> db_error + ('s, 'b) versionDatabase" where
  "versiondb_SetDatabase D newDB db =
     (if v_mem db = None then Inl ErrClosed
      else bindR (dNewBatch D newDB) (\<lambda>b. Inr (db\<lparr>v_db := newDB, v_batch := Some b\<rparr>)))"

definition versiondb_GetDatabase :: "('s, 'b) versionDatabase \<Rightarrow> 's option" where
  "versiondb_GetDatabase db = (if v_nil db then None else Some (v_db db))"

definition versiondb_abort :: "('s, 'b) versionDatabase \<Rightarrow> ('s, 'b) versionDatabase" where
  "versiondb_abort db =
     (case v_mem db of
        None \<Rightarrow> db
      | Some mem \<Rightarrow>
          if length mem > iterativeDeleteThreshold then db\<lparr>v_mem := Some []\<rparr>
          else db\<lparr>v_mem := Some (fold (\<lambda>kv m. AList.delete (fst kv) m) mem mem)\<rparr>)"

definition versiondb_commitBatch :: "('s, 'b, 'i) Database \<Rightarrow> ('s, 'b) versionDatabase \<Rightarrow> db_error + 'b \<times> ('s, 'b) versionDatabase" where
  "versiondb_commitBatch D db =
     (case v_mem db of
        None \<Rightarrow> Inl ErrClosed
      | Some mem \<Rightarrow>
          (case v_batch db of
             None \<Rightarrow> Inl DBNilPanic
           | Some batch \<Rightarrow>
               bindR (foldR (\<lambda>(key, val) b. if vd_delete val then bDelete D key b else bPut D key (vd_value val) b)
                        mem (bReset D batch)) (\<lambda>b.
               Inr (b, db\<lparr>v_batch := Some b\<rparr>))))"

definition versiondb_CommitBatch :: "('s, 'b, 'i) Database \<Rightarrow> ('s, 'b) versionDatabase \<Rightarrow> db_error + 'b \<times> ('s, 'b) versionDatabase" where
  "versiondb_CommitBatch D db = versiondb_commitBatch D db"

definition versiondb_Commit :: "('s, 'b, 'i) Database \<Rightarrow> ('s, 'b) versionDatabase \<Rightarrow> db_error + ('s, 'b) versionDatabase" where
  "versiondb_Commit D db =
     bindR (versiondb_commitBatch D db) (\<lambda>(batch, db).
     bindR (bWrite D batch (v_db db)) (\<lambda>s.
     Inr (versiondb_abort (db\<lparr>v_db := s, v_batch := Some (bReset D batch)\<rparr>))))"

definition versiondb_Abort :: "('s, 'b) versionDatabase \<Rightarrow> ('s, 'b) versionDatabase" where
  "versiondb_Abort db = versiondb_abort db"

definition versiondb_Close :: "('s, 'b) versionDatabase \<Rightarrow> db_error + ('s, 'b) versionDatabase" where
  "versiondb_Close db =
     (if v_mem db = None then Inl ErrClosed else Inr (db\<lparr>v_batch := None, v_mem := None, v_nil := True\<rparr>))"

definition versiondb_isClosed :: "('s, 'b) versionDatabase \<Rightarrow> bool" where
  "versiondb_isClosed db = v_nil db"

definition versiondb_HealthCheck :: "('s, 'b, 'i) Database \<Rightarrow> ('s, 'b) versionDatabase \<Rightarrow> db_error option" where
  "versiondb_HealthCheck D db = (if v_mem db = None then Some ErrClosed else dHealthCheck D (v_db db))"

text \<open>The batch of a versioned database has the fields and methods of \<open>memdb\<close>'s, but for \<open>Write\<close>.\<close>

definition versiondb_batch_Write :: "memdb_batch \<Rightarrow> ('s, 'b) versionDatabase \<Rightarrow> db_error + ('s, 'b) versionDatabase" where
  "versiondb_batch_Write b db =
     (case v_mem db of
        None \<Rightarrow> Inl ErrClosed
      | Some mem \<Rightarrow>
          Inr (db\<lparr>v_mem := Some (fold (\<lambda>kv m. AList.update (kv_key kv) \<lparr>vd_value = kv_value kv, vd_delete = kv_delete kv\<rparr> m)
                                   (mb_writes b) mem)\<rparr>))"

subsection \<open>Iterators\<close>

record 'i versiondb_iterator =
  vi_Iterator :: 'i
  vi_key :: "bytes option"
  vi_value :: "bytes option"
  vi_err :: "db_error option"
  vi_keys :: "bytes list"
  vi_values :: "valueDelete list"
  vi_initialized :: bool
  vi_exhausted :: bool

text \<open>On a closed database the iterator is a \<open>nodb.Iterator\<close>.\<close>

datatype 'i vit = NoDB db_error | VIter "'i versiondb_iterator"

definition versiondb_NewIteratorWithStartAndPrefix :: "('s, 'b, 'i) Database \<Rightarrow> bytes \<Rightarrow> bytes \<Rightarrow> ('s, 'b) versionDatabase \<Rightarrow> 'i vit" where
  "versiondb_NewIteratorWithStartAndPrefix D start pre db =
     (case v_mem db of
        None \<Rightarrow> NoDB ErrClosed
      | Some mem \<Rightarrow>
          let keys = sort (filter (\<lambda>key. prefix pre key \<and> start \<le> key) (map fst mem));
              values = map (\<lambda>key. the (map_of mem key)) keys
          in VIter \<lparr>vi_Iterator = dNewIteratorWithStartAndPrefix D start pre (v_db db), vi_key = None, vi_value = None,
               vi_err = None, vi_keys = keys, vi_values = values, vi_initialized = False, vi_exhausted = False\<rparr>)"

definition vit_pop :: "'i versiondb_iterator \<Rightarrow> 'i versiondb_iterator" where
  "vit_pop it = it\<lparr>vi_keys := tl (vi_keys it), vi_values := tl (vi_values it)\<rparr>"

text \<open>\<open>it.exhausted = !it.Iterator.Next()\<close>.\<close>

definition vit_advance :: "('s, 'b, 'i) Database \<Rightarrow> 's \<Rightarrow> 'i versiondb_iterator \<Rightarrow> 'i versiondb_iterator" where
  "vit_advance D s it =
     (let (hasNext, inner) = iNext D s (vi_Iterator it) in it\<lparr>vi_Iterator := inner, vi_exhausted := \<not> hasNext\<rparr>)"

definition vit_set :: "bytes \<Rightarrow> valueDelete \<Rightarrow> 'i versiondb_iterator \<Rightarrow> 'i versiondb_iterator" where
  "vit_set k v it = it\<lparr>vi_key := Some k, vi_value := Some (vd_value v)\<rparr>"

definition vit_inner :: "('s, 'b, 'i) Database \<Rightarrow> 's \<Rightarrow> 'i versiondb_iterator \<Rightarrow> 'i versiondb_iterator" where
  "vit_inner D s it =
     vit_advance D s (it\<lparr>vi_key := iKey D (vi_Iterator it), vi_value := iValue D (vi_Iterator it)\<rparr>)"

function vit_loop :: "('s, 'b, 'i) Database \<Rightarrow> 's \<Rightarrow> 'i versiondb_iterator \<Rightarrow> bool \<times> 'i versiondb_iterator" where
  "vit_loop D s it =
     (if vi_exhausted it \<and> vi_keys it = [] then (False, it\<lparr>vi_key := None, vi_value := None\<rparr>)
      else if vi_exhausted it then
        let nextKey = hd (vi_keys it);
            nextValue = hd (vi_values it)
        in if \<not> vd_delete nextValue then (True, vit_set nextKey nextValue (vit_pop it)) else vit_loop D s (vit_pop it)
      else if vi_keys it = [] then (True, vit_inner D s it)
      else
        let memKey = hd (vi_keys it);
            memValue = hd (vi_values it);
            dbStringKey = (case iKey D (vi_Iterator it) of None \<Rightarrow> [] | Some k \<Rightarrow> k)
        in if memKey < dbStringKey then
             if \<not> vd_delete memValue then (True, vit_set memKey memValue (vit_pop it)) else vit_loop D s (vit_pop it)
           else if dbStringKey < memKey then (True, vit_inner D s it)
           else if \<not> vd_delete memValue then (True, vit_set memKey memValue (vit_advance D s (vit_pop it)))
           else vit_loop D s (vit_advance D s (vit_pop it)))"
  by pat_completeness auto
termination
  by (relation "measure (\<lambda>(D, s, it). length (vi_keys it))")
    (auto simp: vit_pop_def vit_advance_def split: prod.split)

declare vit_loop.simps [simp del]

fun versiondb_iterator_Next :: "('s, 'b, 'i) Database \<Rightarrow> ('s, 'b) versionDatabase \<Rightarrow> 'i vit \<Rightarrow> bool \<times> 'i vit" where
  "versiondb_iterator_Next D db (NoDB e) = (False, NoDB e)"
| "versiondb_iterator_Next D db (VIter it) =
     (if versiondb_isClosed db then (False, VIter (it\<lparr>vi_key := None, vi_value := None, vi_err := Some ErrClosed\<rparr>))
      else
        let it = (if \<not> vi_initialized it then (vit_advance D (v_db db) it)\<lparr>vi_initialized := True\<rparr> else it);
            (r, it) = vit_loop D (v_db db) it
        in (r, VIter it))"

fun versiondb_iterator_Error :: "('s, 'b, 'i) Database \<Rightarrow> 'i vit \<Rightarrow> db_error option" where
  "versiondb_iterator_Error D (NoDB e) = Some e"
| "versiondb_iterator_Error D (VIter it) = (if vi_err it \<noteq> None then vi_err it else iError D (vi_Iterator it))"

fun versiondb_iterator_Key :: "'i vit \<Rightarrow> bytes option" where
  "versiondb_iterator_Key (NoDB e) = None"
| "versiondb_iterator_Key (VIter it) = vi_key it"

fun versiondb_iterator_Value :: "'i vit \<Rightarrow> bytes option" where
  "versiondb_iterator_Value (NoDB e) = None"
| "versiondb_iterator_Value (VIter it) = vi_value it"

fun versiondb_iterator_Release :: "('s, 'b, 'i) Database \<Rightarrow> 'i vit \<Rightarrow> 'i vit" where
  "versiondb_iterator_Release D (NoDB e) = NoDB e"
| "versiondb_iterator_Release D (VIter it) =
     VIter (it\<lparr>vi_key := None, vi_value := None, vi_keys := [], vi_values := [], vi_Iterator := iRelease D (vi_Iterator it)\<rparr>)"

definition versiondb :: "('s, 'b, 'i) Database \<Rightarrow> (('s, 'b) versionDatabase, memdb_batch, 'i vit) Database" where
  "versiondb D = \<lparr>dHas = versiondb_Has D, dGet = versiondb_Get D, dPut = versiondb_Put, dDelete = versiondb_Delete,
     dNewBatch = versiondb_NewBatch, dNewIteratorWithStartAndPrefix = versiondb_NewIteratorWithStartAndPrefix D,
     dCompact = versiondb_Compact D, dClose = versiondb_Close, dHealthCheck = versiondb_HealthCheck D,
     bPut = memdb_batch_Put, bDelete = memdb_batch_Delete, bSize = memdb_batch_Size, bWrite = versiondb_batch_Write,
     bReset = memdb_batch_Reset, iNext = versiondb_iterator_Next D, iError = versiondb_iterator_Error D,
     iKey = versiondb_iterator_Key, iValue = versiondb_iterator_Value, iRelease = versiondb_iterator_Release D\<rparr>"

section \<open>The view of a versioned database\<close>

definition overlay :: "(bytes, valueDelete) gomap \<Rightarrow> (bytes \<rightharpoonup> bytes) \<Rightarrow> (bytes \<rightharpoonup> bytes)" where
  "overlay mem m k = (case map_of mem k of None \<Rightarrow> m k | Some v \<Rightarrow> if vd_delete v then None else Some (vd_value v))"

definition versiondb_ok :: "('s \<Rightarrow> bool) \<Rightarrow> ('s \<Rightarrow> (bytes \<rightharpoonup> bytes) option) \<Rightarrow> ('s, 'b) versionDatabase \<Rightarrow> bool" where
  "versiondb_ok ok \<alpha> v \<longleftrightarrow> ok (v_db v) \<and> v_nil v = (v_mem v = None) \<and>
     (case v_mem v of None \<Rightarrow> True | Some mem \<Rightarrow> distinct (map fst mem) \<and> \<alpha> (v_db v) \<noteq> None \<and> v_batch v \<noteq> None)"

definition versiondb_view :: "('s \<Rightarrow> (bytes \<rightharpoonup> bytes) option) \<Rightarrow> ('s, 'b) versionDatabase \<Rightarrow> (bytes \<rightharpoonup> bytes) option" where
  "versiondb_view \<alpha> v = (case v_mem v of None \<Rightarrow> None | Some mem \<Rightarrow> map_option (overlay mem) (\<alpha> (v_db v)))"

lemma overlay_Nil [simp]: "overlay [] m = m"
  by (simp add: overlay_def fun_eq_iff)

lemma overlay_update:
  "overlay (AList.update k \<lparr>vd_value = v, vd_delete = d\<rparr> mem) m = (overlay mem m)(k := if d then None else Some v)"
  by (auto simp: overlay_def fun_eq_iff update_conv')

lemma finite_overlay: "finite (dom m) \<Longrightarrow> finite (dom (overlay mem m))"
  by (rule finite_subset [of _ "dom m \<union> dom (map_of mem)"])
    (auto simp: overlay_def finite_dom_map_of split: option.splits)

lemma overlay_batch:
  assumes "distinct (map fst mem)"
  defines "f \<equiv> \<lambda>kv m. AList.update (kv_key kv) \<lparr>vd_value = kv_value kv, vd_delete = kv_delete kv\<rparr> m"
  shows "distinct (map fst (fold f ws mem)) \<and> overlay (fold f ws mem) m = apply_writes (map kv_write ws) (overlay mem m)"
  using assms(1)
  by (induction ws arbitrary: mem) (simp_all add: f_def overlay_update distinct_update kv_write_def fun_upd_def if_distrib)

text \<open>Committing the buffered writes to a map gives the overlay.\<close>

definition vd_writes :: "(bytes, valueDelete) gomap \<Rightarrow> (bytes \<times> bytes option) list" where
  "vd_writes mem = map (\<lambda>(k, v). (k, if vd_delete v then None else Some (vd_value v))) mem"

lemma apply_vd_writes: "distinct (map fst mem) \<Longrightarrow> apply_writes (vd_writes mem) m = overlay mem m"
proof
  fix k assume d: "distinct (map fst mem)"
  have "map_of (vd_writes mem) k = map_option (\<lambda>v. if vd_delete v then None else Some (vd_value v)) (map_of mem k)"
    by (induction mem) (auto simp: vd_writes_def)
  moreover have "map fst (vd_writes mem) = map fst mem" by (simp add: vd_writes_def o_def case_prod_beta)
  ultimately show "apply_writes (vd_writes mem) m k = overlay mem m k"
    using d by (simp add: apply_writes_distinct overlay_def split: option.split)
qed

lemma abort_clears:
  "v_mem (versiondb_abort v) = map_option (\<lambda>_. []) (v_mem v)" "v_db (versiondb_abort v) = v_db v"
  "v_nil (versiondb_abort v) = v_nil v" "v_batch (versiondb_abort v) = v_batch v"
proof -
  have "fold (\<lambda>kv m. AList.delete (fst kv) m) xs mem = filter (\<lambda>p. fst p \<notin> fst ` set xs) mem" for xs mem :: "(bytes \<times> valueDelete) list"
    by (induction xs arbitrary: mem) (auto simp: delete_eq_filter intro: filter_cong)
  then have "fold (\<lambda>kv m. AList.delete (fst kv) m) mem mem = []" for mem :: "(bytes \<times> valueDelete) list"
    by (simp add: filter_empty_conv)
  then show "v_mem (versiondb_abort v) = map_option (\<lambda>_. []) (v_mem v)"
    by (simp add: versiondb_abort_def split: option.split)
qed (simp_all add: versiondb_abort_def split: option.split)

section \<open>Merged iteration\<close>

text \<open>What the iterator has to return: the buffered pairs \<open>ms\<close> take precedence over the stored ones \<open>bs\<close>.\<close>

fun vmerge :: "(bytes \<times> valueDelete) list \<Rightarrow> (bytes \<times> bytes) list \<Rightarrow> (bytes \<times> bytes) list" where
  "vmerge [] bs = bs"
| "vmerge ((k, v) # ms) [] = (if vd_delete v then vmerge ms [] else (k, vd_value v) # vmerge ms [])"
| "vmerge ((k, v) # ms) ((k', w) # bs) =
     (if k < k' then if vd_delete v then vmerge ms ((k', w) # bs) else (k, vd_value v) # vmerge ms ((k', w) # bs)
      else if k' < k then (k', w) # vmerge ((k, v) # ms) bs
      else if vd_delete v then vmerge ms bs else (k, vd_value v) # vmerge ms bs)"

lemma vmerge_keys: "x \<in> set (vmerge ms bs) \<Longrightarrow> fst x \<in> fst ` set ms \<union> fst ` set bs"
  by (induction ms bs rule: vmerge.induct) (auto split: if_splits)

lemma vmerge_above:
  assumes "\<forall>y\<in>set ms. k < fst y" "\<forall>y\<in>set bs. k < fst y"
  shows "\<forall>y\<in>set (vmerge ms bs). k < fst y"
proof
  fix y assume "y \<in> set (vmerge ms bs)"
  from vmerge_keys [OF this] show "k < fst y" using assms by (metis UnE imageE)
qed

lemma vmerge_sorted: "sorted_keys ms \<Longrightarrow> sorted_keys bs \<Longrightarrow> sorted_keys (vmerge ms bs)"
proof (induction ms bs rule: vmerge.induct)
  case (2 k v ms)
  then show ?case using vmerge_above [of ms k "[]"] by simp
next
  case (3 k v ms k' w bs)
  have above: "\<forall>y\<in>set zs. x < fst y \<Longrightarrow> x' < x \<Longrightarrow> \<forall>y\<in>set zs. x' < fst y" for x x' :: bytes and zs :: "(bytes \<times> 'z) list"
    using less_trans by blast
  consider "k < k'" | "k' < k" | "k = k'" by fastforce
  then show ?case
  proof cases
    case 1
    then show ?thesis using 3 vmerge_above [of ms k "(k', w) # bs"] above [of bs k' k] by simp
  next
    case 2
    have nl: "\<not> k < k'" using 2 by (rule less_not_sym)
    with 2 have e: "vmerge ((k, v) # ms) ((k', w) # bs) = (k', w) # vmerge ((k, v) # ms) bs" by simp
    have "sorted_keys (vmerge ((k, v) # ms) bs)" using 3 2 nl by simp
    moreover have "\<forall>y\<in>set ((k, v) # ms). k' < fst y" "\<forall>y\<in>set bs. k' < fst y"
      using "3.prems" 2 above [OF _ 2, of ms] by simp_all
    ultimately show ?thesis unfolding e sorted_keys_Cons by (intro conjI vmerge_above)
  next
    case c: 3
    then show ?thesis using 3 vmerge_above [of ms k bs] by simp
  qed
qed simp

lemma not_in_keys: "\<forall>y\<in>set xs. (k::bytes) < fst y \<Longrightarrow> map_of xs k = None"
  by (force simp: map_of_eq_None_iff)

lemma vmerge_map:
  "sorted_keys ms \<Longrightarrow> sorted_keys bs \<Longrightarrow> map_of (vmerge ms bs) = overlay ms (map_of bs)"
proof (induction ms bs rule: vmerge.induct)
  case (2 k v ms)
  then show ?case using not_in_keys [of ms k] by (auto simp: overlay_def fun_eq_iff split: option.split)
next
  case (3 k v ms k' w bs)
  consider "k < k'" | "k' < k" | "k = k'" by fastforce
  then show ?case
  proof cases
    case 1
    with 3 have "map_of bs k = None" by (intro not_in_keys) auto
    with 1 3 not_in_keys [of ms k] show ?thesis by (auto simp: overlay_def fun_eq_iff split: option.split)
  next
    case 2
    with 3 have "map_of ms k' = None" by (intro not_in_keys) auto
    with 2 3 not_in_keys [of bs k'] show ?thesis by (auto simp: overlay_def fun_eq_iff split: option.split)
  next
    case c: 3
    with 3 not_in_keys [of ms k] not_in_keys [of bs k] show ?thesis by (auto simp: overlay_def fun_eq_iff split: option.split)
  qed
qed simp

section \<open>The contract\<close>

text \<open>
  The state of an initialised iterator: \<open>ms\<close> are the buffered pairs and \<open>bs\<close> the stored ones that are left; the inner
  iterator stands on the first of them.
\<close>

definition vit_at :: "('s, 'b, 'i) Database \<Rightarrow> ('s \<Rightarrow> bool) \<Rightarrow> 'i versiondb_iterator \<Rightarrow>
    (bytes \<times> valueDelete) list \<Rightarrow> (bytes \<times> bytes) list \<Rightarrow> bool" where
  "vit_at D opened it ms bs \<longleftrightarrow> vi_initialized it \<and> vi_err it = None \<and> vi_keys it = map fst ms \<and> vi_values it = map snd ms \<and>
     (case bs of
        [] \<Rightarrow> vi_exhausted it \<and> iError D (vi_Iterator it) = None
      | b # bs' \<Rightarrow> \<not> vi_exhausted it \<and> iKey D (vi_Iterator it) = Some (fst b) \<and> iValue D (vi_Iterator it) = Some (snd b) \<and>
          yields D opened (vi_Iterator it) bs')"

lemma vit_at_advance:
  assumes "yields D opened (vi_Iterator it) bs" "opened s" "vi_initialized it" "vi_err it = None"
    "vi_keys it = map fst ms" "vi_values it = map snd ms"
  shows "vit_at D opened (vit_advance D s it) ms bs"
  using assms by (cases bs) (auto simp: vit_at_def vit_advance_def)

lemma vit_at_pop: "vit_at D opened it (m # ms) bs \<Longrightarrow> vit_at D opened (vit_pop it) ms bs"
  by (simp add: vit_at_def vit_pop_def split: list.splits)

lemma vit_at_set: "vit_at D opened (vit_set k v it) ms bs = vit_at D opened it ms bs"
  by (simp add: vit_at_def vit_set_def split: list.splits)

lemma vit_at_inner:
  assumes "vit_at D opened it ms (b # bs)" "opened s"
  shows "vit_at D opened (vit_inner D s it) ms bs"
  using assms unfolding vit_inner_def by (intro vit_at_advance) (simp_all add: vit_at_def)

text \<open>One call of \<open>Next\<close>: the next pair of the merge, or \<open>false\<close> when there is none.\<close>

definition vit_step :: "('s, 'b, 'i) Database \<Rightarrow> ('s \<Rightarrow> bool) \<Rightarrow> bool \<times> 'i versiondb_iterator \<Rightarrow> (bytes \<times> bytes) list \<Rightarrow> bool" where
  "vit_step D opened r xs \<longleftrightarrow>
     (case xs of
        [] \<Rightarrow> \<not> fst r \<and> vi_key (snd r) = None \<and> vi_value (snd r) = None \<and> vi_err (snd r) = None \<and>
          iError D (vi_Iterator (snd r)) = None
      | x # xs' \<Rightarrow> fst r \<and> vi_key (snd r) = Some (fst x) \<and> vi_value (snd r) = Some (snd x) \<and>
          (\<exists>ms bs. vit_at D opened (snd r) ms bs \<and> vmerge ms bs = xs'))"

lemma vit_step_set:
  "vit_at D opened it ms bs \<Longrightarrow> vit_step D opened (True, vit_set k v it) ((k, vd_value v) # vmerge ms bs)"
  using vit_at_set [of D opened k v it ms bs] by (auto simp: vit_step_def vit_set_def)

lemma vit_step_inner:
  assumes "vit_at D opened it ms ((k, v) # bs)" "opened s"
  shows "vit_step D opened (True, vit_inner D s it) ((k, v) # vmerge ms bs)"
proof -
  have "vi_key (vit_inner D s it) = Some k" "vi_value (vit_inner D s it) = Some v"
    using assms(1) by (simp_all add: vit_inner_def vit_advance_def vit_at_def split: prod.split)
  with vit_at_inner [OF assms] show ?thesis by (auto simp: vit_step_def)
qed

lemma vit_loop_step:
  assumes "vit_at D opened it ms bs" "opened s"
  shows "vit_step D opened (vit_loop D s it) (vmerge ms bs)"
  using assms
proof (induction ms bs arbitrary: it rule: vmerge.induct)
  case (1 bs)
  then show ?case
  proof (cases bs)
    case Nil
    then show ?thesis using 1 by (subst vit_loop.simps) (simp add: vit_at_def vit_step_def)
  next
    case (Cons b bs')
    then show ?thesis using 1 vit_step_inner [of D opened it "[]" "fst b" "snd b" bs' s]
      by (subst vit_loop.simps) (simp add: vit_at_def)
  qed
next
  case (2 k v ms)
  then show ?case
    using vit_at_pop [OF "2.prems"(1)] vit_step_set [OF vit_at_pop [OF "2.prems"(1)], of k v]
    by (subst vit_loop.simps) (simp add: vit_at_def)
next
  case (3 k v ms k' w bs)
  have pop: "vit_at D opened (vit_pop it) ms ((k', w) # bs)" by (rule vit_at_pop [OF "3.prems"(1)])
  then have adv: "vit_at D opened (vit_advance D s (vit_pop it)) ms bs"
    using "3.prems"(2) by (intro vit_at_advance) (simp_all add: vit_at_def)
  have it: "vi_keys it = k # map fst ms" "vi_values it = v # map snd ms" "\<not> vi_exhausted it" "iKey D (vi_Iterator it) = Some k'"
    using "3.prems"(1) by (simp_all add: vit_at_def)
  consider "k < k'" | "\<not> k < k'" "k' < k" | "\<not> k < k'" "\<not> k' < k" by blast
  then show ?case
  proof cases
    case 1
    then show ?thesis using "3.IH"(1) [OF 1 _ pop "3.prems"(2)] vit_step_set [OF pop, of k v] it
      by (subst vit_loop.simps) simp
  next
    case 2
    then show ?thesis using vit_step_inner [OF "3.prems"] it by (subst vit_loop.simps) simp
  next
    case c: 3
    then show ?thesis using "3.IH"(4) [OF c _ adv "3.prems"(2)] vit_step_set [OF adv, of k v] it
      by (subst vit_loop.simps) simp
  qed
qed

text \<open>A fresh iterator yields the merge of what it has collected and what the inner iterator yields.\<close>

lemma versiondb_yields:
  assumes vok: "\<And>v. vopened v \<Longrightarrow> \<not> v_nil v \<and> opened (v_db v)"
  shows "vit_at D opened it ms bs \<Longrightarrow> yields (versiondb D) vopened (VIter it) (vmerge ms bs)"
proof (induction "vmerge ms bs" arbitrary: it ms bs)
  case Nil
  have init: "vi_initialized it" using Nil.prems by (simp add: vit_at_def)
  have "\<exists>it'. iNext (versiondb D) v (VIter it) = (False, it') \<and> iKey (versiondb D) it' = None \<and>
      iValue (versiondb D) it' = None \<and> iError (versiondb D) it' = None" if "vopened v" for v
  proof -
    obtain r it' where l: "vit_loop D (v_db v) it = (r, it')" by (cases "vit_loop D (v_db v) it")
    have "vit_step D opened (r, it') []"
      using vit_loop_step [OF Nil.prems, of "v_db v"] vok [OF that] Nil.hyps l by simp
    then show ?thesis using init vok [OF that] l
      by (simp add: versiondb_def versiondb_isClosed_def vit_step_def)
  qed
  then show ?case unfolding Nil.hyps [symmetric] by simp
next
  case (Cons x xs)
  have init: "vi_initialized it" using Cons.prems by (simp add: vit_at_def)
  have "\<exists>it'. iNext (versiondb D) v (VIter it) = (True, it') \<and> iKey (versiondb D) it' = Some (fst x) \<and>
      iValue (versiondb D) it' = Some (snd x) \<and> yields (versiondb D) vopened it' xs" if "vopened v" for v
  proof -
    obtain r it' where l: "vit_loop D (v_db v) it = (r, it')" by (cases "vit_loop D (v_db v) it")
    have "vit_step D opened (r, it') (x # xs)"
      using vit_loop_step [OF Cons.prems, of "v_db v"] vok [OF that] Cons.hyps(2) l by simp
    then obtain ms' bs' where "r" "vi_key it' = Some (fst x)" "vi_value it' = Some (snd x)" "vit_at D opened it' ms' bs'"
        "xs = vmerge ms' bs'"
      by (auto simp: vit_step_def)
    then show ?thesis using Cons.hyps(1) [of ms' bs' it'] init vok [OF that] l
      by (simp add: versiondb_def versiondb_isClosed_def)
  qed
  then show ?case unfolding Cons.hyps(2) [symmetric] by simp
qed

lemma versiondb_yields_fresh:
  assumes vok: "\<And>v. vopened v \<Longrightarrow> \<not> v_nil v \<and> opened (v_db v)"
    and it: "\<not> vi_initialized it" "vi_err it = None" "vi_keys it = map fst ms" "vi_values it = map snd ms"
    and inner: "yields D opened (vi_Iterator it) bs"
  shows "yields (versiondb D) vopened (VIter it) (vmerge ms bs)"
proof -
  have at: "vit_at D opened ((vit_advance D (v_db v) it)\<lparr>vi_initialized := True\<rparr>) ms bs" if "vopened v" for v
  proof -
    have "(vit_advance D (v_db v) it)\<lparr>vi_initialized := True\<rparr> = vit_advance D (v_db v) (it\<lparr>vi_initialized := True\<rparr>)"
      by (cases it) (simp add: vit_advance_def split: prod.split)
    then show ?thesis using vok [OF that] it inner by (auto intro: vit_at_advance)
  qed
  have same: "iNext (versiondb D) v (VIter it) = iNext (versiondb D) v (VIter ((vit_advance D (v_db v) it)\<lparr>vi_initialized := True\<rparr>))"
    if "vopened v" for v
    using it(1) vok [OF that] by (simp add: versiondb_def versiondb_isClosed_def)
  note y = versiondb_yields [OF vok at]
  show ?thesis
  proof (cases "vmerge ms bs")
    case Nil
    then show ?thesis using y same by simp
  next
    case (Cons x xs)
    then show ?thesis using y same by simp
  qed
qed

lemma versiondb_iterator_law:
  assumes D: "kv_database D ok \<alpha> \<beta>" and v: "versiondb_ok ok \<alpha> v" "versiondb_view \<alpha> v = Some m"
  shows "yields (versiondb D) (\<lambda>v. versiondb_ok ok \<alpha> v \<and> versiondb_view \<alpha> v \<noteq> None)
    (dNewIteratorWithStartAndPrefix (versiondb D) start pre v) (range_list start pre m)"
proof -
  obtain mem b where mem: "v_mem v = Some mem" "distinct (map fst mem)" "ok (v_db v)" "\<alpha> (v_db v) = Some b" "m = overlay mem b"
    using v by (auto simp: versiondb_ok_def versiondb_view_def split: option.splits)
  define ks where "ks = sort (filter (\<lambda>k. prefix pre k \<and> start \<le> k) (map fst mem))"
  define ms where "ms = map (\<lambda>k. (k, the (map_of mem k))) ks"
  let ?bs = "range_list start pre b"
  have ms: "sorted_keys ms" "map_of ms = map_of mem |` {k. in_range start pre k}"
    unfolding ms_def ks_def by (rule sorted_range_keys [OF mem(2)])+
  have bs: "sorted_keys ?bs" "map_of ?bs = b |` {k. in_range start pre k}"
    using range_list_sorted range_list_map kv_database.finite_dom [OF D mem(3,4)] by blast+
  have "map_of (vmerge ms ?bs) = m |` {k. in_range start pre k}"
    unfolding vmerge_map [OF ms(1) bs(1)] mem(5) using ms(2) bs(2)
    by (auto simp: overlay_def restrict_map_def fun_eq_iff split: option.split)
  then have "range_list start pre m = vmerge ms ?bs"
    by (rule range_list_eq [OF vmerge_sorted [OF ms(1) bs(1)]])
  moreover have inner: "yields D (\<lambda>s. ok s \<and> \<alpha> s \<noteq> None) (dNewIteratorWithStartAndPrefix D start pre (v_db v)) ?bs"
    by (rule kv_database.NewIterator_law [OF D mem(3,4)])
  moreover have "dNewIteratorWithStartAndPrefix (versiondb D) start pre v =
      VIter \<lparr>vi_Iterator = dNewIteratorWithStartAndPrefix D start pre (v_db v), vi_key = None, vi_value = None,
        vi_err = None, vi_keys = map fst ms, vi_values = map snd ms, vi_initialized = False, vi_exhausted = False\<rparr>"
    using mem(1) by (simp add: versiondb_def versiondb_NewIteratorWithStartAndPrefix_def ms_def ks_def Let_def o_def)
  moreover have "\<not> v_nil v \<and> ok (v_db v) \<and> \<alpha> (v_db v) \<noteq> None"
    if "versiondb_ok ok \<alpha> v \<and> versiondb_view \<alpha> v \<noteq> None" for v :: "('a, 'b) versionDatabase"
    using that by (auto simp: versiondb_ok_def versiondb_view_def split: option.splits)
  ultimately show ?thesis
    by (auto intro!: versiondb_yields_fresh [where opened = "\<lambda>s. ok s \<and> \<alpha> s \<noteq> None"])
qed

lemmas versiondb_defs = versiondb_def versiondb_Has_def versiondb_Get_def versiondb_Put_def versiondb_Delete_def
  versiondb_NewBatch_def versiondb_Compact_def versiondb_Close_def versiondb_HealthCheck_def versiondb_isClosed_def
  memdb_batch_Put_def memdb_batch_Delete_def memdb_batch_Reset_def memdb_writes_def kv_write_def

text \<open>A versioned database over a database that keeps the contract keeps it, with the overlay as its content.\<close>

lemma versiondb_contract:
  assumes D: "kv_database D ok \<alpha> \<beta>"
  shows "kv_database (versiondb D) (versiondb_ok ok \<alpha>) (versiondb_view \<alpha>) memdb_writes"
proof (unfold_locales, goal_cases)
  case (1 s m)
  then show ?case
    using kv_database.finite_dom [OF D]
    by (auto simp: versiondb_ok_def versiondb_view_def split: option.splits intro!: finite_overlay)
next
  case (2 s k)
  then show ?case using kv_database.Has_law [OF D]
    by (auto simp: versiondb_defs versiondb_ok_def versiondb_view_def overlay_def split: option.splits)
next
  case (3 s k)
  then show ?case using kv_database.Get_law [OF D]
    by (auto simp: versiondb_defs versiondb_ok_def versiondb_view_def overlay_def split: option.splits)
next
  case (13 s m b)
  then show ?case
    using overlay_batch
    by (auto simp: versiondb_defs versiondb_batch_Write_def versiondb_ok_def versiondb_view_def split: option.splits)
next
  case (14 s m start pre)
  then show ?case by (rule versiondb_iterator_law [OF D])
next
  case (16 s it)
  then show ?case by (cases it) (auto simp: versiondb_defs versiondb_ok_def versiondb_view_def split: option.splits)
next
  case (17 s m start limit)
  then obtain mem b where s: "v_mem s = Some mem" "ok (v_db s)" "\<alpha> (v_db s) = Some b" "m = overlay mem b"
    by (auto simp: versiondb_ok_def versiondb_view_def split: option.splits)
  obtain s' where "dCompact D start limit (v_db s) = Inr s'" "ok s'" "\<alpha> s' = Some b"
    using kv_database.Compact_law [OF D s(2,3)] by blast
  with 17(1) s show ?case by (simp add: versiondb_defs versiondb_ok_def versiondb_view_def)
next
  case (21 s)
  then show ?case using kv_database.HealthCheck_law [OF D]
    by (auto simp: versiondb_defs versiondb_ok_def versiondb_view_def split: option.splits)
qed (auto simp: versiondb_defs versiondb_ok_def versiondb_view_def versiondb_batch_Write_def overlay_update distinct_update
  versiondb_NewIteratorWithStartAndPrefix_def split: option.splits)

interpretation vmem: kv_database "versiondb memdb" "versiondb_ok memdb_ok memdb_view" "versiondb_view memdb_view" memdb_writes
  by (rule versiondb_contract [OF mem.kv_database_axioms])

section \<open>Commit and abort\<close>

lemma commitBatch_law:
  assumes D: "kv_database D ok \<alpha> \<beta>" and v: "versiondb_ok ok \<alpha> v" "v_mem v = Some mem"
  shows "\<exists>b. versiondb_commitBatch D v = Inr (b, v\<lparr>v_batch := Some b\<rparr>) \<and> \<beta> b = vd_writes mem"
proof -
  let ?f = "\<lambda>(key, val) b. if vd_delete val then bDelete D key b else bPut D key (vd_value val) b"
  have "\<exists>b'. foldR ?f xs b = Inr b' \<and> \<beta> b' = \<beta> b @ vd_writes xs" for xs b
  proof (induction xs arbitrary: b)
    case (Cons x xs)
    obtain k w where x: "x = (k, w)" by (cases x)
    obtain b1 where "?f x b = Inr b1" "\<beta> b1 = \<beta> b @ vd_writes [x]"
      using kv_database.bPut_law [OF D, of k "vd_value w" b] kv_database.bDelete_law [OF D, of k b] x
      by (cases "vd_delete w") (auto simp: vd_writes_def)
    then show ?case using Cons.IH [of b1] by (auto simp: vd_writes_def)
  qed (simp add: vd_writes_def)
  moreover obtain b0 where b0: "v_batch v = Some b0" using v by (auto simp: versiondb_ok_def)
  ultimately obtain b where "foldR ?f mem (bReset D b0) = Inr b" "\<beta> b = vd_writes mem"
    using kv_database.bReset_law [OF D, of b0] by fastforce
  with b0 v(2) show ?thesis by (simp add: versiondb_commitBatch_def)
qed

lemma Commit_law:
  assumes D: "kv_database D ok \<alpha> \<beta>" and v: "versiondb_ok ok \<alpha> v" "versiondb_view \<alpha> v = Some m"
  shows "\<exists>v'. versiondb_Commit D v = Inr v' \<and> versiondb_ok ok \<alpha> v' \<and> v_mem v' = Some [] \<and>
    versiondb_view \<alpha> v' = Some m \<and> \<alpha> (v_db v') = Some m"
proof -
  obtain mem b where mem: "v_mem v = Some mem" "distinct (map fst mem)" "ok (v_db v)" "\<alpha> (v_db v) = Some b" "m = overlay mem b"
    using v by (auto simp: versiondb_ok_def versiondb_view_def split: option.splits)
  obtain bt where bt: "versiondb_commitBatch D v = Inr (bt, v\<lparr>v_batch := Some bt\<rparr>)" "\<beta> bt = vd_writes mem"
    using commitBatch_law [OF D v(1) mem(1)] by blast
  obtain s where s: "bWrite D bt (v_db v) = Inr s" "ok s" "\<alpha> s = Some m"
    using kv_database.bWrite_law [OF D mem(3,4), of bt] bt(2) mem(2,5) apply_vd_writes by auto
  show ?thesis
    using v(1) mem(1) bt(1) s
    by (auto simp: versiondb_Commit_def abort_clears versiondb_ok_def versiondb_view_def)
qed

end
