(* ===== verification/PrefixDB.thy ===== *)
theory PrefixDB
  imports VersionDB
begin

text \<open>
  The prefixed database (\<open>database/prefixdb/db.go\<close>): a partition of an underlying database, whose keys all
  begin with the hash of the partition's name.
\<close>

section \<open>Model\<close>

text \<open>
  \<open>dbPrefix\<close> never changes, so it is an argument of the methods (\<open>pfx\<close>). \<open>p_nil\<close> says that the pointer to the
  underlying database has been cleared. The buffers that the pool lends to \<open>prefix\<close> are overwritten in
  full.
\<close>

record 's prefixDatabase =
  p_db :: 's
  p_nil :: bool

definition prefixdb_NewNested :: "(bytes \<Rightarrow> bytes) \<Rightarrow> bytes \<Rightarrow> 's \<Rightarrow> bytes \<times> 's prefixDatabase" where
  "prefixdb_NewNested ComputeHash256 pre db = (ComputeHash256 pre, \<lparr>p_db = db, p_nil = False\<rparr>)"

text \<open>\<open>New\<close> over a database that is itself a prefixed one; over any other it is \<open>NewNested\<close>.\<close>

definition prefixdb_New :: "(bytes \<Rightarrow> bytes) \<Rightarrow> bytes \<Rightarrow> bytes \<times> 's prefixDatabase \<Rightarrow> bytes \<times> 's prefixDatabase" where
  "prefixdb_New ComputeHash256 pre prefixDB =
     (ComputeHash256 (fst prefixDB @ pre), \<lparr>p_db = p_db (snd prefixDB), p_nil = p_nil (snd prefixDB)\<rparr>)"

definition prefixdb_prefix :: "bytes \<Rightarrow> bytes \<Rightarrow> bytes" where
  "prefixdb_prefix pfx key = pfx @ key"

definition prefixdb_Has :: "bytes \<Rightarrow> ('s, 'b, 'i) Database \<Rightarrow> bytes \<Rightarrow> 's prefixDatabase \<Rightarrow> db_error + bool" where
  "prefixdb_Has pfx D key db = (if p_nil db then Inl ErrClosed else dHas D (prefixdb_prefix pfx key) (p_db db))"

definition prefixdb_Get :: "bytes \<Rightarrow> ('s, 'b, 'i) Database \<Rightarrow> bytes \<Rightarrow> 's prefixDatabase \<Rightarrow> db_error + bytes" where
  "prefixdb_Get pfx D key db = (if p_nil db then Inl ErrClosed else dGet D (prefixdb_prefix pfx key) (p_db db))"

definition prefixdb_Put :: "bytes \<Rightarrow> ('s, 'b, 'i) Database \<Rightarrow> bytes \<Rightarrow> bytes \<Rightarrow> 's prefixDatabase \<Rightarrow> db_error + 's prefixDatabase" where
  "prefixdb_Put pfx D key v db =
     (if p_nil db then Inl ErrClosed
      else bindR (dPut D (prefixdb_prefix pfx key) v (p_db db)) (\<lambda>s. Inr (db\<lparr>p_db := s\<rparr>)))"

definition prefixdb_Delete :: "bytes \<Rightarrow> ('s, 'b, 'i) Database \<Rightarrow> bytes \<Rightarrow> 's prefixDatabase \<Rightarrow> db_error + 's prefixDatabase" where
  "prefixdb_Delete pfx D key db =
     (if p_nil db then Inl ErrClosed
      else bindR (dDelete D (prefixdb_prefix pfx key) (p_db db)) (\<lambda>s. Inr (db\<lparr>p_db := s\<rparr>)))"

definition prefixdb_Compact :: "bytes \<Rightarrow> ('s, 'b, 'i) Database \<Rightarrow> bytes option \<Rightarrow> bytes option \<Rightarrow> 's prefixDatabase \<Rightarrow>
    db_error + 's prefixDatabase" where
  "prefixdb_Compact pfx D start limit db =
     (let bytes_of = (\<lambda>x. case x of None \<Rightarrow> [] | Some k \<Rightarrow> k) in
      if p_nil db then Inl ErrClosed
      else bindR (dCompact D (Some (prefixdb_prefix pfx (bytes_of start))) (Some (prefixdb_prefix pfx (bytes_of limit))) (p_db db))
        (\<lambda>s. Inr (db\<lparr>p_db := s\<rparr>)))"

definition prefixdb_Close :: "'s prefixDatabase \<Rightarrow> db_error + 's prefixDatabase" where
  "prefixdb_Close db = (if p_nil db then Inl ErrClosed else Inr (db\<lparr>p_nil := True\<rparr>))"

definition prefixdb_isClosed :: "'s prefixDatabase \<Rightarrow> bool" where
  "prefixdb_isClosed db = p_nil db"

definition prefixdb_HealthCheck :: "('s, 'b, 'i) Database \<Rightarrow> 's prefixDatabase \<Rightarrow> db_error option" where
  "prefixdb_HealthCheck D db = (if p_nil db then Some ErrClosed else dHealthCheck D (p_db db))"

subsection \<open>Batches\<close>

record 'b prefixdb_batch =
  pb_Batch :: 'b
  pb_writes :: "keyValue list"

text \<open>\<open>NewBatch\<close> calls a method of the underlying database without a check; after \<open>Close\<close> that pointer is \<open>nil\<close>.\<close>

definition prefixdb_NewBatch :: "('s, 'b, 'i) Database \<Rightarrow> 's prefixDatabase \<Rightarrow> db_error + 'b prefixdb_batch" where
  "prefixdb_NewBatch D db =
     (if p_nil db then Inl DBNilPanic
      else bindR (dNewBatch D (p_db db)) (\<lambda>b. Inr \<lparr>pb_Batch = b, pb_writes = []\<rparr>))"

definition prefixdb_batch_Put :: "bytes \<Rightarrow> ('s, 'b, 'i) Database \<Rightarrow> bytes \<Rightarrow> bytes \<Rightarrow> 'b prefixdb_batch \<Rightarrow> db_error + 'b prefixdb_batch" where
  "prefixdb_batch_Put pfx D key v b =
     (let prefixedKey = prefixdb_prefix pfx key;
          b = b\<lparr>pb_writes := pb_writes b @ [\<lparr>kv_key = prefixedKey, kv_value = v, kv_delete = False\<rparr>]\<rparr>
      in bindR (bPut D prefixedKey v (pb_Batch b)) (\<lambda>inner. Inr (b\<lparr>pb_Batch := inner\<rparr>)))"

definition prefixdb_batch_Delete :: "bytes \<Rightarrow> ('s, 'b, 'i) Database \<Rightarrow> bytes \<Rightarrow> 'b prefixdb_batch \<Rightarrow> db_error + 'b prefixdb_batch" where
  "prefixdb_batch_Delete pfx D key b =
     (let prefixedKey = prefixdb_prefix pfx key;
          b = b\<lparr>pb_writes := pb_writes b @ [\<lparr>kv_key = prefixedKey, kv_value = [], kv_delete = True\<rparr>]\<rparr>
      in bindR (bDelete D prefixedKey (pb_Batch b)) (\<lambda>inner. Inr (b\<lparr>pb_Batch := inner\<rparr>)))"

definition prefixdb_batch_Write :: "('s, 'b, 'i) Database \<Rightarrow> 'b prefixdb_batch \<Rightarrow> 's prefixDatabase \<Rightarrow> db_error + 's prefixDatabase" where
  "prefixdb_batch_Write D b db =
     (if p_nil db then Inl ErrClosed
      else bindR (bWrite D (pb_Batch b) (p_db db)) (\<lambda>s. Inr (db\<lparr>p_db := s\<rparr>)))"

definition prefixdb_batch_Reset :: "('s, 'b, 'i) Database \<Rightarrow> 'b prefixdb_batch \<Rightarrow> 'b prefixdb_batch" where
  "prefixdb_batch_Reset D b = b\<lparr>pb_writes := [], pb_Batch := bReset D (pb_Batch b)\<rparr>"

definition prefixdb_batch_Replay :: "bytes \<Rightarrow> (bytes \<Rightarrow> bytes \<Rightarrow> 'w \<Rightarrow> db_error + 'w) \<Rightarrow> (bytes \<Rightarrow> 'w \<Rightarrow> db_error + 'w) \<Rightarrow>
    'b prefixdb_batch \<Rightarrow> 'w \<Rightarrow> db_error + 'w" where
  "prefixdb_batch_Replay pfx put del b w =
     foldR (\<lambda>kv. replay_one put del (kv\<lparr>kv_key := drop (length pfx) (kv_key kv)\<rparr>)) (pb_writes b) w"

subsection \<open>Iterators\<close>

record 'i prefixdb_iterator =
  pi_Iterator :: 'i
  pi_key :: "bytes option"
  pi_val :: "bytes option"
  pi_err :: "db_error option"

datatype 'i pit = PNoDB db_error | PIter "'i prefixdb_iterator"

definition prefixdb_NewIteratorWithStartAndPrefix :: "bytes \<Rightarrow> ('s, 'b, 'i) Database \<Rightarrow> bytes \<Rightarrow> bytes \<Rightarrow> 's prefixDatabase \<Rightarrow> 'i pit" where
  "prefixdb_NewIteratorWithStartAndPrefix pfx D start pre db =
     (if p_nil db then PNoDB ErrClosed
      else PIter \<lparr>pi_Iterator = dNewIteratorWithStartAndPrefix D (prefixdb_prefix pfx start) (prefixdb_prefix pfx pre) (p_db db),
             pi_key = None, pi_val = None, pi_err = None\<rparr>)"

fun prefixdb_iterator_Next :: "bytes \<Rightarrow> ('s, 'b, 'i) Database \<Rightarrow> 's prefixDatabase \<Rightarrow> 'i pit \<Rightarrow> bool \<times> 'i pit" where
  "prefixdb_iterator_Next pfx D db (PNoDB e) = (False, PNoDB e)"
| "prefixdb_iterator_Next pfx D db (PIter it) =
     (if prefixdb_isClosed db then (False, PIter (it\<lparr>pi_key := None, pi_val := None, pi_err := Some ErrClosed\<rparr>))
      else
        let (hasNext, inner) = iNext D (p_db db) (pi_Iterator it);
            it = it\<lparr>pi_Iterator := inner\<rparr>
        in if hasNext then
             let key = map_option (\<lambda>key. if length key \<ge> length pfx then drop (length pfx) key else key) (iKey D inner)
             in (True, PIter (it\<lparr>pi_key := key, pi_val := iValue D inner\<rparr>))
           else (False, PIter (it\<lparr>pi_key := None, pi_val := None\<rparr>)))"

fun prefixdb_iterator_Error :: "('s, 'b, 'i) Database \<Rightarrow> 'i pit \<Rightarrow> db_error option" where
  "prefixdb_iterator_Error D (PNoDB e) = Some e"
| "prefixdb_iterator_Error D (PIter it) = (if pi_err it \<noteq> None then pi_err it else iError D (pi_Iterator it))"

fun prefixdb_iterator_Key :: "'i pit \<Rightarrow> bytes option" where
  "prefixdb_iterator_Key (PNoDB e) = None"
| "prefixdb_iterator_Key (PIter it) = pi_key it"

fun prefixdb_iterator_Value :: "'i pit \<Rightarrow> bytes option" where
  "prefixdb_iterator_Value (PNoDB e) = None"
| "prefixdb_iterator_Value (PIter it) = pi_val it"

fun prefixdb_iterator_Release :: "('s, 'b, 'i) Database \<Rightarrow> 'i pit \<Rightarrow> 'i pit" where
  "prefixdb_iterator_Release D (PNoDB e) = PNoDB e"
| "prefixdb_iterator_Release D (PIter it) = PIter (it\<lparr>pi_Iterator := iRelease D (pi_Iterator it)\<rparr>)"

definition prefixdb :: "bytes \<Rightarrow> ('s, 'b, 'i) Database \<Rightarrow> ('s prefixDatabase, 'b prefixdb_batch, 'i pit) Database" where
  "prefixdb pfx D = \<lparr>dHas = prefixdb_Has pfx D, dGet = prefixdb_Get pfx D, dPut = prefixdb_Put pfx D,
     dDelete = prefixdb_Delete pfx D, dNewBatch = prefixdb_NewBatch D,
     dNewIteratorWithStartAndPrefix = prefixdb_NewIteratorWithStartAndPrefix pfx D, dCompact = prefixdb_Compact pfx D,
     dClose = prefixdb_Close, dHealthCheck = prefixdb_HealthCheck D, bPut = prefixdb_batch_Put pfx D,
     bDelete = prefixdb_batch_Delete pfx D, bSize = (\<lambda>b. bSize D (pb_Batch b)), bWrite = prefixdb_batch_Write D,
     bReset = prefixdb_batch_Reset D, iNext = prefixdb_iterator_Next pfx D, iError = prefixdb_iterator_Error D,
     iKey = prefixdb_iterator_Key, iValue = prefixdb_iterator_Value, iRelease = prefixdb_iterator_Release D\<rparr>"

section \<open>The view of a partition\<close>

definition strip :: "bytes \<Rightarrow> (bytes \<times> 'v) list \<Rightarrow> (bytes \<times> 'v) list" where
  "strip pfx xs = map (\<lambda>(k, v). (drop (length pfx) k, v)) (filter (\<lambda>(k, v). prefix pfx k) xs)"

definition prefixdb_ok :: "('s \<Rightarrow> bool) \<Rightarrow> ('s \<Rightarrow> (bytes \<rightharpoonup> bytes) option) \<Rightarrow> 's prefixDatabase \<Rightarrow> bool" where
  "prefixdb_ok ok \<alpha> p \<longleftrightarrow> ok (p_db p) \<and> (p_nil p \<or> \<alpha> (p_db p) \<noteq> None)"

definition prefixdb_view :: "bytes \<Rightarrow> ('s \<Rightarrow> (bytes \<rightharpoonup> bytes) option) \<Rightarrow> 's prefixDatabase \<Rightarrow> (bytes \<rightharpoonup> bytes) option" where
  "prefixdb_view pfx \<alpha> p = (if p_nil p then None else map_option (\<lambda>m k. m (pfx @ k)) (\<alpha> (p_db p)))"

definition prefixdb_writes :: "bytes \<Rightarrow> ('b \<Rightarrow> (bytes \<times> bytes option) list) \<Rightarrow> 'b prefixdb_batch \<Rightarrow> (bytes \<times> bytes option) list" where
  "prefixdb_writes pfx \<beta> b = strip pfx (\<beta> (pb_Batch b))"

lemma strip_simps [simp]:
  "strip pfx [] = []" "strip pfx (xs @ ys) = strip pfx xs @ strip pfx ys" "strip pfx [(pfx @ k, v)] = [(k, v)]"
  by (simp_all add: strip_def)

lemma apply_writes_strip:
  "(\<lambda>k. apply_writes ws m (pfx @ k)) = apply_writes (strip pfx ws) (\<lambda>k. m (pfx @ k))"
proof (induction ws arbitrary: m)
  case (Cons w ws)
  obtain k v where w: "w = (k, v)" by (cases w)
  have "(\<lambda>k'. (m(k := v)) (pfx @ k')) = apply_writes (strip pfx [w]) (\<lambda>k. m (pfx @ k))"
    by (auto simp: w strip_def fun_eq_iff prefix_def)
  moreover have "strip pfx (w # ws) = strip pfx [w] @ strip pfx ws" by (simp add: strip_def)
  ultimately show ?case using Cons.IH [of "m(k := v)"] w by (simp add: fun_upd_def)
qed simp

lemma append_le: "(pfx @ xs \<le> pfx @ ys) = (xs \<le> (ys :: bytes))" "(pfx @ xs < pfx @ ys) = (xs < (ys :: bytes))"
  by (induction pfx) simp_all

lemma finite_partition:
  assumes "finite (dom m)"
  shows "finite (dom (\<lambda>k. m (pfx @ k)))"
proof (rule finite_imageD)
  show "finite ((\<lambda>k. pfx @ k) ` dom (\<lambda>k. m (pfx @ k)))" by (rule finite_subset [OF _ assms]) auto
qed (simp add: inj_on_def)

text \<open>Iterating over the partition is iterating over the prefixed keys.\<close>

lemma range_list_partition:
  assumes "finite (dom m)"
  shows "range_list (pfx @ start) (pfx @ pre) m = map (\<lambda>(k, v). (pfx @ k, v)) (range_list start pre (\<lambda>k. m (pfx @ k)))"
proof (rule range_list_eq)
  let ?m = "\<lambda>k. m (pfx @ k)"
  let ?r = "range_list start pre ?m"
  have r: "sorted_keys ?r" "map_of ?r = ?m |` {k. in_range start pre k}"
    using finite_partition [OF assms] by (simp_all add: range_list_sorted range_list_map)
  then show "sorted_keys (map (\<lambda>(k, v). (pfx @ k, v)) ?r)"
    by (simp add: sorted_keys_def sorted_wrt_map append_le case_prod_beta)
  have pair: "map_of (map (\<lambda>(k, v). (pfx @ k, v)) xs) k =
      (if prefix pfx k then map_of xs (drop (length pfx) k) else None)" for xs :: "(bytes \<times> bytes) list" and k
    by (induction xs) (auto simp: prefix_def)
  have "in_range (pfx @ start) (pfx @ pre) k \<longleftrightarrow> prefix pfx k \<and> in_range start pre (drop (length pfx) k)" for k
    by (auto simp: in_range_def append_le prefix_def)
  then show "map_of (map (\<lambda>(k, v). (pfx @ k, v)) ?r) = m |` {k. in_range (pfx @ start) (pfx @ pre) k}"
    unfolding pair [abs_def] r(2) by (auto simp: restrict_map_def fun_eq_iff pair r(2) prefix_def)
qed

lemma prefixdb_yields:
  assumes "\<And>p. popened p \<Longrightarrow> \<not> p_nil p \<and> opened (p_db p)"
  shows "pi_err it = None \<Longrightarrow> yields D opened (pi_Iterator it) (map (\<lambda>(k, v). (pfx @ k, v)) xs) \<Longrightarrow>
    yields (prefixdb pfx D) popened (PIter it) xs"
proof (induction xs arbitrary: it)
  case Nil
  show ?case
  proof (simp, intro allI impI)
    fix p assume "popened p"
    with assms [OF this] Nil show "\<exists>it'. iNext (prefixdb pfx D) p (PIter it) = (False, it') \<and> iKey (prefixdb pfx D) it' = None \<and>
        iValue (prefixdb pfx D) it' = None \<and> iError (prefixdb pfx D) it' = None"
      by (auto simp: prefixdb_def prefixdb_isClosed_def)
  qed
next
  case (Cons x xs)
  show ?case
  proof (simp, intro allI impI)
    fix p assume "popened p"
    with assms [OF this] Cons.prems obtain i where i: "iNext D (p_db p) (pi_Iterator it) = (True, i)"
        "iKey D i = Some (pfx @ fst x)" "iValue D i = Some (snd x)" "yields D opened i (map (\<lambda>(k, v). (pfx @ k, v)) xs)"
      by (cases x) auto
    let ?it = "it\<lparr>pi_Iterator := i, pi_key := Some (fst x), pi_val := Some (snd x)\<rparr>"
    have "iNext (prefixdb pfx D) p (PIter it) = (True, PIter ?it)"
      using assms [OF \<open>popened p\<close>] i by (simp add: prefixdb_def prefixdb_isClosed_def)
    moreover have "yields (prefixdb pfx D) popened (PIter ?it) xs" using Cons.prems i by (intro Cons.IH) simp_all
    ultimately show "\<exists>it'. iNext (prefixdb pfx D) p (PIter it) = (True, it') \<and> iKey (prefixdb pfx D) it' = Some (fst x) \<and>
        iValue (prefixdb pfx D) it' = Some (snd x) \<and> yields (prefixdb pfx D) popened it' xs"
      by (simp add: prefixdb_def)
  qed
qed

section \<open>The contract\<close>

lemmas prefixdb_defs = prefixdb_def prefixdb_prefix_def prefixdb_Has_def prefixdb_Get_def prefixdb_Put_def prefixdb_Delete_def
  prefixdb_NewBatch_def prefixdb_Compact_def prefixdb_Close_def prefixdb_HealthCheck_def prefixdb_isClosed_def
  prefixdb_batch_Put_def prefixdb_batch_Delete_def prefixdb_batch_Reset_def prefixdb_batch_Write_def

lemma prefixdb_open:
  assumes "prefixdb_ok ok \<alpha> p" "prefixdb_view pfx \<alpha> p = Some m"
  obtains b where "\<not> p_nil p" "ok (p_db p)" "\<alpha> (p_db p) = Some b" "m = (\<lambda>k. b (pfx @ k))"
  using assms by (auto simp: prefixdb_ok_def prefixdb_view_def split: if_splits)

lemma prefixdb_closed: "prefixdb_ok ok \<alpha> p \<Longrightarrow> prefixdb_view pfx \<alpha> p = None \<Longrightarrow> p_nil p"
  by (auto simp: prefixdb_ok_def prefixdb_view_def split: if_splits)

text \<open>An operation of the underlying database, called through the partition.\<close>

lemma prefixdb_step:
  assumes "\<not> p_nil s" and "\<exists>s'. r = Inr s' \<and> ok s' \<and> \<alpha> s' = Some c" and "m = (\<lambda>k. c (pfx @ k))"
  shows "\<exists>s''. bindR r (\<lambda>s'. Inr (s\<lparr>p_db := s'\<rparr>)) = Inr s'' \<and> prefixdb_ok ok \<alpha> s'' \<and> prefixdb_view pfx \<alpha> s'' = Some m"
proof -
  obtain s' where "r = Inr s'" "ok s'" "\<alpha> s' = Some c" using assms(2) by blast
  with assms(1,3) show ?thesis by (intro exI [of _ "s\<lparr>p_db := s'\<rparr>"]) (simp add: prefixdb_ok_def prefixdb_view_def)
qed

text \<open>A partition of a database that keeps the contract keeps it.\<close>

lemma prefixdb_contract:
  assumes D: "kv_database D ok \<alpha> \<beta>"
  shows "kv_database (prefixdb pfx D) (prefixdb_ok ok \<alpha>) (prefixdb_view pfx \<alpha>) (prefixdb_writes pfx \<beta>)"
proof (unfold_locales, goal_cases)
  case (1 s m)
  obtain b where "\<not> p_nil s" "ok (p_db s)" "\<alpha> (p_db s) = Some b" "m = (\<lambda>k. b (pfx @ k))" by (rule prefixdb_open [OF 1])
  then show ?case using finite_partition [OF kv_database.finite_dom [OF D]] by metis
next
  case (2 s k)
  then show ?case using kv_database.Has_law [OF D]
    by (auto simp: prefixdb_defs prefixdb_ok_def prefixdb_view_def)
next
  case (3 s k)
  then show ?case using kv_database.Get_law [OF D]
    by (auto simp: prefixdb_defs prefixdb_ok_def prefixdb_view_def)
next
  case (5 s m k v)
  obtain b where s: "\<not> p_nil s" "ok (p_db s)" "\<alpha> (p_db s) = Some b" "m = (\<lambda>k. b (pfx @ k))" by (rule prefixdb_open [OF 5])
  from prefixdb_step [OF s(1) kv_database.Put_law [OF D s(2,3), of "pfx @ k" v]] s(1,4) show ?case
    by (simp add: prefixdb_defs fun_eq_iff)
next
  case (7 s m k)
  obtain b where s: "\<not> p_nil s" "ok (p_db s)" "\<alpha> (p_db s) = Some b" "m = (\<lambda>k. b (pfx @ k))" by (rule prefixdb_open [OF 7])
  from prefixdb_step [OF s(1) kv_database.Delete_law [OF D s(2,3), of "pfx @ k"]] s(1,4) show ?case
    by (simp add: prefixdb_defs fun_eq_iff)
next
  case (8 s m)
  obtain b where s: "\<not> p_nil s" "ok (p_db s)" "\<alpha> (p_db s) = Some b" by (rule prefixdb_open [OF 8])
  from kv_database.NewBatch_law [OF D s(2,3)] s(1) show ?case by (auto simp: prefixdb_defs prefixdb_writes_def)
next
  case (9 k v b)
  from kv_database.bPut_law [OF D, of "pfx @ k" v "pb_Batch b"] show ?case by (auto simp: prefixdb_defs prefixdb_writes_def Let_def)
next
  case (10 k b)
  from kv_database.bDelete_law [OF D, of "pfx @ k" "pb_Batch b"] show ?case by (auto simp: prefixdb_defs prefixdb_writes_def Let_def)
next
  case (11 b)
  from kv_database.bReset_law [OF D] show ?case by (simp add: prefixdb_defs prefixdb_writes_def)
next
  case (13 s m b)
  obtain c where s: "\<not> p_nil s" "ok (p_db s)" "\<alpha> (p_db s) = Some c" "m = (\<lambda>k. c (pfx @ k))" by (rule prefixdb_open [OF 13])
  from prefixdb_step [OF s(1) kv_database.bWrite_law [OF D s(2,3), of "pb_Batch b"]] s(1,4) show ?case
    by (simp add: prefixdb_defs prefixdb_writes_def apply_writes_strip)
next
  case (14 s m start pre)
  obtain c where s: "\<not> p_nil s" "ok (p_db s)" "\<alpha> (p_db s) = Some c" "m = (\<lambda>k. c (pfx @ k))" by (rule prefixdb_open [OF 14])
  have "yields D (\<lambda>s. ok s \<and> \<alpha> s \<noteq> None) (dNewIteratorWithStartAndPrefix D (pfx @ start) (pfx @ pre) (p_db s))
      (map (\<lambda>(k, v). (pfx @ k, v)) (range_list start pre m))"
    using kv_database.NewIterator_law [OF D s(2,3), of "pfx @ start" "pfx @ pre"]
      range_list_partition [OF kv_database.finite_dom [OF D s(2,3)]] s(4) by simp
  moreover have "dNewIteratorWithStartAndPrefix (prefixdb pfx D) start pre s =
      PIter \<lparr>pi_Iterator = dNewIteratorWithStartAndPrefix D (pfx @ start) (pfx @ pre) (p_db s), pi_key = None, pi_val = None, pi_err = None\<rparr>"
    using s(1) by (simp add: prefixdb_def prefixdb_NewIteratorWithStartAndPrefix_def prefixdb_prefix_def)
  moreover have "\<not> p_nil p \<and> ok (p_db p) \<and> \<alpha> (p_db p) \<noteq> None" if "prefixdb_ok ok \<alpha> p \<and> prefixdb_view pfx \<alpha> p \<noteq> None" for p
    using that by (auto simp: prefixdb_ok_def prefixdb_view_def split: if_splits)
  ultimately show ?case by (auto intro!: prefixdb_yields [where opened = "\<lambda>s. ok s \<and> \<alpha> s \<noteq> None"])
next
  case (16 s it)
  then show ?case using prefixdb_closed [OF 16] by (cases it) (simp_all add: prefixdb_defs)
next
  case (17 s m start limit)
  obtain c where s: "\<not> p_nil s" "ok (p_db s)" "\<alpha> (p_db s) = Some c" "m = (\<lambda>k. c (pfx @ k))" by (rule prefixdb_open [OF 17])
  from prefixdb_step [OF s(1) kv_database.Compact_law [OF D s(2,3)] s(4)] s(1) show ?case
    by (simp add: prefixdb_defs Let_def)
next
  case (21 s)
  then show ?case using kv_database.HealthCheck_law [OF D]
    by (auto simp: prefixdb_defs prefixdb_ok_def prefixdb_view_def)
qed (auto simp: prefixdb_defs prefixdb_ok_def prefixdb_view_def prefixdb_NewIteratorWithStartAndPrefix_def Let_def
  split: if_splits dest: prefixdb_closed)

interpretation pmem: kv_database "prefixdb pfx memdb" "prefixdb_ok memdb_ok memdb_view" "prefixdb_view pfx memdb_view"
  "prefixdb_writes pfx memdb_writes" for pfx
  by (rule prefixdb_contract [OF mem.kv_database_axioms])

section \<open>Partitions do not interfere\<close>

text \<open>What a partition with another prefix of the same length sees is not changed by writes under this prefix.\<close>

lemma other_partition:
  assumes "length p = length q" "p \<noteq> q" "\<forall>w\<in>set ws. prefix p (fst w)"
  shows "(\<lambda>k. apply_writes ws m (q @ k)) = (\<lambda>k. m (q @ k))"
proof
  fix k
  have "q @ k \<notin> fst ` set ws" using assms by (auto simp: prefix_def)
  then show "apply_writes ws m (q @ k) = m (q @ k)" by (rule apply_writes_other)
qed

lemma prefixdb_other:
  assumes "length p = length q" "p \<noteq> q" "\<not> p_nil s" "\<alpha> (p_db s) = Some m"
    and "\<exists>s'. r = Inr s' \<and> ok s' \<and> \<alpha> s' = Some (apply_writes ws m)" and "\<forall>w\<in>set ws. prefix p (fst w)"
  shows "\<exists>s''. bindR r (\<lambda>s'. Inr (s\<lparr>p_db := s'\<rparr>)) = Inr s'' \<and> prefixdb_view q \<alpha> s'' = prefixdb_view q \<alpha> s"
proof -
  have "prefixdb_view q \<alpha> s = Some (\<lambda>k. m (q @ k))" using assms(3,4) by (simp add: prefixdb_view_def)
  with prefixdb_step [OF assms(3,5) refl, of q] other_partition [OF assms(1,2,6), of m] show ?thesis by auto
qed

text \<open>All writes of a batch of the partition are under its prefix.\<close>

lemma prefixdb_batch_prefixed:
  assumes "kv_database D ok \<alpha> \<beta>"
  shows "\<forall>w\<in>set (\<beta> (pb_Batch b)). prefix p (fst w) \<Longrightarrow>
    \<exists>b'. foldR (replay_one (bPut (prefixdb p D)) (bDelete (prefixdb p D))) ws b = Inr b' \<and>
      (\<forall>w\<in>set (\<beta> (pb_Batch b')). prefix p (fst w))"
proof (induction ws arbitrary: b)
  case (Cons w ws)
  obtain b1 where "replay_one (bPut (prefixdb p D)) (bDelete (prefixdb p D)) w b = Inr b1"
      "\<forall>w\<in>set (\<beta> (pb_Batch b1)). prefix p (fst w)"
    using kv_database.bPut_law [OF assms, of "p @ kv_key w" "kv_value w" "pb_Batch b"]
      kv_database.bDelete_law [OF assms, of "p @ kv_key w" "pb_Batch b"] Cons.prems
    by (cases "kv_delete w") (auto simp: replay_one_def prefixdb_defs Let_def)
  then show ?case using Cons.IH [of b1] by simp
qed simp

end
