(* ===== verification/DatabaseHelpers.thy ===== *)
theory DatabaseHelpers
  imports PrefixDB WireFormat Ids
begin

text \<open>
  Typed access to a database (\<open>database/helpers.go\<close>), over any value of the database interface. The timestamp
  helpers, which use the binary form of \<open>time.Time\<close>, are left out.
\<close>

section \<open>Values\<close>

definition kvPairOverhead :: nat where
  "kvPairOverhead = 8"

definition PutID :: "('s, 'b, 'i) Database \<Rightarrow> bytes \<Rightarrow> ID \<Rightarrow> 's \<Rightarrow> db_error + 's" where
  "PutID D key val s = dPut D key (ID_bytes val) s"

text \<open>\<open>ids.ToID\<close> copies a slice of exactly 32 bytes and is an error otherwise.\<close>

definition ToID :: "bytes \<Rightarrow> db_error + ID" where
  "ToID bytes = (if length bytes \<noteq> 32 then Inl errBadHashLen else Inr (ID_of_bytes bytes))"

definition ParseID :: "bytes \<Rightarrow> db_error + ID" where
  "ParseID b = ToID b"

definition GetID :: "('s, 'b, 'i) Database \<Rightarrow> bytes \<Rightarrow> 's \<Rightarrow> db_error + ID" where
  "GetID D key s = bindR (dGet D key s) ToID"

definition PackUInt64 :: "64 word \<Rightarrow> bytes" where
  "PackUInt64 val = be_bytes 8 val"

definition ParseUInt64 :: "bytes \<Rightarrow> db_error + 64 word" where
  "ParseUInt64 b = (if length b \<noteq> 8 then Inl errWrongSize else Inr (be_read b))"

definition PutUInt64 :: "('s, 'b, 'i) Database \<Rightarrow> bytes \<Rightarrow> 64 word \<Rightarrow> 's \<Rightarrow> db_error + 's" where
  "PutUInt64 D key val s = dPut D key (PackUInt64 val) s"

definition GetUInt64 :: "('s, 'b, 'i) Database \<Rightarrow> bytes \<Rightarrow> 's \<Rightarrow> db_error + 64 word" where
  "GetUInt64 D key s = bindR (dGet D key s) ParseUInt64"

definition PackUInt32 :: "32 word \<Rightarrow> bytes" where
  "PackUInt32 val = be_bytes 4 val"

definition ParseUInt32 :: "bytes \<Rightarrow> db_error + 32 word" where
  "ParseUInt32 b = (if length b \<noteq> 4 then Inl errWrongSize else Inr (be_read b))"

definition PutUInt32 :: "('s, 'b, 'i) Database \<Rightarrow> bytes \<Rightarrow> 32 word \<Rightarrow> 's \<Rightarrow> db_error + 's" where
  "PutUInt32 D key val s = dPut D key (PackUInt32 val) s"

definition GetUInt32 :: "('s, 'b, 'i) Database \<Rightarrow> bytes \<Rightarrow> 's \<Rightarrow> db_error + 32 word" where
  "GetUInt32 D key s = bindR (dGet D key s) ParseUInt32"

definition PutBool :: "('s, 'b, 'i) Database \<Rightarrow> bytes \<Rightarrow> bool \<Rightarrow> 's \<Rightarrow> db_error + 's" where
  "PutBool D key b s = (if b then dPut D key [1] s else dPut D key [0] s)"

definition GetBool :: "('s, 'b, 'i) Database \<Rightarrow> bytes \<Rightarrow> 's \<Rightarrow> db_error + bool" where
  "GetBool D key s =
     bindR (dGet D key s) (\<lambda>b.
       if length b \<noteq> 1 then Inl errWrongSize
       else if b ! 0 \<noteq> 0 \<and> b ! 0 \<noteq> 1 then Inl errNotBool
       else Inr (b ! 0 = 1))"

section \<open>Loops over iterators\<close>

text \<open>\<open>for iterator.Next() { ... }\<close>: the value is \<open>None\<close> when the loop does not end.\<close>

partial_function (option) iter_fold :: "('s, 'b, 'i) Database \<Rightarrow> 's \<Rightarrow> ('i \<Rightarrow> 'a \<Rightarrow> 'a) \<Rightarrow> 'i \<Rightarrow> 'a \<Rightarrow> ('a \<times> 'i) option" where
  "iter_fold D s f it acc =
     (case iNext D s it of
        (hasNext, it') \<Rightarrow> if hasNext then iter_fold D s f it' (f it' acc) else Some (acc, it'))"

declare iter_fold.simps [code]

definition olen :: "bytes option \<Rightarrow> nat" where
  "olen x = (case x of None \<Rightarrow> 0 | Some b \<Rightarrow> length b)"

definition db_Count :: "('s, 'b, 'i) Database \<Rightarrow> 's \<Rightarrow> (nat \<times> db_error option) option" where
  "db_Count D s = map_option (\<lambda>(count, it). (count, iError D it)) (iter_fold D s (\<lambda>it count. count + 1) (dNewIterator D s) 0)"

definition db_Size :: "('s, 'b, 'i) Database \<Rightarrow> 's \<Rightarrow> (nat \<times> db_error option) option" where
  "db_Size D s =
     map_option (\<lambda>(size, it). (size, iError D it))
       (iter_fold D s (\<lambda>it size. size + (olen (iKey D it) + olen (iValue D it) + kvPairOverhead)) (dNewIterator D s) 0)"

definition db_IsEmpty :: "('s, 'b, 'i) Database \<Rightarrow> 's \<Rightarrow> bool \<times> db_error option" where
  "db_IsEmpty D s = (let (hasNext, it) = iNext D s (dNewIterator D s) in (\<not> hasNext, iError D it))"

text \<open>The database that is read and the one that is written share the state \<open>'s\<close>; \<open>del\<close> is the writer's \<open>Delete\<close>.\<close>

partial_function (option) clear_loop :: "('s, 'b, 'i) Database \<Rightarrow> (bytes \<Rightarrow> 's \<Rightarrow> db_error + 's) \<Rightarrow> 's \<Rightarrow> 'i \<Rightarrow> (db_error + 's) option" where
  "clear_loop D del s it =
     (case iNext D s it of
        (hasNext, it') \<Rightarrow>
          if hasNext then
            let r = del (case iKey D it' of None \<Rightarrow> [] | Some key \<Rightarrow> key) s
            in if isl r then Some r else clear_loop D del (projr r) it'
          else Some (case iError D it' of Some e \<Rightarrow> Inl e | None \<Rightarrow> Inr s))"

declare clear_loop.simps [code]

definition ClearPrefix :: "('s, 'b, 'i) Database \<Rightarrow> (bytes \<Rightarrow> 's \<Rightarrow> db_error + 's) \<Rightarrow> bytes \<Rightarrow> 's \<Rightarrow> (db_error + 's) option" where
  "ClearPrefix D del pre s = clear_loop D del s (dNewIteratorWithPrefix D pre s)"

definition Clear :: "('s, 'b, 'i) Database \<Rightarrow> (bytes \<Rightarrow> 's \<Rightarrow> db_error + 's) \<Rightarrow> 's \<Rightarrow> (db_error + 's) option" where
  "Clear D del s = ClearPrefix D del [] s"

section \<open>Correctness over the contract\<close>

lemma ID_bytes_length: "length (ID_bytes i) = 32"
  by (simp add: ID_bytes_def)

lemma Parse_Pack:
  "ParseUInt64 (PackUInt64 w) = Inr w" "ParseUInt32 (PackUInt32 x) = Inr x" "ToID (ID_bytes i) = Inr i"
  by (simp_all add: ParseUInt64_def PackUInt64_def ParseUInt32_def PackUInt32_def be_read_bytes ToID_def ID_of_bytes_ID_bytes
    ID_bytes_length)

lemma iter_fold_yields:
  assumes "opened s"
  shows "yields D opened it xs \<Longrightarrow> (\<And>it x acc. iKey D it = Some (fst x) \<Longrightarrow> iValue D it = Some (snd x) \<Longrightarrow> f it acc = g x acc) \<Longrightarrow>
    \<exists>it'. iter_fold D s f it acc = Some (fold g xs acc, it') \<and> iError D it' = None"
  using assms
proof (induction xs arbitrary: it acc)
  case Nil
  then obtain it' where "iNext D s it = (False, it')" "iError D it' = None" by auto
  then show ?case by (subst iter_fold.simps) simp
next
  case (Cons x xs)
  then obtain it' where "iNext D s it = (True, it')" "iKey D it' = Some (fst x)" "iValue D it' = Some (snd x)"
      "yields D opened it' xs" by auto
  then show ?case using Cons.IH [of it' "f it' acc"] Cons.prems by (subst iter_fold.simps) simp
qed

lemma length_range_list: "finite (dom m) \<Longrightarrow> length (range_list [] [] m) = card (dom m)"
  by (simp add: range_list_def in_range_def)

context kv_database
begin

lemma Count_law:
  assumes "ok s" "\<alpha> s = Some m"
  shows "db_Count D s = Some (card (dom m), None)"
proof -
  obtain it' where "iter_fold D s (\<lambda>it count. count + 1) (dNewIterator D s) 0 =
      Some (fold (\<lambda>x n. n + 1) (range_list [] [] m) (0::nat), it')" "iError D it' = None"
    using iter_fold_yields [OF _ NewIterator_law [OF assms, of "[]" "[]"], of s "\<lambda>it n. n + 1" "\<lambda>x n. n + 1" "0::nat"] assms
    by (auto simp: dNewIterator_def)
  moreover have "fold (\<lambda>x n. n + 1) xs k = k + length xs" for xs :: "(bytes \<times> bytes) list" and k :: nat
    by (induction xs arbitrary: k) simp_all
  ultimately show ?thesis using length_range_list [OF finite_dom [OF assms]] by (auto simp: db_Count_def)
qed

lemma clear_loop_law:
  "yields D (\<lambda>s. ok s \<and> \<alpha> s \<noteq> None) it xs \<Longrightarrow> ok s \<Longrightarrow> \<alpha> s = Some m \<Longrightarrow>
   \<exists>s'. clear_loop D (dDelete D) s it = Some (Inr s') \<and> ok s' \<and> \<alpha> s' = Some (m |` (- fst ` set xs))"
proof (induction xs arbitrary: it s m)
  case Nil
  then obtain it' where "iNext D s it = (False, it')" "iError D it' = None" by fastforce
  then show ?case using Nil by (subst clear_loop.simps) (simp add: restrict_map_def fun_eq_iff)
next
  case (Cons x xs)
  then obtain it' where it: "iNext D s it = (True, it')" "iKey D it' = Some (fst x)"
      "yields D (\<lambda>s. ok s \<and> \<alpha> s \<noteq> None) it' xs" by fastforce
  obtain s' where s': "dDelete D (fst x) s = Inr s'" "ok s'" "\<alpha> s' = Some (m(fst x := None))"
    using Delete_law [OF Cons.prems(2,3)] by blast
  have "(m(fst x := None)) |` (- fst ` set xs) = m |` (- fst ` set (x # xs))"
    by (auto simp: restrict_map_def fun_eq_iff)
  note r = Cons.IH [OF it(3) s'(2,3), unfolded this]
  have "clear_loop D (dDelete D) s it = clear_loop D (dDelete D) s' it'"
    using it s'(1) by (subst clear_loop.simps) simp
  with r show ?case by simp
qed

lemma ClearPrefix_law:
  assumes "ok s" "\<alpha> s = Some m"
  shows "\<exists>s'. ClearPrefix D (dDelete D) pre s = Some (Inr s') \<and> ok s' \<and> \<alpha> s' = Some (m |` {k. \<not> prefix pre k})"
proof -
  have "fst ` set (range_list [] pre m) = {k \<in> dom m. prefix pre k}"
    using finite_dom [OF assms] by (auto simp: range_list_def in_range_def image_image)
  then have "m |` (- fst ` set (range_list [] pre m)) = m |` {k. \<not> prefix pre k}"
    by (auto simp: restrict_map_def fun_eq_iff)
  then show ?thesis
    using clear_loop_law [OF NewIterator_law [OF assms, of "[]" pre] assms]
    by (simp add: ClearPrefix_def dNewIteratorWithPrefix_def)
qed

lemma typed_roundtrip:
  assumes "ok s" "\<alpha> s = Some m"
  shows "bindR (PutID D k i s) (GetID D k) = Inr i" "bindR (PutUInt64 D k w s) (GetUInt64 D k) = Inr w"
    "bindR (PutUInt32 D k x s) (GetUInt32 D k) = Inr x" "bindR (PutBool D k b s) (GetBool D k) = Inr b"
proof -
  have get: "\<exists>s'. dPut D k v s = Inr s' \<and> dGet D k s' = Inr v" for v
    using Put_law [OF assms, of k v] by (auto simp: Get_law)
  show "bindR (PutID D k i s) (GetID D k) = Inr i" using get [of "ID_bytes i"] by (auto simp: PutID_def GetID_def Parse_Pack)
  show "bindR (PutUInt64 D k w s) (GetUInt64 D k) = Inr w" using get [of "PackUInt64 w"] by (auto simp: PutUInt64_def GetUInt64_def Parse_Pack)
  show "bindR (PutUInt32 D k x s) (GetUInt32 D k) = Inr x" using get [of "PackUInt32 x"] by (auto simp: PutUInt32_def GetUInt32_def Parse_Pack)
  show "bindR (PutBool D k b s) (GetBool D k) = Inr b" using get [of "[if b then 1 else 0]"] by (auto simp: PutBool_def GetBool_def)
qed

end

end
