(* ===== verification/DatabaseProperties.thy ===== *)
theory DatabaseProperties
  imports DatabaseHelpers
begin

text \<open>The properties of the databases, for every underlying database that keeps the contract \<open>kv_database\<close>.\<close>

section \<open>Examples\<close>

definition ex_memdb :: memDatabase where
  "ex_memdb = \<lparr>md_db = Some [([1], [10]), ([2], [20]), ([1, 2], [12])]\<rparr>"

definition ex_versiondb :: "(memDatabase, memdb_batch) versionDatabase" where
  "ex_versiondb = \<lparr>v_mem = Some [([2], \<lparr>vd_value = [], vd_delete = True\<rparr>), ([3], \<lparr>vd_value = [30], vd_delete = False\<rparr>)],
     v_db = ex_memdb, v_nil = False, v_batch = Some \<lparr>mb_writes = [], mb_size = 0\<rparr>\<rparr>"

lemma ex_memdb_ok: "memdb_ok ex_memdb" "memdb_view ex_memdb = Some [[1] \<mapsto> [10], [2] \<mapsto> [20], [1, 2] \<mapsto> [12]]"
  by (auto simp: ex_memdb_def memdb_ok_def memdb_view_def fun_eq_iff)

lemma ex_versiondb_ok: "versiondb_ok memdb_ok memdb_view ex_versiondb"
    "versiondb_view memdb_view ex_versiondb = Some [[1] \<mapsto> [10], [1, 2] \<mapsto> [12], [3] \<mapsto> [30]]"
  using ex_memdb_ok by (auto simp: ex_versiondb_def versiondb_ok_def versiondb_view_def overlay_def fun_eq_iff)

section \<open>Properties\<close>

text \<open>
  C14. Over any database that keeps the contract of the interface, a versioned database keeps it too, with the
  buffered writes laid over the underlying content: every read sees the last write, errors are
  \<open>ErrNotFound\<close> and \<open>ErrClosed\<close> exactly where they should be, batches are atomic, and an iterator returns the
  pairs of the overlay in the range, each once, by increasing key.
\<close>

theorem versiondb_refines_overlay:
  assumes "kv_database D ok \<alpha> \<beta>"
  shows "kv_database (versiondb D) (versiondb_ok ok \<alpha>) (versiondb_view \<alpha>) memdb_writes"
  using assms by (rule versiondb_contract)

theorem versiondb_refines_overlay_witness:
  "kv_database (versiondb memdb) (versiondb_ok memdb_ok memdb_view) (versiondb_view memdb_view) memdb_writes \<and>
   dGet (versiondb memdb) [2] ex_versiondb = Inl ErrNotFound"
  using versiondb_refines_overlay [OF mem.kv_database_axioms] vmem.Get_law [OF ex_versiondb_ok(1), of "[2]"] ex_versiondb_ok(2)
  by simp

text \<open>
  C15. Commit and abort. A commit of an open versioned database succeeds; afterwards the underlying database
  holds exactly what the versioned one showed, nothing is buffered, and what it shows has not changed. An
  abort drops the buffer: the versioned database shows the underlying content again.
\<close>

theorem versiondb_commit_abort:
  assumes "kv_database D ok \<alpha> \<beta>" and "versiondb_ok ok \<alpha> v" and "versiondb_view \<alpha> v = Some m"
  shows "(\<exists>v'. versiondb_Commit D v = Inr v' \<and> versiondb_ok ok \<alpha> v' \<and> v_mem v' = Some [] \<and>
      versiondb_view \<alpha> v' = Some m \<and> \<alpha> (v_db v') = Some m) \<and>
    versiondb_ok ok \<alpha> (versiondb_Abort v) \<and> v_db (versiondb_Abort v) = v_db v \<and>
    versiondb_view \<alpha> (versiondb_Abort v) = \<alpha> (v_db v)"
proof (intro conjI)
  obtain mem b where "v_mem v = Some mem" "\<alpha> (v_db v) = Some b"
    using assms(3) by (auto simp: versiondb_view_def split: option.splits)
  with assms(2) show "versiondb_ok ok \<alpha> (versiondb_Abort v)" "versiondb_view \<alpha> (versiondb_Abort v) = \<alpha> (v_db v)"
    by (simp_all add: versiondb_Abort_def abort_clears versiondb_ok_def versiondb_view_def)
qed (simp_all add: Commit_law [OF assms] versiondb_Abort_def abort_clears)

theorem versiondb_commit_abort_witness:
  "\<exists>v. versiondb_Commit memdb ex_versiondb = Inr v \<and> memdb_view (v_db v) = Some [[1] \<mapsto> [10], [1, 2] \<mapsto> [12], [3] \<mapsto> [30]]"
  using versiondb_commit_abort [OF mem.kv_database_axioms ex_versiondb_ok] by blast

text \<open>
  C16. A partition keeps the contract, and partitions do not interfere: when two prefixes have the same length
  and differ, no \<open>Put\<close>, \<open>Delete\<close> or batch of the partition with the one changes what the partition with the other
  shows.
\<close>

theorem prefixdb_isolated:
  assumes "kv_database D ok \<alpha> \<beta>" and "length p = length q" "p \<noteq> q" and "prefixdb_ok ok \<alpha> s" "\<not> p_nil s"
  shows "kv_database (prefixdb p D) (prefixdb_ok ok \<alpha>) (prefixdb_view p \<alpha>) (prefixdb_writes p \<beta>) \<and>
    (\<exists>s'. dPut (prefixdb p D) k v s = Inr s' \<and> prefixdb_view q \<alpha> s' = prefixdb_view q \<alpha> s) \<and>
    (\<exists>s'. dDelete (prefixdb p D) k s = Inr s' \<and> prefixdb_view q \<alpha> s' = prefixdb_view q \<alpha> s) \<and>
    (\<exists>b b' s'. dNewBatch (prefixdb p D) s = Inr b \<and> foldR (replay_one (bPut (prefixdb p D)) (bDelete (prefixdb p D))) ws b = Inr b' \<and>
       bWrite (prefixdb p D) b' s = Inr s' \<and> prefixdb_view q \<alpha> s' = prefixdb_view q \<alpha> s)"
proof -
  obtain m where m: "ok (p_db s)" "\<alpha> (p_db s) = Some m" using assms(4,5) by (auto simp: prefixdb_ok_def)
  note other = prefixdb_other [where \<alpha> = \<alpha> and ok = ok, OF assms(2,3,5) m(2)]
  have "\<exists>s'. dPut (prefixdb p D) k v s = Inr s' \<and> prefixdb_view q \<alpha> s' = prefixdb_view q \<alpha> s"
    using other [of "dPut D (p @ k) v (p_db s)" "[(p @ k, Some v)]"] kv_database.Put_law [OF assms(1) m] assms(5)
    by (simp add: prefixdb_defs)
  moreover have "\<exists>s'. dDelete (prefixdb p D) k s = Inr s' \<and> prefixdb_view q \<alpha> s' = prefixdb_view q \<alpha> s"
    using other [of "dDelete D (p @ k) (p_db s)" "[(p @ k, None)]"] kv_database.Delete_law [OF assms(1) m] assms(5)
    by (simp add: prefixdb_defs)
  moreover obtain b where b: "dNewBatch (prefixdb p D) s = Inr b" "\<beta> (pb_Batch b) = []"
    using kv_database.NewBatch_law [OF assms(1) m] assms(5) by (auto simp: prefixdb_defs)
  moreover obtain b' where b': "foldR (replay_one (bPut (prefixdb p D)) (bDelete (prefixdb p D))) ws b = Inr b'"
      "\<forall>w\<in>set (\<beta> (pb_Batch b')). prefix p (fst w)"
    using prefixdb_batch_prefixed [OF assms(1), of b p ws] b(2) by auto
  moreover have "\<exists>s'. bWrite (prefixdb p D) b' s = Inr s' \<and> prefixdb_view q \<alpha> s' = prefixdb_view q \<alpha> s"
    using other [OF kv_database.bWrite_law [OF assms(1) m] b'(2)] assms(5) by (simp add: prefixdb_defs)
  ultimately show ?thesis using prefixdb_contract [OF assms(1)] by blast
qed

definition ex_prefixdb :: "memDatabase prefixDatabase" where
  "ex_prefixdb = \<lparr>p_db = ex_memdb, p_nil = False\<rparr>"

theorem prefixdb_isolated_witness:
  "\<exists>s. dPut (prefixdb [1] memdb) [2] [99] ex_prefixdb = Inr s \<and> prefixdb_view [2] memdb_view s = prefixdb_view [2] memdb_view ex_prefixdb"
proof -
  have "prefixdb_ok memdb_ok memdb_view ex_prefixdb" "\<not> p_nil ex_prefixdb"
    using ex_memdb_ok by (simp_all add: ex_prefixdb_def prefixdb_ok_def)
  from prefixdb_isolated [OF mem.kv_database_axioms _ _ this, of "[1]" "[2]" "[2]" "[99]"] show ?thesis by simp
qed

text \<open>
  C17. Loops over a database end and compute what they should: \<open>Count\<close> returns the number of keys, and
  \<open>ClearPrefix\<close>, which deletes while it iterates, removes exactly the keys with the prefix.
\<close>

theorem db_loops_terminate:
  assumes "kv_database D ok \<alpha> \<beta>" and "ok s" "\<alpha> s = Some m"
  shows "db_Count D s = Some (card (dom m), None) \<and>
    (\<exists>s'. ClearPrefix D (dDelete D) pre s = Some (Inr s') \<and> ok s' \<and> \<alpha> s' = Some (m |` {k. \<not> prefix pre k}))"
  using kv_database.Count_law [OF assms] kv_database.ClearPrefix_law [OF assms] by blast

theorem db_loops_terminate_witness:
  "db_Count memdb ex_memdb = Some (3, None) \<and>
   (\<exists>s. ClearPrefix memdb (dDelete memdb) [1] ex_memdb = Some (Inr s) \<and> dGet memdb [1, 2] s = Inl ErrNotFound)"
proof -
  have "dom [[1 :: 8 word] \<mapsto> [10 :: 8 word], [2] \<mapsto> [20], [1, 2] \<mapsto> [12]] = {[1], [2], [1, 2]}" by auto
  then have c: "card (dom [[1 :: 8 word] \<mapsto> [10 :: 8 word], [2] \<mapsto> [20], [1, 2] \<mapsto> [12]]) = 3" by simp
  from db_loops_terminate [OF mem.kv_database_axioms ex_memdb_ok, of "[1]", unfolded c] show ?thesis
    by (auto simp: mem.Get_law restrict_map_def)
qed

text \<open>
  C18. Typed values round-trip: an identifier, an integer or a boolean that was put under a key is what the
  matching getter returns.
\<close>

theorem db_typed_roundtrip:
  assumes "kv_database D ok \<alpha> \<beta>" and "ok s" "\<alpha> s = Some m"
  shows "bindR (PutID D k i s) (GetID D k) = Inr i \<and> bindR (PutUInt64 D k w s) (GetUInt64 D k) = Inr w \<and>
    bindR (PutUInt32 D k x s) (GetUInt32 D k) = Inr x \<and> bindR (PutBool D k b s) (GetBool D k) = Inr b"
  using kv_database.typed_roundtrip [OF assms] by blast

theorem db_typed_roundtrip_witness: "bindR (PutUInt64 memdb [7] 258 ex_memdb) (GetUInt64 memdb [7]) = Inr 258"
  using db_typed_roundtrip [OF mem.kv_database_axioms ex_memdb_ok, of "[7]" 0 258 0 True] by blast

section \<open>Corner cases\<close>

text \<open>\<open>NewBatch\<close> of a closed partition dereferences a \<open>nil\<close> interface.\<close>

lemma prefixdb_NewBatch_panics: "dNewBatch (prefixdb pfx D) (\<lparr>p_db = s, p_nil = True\<rparr>) = Inl DBNilPanic"
  by (simp add: prefixdb_def prefixdb_NewBatch_def)

text \<open>Compacting a whole partition asks the underlying database to compact an empty range.\<close>

lemma prefixdb_Compact_empty_range:
  "\<not> p_nil p \<Longrightarrow> dCompact (prefixdb pfx D) None None p =
     bindR (dCompact D (Some pfx) (Some pfx) (p_db p)) (\<lambda>s. Inr (p\<lparr>p_db := s\<rparr>))"
  by (simp add: prefixdb_def prefixdb_Compact_def prefixdb_prefix_def Let_def)

end
