(* ===== verification/Spec2Isabelle.thy ===== *)
theory Spec2Isabelle
  imports SnowmanProperties MessageDelivery SafeMath EngineProperties DatabaseProperties
begin

text \<open>
  Verification of the consensus core, the block engine, the peer message layer and the layered databases of the
  node.

  \<^bold>\<open>The program.\<close> The node (\<open>src/\<close>, Go) decides blocks by repeated sub-sampled voting. A peer message
  arrives as bytes and is parsed by \<open>message/\<close>, which uses the \<open>Packer\<close> of \<open>utils/wrappers\<close>. The engine
  (\<open>snow/engine/snowman\<close>) handles it: it fetches missing ancestors, issues blocks into consensus, queries
  validators, and collects their answers in polls (\<open>snow/consensus/snowman/poll\<close>). A finished poll is a bag
  of votes (\<open>ids\<close>), which the engine moves to issued blocks and hands to \<open>Topological\<close>
  (\<open>snow/consensus/snowman\<close>). There the votes go up the tree of undecided blocks to one \<open>snowball\<close> instance
  per block with children (\<open>snow/consensus/snowball\<close>), which accept and reject blocks. The virtual machines
  keep their state in databases (\<open>database/\<close>) stacked on each other: partitions by key prefix, and buffers of
  writes that are committed together.

  \<^bold>\<open>Conventions.\<close> A struct is a record, an enumeration or an interface value a datatype, a w-bit integer a
  word, Go's \<open>int\<close> where it only counts an integer, or its wrap-around \<open>int64\<close> where an overflow can show. A map is an association list with distinct keys
  (\<open>gomap\<close>), whose order is the order of a \<open>range\<close> loop; the theorems hold for every order. An operation
  returns the new state, and \<open>Inl\<close> an error when the code returns one or panics. Loops that are not
  structural run on fuel, and running out is an error value of its own, so that a theorem that excludes
  this error is a proof of termination. Mutexes, logging and metrics no code reads are left out: an
  operation is one atomic step.

  \<^bold>\<open>Theories and sources.\<close>

  \<^item> \<open>Prelude\<close>: maps, results (\<open>bindR\<close>, \<open>foldR\<close>), machine integers, ranges of bits. \<open>SafeMath\<close>: \<open>utils/math/safe_math.go\<close>.
  \<^item> \<open>Ids\<close>: \<open>ids/bits.go\<close>, \<open>ids/id.go\<close>; the comparisons of bit ranges by bytes and masks equal the bitwise
    definitions. \<open>Bags\<close>: \<open>ids/bag.go\<close>, \<open>ids/node_id_bag.go\<close>; both are multisets (locale \<open>counting_bag\<close>), and the
    cached size, mode and threshold set are right. The counters wrap around (\<open>AddCount64\<close>); consensus uses the
    unbounded \<open>AddCount\<close>, which is equal to it for bags of at most \<open>MaxInt64\<close> votes, and a poll has at most \<open>K\<close>.
  \<^item> \<open>LinkedHashmap\<close>: \<open>utils/linkedhashmap\<close>; it refines an ordered list of pairs (locale \<open>ordered_map\<close>), with
    iterators that outlive deletions. \<open>Metrics\<close>: \<open>snow/consensus/metrics\<close>.
  \<^item> \<open>Snowball\<close>: the parameters and the unary, binary, n-ary and flat instances; decisions are final, a decision
    needs beta consecutive successful polls, the preference has the most successful polls (locales
    \<open>snowflake_machine\<close>, \<open>consensus_instance\<close>). \<open>SnowballTree\<close>: \<open>tree.go\<close>; the Patricia tree is well formed, decides
    only added values, its decided prefix is final and unanimous polls decide.
  \<^item> \<open>Forest\<close>, \<open>Snowman\<close>, \<open>SnowmanTree\<close>, \<open>SnowmanVotes\<close>, \<open>SnowmanPush\<close>, \<open>SnowmanSafety\<close>, \<open>SnowmanPoll\<close>, \<open>SnowmanHistory\<close>,
    \<open>SnowmanProperties\<close>: \<open>topological.go\<close> and \<open>snowman_block.go\<close>. \<open>Snowman\<close> holds the definitions, \<open>Forest\<close> the theory
    of parent maps, the others the invariant of the block tree, the specification of the topological sort
    of votes, safety, the history of decisions, and the properties.
  \<^item> \<open>Polls\<close>: \<open>snow/consensus/snowman/poll\<close>, both poll kinds (locale \<open>poll_impl\<close>) and the ordered set of polls.
  \<^item> \<open>Requests\<close>: \<open>snow/engine/common/requests.go\<close>. \<open>AncestorTree\<close>: \<open>ancestor_tree.go\<close> (locale \<open>parent_tree\<close>).
  \<^item> \<open>Engine\<close>: \<open>transitive.go\<close>, \<open>voter.go\<close>, \<open>issuer.go\<close>, \<open>memory_block.go\<close>, \<open>events/blocker.go\<close>, \<open>mixed_query.go\<close>. The issuers and
    voters the blocker points to live in an explicit store (\<open>t_objs\<close>), since the same object is reached from
    several keys. A handler stops at the first error of its environment; only \<open>recordPolls\<close>, the loop of a voter
    over finished polls, goes on after it, as the source does. \<open>EngineConsensus\<close>: how the calls of consensus change what the engine sees. \<open>EngineVotes\<close>: where
    votes go. \<open>EngineSafety\<close>: the invariant inside a handler, which allows re-entrance through blocked
    events, and its preservation by every step (\<open>res\<close> is the calculus for it). \<open>EngineRun\<close>: handlers, start,
    reachable states. \<open>EngineProperties\<close>: the properties, and the run they are applied to.
  \<^item> \<open>Packing\<close>, \<open>WireFormat\<close>, \<open>PackingFormats\<close>, \<open>PackingValues\<close>: \<open>utils/wrappers/packing.go\<close>. The locale \<open>wire_format\<close> says
    that a packer and an unpacker are inverse and that only canonical bytes are accepted; it is
    interpreted for every primitive and every field.
  \<^item> \<open>Versions\<close>: \<open>version/\<close> and the clock. \<open>MessageOps\<close>, \<open>MessageCodec\<close>, \<open>MessageWire\<close>, \<open>MessageBuilders\<close>,
    \<open>MessageProperties\<close>, \<open>MessageDelivery\<close>: \<open>message/\<close> and \<open>utils/compression\<close>; the codec, the builders, and the
    composition of sending and receiving.
  \<^item> \<open>Database\<close>: the interface of \<open>database/\<close> as a table of methods, its contract (locale \<open>kv_database\<close>), and \<open>memdb\<close>.
    \<open>VersionDB\<close>, \<open>PrefixDB\<close>: \<open>database/versiondb\<close> and \<open>database/prefixdb\<close>, defined over any table of methods; each
    keeps the contract when the database below does. \<open>DatabaseHelpers\<close>: \<open>database/helpers.go\<close>, with loops over
    iterators as partial functions. \<open>DatabaseProperties\<close>: overlay, commit and abort, isolation of partitions.

  \<^bold>\<open>Parameters and hypotheses.\<close> Code outside the repository, and the virtual machine behind its interface,
  is an argument. \<open>Env\<close> gives the outcomes consensus sees: errors of \<open>Accept\<close>, \<open>Reject\<close> and the acceptors, the
  clock, the order of \<open>range\<close> loops. \<open>VM\<close> gives what the engine sees: parsed, built and stored blocks,
  verification, oracle options, samples. \<open>vm_ok\<close> says that the blocks served belong to one universe \<open>U\<close> in
  which an identifier names one block and no block is its own ancestor, that only blocks higher than
  their parents verify, that a sample has \<open>K\<close> validators, and that oracle options are children of their
  block. A block that was not verified may claim any height; \<open>votes_bubble_to_nearest\<close> assumes in addition
  that heights grow along the ancestors of the voted blocks. \<open>start_ok\<close> says that the statuses at the
  start are closed under ancestors. \<open>Lib\<close> gives gzip, and \<open>gz_lossless\<close> says that decompression inverts
  compression; the limit on decompressed payloads is less than \<open>MaxInt64\<close>, since the code adds one to it. The hash of a partition's name is an argument. Every property with such a hypothesis has a witness in which it holds.

  \<^bold>\<open>Fuel.\<close> The walks of consensus run on the number of blocks it holds, since every step goes to the parent
  or removes a block. The walks of the engine run on \<open>vm_depth\<close>, a bound on the number of ancestors of the block.
  The
  recursion between \<open>Fulfill\<close>, \<open>Abandon\<close> and \<open>deliver\<close> runs on the number of keys of the blocker, since each call
  removes one. The tree of non-verified blocks is walked on its number of entries. The properties
  \<open>snowman_no_panic\<close> and \<open>engine_no_panic\<close> include that these bounds are never hit.

  \<^bold>\<open>Main results.\<close> Consensus never panics and keeps its invariant; accepted blocks form one chain and
  decisions are never revised; a poll prunes exactly what it decides; votes reach the blocks they
  support when they are listed deepest first, and may be lost otherwise. The engine never panics
  and terminates on every message, but for the polls a voter records after one failed in \<open>Accept\<close>,
  \<open>Reject\<close> or an acceptor, which can panic. It keeps the virtual machine's preference equal to that of consensus and gives
  each vote to the nearest processing ancestor. Messages round-trip, parsing is total, typed and
  canonical, and what one node's builders send another node parses to the same fields. A versioned or
  prefixed database keeps the contract of the database below it; commits write exactly what was shown,
  and partitions do not interfere.

  \<^bold>\<open>Not modelled.\<close> The other engines (avalanche, bootstrapping, state sync, getters) and the DAG consensus:
  separate protocols that share no state with the modelled core. The virtual machines and \<open>wallet\<close>:
  applications behind the interface that \<open>VM\<close> abstracts. \<open>network\<close>, \<open>snow/networking\<close>, \<open>nat\<close>, \<open>api\<close>, \<open>indexer\<close>, \<open>ipcs\<close>,
  \<open>pubsub\<close>: goroutines, sockets and timers, whose behaviour is the scheduling the sequential model leaves
  out. \<open>config\<close>, \<open>node\<close>, \<open>app\<close>, \<open>chains\<close>, \<open>genesis\<close>: start-up wiring. \<open>codec\<close>: driven by Go's reflection. \<open>proto\<close> and the
  mocks are generated. In the modelled files, printers, JSON encodings and metric registration are left
  out.
\<close>

end
